(* ===== verification/Prelude.thy ===== *)
theory Prelude
  imports Main "HOL-Library.AList" "HOL-Library.Char_ord" "HOL-Library.List_Lexorder"
    "HOL-Library.Product_Lexorder" "HOL-Library.Word"
begin

text \<open>
  Shared vocabulary of the development: the parts of the Rust language and standard library
  that the modelled crates use, and the generic lemmas the component theories rely on.

  \<^item> A \<open>String\<close> / \<open>&str\<close> is a \<open>string\<close>, one \<open>char\<close> per UTF-8 byte; Rust orders strings
    bytewise, which is the order of \<open>List_Lexorder\<close> over \<open>Char_ord\<close>.
  \<^item> A \<open>HashMap\<close> is an association list with distinct keys. The list order stands for the
    iteration order, which Rust leaves unspecified: a theorem about every such list is a
    theorem about every iteration order. \<open>insert\<close> is \<open>AList.update\<close>, \<open>remove\<close> is
    \<open>AList.delete\<close>, \<open>get\<close> is \<open>map_of\<close>.
  \<^item> A \<open>HashSet\<close> that the code iterates over is a list without duplicates.
  \<^item> A \<open>BTreeMap\<close> is its list of entries in key order (\<open>btree_collect\<close>); a \<open>BTreeSet\<close> is a set, iterated in
    its order (\<open>sorted_list_of_set\<close>).
  \<^item> \<open>Result<T, E>\<close> is \<open>'e + 't\<close>, with \<open>Inl\<close> for \<open>Err\<close>.
  \<^item> Graph searches share one invariant, \<open>search_inv\<close>, with the lemmas that establish it,
    preserve it for one visited node, and read the result off an empty work list.
\<close>

named_theorems hmap_simps \<open>lookups in and domains of association-list maps\<close>
named_theorems str_simps \<open>the string operations of the Rust standard library\<close>

type_synonym ('k, 'v) hmap = "('k \<times> 'v) list"
type_synonym u32 = "32 word"
type_synonym u64 = "64 word"

section \<open>Strings\<close>

text \<open>The single quotation mark of diagnostics.\<close>

abbreviation sq :: string where
  "sq \<equiv> [CHR 0x27]"

fun strip_prefix :: "string \<Rightarrow> string \<Rightarrow> string option" where
  "strip_prefix [] s = Some s"
| "strip_prefix (p # ps) [] = None"
| "strip_prefix (p # ps) (c # cs) = (if p = c then strip_prefix ps cs else None)"

fun split_once :: "char \<Rightarrow> string \<Rightarrow> (string \<times> string) option" where
  "split_once d [] = None"
| "split_once d (c # cs) =
     (if c = d then Some ([], cs)
      else case split_once d cs of None \<Rightarrow> None | Some (a, b) \<Rightarrow> Some (c # a, b))"

text \<open>The UTF-8 encodings of the characters with Unicode property \<open>White_Space\<close>.\<close>

definition ws_seqs :: "string list" where
  "ws_seqs = [[CHR 0x09], [CHR 0x0A], [CHR 0x0B], [CHR 0x0C], [CHR 0x0D], [CHR 0x20],
     [CHR 0xC2, CHR 0x85], [CHR 0xC2, CHR 0xA0], [CHR 0xE1, CHR 0x9A, CHR 0x80],
     [CHR 0xE2, CHR 0x80, CHR 0x80], [CHR 0xE2, CHR 0x80, CHR 0x81],
     [CHR 0xE2, CHR 0x80, CHR 0x82], [CHR 0xE2, CHR 0x80, CHR 0x83],
     [CHR 0xE2, CHR 0x80, CHR 0x84], [CHR 0xE2, CHR 0x80, CHR 0x85],
     [CHR 0xE2, CHR 0x80, CHR 0x86], [CHR 0xE2, CHR 0x80, CHR 0x87],
     [CHR 0xE2, CHR 0x80, CHR 0x88], [CHR 0xE2, CHR 0x80, CHR 0x89],
     [CHR 0xE2, CHR 0x80, CHR 0x8A], [CHR 0xE2, CHR 0x80, CHR 0xA8],
     [CHR 0xE2, CHR 0x80, CHR 0xA9], [CHR 0xE2, CHR 0x80, CHR 0xAF],
     [CHR 0xE2, CHR 0x81, CHR 0x9F], [CHR 0xE3, CHR 0x80, CHR 0x80]]"

fun strip_any :: "string list \<Rightarrow> string \<Rightarrow> string option" where
  "strip_any [] s = None"
| "strip_any (w # ws) s =
     (case strip_prefix w s of Some r \<Rightarrow> (if length r < length s then Some r else strip_any ws s)
      | None \<Rightarrow> strip_any ws s)"

lemma strip_any_shorter: "strip_any ws s = Some r \<Longrightarrow> length r < length s"
  by (induction ws) (auto split: option.splits if_splits)

function trim_with :: "string list \<Rightarrow> string \<Rightarrow> string" where
  "trim_with ws s = (case strip_any ws s of None \<Rightarrow> s | Some r \<Rightarrow> trim_with ws r)"
  by pat_completeness auto
termination
  by (relation "measure (\<lambda>(ws, s). length s)") (auto dest: strip_any_shorter)

declare trim_with.simps [simp del]

definition trim :: "string \<Rightarrow> string" where
  "trim s = rev (trim_with (map rev ws_seqs) (rev (trim_with ws_seqs s)))"

text \<open>The decimal numeral of a natural number, as \<open>Display\<close> prints it.\<close>

fun decimal :: "nat \<Rightarrow> string" where
  "decimal n = (if n < 10 then [char_of (48 + n)] else decimal (n div 10) @ [char_of (48 + n mod 10)])"

declare decimal.simps [simp del]

lemma strip_prefix_Some [str_simps]: "strip_prefix p s = Some r \<longleftrightarrow> s = p @ r"
  by (induction p s rule: strip_prefix.induct) auto

lemma strip_prefix_None: "strip_prefix p s = None \<longleftrightarrow> (\<forall>r. s \<noteq> p @ r)"
  using strip_prefix_Some[of p s] by (cases "strip_prefix p s") auto

lemma split_once_None [str_simps]: "split_once d s = None \<longleftrightarrow> d \<notin> set s"
  by (induction s) (auto split: option.splits)

lemma split_once_Some [str_simps]:
  "split_once d s = Some (a, b) \<longleftrightarrow> s = a @ d # b \<and> d \<notin> set a"
proof (induction s arbitrary: a)
  case Nil
  then show ?case by simp
next
  case (Cons c cs)
  show ?case
  proof (cases "c = d")
    case True
    then show ?thesis by (cases a) auto
  next
    case False
    then show ?thesis
      using Cons[of "tl a"] by (cases a) (auto split: option.splits)
  qed
qed

lemma strip_prefix_append [simp]: "strip_prefix p (p @ s) = Some s"
  by (simp add: strip_prefix_Some)

lemma split_once_append [simp]: "d \<notin> set a \<Longrightarrow> split_once d (a @ d # b) = Some (a, b)"
  by (simp add: split_once_Some)

lemma length_trim_with: "length (trim_with ws s) \<le> length s"
proof (induction ws s rule: trim_with.induct)
  case (1 ws s)
  then show ?case
    by (subst trim_with.simps) (fastforce split: option.splits dest: strip_any_shorter)
qed

lemma trim_Nil [simp]: "trim [] = []"
proof -
  have "trim_with ws [] = []" for ws
    using length_trim_with[of ws "[]"] by simp
  then show ?thesis by (simp add: trim_def)
qed

section \<open>Association-list maps\<close>

lemma map_of_update [hmap_simps]: "map_of (AList.update k v m) = (map_of m)(k \<mapsto> v)"
  by (rule AList.update_conv')

lemma map_of_delete [hmap_simps]: "map_of (AList.delete k m) = (map_of m)(k := None)"
  by (simp add: delete_conv')

lemma keys_update [hmap_simps]: "fst ` set (AList.update k v m) = insert k (fst ` set m)"
  by (metis AList.dom_update dom_map_of_conv_image_fst insert_is_Un)

lemma update_fresh: "k \<notin> fst ` set m \<Longrightarrow> AList.update k v m = m @ [(k, v)]"
  by (induction m) auto

lemma keys_delete [hmap_simps]: "fst ` set (AList.delete k m) = fst ` set m - {k}"
  by (induction m) auto

lemma removeAll_Nil_iff [simp]: "removeAll x xs = [] \<longleftrightarrow> set xs \<subseteq> {x}"
  by (induction xs) auto

lemma distinct_keys_update [intro, simp]:
  "distinct (map fst m) \<Longrightarrow> distinct (map fst (AList.update k v m))"
  by (rule distinct_update)

lemma distinct_keys_delete [intro, simp]:
  "distinct (map fst m) \<Longrightarrow> distinct (map fst (AList.delete k m))"
  by (rule distinct_delete)

lemma keys_map_of [hmap_simps]: "k \<in> fst ` set m \<longleftrightarrow> (\<exists>v. map_of m k = Some v)"
  by (metis dom_map_of_conv_image_fst domIff not_Some_eq)

lemma in_set_map_of:
  "distinct (map fst m) \<Longrightarrow> (k, v) \<in> set m \<longleftrightarrow> map_of m k = Some v"
  by auto

text \<open>Folding insertions from a list of pairs: the last binding of a key wins.\<close>

definition collect_map :: "('k \<times> 'v) list \<Rightarrow> ('k, 'v) hmap" where
  "collect_map ps = fold (\<lambda>(k, v) m. AList.update k v m) ps []"

lemma fold_update_map_of:
  "map_of (fold (\<lambda>(k, v) m. AList.update k v m) ps m0) = map_of m0 ++ map_of (rev ps)"
  by (induction ps arbitrary: m0) (auto simp: hmap_simps map_add_upd_left fun_eq_iff map_add_def split: option.splits)

lemma fold_update_distinct:
  "distinct (map fst m0) \<Longrightarrow>
   distinct (map fst (fold (\<lambda>(k, v) m. AList.update k v m) ps m0))"
  by (induction ps arbitrary: m0) auto

lemma map_of_collect_map [hmap_simps]: "map_of (collect_map ps) = map_of (rev ps)"
  by (simp add: collect_map_def fold_update_map_of)

lemma distinct_collect_map [simp]: "distinct (map fst (collect_map ps))"
  by (simp add: collect_map_def fold_update_distinct)

lemma map_of_rev_distinct: "distinct (map fst ps) \<Longrightarrow> map_of (rev ps) = map_of ps"
  by (rule ext) (metis (no_types, opaque_lifting) distinct_rev map_of_eq_Some_iff
      not_Some_eq rev_map set_rev)

text \<open>Collecting into a \<open>BTreeMap\<close>: the entries in key order.\<close>

definition btree_collect :: "(string \<times> 'v) list \<Rightarrow> (string \<times> 'v) list" where
  "btree_collect ps = sort_key fst (collect_map ps)"

lemma btree_collect_map: "map_of (btree_collect ps) = map_of (rev ps)"
proof -
  have "map_of (sort_key fst (collect_map ps)) = map_of (collect_map ps)"
    using distinct_collect_map[of ps] by (intro map_of_inject_set[THEN iffD2]) (simp_all add: distinct_map)
  then show ?thesis by (simp add: btree_collect_def hmap_simps)
qed

text \<open>Inserting into a \<open>HashSet\<close> kept as a list without duplicates.\<close>

definition set_insert :: "'a \<Rightarrow> 'a list \<Rightarrow> 'a list" where
  "set_insert x xs = (if x \<in> set xs then xs else xs @ [x])"

lemma set_set_insert [simp]: "set (set_insert x xs) = insert x (set xs)"
  by (auto simp: set_insert_def)

lemma distinct_set_insert [simp]: "distinct (set_insert x xs) \<longleftrightarrow> distinct xs"
  by (auto simp: set_insert_def)

lemma in_set_map_filter [simp]: "x \<in> set (List.map_filter f xs) \<longleftrightarrow> (\<exists>y \<in> set xs. f y = Some x)"
  by (force simp: map_filter_def)

section \<open>Results\<close>

fun bind_result :: "'e + 'a \<Rightarrow> ('a \<Rightarrow> 'e + 'b) \<Rightarrow> 'e + 'b" where
  "bind_result (Inl e) f = Inl e"
| "bind_result (Inr x) f = f x"

lemma bind_result_Inr_iff:
  "bind_result r f = Inr y \<longleftrightarrow> (\<exists>x. r = Inr x \<and> f x = Inr y)"
  by (cases r) auto

fun map_result :: "('a \<Rightarrow> 'e + 'b) \<Rightarrow> 'a list \<Rightarrow> 'e + 'b list" where
  "map_result f [] = Inr []"
| "map_result f (x # xs) =
     (case f x of Inl e \<Rightarrow> Inl e
      | Inr y \<Rightarrow> (case map_result f xs of Inl e \<Rightarrow> Inl e | Inr ys \<Rightarrow> Inr (y # ys)))"

lemma map_result_Inr:
  "map_result f xs = Inr ys \<longleftrightarrow> list_all2 (\<lambda>x y. f x = Inr y) xs ys"
proof
  show "map_result f xs = Inr ys \<Longrightarrow> list_all2 (\<lambda>x y. f x = Inr y) xs ys"
    by (induction xs arbitrary: ys) (auto split: sum.splits)
next
  show "list_all2 (\<lambda>x y. f x = Inr y) xs ys \<Longrightarrow> map_result f xs = Inr ys"
    by (induction rule: list_all2_induct) auto
qed

section \<open>Graph search\<close>

text \<open>
  The state of every work-list search in the code: the visited nodes and the pending ones.
  \<open>R\<close> is the edge relation, \<open>S\<close> the seeds.
\<close>

definition search_inv :: "('n \<times> 'n) set \<Rightarrow> 'n set \<Rightarrow> 'n list \<Rightarrow> 'n list \<Rightarrow> bool" where
  "search_inv R S V P \<longleftrightarrow> distinct V \<and> set P \<subseteq> set V \<and> S \<subseteq> set V \<and> set V \<subseteq> R\<^sup>* `` S \<and>
     (\<forall>x \<in> set V - set P. R `` {x} \<subseteq> set V)"

fun push_unvisited :: "'n list \<Rightarrow> 'n list \<times> 'n list \<Rightarrow> 'n list \<times> 'n list" where
  "push_unvisited [] (V, P) = (V, P)"
| "push_unvisited (n # ns) (V, P) =
     (if n \<in> set V then push_unvisited ns (V, P) else push_unvisited ns (V @ [n], P @ [n]))"

text \<open>What one pass over a node's neighbours appends to both lists.\<close>

lemma push_unvisited_appends:
  "\<exists>new. push_unvisited ns (V, P) = (V @ new, P @ new) \<and> set new = set ns - set V \<and> distinct new"
proof (induction ns arbitrary: V P)
  case Nil
  then show ?case by simp
next
  case (Cons n ns)
  show ?case
  proof (cases "n \<in> set V")
    case True
    with Cons[of V P] show ?thesis by auto
  next
    case False
    obtain new where new: "push_unvisited ns (V @ [n], P @ [n]) = ((V @ [n]) @ new, (P @ [n]) @ new)"
      "set new = set ns - set (V @ [n])" "distinct new"
      using Cons[of "V @ [n]" "P @ [n]"] by blast
    then show ?thesis
      using False by (intro exI[of _ "n # new"]) auto
  qed
qed

lemma push_unvisitedE:
  assumes "push_unvisited ns (V, P) = (V', P')"
  obtains new where "V' = V @ new" "P' = P @ new" "set new = set ns - set V" "distinct new"
  using push_unvisited_appends[of ns V P] assms by auto

lemma search_inv_seeds:
  "push_unvisited ss ([], []) = (V, P) \<Longrightarrow> search_inv R (set ss) V P"
  by (elim push_unvisitedE) (auto simp: search_inv_def)

text \<open>
  One iteration: \<open>x\<close> leaves the work list (of which \<open>P\<close> is what remains) and its unvisited
  neighbours are appended. The order in which the work list is served does not matter.
\<close>

lemma search_inv_step:
  assumes inv: "search_inv R S V Q" and Q: "set Q = insert x (set P)"
    and nbrs: "set ns = R `` {x}" and push: "push_unvisited ns (V, P) = (V', P')"
  shows "search_inv R S V' P'"
proof -
  from push obtain new where new: "V' = V @ new" "P' = P @ new" "set new = set ns - set V" "distinct new"
    by (rule push_unvisitedE)
  have x: "x \<in> set V" "x \<in> R\<^sup>* `` S"
    using inv Q by (auto simp: search_inv_def)
  have "set new \<subseteq> R\<^sup>* `` S"
    using new(3) nbrs x(2) by (auto intro: rtrancl_into_rtrancl)
  moreover have "R `` {y} \<subseteq> set V'" if "y \<in> set V' - set P'" for y
    using that inv Q new nbrs by (cases "y = x") (auto simp: search_inv_def)
  ultimately show ?thesis
    using inv Q new by (auto simp: search_inv_def)
qed

lemma search_inv_done:
  assumes "search_inv R S V []"
  shows "set V = R\<^sup>* `` S"
proof
  show "R\<^sup>* `` S \<subseteq> set V"
  proof clarify
    fix s y assume "(s, y) \<in> R\<^sup>*" "s \<in> S"
    then show "y \<in> set V"
      by (induction rule: rtrancl_induct) (use assms in \<open>auto simp: search_inv_def\<close>)
  qed
qed (use assms in \<open>auto simp: search_inv_def\<close>)

text \<open>The measure that decreases in every iteration of a search inside a finite universe.\<close>

lemma search_measure_decreases:
  assumes push: "push_unvisited ns (V, P) = (V', P')"
    and sub: "set ns \<subseteq> U" and fin: "finite U" and len: "length Q = Suc (length P)"
  shows "2 * card (U - set V') + length P' < 2 * card (U - set V) + length Q"
proof -
  from push obtain new where new: "V' = V @ new" "P' = P @ new" "set new = set ns - set V" "distinct new"
    by (rule push_unvisitedE)
  have "set new \<subseteq> U - set V" using new(3) sub by auto
  then have "card (U - set V - set new) = card (U - set V) - card (set new)"
    "card (set new) \<le> card (U - set V)"
    using fin by (auto intro: card_Diff_subset card_mono)
  moreover have "U - set V' = U - set V - set new" using new(1) by auto
  moreover have "card (set new) = length new" using new(4) by (rule distinct_card)
  ultimately show ?thesis using new(2) len by simp
qed

section \<open>Renaming the nodes of a graph\<close>

text \<open>Reachability commutes with an injective naming of the nodes.\<close>

lemma rtrancl_inj_image:
  assumes inj: "inj_on f A" and R: "R \<subseteq> A \<times> A" and S: "S \<subseteq> A"
  shows "(map_prod f f ` R)\<^sup>* `` (f ` S) = f ` (R\<^sup>* `` S)"
proof (intro equalityI subsetI)
  fix y assume "y \<in> (map_prod f f ` R)\<^sup>* `` (f ` S)"
  then obtain s where s: "s \<in> S" "(f s, y) \<in> (map_prod f f ` R)\<^sup>*" by blast
  from s(2) have "\<exists>t. y = f t \<and> (s, t) \<in> R\<^sup>* \<and> t \<in> A"
  proof (induction rule: rtrancl_induct)
    case base
    then show ?case using s(1) S by blast
  next
    case (step y z)
    then obtain t u v where "y = f t" "(s, t) \<in> R\<^sup>*" "t \<in> A" "(u, v) \<in> R" "y = f u" "z = f v"
      by auto
    moreover from this have "t = u" using inj R by (auto dest: inj_onD)
    ultimately show ?case using R
      by (intro exI[of _ v]) (auto intro: rtrancl_into_rtrancl)
  qed
  then show "y \<in> f ` (R\<^sup>* `` S)" using s(1) by blast
next
  fix y assume "y \<in> f ` (R\<^sup>* `` S)"
  then obtain s t where st: "s \<in> S" "(s, t) \<in> R\<^sup>*" "y = f t" by blast
  from st(2) have "(f s, f t) \<in> (map_prod f f ` R)\<^sup>*"
  proof (induction rule: rtrancl_induct)
    case (step u v)
    then have "(f u, f v) \<in> map_prod f f ` R" by force
    with step.IH show ?case by (rule rtrancl_into_rtrancl)
  qed simp
  then show "y \<in> (map_prod f f ` R)\<^sup>* `` (f ` S)" using st by blast
qed

lemma acyclic_inj_image:
  assumes inj: "inj_on f A" and R: "R \<subseteq> A \<times> A"
  shows "acyclic (map_prod f f ` R) \<longleftrightarrow> acyclic R"
proof -
  have fwd: "(f i, f j) \<in> (map_prod f f ` R)\<^sup>+" if "(i, j) \<in> R\<^sup>+" for i j
    using that
  proof (induction rule: trancl_induct)
    case (step u v)
    then have "(f u, f v) \<in> map_prod f f ` R" by force
    with step.IH show ?case by (rule trancl_into_trancl)
  qed force
  have bwd: "\<exists>j. y = f j \<and> j \<in> A \<and> (i, j) \<in> R\<^sup>+" if "(f i, y) \<in> (map_prod f f ` R)\<^sup>+" "i \<in> A" for i y
    using that(1)
  proof (induction rule: trancl_induct)
    case (base y)
    then obtain u v where "f i = f u" "y = f v" "(u, v) \<in> R" by auto
    moreover from this have "i = u" using inj R that(2) by (auto dest: inj_onD)
    ultimately show ?case using R by blast
  next
    case (step y z)
    then obtain j u v where "y = f j" "j \<in> A" "(i, j) \<in> R\<^sup>+" "y = f u" "z = f v" "(u, v) \<in> R" by auto
    moreover from this have "j = u" using inj R by (auto dest: inj_onD)
    ultimately show ?case using R by (intro exI[of _ v]) (auto intro: trancl_into_trancl)
  qed
  have "(\<exists>x. (x, x) \<in> (map_prod f f ` R)\<^sup>+) \<longleftrightarrow> (\<exists>i. (i, i) \<in> R\<^sup>+)"
  proof
    assume "\<exists>x. (x, x) \<in> (map_prod f f ` R)\<^sup>+"
    then obtain x where x: "(x, x) \<in> (map_prod f f ` R)\<^sup>+" by blast
    then obtain y where "(x, y) \<in> map_prod f f ` R" using tranclD by metis
    then obtain i where i: "x = f i" "i \<in> A" using R by auto
    have "\<exists>j. x = f j \<and> j \<in> A \<and> (i, j) \<in> R\<^sup>+" using bwd[of i x] x i by simp
    then obtain j where j: "f i = f j" "j \<in> A" "(i, j) \<in> R\<^sup>+" using i(1) by auto
    have "i = j" using inj_onD[OF inj j(1) i(2) j(2)] .
    with j(3) show "\<exists>i. (i, i) \<in> R\<^sup>+" by blast
  qed (use fwd in blast)
  then show ?thesis unfolding acyclic_def by blast
qed

section \<open>Paths\<close>

text \<open>\<open>Path::join\<close>: an absolute right side replaces the left one.\<close>

definition join_path :: "string \<Rightarrow> string \<Rightarrow> string" where
  "join_path a b =
     (if strip_prefix ''/'' b \<noteq> None then b
      else if a = [] then b
      else if last a = CHR ''/'' then a @ b
      else a @ ''/'' @ b)"

text \<open>\<open>str::split\<close> on a character: always at least one piece.\<close>

fun split_on :: "char \<Rightarrow> string \<Rightarrow> string list" where
  "split_on c [] = [[]]"
| "split_on c (x # xs) =
     (if x = c then [] # split_on c xs
      else (case split_on c xs of [] \<Rightarrow> [[x]] | p # ps \<Rightarrow> (x # p) # ps))"

text \<open>\<open>Path::components\<close> on Unix: repeated separators and inner dots disappear, a leading
  separator is the root, a leading dot is kept.\<close>

datatype path_component = RootDir | CurDir | ParentDir | Normal string

definition component_of :: "string \<Rightarrow> path_component" where
  "component_of seg = (if seg = ''..'' then ParentDir else Normal seg)"

definition path_components :: "string \<Rightarrow> path_component list" where
  "path_components path =
     (let segs = split_on (CHR ''/'') path in
      (if strip_prefix ''/'' path \<noteq> None then [RootDir]
       else if hd segs = ''.'' then [CurDir] else []) @
      map component_of (filter (\<lambda>s. s \<noteq> [] \<and> s \<noteq> ''.'') segs))"

definition path_is_absolute :: "string \<Rightarrow> bool" where
  "path_is_absolute path \<longleftrightarrow> strip_prefix ''/'' path \<noteq> None"

lemma path_components_root: "RootDir \<in> set (path_components path) \<longleftrightarrow> path_is_absolute path"
  by (auto simp: path_components_def path_is_absolute_def component_of_def Let_def split: if_splits)

lemma path_components_parent:
  "ParentDir \<in> set (path_components path) \<longleftrightarrow> ''..'' \<in> set (split_on (CHR ''/'') path)"
  by (auto simp: path_components_def component_of_def Let_def image_iff split: if_splits)

end
