(* ===== verification/Types.thy ===== *)
theory Types
  imports Prelude
begin

text \<open>
  The shared domain types of \<open>crates/luchta-types\<close>: package and task names, task identifiers,
  task and worker definitions, and the string syntax of dependency references and input
  patterns with its parsers and printers (\<open>lib.rs\<close>, \<open>config.rs\<close>). Deserialisation is
  modelled from the value the JSON library hands over.
\<close>

type_synonym PackageName = string
type_synonym TaskName = string

definition ROOT_PACKAGE_NAME :: PackageName where
  "ROOT_PACKAGE_NAME = ''//root''"

definition package_is_root :: "PackageName \<Rightarrow> bool" where
  "package_is_root p \<longleftrightarrow> p = ROOT_PACKAGE_NAME"

record TaskId =
  tid_package :: PackageName
  tid_task :: TaskName

abbreviation task_id_new :: "PackageName \<Rightarrow> TaskName \<Rightarrow> TaskId" where
  "task_id_new p t \<equiv> \<lparr>tid_package = p, tid_task = t\<rparr>"

definition task_is_root :: "TaskId \<Rightarrow> bool" where
  "task_is_root t \<longleftrightarrow> package_is_root (tid_package t)"

definition task_id_to_string :: "TaskId \<Rightarrow> string" where
  "task_id_to_string t =
     (if task_is_root t then ''#'' @ tid_task t else tid_package t @ ''#'' @ tid_task t)"

section \<open>Task definitions\<close>

record EnvSpec =
  es_value :: "string option"
  es_default :: "string option"
  es_input :: bool

definition resolve_env_value :: "EnvSpec \<Rightarrow> string \<Rightarrow> (unit \<Rightarrow> string option) \<Rightarrow> string option" where
  "resolve_env_value spec name ambient =
     (case es_value spec of
        Some v \<Rightarrow> Some v
      | None \<Rightarrow> (case ambient () of Some v \<Rightarrow> Some v | None \<Rightarrow> es_default spec))"

record CacheConfig =
  cc_cache_nonce :: "string option"

datatype DependsOn =
    DirectUpstream TaskName
  | TransitiveUpstream TaskName
  | SamePackage TaskName
  | Specific TaskId
  | Root TaskName

record TaskDefinition =
  td_depends_on :: "DependsOn list"
  td_weight :: u32
  td_command :: "string option"
  td_description :: "string option"
  td_worker :: "string option"
  td_cache :: "CacheConfig option"
  td_inputs :: "string list"
  td_outputs :: "string list"
  td_cache_files :: "string list"
  td_dependencies :: "string list"
  td_env :: "(string, EnvSpec) hmap"
  td_tool_version :: "string option"

definition default_task_weight :: u32 where
  "default_task_weight = 1"

definition default_dependencies :: "string list" where
  "default_dependencies = [''**/*'']"

definition task_definition_new :: "DependsOn list \<Rightarrow> u32 \<Rightarrow> TaskDefinition" where
  "task_definition_new deps weight =
     \<lparr>td_depends_on = deps, td_weight = weight, td_command = None, td_description = None,
      td_worker = None, td_cache = None, td_inputs = [], td_outputs = [], td_cache_files = [],
      td_dependencies = default_dependencies, td_env = [], td_tool_version = None\<rparr>"

definition task_definition_default :: TaskDefinition where
  "task_definition_default =
     \<lparr>td_depends_on = [], td_weight = default_task_weight, td_command = None,
      td_description = None, td_worker = None, td_cache = None, td_inputs = [], td_outputs = [],
      td_cache_files = [], td_dependencies = default_dependencies, td_env = [],
      td_tool_version = None\<rparr>"

text \<open>A command that is blank after trimming counts as no command.\<close>

definition resolve_script_name :: "string option \<Rightarrow> string \<Rightarrow> string" where
  "resolve_script_name command task_name =
     (case map_option trim command of
        Some c \<Rightarrow> (if c \<noteq> [] then c else task_name)
      | None \<Rightarrow> task_name)"

definition cache_enabled :: "TaskDefinition \<Rightarrow> bool" where
  "cache_enabled d \<longleftrightarrow> td_cache d \<noteq> None"

definition counts_in_progress :: "TaskDefinition \<Rightarrow> bool" where
  "counts_in_progress d \<longleftrightarrow> td_worker d \<noteq> None \<or>
     (case map_option trim (td_command d) of Some c \<Rightarrow> c \<noteq> [] | None \<Rightarrow> False)"

section \<open>Dependency references\<close>

type_synonym ParseError = string

fun as_config_string :: "DependsOn \<Rightarrow> string" where
  "as_config_string (DirectUpstream t) = ''^'' @ t"
| "as_config_string (TransitiveUpstream t) = ''^^'' @ t"
| "as_config_string (SamePackage t) = t"
| "as_config_string (Specific t) = task_id_to_string t"
| "as_config_string (Root t) = ''#'' @ t"

definition parse_upstream ::
  "string \<Rightarrow> string \<Rightarrow> (TaskName \<Rightarrow> DependsOn) \<Rightarrow> string \<Rightarrow> (ParseError + DependsOn) option" where
  "parse_upstream v prefix construct empty_message =
     (case strip_prefix prefix v of
        None \<Rightarrow> None
      | Some t \<Rightarrow> Some (if t = [] then Inl empty_message else Inr (construct t)))"

definition depends_on_from_str :: "string \<Rightarrow> ParseError + DependsOn" where
  "depends_on_from_str v =
     (case parse_upstream v ''^^'' TransitiveUpstream
             ''transitive upstream dependency must include task name'' of
        Some r \<Rightarrow> r
      | None \<Rightarrow>
     (case parse_upstream v ''^'' DirectUpstream
             ''direct upstream dependency must include task name'' of
        Some r \<Rightarrow> r
      | None \<Rightarrow>
     (case strip_prefix ''#'' v of
        Some t \<Rightarrow>
          (if t = [] then Inl ''root dependency must include task name'' else Inr (Root t))
      | None \<Rightarrow>
     (case split_once (CHR ''#'') v of
        Some (p, t) \<Rightarrow>
          (if p = [] \<or> t = [] then Inl ''specific dependency must be `package#task`''
           else Inr (Specific (task_id_new p t)))
      | None \<Rightarrow>
          (if v = [] then Inl ''same-package dependency must include task name''
           else Inr (SamePackage v))))))"

section \<open>Input patterns\<close>

datatype InputSemantics = Literal | Wildcard

datatype InputPattern =
    InRoot string
  | InSpecific PackageName string
  | InDirectUpstream string
  | InTransitiveUpstream string
  | InSamePackage string

definition classify_pattern :: "string \<Rightarrow> InputSemantics" where
  "classify_pattern pattern =
     (if \<exists>c \<in> set pattern. c \<in> {CHR ''*'', CHR ''?'', CHR ''['', CHR ''{''} then Wildcard
      else Literal)"

fun input_path :: "InputPattern \<Rightarrow> string" where
  "input_path (InRoot p) = p"
| "input_path (InDirectUpstream p) = p"
| "input_path (InTransitiveUpstream p) = p"
| "input_path (InSamePackage p) = p"
| "input_path (InSpecific _ p) = p"

fun input_semantics :: "InputPattern \<Rightarrow> InputSemantics" where
  "input_semantics (InDirectUpstream _) = Wildcard"
| "input_semantics (InTransitiveUpstream _) = Wildcard"
| "input_semantics (InRoot p) = classify_pattern p"
| "input_semantics (InSpecific _ p) = classify_pattern p"
| "input_semantics (InSamePackage p) = classify_pattern p"

definition parse_prefixed_value ::
  "string \<Rightarrow> string \<Rightarrow> (string \<Rightarrow> 't) \<Rightarrow> string \<Rightarrow> (ParseError + 't) option" where
  "parse_prefixed_value v prefix ctor empty_message =
     map_option (\<lambda>r. if r = [] then Inl empty_message else Inr (ctor r)) (strip_prefix prefix v)"

definition parse_input_upstream ::
  "string \<Rightarrow> string \<Rightarrow> (string \<Rightarrow> InputPattern) \<Rightarrow> string \<Rightarrow> (ParseError + InputPattern) option" where
  "parse_input_upstream v prefix construct empty_message =
     parse_prefixed_value v prefix construct empty_message"

definition parse_root_input :: "string \<Rightarrow> (ParseError + InputPattern) option" where
  "parse_root_input v = parse_prefixed_value v ''#'' InRoot ''root input must include path''"

definition parse_specific_input :: "string \<Rightarrow> (ParseError + InputPattern) option" where
  "parse_specific_input v =
     (case split_once (CHR ''#'') v of
        None \<Rightarrow> None
      | Some (p, path) \<Rightarrow>
          Some (if p = [] \<or> path = [] then Inl ''specific input must be `package#path`''
                else Inr (InSpecific p path)))"

definition parse_same_package_input :: "string \<Rightarrow> ParseError + InputPattern" where
  "parse_same_package_input v =
     (if v = [] then Inl ''same-package input must include path'' else Inr (InSamePackage v))"

definition input_pattern_from_str :: "string \<Rightarrow> ParseError + InputPattern" where
  "input_pattern_from_str v =
     (case parse_input_upstream v ''^^'' InTransitiveUpstream
             ''transitive upstream input must include path'' of
        Some r \<Rightarrow> r
      | None \<Rightarrow>
     (case parse_input_upstream v ''^'' InDirectUpstream
             ''direct upstream input must include path'' of
        Some r \<Rightarrow> r
      | None \<Rightarrow>
     (case parse_root_input v of
        Some r \<Rightarrow> r
      | None \<Rightarrow>
     (case parse_specific_input v of
        Some r \<Rightarrow> r
      | None \<Rightarrow> parse_same_package_input v))))"

section \<open>Configuration\<close>

record WorkerDefinition =
  wd_command :: string
  wd_depends_on :: "DependsOn list"
  wd_cache :: "CacheConfig option"
  wd_env :: "(string, EnvSpec) hmap"

datatype WorkerDefinitionRepr =
    Command string
  | Object string "DependsOn list" "CacheConfig option" "(string, EnvSpec) hmap"

fun worker_definition_deserialize ::
  "string + WorkerDefinitionRepr \<Rightarrow> string + WorkerDefinition" where
  "worker_definition_deserialize (Inl e) = Inl e"
| "worker_definition_deserialize (Inr (Command command)) =
     Inr \<lparr>wd_command = command, wd_depends_on = [], wd_cache = None, wd_env = []\<rparr>"
| "worker_definition_deserialize (Inr (Object command depends_on cache env)) =
     Inr \<lparr>wd_command = command, wd_depends_on = depends_on, wd_cache = cache, wd_env = env\<rparr>"

record ConcurrencyConfig =
  max_weight :: u32

record LuchtaConfig =
  lc_concurrency :: ConcurrencyConfig
  lc_tasks :: "(string, TaskDefinition) hmap"
  lc_workers :: "(string, WorkerDefinition) hmap"
  lc_env :: "(string, EnvSpec) hmap"
  lc_cache :: "CacheConfig option"

fun deserialize_nonzero_max_weight :: "string + u32 \<Rightarrow> string + u32" where
  "deserialize_nonzero_max_weight (Inl e) = Inl e"
| "deserialize_nonzero_max_weight (Inr v) =
     (if v = 0 then Inl ''concurrency.maxWeight must be greater than 0'' else Inr v)"

text \<open>\<open>available_parallelism\<close> is \<open>None\<close> when the platform cannot tell; the cast truncates.\<close>

definition concurrency_config_default :: "nat option \<Rightarrow> ConcurrencyConfig" where
  "concurrency_config_default available_parallelism =
     \<lparr>max_weight = (case available_parallelism of Some n \<Rightarrow> word_of_nat n | None \<Rightarrow> 1)\<rparr>"

section \<open>Lemmas\<close>

lemmas parse_defs = parse_upstream_def parse_prefixed_value_def parse_input_upstream_def
  parse_root_input_def parse_specific_input_def parse_same_package_input_def

lemma strip_prefix_single: "strip_prefix [c] v = (case v of [] \<Rightarrow> None | x # xs \<Rightarrow> if c = x then Some xs else None)"
  by (cases v) auto

text \<open>The four ways a dependency reference is classified, by its leading characters.\<close>

lemma depends_on_from_str_cases:
  "depends_on_from_str v =
     (if v = [] then Inl ''same-package dependency must include task name''
      else if hd v = CHR ''^'' then
        (if tl v = [] then Inl ''direct upstream dependency must include task name''
         else if hd (tl v) = CHR ''^'' then
           (if tl (tl v) = [] then Inl ''transitive upstream dependency must include task name''
            else Inr (TransitiveUpstream (tl (tl v))))
         else Inr (DirectUpstream (tl v)))
      else if hd v = CHR ''#'' then
        (if tl v = [] then Inl ''root dependency must include task name'' else Inr (Root (tl v)))
      else case split_once (CHR ''#'') v of
        None \<Rightarrow> Inr (SamePackage v)
      | Some (p, t) \<Rightarrow>
          (if t = [] then Inl ''specific dependency must be `package#task`''
           else Inr (Specific (task_id_new p t))))"
proof -
  have "p \<noteq> []" if "split_once (CHR ''#'') v = Some (p, t)" "hd v \<noteq> CHR ''#''" for p t
    using that by (auto simp: str_simps)
  then show ?thesis
    by (cases v; cases "tl v") (auto simp: depends_on_from_str_def parse_defs split: option.splits)
qed

text \<open>The canonical form of a reference: a specific reference to the synthetic root package is
  the root reference, because the printer never shows the root package's internal name.\<close>

fun canonical :: "DependsOn \<Rightarrow> DependsOn" where
  "canonical (Specific t) = (if task_is_root t then Root (tid_task t) else Specific t)"
| "canonical d = d"

lemma depends_on_print_parse:
  "depends_on_from_str v = Inr d \<Longrightarrow> canonical d = d \<Longrightarrow> as_config_string d = v"
  by (cases v; cases "tl v")
     (auto simp: depends_on_from_str_cases task_id_to_string_def str_simps
       split: if_splits option.splits)

lemma depends_on_parse_canonical_print:
  "depends_on_from_str v = Inr d \<Longrightarrow> as_config_string d = as_config_string (canonical d)"
  by (cases d) (auto simp: task_id_to_string_def)

lemma depends_on_reparse:
  assumes "depends_on_from_str v = Inr d"
  shows "depends_on_from_str (as_config_string d) = Inr (canonical d)"
proof (cases "canonical d = d")
  case True
  with assms show ?thesis by (simp add: depends_on_print_parse)
next
  case False
  then obtain t where d: "d = Specific t" "task_is_root t"
    by (cases d) (auto split: if_splits)
  with assms have "tid_task t \<noteq> []"
    by (auto simp: depends_on_from_str_cases split: if_splits option.splits)
  with d show ?thesis
    by (auto simp: depends_on_from_str_cases task_id_to_string_def)
qed

text \<open>What the printed form of an input pattern is, prefix and path together.\<close>

fun input_prefix :: "InputPattern \<Rightarrow> string" where
  "input_prefix (InRoot _) = ''#''"
| "input_prefix (InSpecific p _) = p @ ''#''"
| "input_prefix (InDirectUpstream _) = ''^''"
| "input_prefix (InTransitiveUpstream _) = ''^^''"
| "input_prefix (InSamePackage _) = []"

lemma input_pattern_from_str_cases:
  "input_pattern_from_str v =
     (if v = [] then Inl ''same-package input must include path''
      else if hd v = CHR ''^'' then
        (if tl v = [] then Inl ''direct upstream input must include path''
         else if hd (tl v) = CHR ''^'' then
           (if tl (tl v) = [] then Inl ''transitive upstream input must include path''
            else Inr (InTransitiveUpstream (tl (tl v))))
         else Inr (InDirectUpstream (tl v)))
      else if hd v = CHR ''#'' then
        (if tl v = [] then Inl ''root input must include path'' else Inr (InRoot (tl v)))
      else case split_once (CHR ''#'') v of
        None \<Rightarrow> Inr (InSamePackage v)
      | Some (p, t) \<Rightarrow>
          (if t = [] then Inl ''specific input must be `package#path`''
           else Inr (InSpecific p t)))"
proof -
  have "p \<noteq> []" if "split_once (CHR ''#'') v = Some (p, t)" "hd v \<noteq> CHR ''#''" for p t
    using that by (auto simp: str_simps)
  then show ?thesis
    by (cases v; cases "tl v")
       (auto simp: input_pattern_from_str_def parse_defs split: option.splits)
qed

section \<open>Properties\<close>

text \<open>C22: Printing a parsed dependency reference and parsing it again gives the same reference,
  up to the canonical form in which a specific reference to the synthetic root package is a root
  reference; every reference already in canonical form prints back to exactly the string it was
  parsed from.\<close>

theorem depends_on_roundtrip:
  assumes "depends_on_from_str v = Inr d"
  shows "depends_on_from_str (as_config_string d) = Inr (canonical d) \<and>
    (canonical d = d \<longrightarrow> as_config_string d = v)"
  using depends_on_reparse[OF assms] depends_on_print_parse[OF assms] by blast

theorem depends_on_roundtrip_witness:
  "depends_on_from_str ''^^build'' = Inr (TransitiveUpstream ''build'') \<and>
   depends_on_from_str (as_config_string (TransitiveUpstream ''build'')) =
     Inr (TransitiveUpstream ''build'') \<and>
   as_config_string (TransitiveUpstream ''build'') = ''^^build''"
proof -
  have h: "depends_on_from_str ''^^build'' = Inr (TransitiveUpstream ''build'')"
    by (simp add: depends_on_from_str_def parse_defs)
  show ?thesis using h depends_on_roundtrip[OF h] by simp
qed

text \<open>The parser of dependency references rejects exactly the empty string, a bare prefix
  (caret, double caret or hash), and a package reference whose task part is empty; every other
  string is accepted.\<close>

lemma depends_on_rejects_exactly:
  "(\<exists>m. depends_on_from_str v = Inl m) \<longleftrightarrow>
     v \<in> {'''', ''^'', ''^^'', ''#''} \<or>
     (\<exists>p. v = p @ ''#'' \<and> p \<noteq> [] \<and> CHR ''#'' \<notin> set p \<and> hd p \<noteq> CHR ''^'')"
  (is "?L \<longleftrightarrow> ?R")
proof
  assume ?L
  then consider "v = []" | "hd v = CHR ''^''" "v \<noteq> []" | "hd v = CHR ''#''" "v \<noteq> []" |
    p where "v \<noteq> []" "hd v \<noteq> CHR ''^''" "hd v \<noteq> CHR ''#''"
      "split_once (CHR ''#'') v = Some (p, [])"
    unfolding depends_on_from_str_cases by (auto split: if_splits option.splits)
  then show ?R
  proof cases
    case 4
    then have p: "v = p @ ''#''" "CHR ''#'' \<notin> set p" by (simp_all add: split_once_Some)
    moreover have "p \<noteq> []" using 4(3) p(1) by auto
    moreover have "hd p = hd v" using p(1) \<open>p \<noteq> []\<close> by simp
    ultimately show ?thesis using 4(2) by auto
  qed (use \<open>?L\<close> in \<open>auto simp: depends_on_from_str_cases neq_Nil_conv split: if_splits\<close>)
next
  assume ?R
  then consider "v \<in> {'''', ''^'', ''^^'', ''#''}" |
    p where "v = p @ ''#''" "p \<noteq> []" "CHR ''#'' \<notin> set p" "hd p \<noteq> CHR ''^''"
    by blast
  then show ?L
  proof cases
    case 1
    then show ?thesis by (auto simp: depends_on_from_str_cases)
  next
    case 2
    moreover from 2 have "hd p \<noteq> CHR ''#''" using hd_in_set[of p] by metis
    ultimately show ?thesis by (simp add: depends_on_from_str_cases)
  qed
qed

text \<open>Parsing an input pattern loses nothing: the reference's prefix followed by its path is
  the original string, and the path is never empty.\<close>

lemma input_pattern_lossless:
  assumes "input_pattern_from_str v = Inr p"
  shows "v = input_prefix p @ input_path p \<and> input_path p \<noteq> []"
proof (cases "v = [] \<or> hd v = CHR ''^'' \<or> hd v = CHR ''#''")
  case True
  with assms show ?thesis
    by (auto simp: input_pattern_from_str_cases neq_Nil_conv split: if_splits)
next
  case False
  then show ?thesis
  proof (cases "split_once (CHR ''#'') v")
    case None
    with False assms show ?thesis by (auto simp: input_pattern_from_str_cases)
  next
    case (Some pt)
    then have "v = fst pt @ CHR ''#'' # snd pt" by (cases pt) (simp add: split_once_Some)
    with False assms Some show ?thesis
      by (cases pt) (auto simp: input_pattern_from_str_cases split: if_splits)
  qed
qed

lemma input_pattern_lossless_witness:
  "input_pattern_from_str ''ui#src/*.ts'' = Inr (InSpecific ''ui'' ''src/*.ts'') \<and>
   ''ui#src/*.ts'' = input_prefix (InSpecific ''ui'' ''src/*.ts'') @ ''src/*.ts''"
proof -
  have h: "input_pattern_from_str ''ui#src/*.ts'' = Inr (InSpecific ''ui'' ''src/*.ts'')"
    by (simp add: input_pattern_from_str_def parse_defs)
  show ?thesis using h input_pattern_lossless[OF h] unfolding input_path.simps by blast
qed

end
