(* ===== verification/Digraph.thy ===== *)
theory Digraph
  imports Prelude
begin

text \<open>
  The directed graphs of \<open>petgraph\<close>, as the package and task graphs use them. A
  \<open>DiGraph\<close> is represented by the contents its documentation promises: node weights in index
  order and edges in insertion order (indices are consecutive, neighbours are listed from the
  most recently added edge back). The topological sort is an algorithm of that crate and stays
  a parameter; the locale \<open>toposort_laws\<close> states its documented contract, and \<open>ref_toposort\<close>
  is a concrete function that meets it.
\<close>

record 'n digraph =
  dg_nodes :: "'n list"
  dg_edges :: "(nat \<times> nat) list"

datatype direction = Outgoing | Incoming

definition dg_empty :: "'n digraph" where
  "dg_empty = \<lparr>dg_nodes = [], dg_edges = []\<rparr>"

definition dg_add_node :: "'n digraph \<Rightarrow> 'n \<Rightarrow> 'n digraph \<times> nat" where
  "dg_add_node g n = (g\<lparr>dg_nodes := dg_nodes g @ [n]\<rparr>, length (dg_nodes g))"

definition dg_add_edge :: "'n digraph \<Rightarrow> nat \<Rightarrow> nat \<Rightarrow> 'n digraph" where
  "dg_add_edge g a b = g\<lparr>dg_edges := dg_edges g @ [(a, b)]\<rparr>"

definition dg_has_edge :: "'n digraph \<Rightarrow> nat \<Rightarrow> nat \<Rightarrow> bool" where
  "dg_has_edge g a b \<longleftrightarrow> (a, b) \<in> set (dg_edges g)"

fun neighbors_directed :: "'n digraph \<Rightarrow> nat \<Rightarrow> direction \<Rightarrow> nat list" where
  "neighbors_directed g i Outgoing = rev (map snd (filter (\<lambda>e. fst e = i) (dg_edges g)))"
| "neighbors_directed g i Incoming = rev (map fst (filter (\<lambda>e. snd e = i) (dg_edges g)))"

definition wf_digraph :: "'n digraph \<Rightarrow> bool" where
  "wf_digraph g \<longleftrightarrow> (\<forall>(a, b) \<in> set (dg_edges g). a < length (dg_nodes g) \<and> b < length (dg_nodes g))"

text \<open>The relation a search follows in one direction.\<close>

fun dg_rel :: "'n digraph \<Rightarrow> direction \<Rightarrow> (nat \<times> nat) set" where
  "dg_rel g Outgoing = set (dg_edges g)"
| "dg_rel g Incoming = (set (dg_edges g))\<inverse>"

lemma neighbors_directed_set [simp]: "set (neighbors_directed g i d) = dg_rel g d `` {i}"
  by (cases d) force+

lemma finite_dg_rel [simp]: "finite (dg_rel g d)"
  by (cases d) auto

lemma finite_Range_dg_rel [simp]: "finite (Range (dg_rel g d))"
  by (rule finite_Range) simp

lemma dg_rel_in_range:
  "wf_digraph g \<Longrightarrow> (i, j) \<in> dg_rel g d \<Longrightarrow> i < length (dg_nodes g) \<and> j < length (dg_nodes g)"
  by (cases d) (auto simp: wf_digraph_def)

lemma dg_rtrancl_in_range:
  assumes "(i, j) \<in> (dg_rel g d)\<^sup>*" "wf_digraph g" "i < length (dg_nodes g)"
  shows "j < length (dg_nodes g)"
  using assms by (induction rule: rtrancl_induct) (auto dest: dg_rel_in_range)

lemma dg_add_edge_simps [simp]:
  "dg_nodes (dg_add_edge g a b) = dg_nodes g"
  "dg_edges (dg_add_edge g a b) = dg_edges g @ [(a, b)]"
  by (simp_all add: dg_add_edge_def)

lemma fold_add_edge [simp]:
  "dg_nodes (fold (\<lambda>(a, b) g. dg_add_edge g a b) es g) = dg_nodes g"
  "dg_edges (fold (\<lambda>(a, b) g. dg_add_edge g a b) es g) = dg_edges g @ es"
  by (induction es arbitrary: g) auto

section \<open>Topological sorting\<close>

type_synonym toposort = "nat \<Rightarrow> (nat \<times> nat) list \<Rightarrow> nat + nat list"

definition edges_below :: "nat \<Rightarrow> (nat \<times> nat) list \<Rightarrow> bool" where
  "edges_below n E \<longleftrightarrow> (\<forall>(a, b) \<in> set E. a < n \<and> b < n)"

lemma wf_digraph_edges_below: "wf_digraph g \<longleftrightarrow> edges_below (length (dg_nodes g)) (dg_edges g)"
  by (simp add: wf_digraph_def edges_below_def)

locale toposort_laws =
  fixes topo :: toposort
  assumes topo_nodes: "edges_below n E \<Longrightarrow> topo n E = Inr os \<Longrightarrow> distinct os \<and> set os = {..<n}"
    and topo_order: "edges_below n E \<Longrightarrow> topo n E = Inr (xs @ x # ys) \<Longrightarrow> (x, y) \<in> set E \<Longrightarrow> y \<in> set ys"
    and topo_cycle: "edges_below n E \<Longrightarrow> topo n E = Inl v \<Longrightarrow> v < n \<and> (v, v) \<in> (set E)\<^sup>+"
begin

text \<open>Reversed, the order lists every node after all its out-neighbours.\<close>

lemma rev_order:
  assumes "edges_below n E" "topo n E = Inr os" "rev os = xs @ x # ys" "(x, y) \<in> set E"
  shows "y \<in> set xs"
proof -
  have "os = rev ys @ x # rev xs"
    using assms(3) by (metis append.assoc append_Cons append_Nil rev.simps(2) rev_append rev_rev_ident)
  with topo_order[OF assms(1), of "rev ys" x "rev xs" y] assms(2,4) show ?thesis by simp
qed

lemma order_acyclic:
  assumes E: "edges_below n E" and os: "topo n E = Inr os"
  shows "acyclic (set E)"
proof -
  have dist: "distinct os" and all: "set os = {..<n}" using topo_nodes[OF E os] by auto
  define idx where "idx x = length (takeWhile (\<lambda>y. y \<noteq> x) os)" for x
  have "idx x < idx y" if "(x, y) \<in> set E" for x y
  proof -
    have "x \<in> set os" using that E all by (auto simp: edges_below_def)
    then obtain us vs where split: "os = us @ x # vs" "x \<notin> set us" by (meson split_list_first)
    have "y \<in> set vs" using topo_order[OF E _ that] os split(1) by blast
    then have "y \<notin> set us" "y \<noteq> x" using dist split(1) by auto
    then have "idx y \<ge> Suc (length us)" by (auto simp: idx_def split(1) takeWhile_append)
    moreover have "idx x = length us" using split(2) by (auto simp: idx_def split(1) takeWhile_append)
    ultimately show ?thesis by simp
  qed
  then have "set E \<subseteq> measure idx" by auto
  moreover have "wf (measure idx)" by simp
  ultimately have "wf (set E)" by (rule wf_subset[rotated])
  then show ?thesis by (rule wf_acyclic)
qed

lemma sorts_iff_acyclic:
  assumes "edges_below n E"
  shows "(\<exists>os. topo n E = Inr os) \<longleftrightarrow> acyclic (set E)"
proof
  show "acyclic (set E) \<Longrightarrow> \<exists>os. topo n E = Inr os"
    using topo_cycle[OF assms] by (cases "topo n E") (auto simp: acyclic_def)
qed (use order_acyclic[OF assms] in blast)

end

subsection \<open>A concrete topological sort\<close>

text \<open>Repeatedly emit the first remaining node that no remaining node points to.\<close>

definition no_pred :: "(nat \<times> nat) list \<Rightarrow> nat list \<Rightarrow> nat \<Rightarrow> bool" where
  "no_pred E rs x \<longleftrightarrow> (\<forall>(a, b) \<in> set E. b = x \<longrightarrow> a \<notin> set rs)"

function ref_sort :: "(nat \<times> nat) list \<Rightarrow> nat list \<Rightarrow> nat + nat list" where
  "ref_sort E rs =
     (if rs = [] then Inr []
      else case List.find (no_pred E rs) rs of
        None \<Rightarrow> (case List.find (\<lambda>v. (v, v) \<in> (set E)\<^sup>+) rs of Some v \<Rightarrow> Inl v | None \<Rightarrow> Inl 0)
      | Some x \<Rightarrow> (case ref_sort E (remove1 x rs) of Inl v \<Rightarrow> Inl v | Inr os \<Rightarrow> Inr (x # os)))"
  by pat_completeness auto
termination
  by (relation "measure (\<lambda>(E, rs). length rs)")
     (auto simp: find_Some_iff length_remove1 in_set_conv_nth neq_Nil_conv)

declare ref_sort.simps [simp del]

definition ref_toposort :: toposort where
  "ref_toposort n E = ref_sort E [0..<n]"

lemma stuck_has_cycle:
  assumes "rs \<noteq> []" "\<forall>x \<in> set rs. \<not> no_pred E rs x"
  shows "\<exists>v \<in> set rs. (v, v) \<in> (set E)\<^sup>+"
proof -
  let ?R = "set E \<inter> set rs \<times> set rs"
  have "\<not> wf ?R"
  proof
    assume "wf ?R"
    moreover have "last rs \<in> set rs" using assms(1) by simp
    ultimately obtain m where m: "m \<in> set rs" "\<And>y. (y, m) \<in> ?R \<Longrightarrow> y \<notin> set rs"
      by (rule wfE_min) blast
    from assms(2) m(1) obtain a where "(a, m) \<in> set E" "a \<in> set rs" by (auto simp: no_pred_def)
    with m show False by blast
  qed
  then have "\<not> acyclic ?R" using finite_acyclic_wf[of ?R] by auto
  then obtain v where v: "(v, v) \<in> ?R\<^sup>+" by (auto simp: acyclic_def)
  from v have "v \<in> set rs" by (rule converse_tranclE) auto
  moreover have "(v, v) \<in> (set E)\<^sup>+" by (rule trancl_mono[OF v]) blast
  ultimately show ?thesis by blast
qed

lemma ref_sort_Inl:
  "ref_sort E rs = Inl v \<Longrightarrow> v \<in> set rs \<and> (v, v) \<in> (set E)\<^sup>+"
proof (induction E rs rule: ref_sort.induct)
  case (1 E rs)
  show ?case
  proof (cases "List.find (no_pred E rs) rs")
    case None
    then have "\<forall>x \<in> set rs. \<not> no_pred E rs x" by (simp add: find_None_iff)
    moreover have "rs \<noteq> []" using 1(2) by (auto simp: ref_sort.simps)
    ultimately obtain w where "w \<in> set rs" "(w, w) \<in> (set E)\<^sup>+" using stuck_has_cycle by blast
    then obtain u where u: "List.find (\<lambda>v. (v, v) \<in> (set E)\<^sup>+) rs = Some u"
      by (metis (mono_tags, lifting) find_None_iff not_Some_eq)
    then have "u \<in> set rs" "(u, u) \<in> (set E)\<^sup>+" by (auto simp: find_Some_iff)
    then show ?thesis using 1(2) None u \<open>rs \<noteq> []\<close> by (simp add: ref_sort.simps[of E rs])
  next
    case (Some x)
    then have ne: "rs \<noteq> []" by auto
    have "ref_sort E (remove1 x rs) = Inl v"
      using 1(2) Some ne by (simp add: ref_sort.simps[of E rs] split: sum.splits)
    then show ?thesis using 1(1)[OF ne Some] by (meson notin_set_remove1)
  qed
qed

lemma ref_sort_InrE:
  assumes "ref_sort E rs = Inr os"
  obtains "rs = []" "os = []"
    | z os' where "rs \<noteq> []" "List.find (no_pred E rs) rs = Some z" "z \<in> set rs" "no_pred E rs z"
      "ref_sort E (remove1 z rs) = Inr os'" "os = z # os'"
proof (cases "List.find (no_pred E rs) rs")
  case None
  with assms that(1) show ?thesis
    by (auto simp: ref_sort.simps[of E rs] split: if_splits option.splits)
next
  case (Some z)
  then have "z \<in> set rs" "no_pred E rs z" by (auto simp: find_Some_iff)
  with assms Some that(2)[of z] show ?thesis
    by (auto simp: ref_sort.simps[of E rs] split: if_splits sum.splits)
qed

lemma ref_sort_set: "ref_sort E rs = Inr os \<Longrightarrow> distinct rs \<Longrightarrow> distinct os \<and> set os = set rs"
proof (induction E rs arbitrary: os rule: ref_sort.induct)
  case (1 E rs)
  from 1(2) show ?case
  proof (cases rule: ref_sort_InrE)
    case 1
    then show ?thesis by simp
  next
    case (2 z os')
    with 1(1)[OF 2(1,2,5)] \<open>distinct rs\<close> show ?thesis by auto
  qed
qed

lemma ref_sort_Inr:
  assumes "ref_sort E rs = Inr os" "distinct rs" "(x, y) \<in> set E" "os = xs @ x # ys" "y \<in> set rs"
  shows "y \<in> set ys"
  using assms
proof (induction E rs arbitrary: os xs rule: ref_sort.induct)
  case (1 E rs)
  from 1(2) show ?case
  proof (cases rule: ref_sort_InrE)
    case 1
    with \<open>os = xs @ x # ys\<close> show ?thesis by simp
  next
    case (2 z os')
    have "distinct (remove1 z rs)" using \<open>distinct rs\<close> by simp
    note os' = ref_sort_set[OF 2(5) this]
    have "x \<in> set os" using \<open>os = xs @ x # ys\<close> by simp
    then have "x \<in> set rs" using 2(3,6) os' by (auto simp: set_remove1_eq[OF \<open>distinct rs\<close>])
    then have "y \<noteq> z" using 2(4) \<open>(x, y) \<in> set E\<close> by (auto simp: no_pred_def)
    then have y: "y \<in> set (remove1 z rs)" using \<open>y \<in> set rs\<close> by simp
    show ?thesis
    proof (cases xs)
      case Nil
      with \<open>os = xs @ x # ys\<close> 2(6) have "ys = os'" by simp
      then show ?thesis using os' y by simp
    next
      case (Cons w ws)
      with \<open>os = xs @ x # ys\<close> 2(6) have "os' = ws @ x # ys" by simp
      then show ?thesis using 1(1)[OF 2(1,2,5) _ \<open>(x, y) \<in> set E\<close>] y \<open>distinct rs\<close> by simp
    qed
  qed
qed

interpretation ref: toposort_laws ref_toposort
proof unfold_locales
  fix n E os
  assume "ref_toposort n E = Inr os"
  then show "distinct os \<and> set os = {..<n}"
    using ref_sort_set[of E "[0..<n]" os] unfolding ref_toposort_def
    by (simp only: distinct_upt set_upt lessThan_atLeast0)
next
  fix n E xs x ys y
  assume "edges_below n E" "ref_toposort n E = Inr (xs @ x # ys)" "(x, y) \<in> set E"
  moreover from this have "y \<in> set [0..<n]" by (auto simp: edges_below_def)
  ultimately show "y \<in> set ys"
    using ref_sort_Inr[of E "[0..<n]" "xs @ x # ys" x y xs ys] by (simp add: ref_toposort_def)
next
  fix n E v
  assume "ref_toposort n E = Inl v"
  then show "v < n \<and> (v, v) \<in> (set E)\<^sup>+"
    using ref_sort_Inl[of E "[0..<n]" v] by (simp add: ref_toposort_def)
qed

section \<open>Digraphs whose nodes are found by a key\<close>

text \<open>
  Both graphs of the program keep, beside the digraph, a table from the key of a node (a package
  name, a task id) to its index. The table is exactly the inverse of the node list, so keys
  identify nodes and the edges can be read as a relation on keys.
\<close>

definition indexes :: "('n \<Rightarrow> 'k) \<Rightarrow> 'n list \<Rightarrow> ('k, nat) hmap \<Rightarrow> bool" where
  "indexes key nodes idx \<longleftrightarrow>
     (\<forall>k i. map_of idx k = Some i \<longleftrightarrow> i < length nodes \<and> key (nodes ! i) = k)"

lemma indexes_empty [simp]: "indexes key [] []"
  by (simp add: indexes_def)

lemma indexes_keys:
  assumes "indexes key nodes idx"
  shows "set (map fst idx) = key ` set nodes"
proof (intro set_eqI)
  fix k
  from assms have "(\<exists>i. map_of idx k = Some i) \<longleftrightarrow> (\<exists>i < length nodes. key (nodes ! i) = k)"
    by (simp add: indexes_def)
  also have "\<dots> \<longleftrightarrow> k \<in> key ` set nodes" by (force simp: in_set_conv_nth)
  finally show "k \<in> set (map fst idx) \<longleftrightarrow> k \<in> key ` set nodes" by (simp add: keys_map_of)
qed

lemma indexes_snoc:
  assumes "indexes key nodes idx" "map_of idx (key n) = None"
  shows "indexes key (nodes @ [n]) (AList.update (key n) (length nodes) idx)"
proof -
  have new: "key (nodes ! i) \<noteq> key n" if "i < length nodes" for i
    using that assms by (metis indexes_def option.distinct(1))
  then show ?thesis
    using assms unfolding indexes_def by (auto simp: hmap_simps nth_append less_Suc_eq)
qed

definition wf_named :: "('n \<Rightarrow> 'k) \<Rightarrow> 'n digraph \<Rightarrow> ('k, nat) hmap \<Rightarrow> bool" where
  "wf_named key g idx \<longleftrightarrow> wf_digraph g \<and> indexes key (dg_nodes g) idx"

definition named_rel :: "('n \<Rightarrow> 'k) \<Rightarrow> 'n digraph \<Rightarrow> direction \<Rightarrow> ('k \<times> 'k) set" where
  "named_rel key g d = map_prod (\<lambda>i. key (dg_nodes g ! i)) (\<lambda>i. key (dg_nodes g ! i)) ` dg_rel g d"

lemma wf_namedD:
  assumes "wf_named key g idx"
  shows "wf_digraph g"
    and "map_of idx k = Some i \<longleftrightarrow> i < length (dg_nodes g) \<and> key (dg_nodes g ! i) = k"
  using assms by (auto simp: wf_named_def indexes_def)

lemma named_keys_conv: "key ` set (dg_nodes g) = (\<lambda>i. key (dg_nodes g ! i)) ` {..<length (dg_nodes g)}"
  by (force simp: in_set_conv_nth)

lemma named_inj: "wf_named key g idx \<Longrightarrow> inj_on (\<lambda>i. key (dg_nodes g ! i)) {..<length (dg_nodes g)}"
  by (intro inj_onI) (metis lessThan_iff option.inject wf_namedD(2))

lemma named_distinct:
  assumes "wf_named key g idx"
  shows "distinct (map key (dg_nodes g))"
proof -
  have "inj_on ((!) (map key (dg_nodes g))) {..<length (map key (dg_nodes g))}"
    using named_inj[OF assms] by (auto simp: inj_on_def)
  then show ?thesis by (simp add: distinct_conv_nth inj_on_def) blast
qed

lemma named_known:
  assumes "wf_named key g idx"
  shows "(\<exists>i. map_of idx k = Some i) \<longleftrightarrow> k \<in> key ` set (dg_nodes g)"
  using wf_namedD(2)[OF assms] by (auto simp: named_keys_conv)

lemma named_unknown:
  assumes "wf_named key g idx"
  shows "map_of idx k = None \<longleftrightarrow> k \<notin> key ` set (dg_nodes g)"
  using named_known[OF assms, of k] by (cases "map_of idx k") auto

text \<open>The relation read off one node.\<close>

lemma named_rel_at:
  assumes wf: "wf_named key g idx" and i: "i < length (dg_nodes g)"
  shows "named_rel key g d `` {key (dg_nodes g ! i)} = (\<lambda>j. key (dg_nodes g ! j)) ` (dg_rel g d `` {i})"
proof -
  have "k = i" if "(k, j) \<in> dg_rel g d" "key (dg_nodes g ! k) = key (dg_nodes g ! i)" for k j
    using named_inj[OF wf] dg_rel_in_range[OF wf_namedD(1)[OF wf] that(1)] i that(2)
    by (auto dest: inj_onD)
  then show ?thesis unfolding named_rel_def by (auto simp: image_iff Bex_def)
qed

lemma named_rel_keys: "wf_named key g idx \<Longrightarrow> named_rel key g d \<subseteq> key ` set (dg_nodes g) \<times> key ` set (dg_nodes g)"
  by (auto simp: named_rel_def dest!: dg_rel_in_range[rotated] wf_namedD(1))

lemma named_rel_converse: "named_rel key g Incoming = (named_rel key g Outgoing)\<inverse>"
  by (auto simp: named_rel_def)

lemma finite_named_rel [simp]: "finite (named_rel key g d)"
  by (simp add: named_rel_def)

lemma named_edges_below: "wf_named key g idx \<Longrightarrow> edges_below (length (dg_nodes g)) (dg_edges g)"
  using wf_namedD(1) wf_digraph_edges_below by blast

lemma named_order:
  assumes topo: "toposort_laws topo" and wf: "wf_named key g idx"
    and os: "topo (length (dg_nodes g)) (dg_edges g) = Inr os"
    and ns: "ns = map ((!) (dg_nodes g)) (rev os)"
  shows "set ns = set (dg_nodes g)" "distinct (map key ns)"
    "ns = xs @ p # ys \<Longrightarrow> (key p, k) \<in> named_rel key g Outgoing \<Longrightarrow> k \<in> key ` set xs"
proof -
  note E = named_edges_below[OF wf]
  have nodes: "distinct os" "set os = {..<length (dg_nodes g)}"
    using toposort_laws.topo_nodes[OF topo E os] by auto
  show "set ns = set (dg_nodes g)" using nodes(2) by (force simp: ns in_set_conv_nth)
  show "distinct (map key ns)"
    using nodes named_inj[OF wf] by (simp add: ns rev_map distinct_map inj_on_def)
  assume split: "ns = xs @ p # ys" and d: "(key p, k) \<in> named_rel key g Outgoing"
  from split ns obtain us i vs where uiv: "rev os = us @ i # vs" "map ((!) (dg_nodes g)) us = xs"
    "dg_nodes g ! i = p" by (auto simp: map_eq_append_conv map_eq_Cons_conv)
  have "i < length (dg_nodes g)" using uiv(1) nodes(2) by (metis in_set_conv_decomp lessThan_iff set_rev)
  then obtain j where j: "(i, j) \<in> set (dg_edges g)" "k = key (dg_nodes g ! j)"
    using named_rel_at[OF wf, of i Outgoing] d uiv(3) by auto
  have "j \<in> set us" using toposort_laws.rev_order[OF topo E os uiv(1) j(1)] .
  then show "k \<in> key ` set xs" using j(2) uiv(2) by auto
qed

lemma named_acyclic:
  assumes wf: "wf_named key g idx"
  shows "acyclic (named_rel key g Outgoing) \<longleftrightarrow> acyclic (set (dg_edges g))"
proof -
  have "set (dg_edges g) \<subseteq> {..<length (dg_nodes g)} \<times> {..<length (dg_nodes g)}"
    using named_edges_below[OF wf] by (auto simp: edges_below_def)
  then show ?thesis using acyclic_inj_image[OF named_inj[OF wf]] by (simp add: named_rel_def)
qed

lemma named_sorts_iff:
  assumes topo: "toposort_laws topo" and wf: "wf_named key g idx"
  shows "(\<exists>os. topo (length (dg_nodes g)) (dg_edges g) = Inr os) \<longleftrightarrow> acyclic (named_rel key g Outgoing)"
  using toposort_laws.sorts_iff_acyclic[OF topo named_edges_below[OF wf]] named_acyclic[OF wf] by blast

lemma named_trancl:
  assumes "(i, j) \<in> (set (dg_edges g))\<^sup>+"
  shows "(key (dg_nodes g ! i), key (dg_nodes g ! j)) \<in> (named_rel key g Outgoing)\<^sup>+"
  using assms
proof (induction rule: trancl_induct)
  case (base j)
  then show ?case by (force simp: named_rel_def)
next
  case (step j k)
  then have "(key (dg_nodes g ! j), key (dg_nodes g ! k)) \<in> named_rel key g Outgoing"
    by (force simp: named_rel_def)
  with step.IH show ?case by (rule trancl_into_trancl)
qed

lemma named_cycle:
  assumes topo: "toposort_laws topo" and wf: "wf_named key g idx"
    and v: "topo (length (dg_nodes g)) (dg_edges g) = Inl v"
  shows "(key (dg_nodes g ! v), key (dg_nodes g ! v)) \<in> (named_rel key g Outgoing)\<^sup>+"
  using toposort_laws.topo_cycle[OF topo named_edges_below[OF wf] v] named_trancl by blast

end
