(* ===== verification/PackageGraph.thy ===== *)
theory PackageGraph
  imports Types Digraph
begin

text \<open>
  The package graph, \<open>crates/luchta-workspace/src/package_graph.rs\<close>: building it from the
  discovered packages and their manifests, neighbour queries, transitive closures and the
  build order. Reading and parsing a \<open>package.json\<close> (file system and JSON library) are the
  fields of \<open>manifest_io\<close>, an argument of the definitions that build the graph.
\<close>

datatype WorkspaceError = Discovery string | Graph string

record PackageNode =
  pn_name :: PackageName
  pn_path :: string
  pn_scripts :: "string list"

definition has_script :: "PackageNode \<Rightarrow> string \<Rightarrow> bool" where
  "has_script p name \<longleftrightarrow> name \<in> set (pn_scripts p)"

type_synonym graph_nodes = "PackageNode digraph \<times> (PackageName, nat) hmap"

record PackageGraph =
  pg_graph :: "PackageNode digraph"
  pg_indices_by_name :: "(PackageName, nat) hmap"
  pg_root_package :: "PackageName option"

record PackageJsonDependencies =
  pj_dependencies :: "(string, string) hmap"
  pj_dev_dependencies :: "(string, string) hmap"

record manifest_io =
  io_read_to_string :: "string \<Rightarrow> string + string"
  io_parse_package_json :: "string \<Rightarrow> string + PackageJsonDependencies"

section \<open>Building\<close>

fun insert_nodes_loop :: "PackageNode list \<Rightarrow> graph_nodes \<Rightarrow> WorkspaceError + graph_nodes" where
  "insert_nodes_loop [] gn = Inr gn"
| "insert_nodes_loop (package # rest) (graph, indices) =
     (let name = pn_name package; (graph', index) = dg_add_node graph package in
      if map_of indices name \<noteq> None
      then Inl (Graph (''duplicate package name in workspace graph: '' @ name))
      else insert_nodes_loop rest (graph', AList.update name index indices))"

definition insert_nodes :: "PackageNode list \<Rightarrow> WorkspaceError + graph_nodes" where
  "insert_nodes packages = insert_nodes_loop packages (dg_empty, [])"

definition read_workspace_dependency_names ::
  "manifest_io \<Rightarrow> string \<Rightarrow> PackageName list \<Rightarrow> WorkspaceError + PackageName list" where
  "read_workspace_dependency_names io package_path workspace_names =
     (let package_json_path = join_path package_path ''package.json'' in
      case io_read_to_string io package_json_path of
        Inl error \<Rightarrow> Inl (Graph (''failed to read '' @ package_json_path @ '': '' @ error))
      | Inr contents \<Rightarrow>
     (case io_parse_package_json io contents of
        Inl error \<Rightarrow> Inl (Graph (''failed to parse '' @ package_json_path @ '': '' @ error))
      | Inr pj \<Rightarrow>
          Inr (remdups (filter (\<lambda>name. name \<in> set workspace_names)
                 (map fst (pj_dependencies pj) @ map fst (pj_dev_dependencies pj))))))"

fun edges_to :: "(PackageName, nat) hmap \<Rightarrow> PackageName \<Rightarrow> nat \<Rightarrow> PackageName list \<Rightarrow>
    (nat \<times> nat) list \<Rightarrow> WorkspaceError + (nat \<times> nat) list" where
  "edges_to indices package_name source [] edges = Inr edges"
| "edges_to indices package_name source (dep # deps) edges =
     (case map_of indices dep of
        None \<Rightarrow> Inl (Graph (''workspace dependency '' @ sq @ dep @ sq @ '' referenced by '' @ sq @
                  package_name @ sq @ '' was not discovered''))
      | Some target \<Rightarrow> edges_to indices package_name source deps (set_insert (source, target) edges))"

fun collect_edges_loop :: "manifest_io \<Rightarrow> (PackageName, nat) hmap \<Rightarrow> (nat \<times> PackageNode) list \<Rightarrow>
    (nat \<times> nat) list \<Rightarrow> WorkspaceError + (nat \<times> nat) list" where
  "collect_edges_loop io indices [] edges = Inr edges"
| "collect_edges_loop io indices ((source, package) # rest) edges =
     (case read_workspace_dependency_names io (pn_path package) (map fst indices) of
        Inl e \<Rightarrow> Inl e
      | Inr dependency_names \<Rightarrow>
     (case edges_to indices (pn_name package) source dependency_names edges of
        Inl e \<Rightarrow> Inl e
      | Inr edges' \<Rightarrow> collect_edges_loop io indices rest edges'))"

definition collect_dependency_edges ::
  "manifest_io \<Rightarrow> PackageNode digraph \<Rightarrow> (PackageName, nat) hmap \<Rightarrow> WorkspaceError + (nat \<times> nat) list" where
  "collect_dependency_edges io graph indices =
     collect_edges_loop io indices (zip [0..<length (dg_nodes graph)] (dg_nodes graph)) []"

definition pg_build :: "manifest_io \<Rightarrow> PackageNode list \<Rightarrow> WorkspaceError + PackageGraph" where
  "pg_build io packages =
     bind_result (insert_nodes packages) (\<lambda>(graph, indices).
       bind_result (collect_dependency_edges io graph indices) (\<lambda>edges.
         Inr \<lparr>pg_graph = fold (\<lambda>(a, b) g. dg_add_edge g a b) edges graph,
              pg_indices_by_name = indices, pg_root_package = None\<rparr>))"

definition with_root_package :: "PackageGraph \<Rightarrow> PackageName \<Rightarrow> PackageGraph" where
  "with_root_package g name = g\<lparr>pg_root_package := Some name\<rparr>"

section \<open>Queries\<close>

definition pg_node_count :: "PackageGraph \<Rightarrow> nat" where
  "pg_node_count g = length (dg_nodes (pg_graph g))"

definition pg_is_empty :: "PackageGraph \<Rightarrow> bool" where
  "pg_is_empty g \<longleftrightarrow> length (dg_nodes (pg_graph g)) = 0"

definition pg_node_index :: "PackageGraph \<Rightarrow> PackageName \<Rightarrow> WorkspaceError + nat" where
  "pg_node_index g name =
     (case map_of (pg_indices_by_name g) name of
        Some i \<Rightarrow> Inr i
      | None \<Rightarrow> Inl (Graph (''package '' @ sq @ name @ sq @ '' not found in graph'')))"

abbreviation pg_weight :: "PackageGraph \<Rightarrow> nat \<Rightarrow> PackageNode" where
  "pg_weight g i \<equiv> dg_nodes (pg_graph g) ! i"

definition pg_dependencies_of :: "PackageGraph \<Rightarrow> PackageName \<Rightarrow> WorkspaceError + PackageNode list" where
  "pg_dependencies_of g name =
     bind_result (pg_node_index g name) (\<lambda>i.
       Inr (map (pg_weight g) (neighbors_directed (pg_graph g) i Outgoing)))"

definition pg_node :: "PackageGraph \<Rightarrow> PackageName \<Rightarrow> WorkspaceError + PackageNode" where
  "pg_node g name = bind_result (pg_node_index g name) (\<lambda>i. Inr (pg_weight g i))"

definition pg_dependents_of :: "PackageGraph \<Rightarrow> PackageName \<Rightarrow> WorkspaceError + PackageNode list" where
  "pg_dependents_of g name =
     bind_result (pg_node_index g name) (\<lambda>i.
       Inr (map (pg_weight g) (neighbors_directed (pg_graph g) i Incoming)))"

text \<open>The depth-first loop of \<open>transitive_neighbors\<close>: the pending \<open>Vec\<close> is a stack, its last
  element is popped first.\<close>

function transitive_loop :: "'n digraph \<Rightarrow> direction \<Rightarrow> nat list \<Rightarrow> nat list \<Rightarrow> nat list" where
  "transitive_loop g d visited pending =
     (if pending = [] then visited
      else case push_unvisited (neighbors_directed g (last pending) d) (visited, butlast pending) of
        (visited', pending') \<Rightarrow> transitive_loop g d visited' pending')"
  by pat_completeness auto
termination
proof (relation "measure (\<lambda>(g, d, V, P). 2 * card (Range (dg_rel g d) - set V) + length P)")
  fix g :: "'n digraph" and d V P V' P'
  assume P: "P \<noteq> []" and "(V', P') = push_unvisited (neighbors_directed g (last P) d) (V, butlast P)"
  then have "push_unvisited (neighbors_directed g (last P) d) (V, butlast P) = (V', P')" by simp
  then show "((g, d, V', P'), g, d, V, P) \<in>
      measure (\<lambda>(g, d, V, P). 2 * card (Range (dg_rel g d) - set V) + length P)"
    using search_measure_decreases[of "neighbors_directed g (last P) d" V "butlast P" V' P'
        "Range (dg_rel g d)" P] P by auto
qed simp

declare transitive_loop.simps [simp del]

definition transitive_neighbors ::
  "PackageGraph \<Rightarrow> PackageName list \<Rightarrow> direction \<Rightarrow> WorkspaceError + PackageName list" where
  "transitive_neighbors g seeds d =
     (case push_unvisited (List.map_filter (map_of (pg_indices_by_name g)) seeds) ([], []) of
        (visited, pending) \<Rightarrow>
          Inr (map (\<lambda>i. pn_name (pg_weight g i)) (transitive_loop (pg_graph g) d visited pending)))"

definition transitive_dependents_of ::
  "PackageGraph \<Rightarrow> PackageName list \<Rightarrow> WorkspaceError + PackageName list" where
  "transitive_dependents_of g seeds = transitive_neighbors g seeds Incoming"

definition transitive_dependencies_of ::
  "PackageGraph \<Rightarrow> PackageName \<Rightarrow> WorkspaceError + PackageName list" where
  "transitive_dependencies_of g name = transitive_neighbors g [name] Outgoing"

definition pg_topological_order :: "toposort \<Rightarrow> PackageGraph \<Rightarrow> WorkspaceError + PackageNode list" where
  "pg_topological_order topo g =
     (case topo (length (dg_nodes (pg_graph g))) (dg_edges (pg_graph g)) of
        Inl v \<Rightarrow> Inl (Graph (''package graph cycle detected at '' @ pn_name (pg_weight g v)))
      | Inr order \<Rightarrow> Inr (map (pg_weight g) (rev order)))"

section \<open>Well-formed package graphs\<close>

text \<open>Edges stay inside the node table, and the name index is exactly the inverse of the node
  table, so names identify packages.\<close>

definition wf_package_graph :: "PackageGraph \<Rightarrow> bool" where
  "wf_package_graph g \<longleftrightarrow> wf_digraph (pg_graph g) \<and>
     (\<forall>name i. map_of (pg_indices_by_name g) name = Some i \<longleftrightarrow>
        i < length (dg_nodes (pg_graph g)) \<and> pn_name (pg_weight g i) = name)"

definition pg_names :: "PackageGraph \<Rightarrow> PackageName set" where
  "pg_names g = pn_name ` set (dg_nodes (pg_graph g))"

text \<open>The dependency relation between package names.\<close>

definition pg_rel :: "PackageGraph \<Rightarrow> direction \<Rightarrow> (PackageName \<times> PackageName) set" where
  "pg_rel g d = map_prod (\<lambda>i. pn_name (pg_weight g i)) (\<lambda>i. pn_name (pg_weight g i)) ` dg_rel (pg_graph g) d"

lemma wf_package_named: "wf_package_graph g \<Longrightarrow> wf_named pn_name (pg_graph g) (pg_indices_by_name g)"
  by (simp add: wf_package_graph_def wf_named_def indexes_def)

lemmas wf_package_graphD = wf_namedD[OF wf_package_named]
  and pg_name_inj = named_inj[OF wf_package_named]
  and distinct_pg_nodes = named_distinct[OF wf_package_named]

lemma pg_rel_named: "pg_rel g d = named_rel pn_name (pg_graph g) d"
  by (simp add: pg_rel_def named_rel_def)

lemma pg_names_conv: "pg_names g = (\<lambda>i. pn_name (pg_weight g i)) ` {..<length (dg_nodes (pg_graph g))}"
  unfolding pg_names_def by (rule named_keys_conv)

lemma pg_index_known:
  assumes "wf_package_graph g"
  shows "(\<exists>i. map_of (pg_indices_by_name g) name = Some i) \<longleftrightarrow> name \<in> pg_names g"
  using wf_package_graphD(2)[OF assms] by (auto simp: pg_names_conv)

lemma pg_node_index_Inr:
  assumes "wf_package_graph g"
  shows "pg_node_index g name = Inr i \<longleftrightarrow>
    i < length (dg_nodes (pg_graph g)) \<and> pn_name (pg_weight g i) = name"
  using wf_package_graphD(2)[OF assms, of name i] by (auto simp: pg_node_index_def split: option.splits)

lemma pg_node_index_Inl:
  assumes "wf_package_graph g"
  shows "(\<exists>e. pg_node_index g name = Inl e) \<longleftrightarrow> name \<notin> pg_names g"
  using pg_index_known[OF assms, of name] by (auto simp: pg_node_index_def split: option.splits)

text \<open>The relation read off one node.\<close>

lemmas pg_rel_at = named_rel_at[OF wf_package_named, folded pg_rel_named]

lemma pg_dependencies_of_names:
  assumes "wf_package_graph g" "pg_dependencies_of g name = Inr ds"
  shows "pn_name ` set ds = pg_rel g Outgoing `` {name}"
proof -
  from assms obtain i where i: "i < length (dg_nodes (pg_graph g))" "pn_name (pg_weight g i) = name"
    and ds: "ds = map (pg_weight g) (neighbors_directed (pg_graph g) i Outgoing)"
    by (auto simp: pg_dependencies_of_def bind_result_Inr_iff pg_node_index_Inr)
  show ?thesis
    using pg_rel_at[OF assms(1) i(1), of Outgoing] i(2) by (simp add: ds image_image del: neighbors_directed.simps)
qed

lemma pg_dependents_of_names:
  assumes "wf_package_graph g" "pg_dependents_of g name = Inr ds"
  shows "pn_name ` set ds = pg_rel g Incoming `` {name}"
proof -
  from assms obtain i where i: "i < length (dg_nodes (pg_graph g))" "pn_name (pg_weight g i) = name"
    and ds: "ds = map (pg_weight g) (neighbors_directed (pg_graph g) i Incoming)"
    by (auto simp: pg_dependents_of_def bind_result_Inr_iff pg_node_index_Inr)
  show ?thesis
    using pg_rel_at[OF assms(1) i(1), of Incoming] i(2) by (simp add: ds image_image del: neighbors_directed.simps)
qed

lemma pg_rel_names: "wf_package_graph g \<Longrightarrow> pg_rel g d \<subseteq> pg_names g \<times> pg_names g"
  unfolding pg_rel_named pg_names_def by (rule named_rel_keys[OF wf_package_named])

lemma pg_rel_converse: "pg_rel g Incoming = (pg_rel g Outgoing)\<inverse>"
  unfolding pg_rel_named by (rule named_rel_converse)

lemma transitive_loop_reaches:
  "search_inv (dg_rel g d) S V P \<Longrightarrow> set (transitive_loop g d V P) = (dg_rel g d)\<^sup>* `` S"
proof (induction g d V P rule: transitive_loop.induct)
  case (1 g d V P)
  show ?case
  proof (cases "P = []")
    case True
    then show ?thesis using 1(2) search_inv_done[of "dg_rel g d" S V] by (simp add: transitive_loop.simps[of g d V "[]"])
  next
    case False
    obtain V' P' where push: "push_unvisited (neighbors_directed g (last P) d) (V, butlast P) = (V', P')"
      by fastforce
    have "set P = insert (last P) (set (butlast P))"
      using False by (metis append_butlast_last_id list.set(1,2) set_append sup_bot_right Un_insert_right)
    then have "search_inv (dg_rel g d) S V' P'"
      by (rule search_inv_step[OF 1(2) _ _ push]) simp
    then show ?thesis
      using 1(1)[OF False push[symmetric]] False push by (simp add: transitive_loop.simps[of g d V P])
  qed
qed

lemma transitive_neighbors_total: "\<exists>ns. transitive_neighbors g seeds d = Inr ns"
  by (simp add: transitive_neighbors_def split: prod.split)

lemma transitive_neighbors_names:
  assumes wf: "wf_package_graph g" and r: "transitive_neighbors g seeds d = Inr ns"
  shows "set ns = (pg_rel g d)\<^sup>* `` (set seeds \<inter> pg_names g)"
proof -
  let ?A = "{..<length (dg_nodes (pg_graph g))}" and ?f = "\<lambda>i. pn_name (pg_weight g i)"
  let ?is = "List.map_filter (map_of (pg_indices_by_name g)) seeds"
  obtain V P where push: "push_unvisited ?is ([], []) = (V, P)" by fastforce
  have "set ns = ?f ` ((dg_rel (pg_graph g) d)\<^sup>* `` set ?is)"
    using r transitive_loop_reaches[OF search_inv_seeds[OF push], of "pg_graph g" d]
    by (simp add: transitive_neighbors_def push) (metis image_set)
  also have "\<dots> = (pg_rel g d)\<^sup>* `` (?f ` set ?is)"
    unfolding pg_rel_def
    by (rule rtrancl_inj_image[OF pg_name_inj[OF wf], symmetric])
       (auto simp: wf_package_graphD[OF wf] dest: dg_rel_in_range[OF wf_package_graphD(1)[OF wf]])
  also have "?f ` set ?is = set seeds \<inter> pg_names g"
    using wf_package_graphD(2)[OF wf] by (auto simp: pg_names_conv image_iff)
  finally show ?thesis .
qed

section \<open>What building guarantees\<close>

lemma insert_nodes_loop_Inr:
  assumes "insert_nodes_loop ps (graph, indices) = Inr (graph', indices')"
    and "indexes pn_name (dg_nodes graph) indices"
  shows "dg_nodes graph' = dg_nodes graph @ ps \<and> dg_edges graph' = dg_edges graph \<and>
    indexes pn_name (dg_nodes graph') indices'"
  using assms
proof (induction ps arbitrary: graph indices)
  case Nil
  then show ?case by simp
next
  case (Cons p ps)
  then have fresh: "map_of indices (pn_name p) = None"
    by (auto simp: dg_add_node_def Let_def split: if_splits)
  with Cons.prems have "insert_nodes_loop ps (graph\<lparr>dg_nodes := dg_nodes graph @ [p]\<rparr>,
      AList.update (pn_name p) (length (dg_nodes graph)) indices) = Inr (graph', indices')"
    by (simp add: dg_add_node_def)
  from Cons.IH[OF this] indexes_snoc[OF Cons.prems(2) fresh] show ?case by auto
qed

lemma insert_nodes_loop_Inl:
  assumes "indexes pn_name (dg_nodes graph) indices"
  shows "(\<exists>e. insert_nodes_loop ps (graph, indices) = Inl e) \<longleftrightarrow>
    \<not> (distinct (map pn_name ps) \<and> pn_name ` set ps \<inter> pn_name ` set (dg_nodes graph) = {})"
  using assms
proof (induction ps arbitrary: graph indices)
  case Nil
  then show ?case by simp
next
  case (Cons p ps)
  show ?case
  proof (cases "map_of indices (pn_name p)")
    case None
    then have "pn_name p \<notin> pn_name ` set (dg_nodes graph)"
      using indexes_keys[OF Cons.prems] by (auto simp: map_of_eq_None_iff)
    then show ?thesis
      using Cons.IH[of "graph\<lparr>dg_nodes := dg_nodes graph @ [p]\<rparr>"] indexes_snoc[OF Cons.prems None] None
      by (auto simp: dg_add_node_def)
  next
    case (Some i)
    then have "pn_name p \<in> pn_name ` set (dg_nodes graph)"
      using indexes_keys[OF Cons.prems] by (metis image_set keys_map_of)
    with Some show ?thesis by (auto simp: dg_add_node_def)
  qed
qed

text \<open>What a manifest declares: \<open>None\<close> when it cannot be read or parsed.\<close>

definition declared_dependencies :: "manifest_io \<Rightarrow> PackageNode \<Rightarrow> PackageName set option" where
  "declared_dependencies io p =
     (case io_read_to_string io (join_path (pn_path p) ''package.json'') of
        Inl _ \<Rightarrow> None
      | Inr contents \<Rightarrow>
          (case io_parse_package_json io contents of
             Inl _ \<Rightarrow> None
           | Inr pj \<Rightarrow> Some (fst ` set (pj_dependencies pj) \<union> fst ` set (pj_dev_dependencies pj))))"

lemma read_names_cases:
  "case declared_dependencies io p of
     None \<Rightarrow> \<exists>e. read_workspace_dependency_names io (pn_path p) names = Inl e
   | Some D \<Rightarrow> \<exists>ds. read_workspace_dependency_names io (pn_path p) names = Inr ds \<and>
        set ds = D \<inter> set names"
  by (auto simp: declared_dependencies_def read_workspace_dependency_names_def Let_def
      split: sum.splits)

lemma edges_to_Inr:
  assumes "set deps \<subseteq> set (map fst indices)"
  shows "\<exists>es. edges_to indices name i deps edges = Inr es \<and>
    set es = set edges \<union> (\<lambda>d. (i, the (map_of indices d))) ` set deps"
  using assms
proof (induction deps arbitrary: edges)
  case Nil
  then show ?case by simp
next
  case (Cons d deps)
  then obtain j where "map_of indices d = Some j" by (auto simp: keys_map_of image_set[symmetric] simp del: image_set)
  with Cons show ?case by fastforce
qed

text \<open>The edges one package contributes.\<close>

definition declared_edges :: "manifest_io \<Rightarrow> (PackageName, nat) hmap \<Rightarrow> nat \<times> PackageNode \<Rightarrow> (nat \<times> nat) set" where
  "declared_edges io indices ip =
     (\<lambda>d. (fst ip, the (map_of indices d))) `
       (the (declared_dependencies io (snd ip)) \<inter> fst ` set indices)"

lemma collect_edges_loop_spec:
  "if \<exists>(i, p) \<in> set ips. declared_dependencies io p = None
   then \<exists>e. collect_edges_loop io indices ips edges = Inl e
   else \<exists>es. collect_edges_loop io indices ips edges = Inr es \<and>
     set es = set edges \<union> (\<Union>ip \<in> set ips. declared_edges io indices ip)"
proof (induction ips arbitrary: edges)
  case Nil
  then show ?case by simp
next
  case (Cons ip ips)
  obtain i p where ip: "ip = (i, p)" by fastforce
  show ?case
  proof (cases "declared_dependencies io p")
    case None
    with read_names_cases[of io p "map fst indices"] ip show ?thesis by auto
  next
    case (Some D)
    with read_names_cases[of io p "map fst indices"] obtain ds where
      ds: "read_workspace_dependency_names io (pn_path p) (map fst indices) = Inr ds"
      "set ds = D \<inter> set (map fst indices)" by auto
    then obtain es where es: "edges_to indices (pn_name p) i ds edges = Inr es"
      "set es = set edges \<union> (\<lambda>d. (i, the (map_of indices d))) ` set ds"
      using edges_to_Inr[of ds indices "pn_name p" i edges] by auto
    have "collect_edges_loop io indices (ip # ips) edges = collect_edges_loop io indices ips es"
      using ds es ip by simp
    moreover have "set es = set edges \<union> declared_edges io indices ip"
      using es(2) ds(2) Some ip by (simp add: declared_edges_def)
    moreover have "(\<exists>(i, p) \<in> set (ip # ips). declared_dependencies io p = None) \<longleftrightarrow>
        (\<exists>(i, p) \<in> set ips. declared_dependencies io p = None)"
      using Some ip by auto
    ultimately show ?thesis
      using Cons.IH[of es] by (auto simp: Un_assoc split: if_splits)
  qed
qed

lemma pg_build_fails_iff:
  "(\<exists>e. pg_build io ps = Inl e) \<longleftrightarrow>
    \<not> distinct (map pn_name ps) \<or> (\<exists>p \<in> set ps. declared_dependencies io p = None)"
proof (cases "insert_nodes ps")
  case (Inl e)
  with insert_nodes_loop_Inl[of dg_empty "[]" ps] show ?thesis
    by (auto simp: pg_build_def insert_nodes_def dg_empty_def indexes_def)
next
  case (Inr gi)
  obtain graph indices where gi: "gi = (graph, indices)" by fastforce
  have im: "indexes pn_name (dg_nodes (dg_empty :: PackageNode digraph)) []" by (simp add: dg_empty_def indexes_def)
  have nodes: "dg_nodes graph = ps"
    using insert_nodes_loop_Inr[OF _ im, of ps graph indices] Inr gi by (simp add: insert_nodes_def dg_empty_def)
  have "distinct (map pn_name ps)"
    using insert_nodes_loop_Inl[OF im, of ps] Inr by (auto simp: insert_nodes_def dg_empty_def)
  moreover have "(\<exists>(i, p) \<in> set (zip [0..<length ps] ps). declared_dependencies io p = None) \<longleftrightarrow>
      (\<exists>p \<in> set ps. declared_dependencies io p = None)"
    by (force simp: set_zip in_set_conv_nth)
  ultimately show ?thesis
    using collect_edges_loop_spec[of "zip [0..<length ps] ps" io indices "[]"] Inr gi nodes
    by (auto simp: pg_build_def collect_dependency_edges_def split: if_splits)
qed

lemma pg_build_Inr:
  assumes "pg_build io ps = Inr g"
  shows "wf_package_graph g" "dg_nodes (pg_graph g) = ps" "pg_root_package g = None"
    "pg_rel g Outgoing =
       {(pn_name p, d) | p d. p \<in> set ps \<and> d \<in> the (declared_dependencies io p) \<and> d \<in> pn_name ` set ps}"
proof -
  obtain graph indices edges where gi: "insert_nodes ps = Inr (graph, indices)"
    and ce: "collect_dependency_edges io graph indices = Inr edges"
    and g: "g = \<lparr>pg_graph = fold (\<lambda>(a, b) g. dg_add_edge g a b) edges graph,
              pg_indices_by_name = indices, pg_root_package = None\<rparr>"
    using assms by (auto simp: pg_build_def bind_result_Inr_iff)
  have im: "indexes pn_name (dg_nodes (dg_empty :: PackageNode digraph)) []" by (simp add: dg_empty_def indexes_def)
  have ins: "dg_nodes graph = ps" "dg_edges graph = []" "indexes pn_name ps indices"
    using insert_nodes_loop_Inr[OF _ im, of ps graph indices] gi by (auto simp: insert_nodes_def dg_empty_def)
  have keys: "fst ` set indices = pn_name ` set ps" using indexes_keys[OF ins(3)] by simp
  have at: "the (map_of indices d) < length ps \<and> pn_name (ps ! the (map_of indices d)) = d"
    if "d \<in> pn_name ` set ps" for d
    using that keys ins(3) by (metis indexes_def keys_map_of option.sel)
  have edges: "set edges = (\<Union>ip \<in> set (zip [0..<length ps] ps). declared_edges io indices ip)"
    using collect_edges_loop_spec[of "zip [0..<length ps] ps" io indices "[]"] ce ins(1)
    by (simp add: collect_dependency_edges_def split: if_splits)
  have g_simps: "dg_nodes (pg_graph g) = ps" "dg_edges (pg_graph g) = edges" by (simp_all add: g ins)
  then show "dg_nodes (pg_graph g) = ps" "pg_root_package g = None" by (simp_all add: g)
  have "wf_digraph (pg_graph g)"
    unfolding wf_digraph_def g_simps edges declared_edges_def keys using at by (auto simp: set_zip)
  then show "wf_package_graph g"
    using ins(3) unfolding wf_package_graph_def g_simps by (simp add: g indexes_def)
  show "pg_rel g Outgoing =
       {(pn_name p, d) | p d. p \<in> set ps \<and> d \<in> the (declared_dependencies io p) \<and> d \<in> pn_name ` set ps}"
    (is "_ = ?R")
  proof -
    have "pg_rel g Outgoing = {(pn_name (ps ! i), d) | i d. i < length ps \<and>
        d \<in> the (declared_dependencies io (ps ! i)) \<and> d \<in> pn_name ` set ps}"
      unfolding pg_rel_def dg_rel.simps g_simps edges declared_edges_def keys
      using at by (fastforce simp: set_zip image_iff)
    also have "\<dots> = ?R" by (fastforce simp: in_set_conv_nth)
    finally show ?thesis .
  qed
qed

lemma pg_topological_order_Inr:
  assumes topo: "toposort_laws topo" and wf: "wf_package_graph g"
    and r: "pg_topological_order topo g = Inr ns"
  shows "set ns = set (dg_nodes (pg_graph g))" "distinct (map pn_name ns)"
    "ns = xs @ p # ys \<Longrightarrow> (pn_name p, d) \<in> pg_rel g Outgoing \<Longrightarrow> d \<in> pn_name ` set xs"
proof -
  from r obtain os where os: "topo (length (dg_nodes (pg_graph g))) (dg_edges (pg_graph g)) = Inr os"
    "ns = map (pg_weight g) (rev os)"
    by (auto simp: pg_topological_order_def split: sum.splits)
  note order = named_order[OF topo wf_package_named[OF wf] os]
  show "set ns = set (dg_nodes (pg_graph g))" "distinct (map pn_name ns)" by (fact order)+
  show "ns = xs @ p # ys \<Longrightarrow> (pn_name p, d) \<in> pg_rel g Outgoing \<Longrightarrow> d \<in> pn_name ` set xs"
    unfolding pg_rel_named by (rule order(3))
qed

lemma pg_topological_order_fails_iff:
  assumes topo: "toposort_laws topo" and wf: "wf_package_graph g"
  shows "(\<exists>e. pg_topological_order topo g = Inl e) \<longleftrightarrow> \<not> acyclic (pg_rel g Outgoing)"
  using named_sorts_iff[OF topo wf_package_named[OF wf]]
  by (auto simp: pg_topological_order_def pg_rel_named split: sum.splits)

section \<open>What other components rely on\<close>

text \<open>
  The dependency queries a client may make of a package graph: every known package has a
  dependency list, and the lists are the edges of a relation on the known names.
\<close>

locale package_source =
  fixes invar :: "'g \<Rightarrow> bool" and names :: "'g \<Rightarrow> PackageName set"
    and deps :: "'g \<Rightarrow> PackageName \<Rightarrow> 'e + PackageNode list"
    and rel :: "'g \<Rightarrow> (PackageName \<times> PackageName) set"
  assumes deps_known: "invar g \<Longrightarrow> n \<in> names g \<longleftrightarrow> (\<exists>ds. deps g n = Inr ds)"
    and deps_rel: "invar g \<Longrightarrow> deps g n = Inr ds \<Longrightarrow> pn_name ` set ds = rel g `` {n}"
    and rel_names: "invar g \<Longrightarrow> rel g \<subseteq> names g \<times> names g"
begin

lemma reach_names:
  assumes "(n, m) \<in> (rel g)\<^sup>*" "invar g" "n \<in> names g"
  shows "m \<in> names g"
  using assms by (induction rule: rtrancl_induct) (use rel_names in blast)+

lemma reach_plus_names:
  assumes "(n, m) \<in> (rel g)\<^sup>+" "invar g"
  shows "m \<in> names g"
  using assms by (induction rule: trancl_induct) (use rel_names in blast)+

end

interpretation pgs: package_source wf_package_graph pg_names pg_dependencies_of "\<lambda>g. pg_rel g Outgoing"
proof unfold_locales
  fix g n
  assume "wf_package_graph g"
  then show "n \<in> pg_names g \<longleftrightarrow> (\<exists>ds. pg_dependencies_of g n = Inr ds)"
    using pg_node_index_Inl[of g n] by (cases "pg_node_index g n") (auto simp: pg_dependencies_of_def)
qed (use pg_dependencies_of_names pg_rel_names in blast)+

section \<open>Properties\<close>

text \<open>A package graph that builds holds exactly the given packages with an index that inverts
  the node table, and its dependency edges are exactly the manifest dependencies and
  development dependencies that name a package of the workspace.\<close>

lemma pg_build_correct:
  assumes "pg_build io ps = Inr g"
  shows "wf_package_graph g \<and> dg_nodes (pg_graph g) = ps \<and>
    pg_rel g Outgoing =
      {(pn_name p, d) | p d. p \<in> set ps \<and> d \<in> the (declared_dependencies io p) \<and> d \<in> pn_name ` set ps}"
  using pg_build_Inr[OF assms] by blast

definition example_io :: manifest_io where
  "example_io =
     \<lparr>io_read_to_string = Inr,
      io_parse_package_json = (\<lambda>c. Inr
        \<lparr>pj_dependencies = (if c = ''ui/package.json'' then [(''core'', ''*''), (''react'', ''*'')] else []),
         pj_dev_dependencies = []\<rparr>)\<rparr>"

definition example_packages :: "PackageNode list" where
  "example_packages = [\<lparr>pn_name = ''ui'', pn_path = ''ui'', pn_scripts = [''build'']\<rparr>,
     \<lparr>pn_name = ''core'', pn_path = ''core'', pn_scripts = []\<rparr>]"

definition example_graph :: PackageGraph where
  "example_graph = \<lparr>pg_graph = \<lparr>dg_nodes = example_packages, dg_edges = [(0, 1)]\<rparr>,
     pg_indices_by_name = [(''ui'', 0), (''core'', 1)], pg_root_package = None\<rparr>"

lemma example_build: "pg_build example_io example_packages = Inr example_graph"
  by (simp add: pg_build_def insert_nodes_def collect_dependency_edges_def example_packages_def
      dg_add_node_def dg_empty_def dg_add_edge_def example_io_def example_graph_def Let_def
      read_workspace_dependency_names_def join_path_def set_insert_def upt_rec)

lemma example_wf: "wf_package_graph example_graph"
  by (rule pg_build_Inr(1)[OF example_build])

lemma example_rel: "(''ui'', ''core'') \<in> pg_rel example_graph Outgoing"
  by (simp add: pg_rel_def example_graph_def example_packages_def)

lemma pg_build_correct_witness:
  "pg_build example_io example_packages = Inr example_graph \<and> wf_package_graph example_graph \<and>
   (''ui'', ''core'') \<in> pg_rel example_graph Outgoing"
  using example_build pg_build_correct[OF example_build] example_rel by blast

text \<open>Building a package graph fails exactly when two packages share a name or when some
  package's manifest cannot be read or parsed.\<close>

lemma pg_build_fails_exactly:
  "(\<exists>e. pg_build io ps = Inl e) \<longleftrightarrow>
    \<not> distinct (map pn_name ps) \<or> (\<exists>p \<in> set ps. declared_dependencies io p = None)"
  by (rule pg_build_fails_iff)

lemma pg_build_fails_exactly_witness:
  "(\<exists>e. pg_build example_io (example_packages @ example_packages) = Inl e) \<and>
   \<not> (\<exists>e. pg_build example_io example_packages = Inl e)"
  unfolding pg_build_fails_exactly
  by (simp add: example_packages_def declared_dependencies_def example_io_def)

text \<open>The transitive queries always return, and return exactly the reflexive-transitive
  closure of the dependency relation (backwards for dependents) from those seeds that are
  packages of the graph; unknown seeds are ignored.\<close>

lemma transitive_queries_correct:
  assumes "wf_package_graph g"
  shows "\<exists>up down. transitive_dependents_of g seeds = Inr up \<and>
    transitive_dependencies_of g name = Inr down \<and>
    set up = {p. \<exists>s \<in> set seeds \<inter> pg_names g. (p, s) \<in> (pg_rel g Outgoing)\<^sup>*} \<and>
    set down = {p. name \<in> pg_names g \<and> (name, p) \<in> (pg_rel g Outgoing)\<^sup>*}"
proof -
  obtain up down where r: "transitive_dependents_of g seeds = Inr up"
    "transitive_dependencies_of g name = Inr down"
    unfolding transitive_dependents_of_def transitive_dependencies_of_def
    using transitive_neighbors_total by meson
  show ?thesis
    using r transitive_neighbors_names[OF assms, of seeds Incoming up]
      transitive_neighbors_names[OF assms, of "[name]" Outgoing down]
    by (auto simp: transitive_dependents_of_def transitive_dependencies_of_def pg_rel_converse
        rtrancl_converse)
qed

lemma transitive_queries_correct_witness:
  "wf_package_graph example_graph \<and>
   (\<exists>up. transitive_dependents_of example_graph [''core'', ''zed''] = Inr up \<and> ''ui'' \<in> set up)"
proof -
  have "''core'' \<in> pg_names example_graph"
    by (simp add: pg_names_def example_graph_def example_packages_def)
  with example_rel show ?thesis
    using example_wf transitive_queries_correct[OF example_wf, of "[''core'', ''zed'']" "''ui''"]
    by fastforce
qed

text \<open>The build order lists every package once, each after all the packages it depends on,
  and it exists exactly when the dependency relation has no cycle.\<close>

lemma build_order_correct:
  assumes "toposort_laws topo" and "wf_package_graph g"
  shows "((\<exists>ns. pg_topological_order topo g = Inr ns) \<longleftrightarrow> acyclic (pg_rel g Outgoing)) \<and>
    (\<forall>ns. pg_topological_order topo g = Inr ns \<longrightarrow>
      set ns = set (dg_nodes (pg_graph g)) \<and> distinct (map pn_name ns) \<and>
      (\<forall>xs p ys. ns = xs @ p # ys \<longrightarrow> pg_rel g Outgoing `` {pn_name p} \<subseteq> pn_name ` set xs))"
proof -
  have "(\<exists>ns. pg_topological_order topo g = Inr ns) \<longleftrightarrow> acyclic (pg_rel g Outgoing)"
    using pg_topological_order_fails_iff[OF assms] by (cases "pg_topological_order topo g") auto
  then show ?thesis using pg_topological_order_Inr[OF assms] by (auto simp: Image_singleton_iff)
qed

lemma build_order_correct_witness:
  "toposort_laws ref_toposort \<and> wf_package_graph example_graph \<and>
   pg_topological_order ref_toposort example_graph = Inr (rev example_packages) \<and>
   acyclic (pg_rel example_graph Outgoing)"
proof -
  have r: "pg_topological_order ref_toposort example_graph = Inr (rev example_packages)"
    by (simp add: pg_topological_order_def ref_toposort_def ref_sort.simps no_pred_def upt_rec
        example_graph_def example_packages_def)
  show ?thesis
    using ref.toposort_laws_axioms example_wf r
      build_order_correct[OF ref.toposort_laws_axioms example_wf] by blast
qed

end
