(* ===== verification/Protocol.thy ===== *)
theory Protocol
  imports PackageGraph
begin

text \<open>
  The resolve half of the worker protocol (\<open>crates/luchta-worker/src/lib.rs\<close>) and the error
  types of the engine (\<open>crates/luchta-engine\<close>): what the engine asks a worker about a task, and
  what the worker may answer. An \<open>io::Error\<close> is its message.
\<close>

datatype ResolveMode = Run | Check

record ResolveTask =
  rt_id :: string
  rt_name :: string
  rt_command :: string
  rt_package :: string
  rt_cwd :: "string option"
  rt_scripts :: "string list"
  rt_inputs :: "string list"
  rt_mode :: ResolveMode

record TaskModification =
  tm_command :: "string option"
  tm_depends_on :: "DependsOn list option"
  tm_weight :: "u32 option"
  tm_dependencies :: "string list option"
  tm_inputs :: "string list option"
  tm_tool_version :: "string option"

datatype ResolveDecision =
    Accept
  | Modify TaskModification
  | Prune "string option"
  | Reject string

record ResolveResult =
  rr_decision :: ResolveDecision

definition modification_default :: TaskModification where
  "modification_default =
     \<lparr>tm_command = None, tm_depends_on = None, tm_weight = None, tm_dependencies = None,
      tm_inputs = None, tm_tool_version = None\<rparr>"

definition modify_command :: "string \<Rightarrow> ResolveResult" where
  "modify_command command =
     \<lparr>rr_decision = Modify (modification_default\<lparr>tm_command := Some command\<rparr>)\<rparr>"

definition apply_to :: "TaskModification \<Rightarrow> TaskDefinition \<Rightarrow> TaskDefinition" where
  "apply_to m d =
     (let d1 = (case tm_command m of Some c \<Rightarrow> d\<lparr>td_command := Some c\<rparr> | None \<Rightarrow> d);
          d2 = (case tm_depends_on m of Some ds \<Rightarrow> d1\<lparr>td_depends_on := ds\<rparr> | None \<Rightarrow> d1);
          d3 = (case tm_weight m of Some w \<Rightarrow> d2\<lparr>td_weight := w\<rparr> | None \<Rightarrow> d2);
          d4 = (case tm_dependencies m of Some ds \<Rightarrow> d3\<lparr>td_dependencies := ds\<rparr> | None \<Rightarrow> d3);
          d5 = (case tm_inputs m of Some i \<Rightarrow> d4\<lparr>td_inputs := i\<rparr> | None \<Rightarrow> d4)
      in (case tm_tool_version m of Some v \<Rightarrow> d5\<lparr>td_tool_version := Some v\<rparr> | None \<Rightarrow> d5))"

text \<open>\<open>split_whitespace().next()\<close>: skip leading white space, then take up to the next one.\<close>

fun take_token :: "string \<Rightarrow> string" where
  "take_token [] = []"
| "take_token (c # cs) = (if strip_any ws_seqs (c # cs) \<noteq> None then [] else c # take_token cs)"

definition first_token :: "string \<Rightarrow> string option" where
  "first_token s =
     (let r = trim_with ws_seqs s in if r = [] then None else Some (take_token r))"

definition resolved_script_name :: "ResolveTask \<Rightarrow> string" where
  "resolved_script_name t =
     (let resolved = resolve_script_name (Some (rt_command t)) (rt_name t) in
      case first_token resolved of Some tok \<Rightarrow> tok | None \<Rightarrow> rt_name t)"

section \<open>Errors\<close>

datatype WorkerError =
    Undefined string
  | WorkerSpawn string string string
  | Crashed string string "string option" string
  | ProtocolError string string string
  | Unsupported string string

datatype ExecutorError =
    Spawn string string
  | Wait string string
  | StdoutRead string string
  | MissingWorkerManager string string
  | StderrRead string string
  | Worker string WorkerError
  | MissingCommand string

datatype ResolveError =
    WorkerFailed TaskId string
  | Rejected TaskId string

datatype EngineError =
    EngineExecutor ExecutorError
  | EngineWorkspace WorkspaceError
  | TaskGraphCycle TaskId
  | EngineResolve ResolveError

section \<open>Lemmas\<close>

text \<open>A modification never touches the worker, the cache configuration, the outputs, the
  declared cache files or the environment of a task.\<close>

lemma apply_to_frame [simp]:
  "td_worker (apply_to m d) = td_worker d"
  "td_cache (apply_to m d) = td_cache d"
  "td_outputs (apply_to m d) = td_outputs d"
  "td_cache_files (apply_to m d) = td_cache_files d"
  "td_env (apply_to m d) = td_env d"
  "td_description (apply_to m d) = td_description d"
  by (simp_all add: apply_to_def Let_def split: option.split)

lemma apply_to_values:
  "td_command (apply_to m d) = (if tm_command m \<noteq> None then tm_command m else td_command d)"
  "td_depends_on (apply_to m d) = (case tm_depends_on m of Some x \<Rightarrow> x | None \<Rightarrow> td_depends_on d)"
  "td_weight (apply_to m d) = (case tm_weight m of Some x \<Rightarrow> x | None \<Rightarrow> td_weight d)"
  "td_inputs (apply_to m d) = (case tm_inputs m of Some x \<Rightarrow> x | None \<Rightarrow> td_inputs d)"
  by (simp_all add: apply_to_def Let_def split: option.split)

end
