(* ===== verification/Pipeline.thy ===== *)
theory Pipeline
  imports Protocol "HOL-Library.Multiset"
begin

text \<open>
  The resolved pipeline of \<open>crates/luchta-engine/src/task_graph.rs\<close>: expanding the configured
  tasks over the packages, asking the workers about every task, injecting the workers' own
  dependencies, and removing what was pruned. The worker round-trips run concurrently; the
  order in which they complete is the argument \<open>sched\<close>, and a worker's answer to a request is
  the argument \<open>resolver\<close>.
\<close>

datatype PipelineKey =
    GlobalKey TaskName
  | PackageKey PackageName TaskName
  | RootKey TaskName

record ResolvedPipeline =
  rp_tasks_by_id :: "(TaskId, TaskDefinition) hmap"
  rp_task_names_by_package :: "(PackageName, TaskName list) hmap"
  rp_root_task_names :: "TaskName list"
  rp_prune_reasons_by_id :: "(TaskId, string) hmap"
  rp_inputs_from_worker_by_id :: "(TaskId, bool) hmap"

definition root_package_name :: PackageName where
  "root_package_name = ROOT_PACKAGE_NAME"

definition root_task_id :: "TaskName \<Rightarrow> TaskId" where
  "root_task_id task_name = task_id_new root_package_name task_name"

definition is_root_task :: "TaskId \<Rightarrow> bool" where
  "is_root_task task_id \<longleftrightarrow> task_is_root task_id"

definition has_non_blank_command :: "TaskDefinition \<Rightarrow> bool" where
  "has_non_blank_command d \<longleftrightarrow>
     (case map_option trim (td_command d) of Some c \<Rightarrow> c \<noteq> [] | None \<Rightarrow> False)"

section \<open>Expanding the configuration\<close>

definition parse_pipeline_key :: "PackageName list \<Rightarrow> string \<Rightarrow> PipelineKey option" where
  "parse_pipeline_key package_names key_str =
     (case strip_prefix ''#'' key_str of
        Some task \<Rightarrow> (if task = [] then None else Some (RootKey task))
      | None \<Rightarrow>
     (case split_once (CHR ''#'') key_str of
        Some (package, task) \<Rightarrow>
          (if package = [] \<or> task = [] \<or> package \<notin> set package_names then None
           else Some (PackageKey package task))
      | None \<Rightarrow> Some (GlobalKey key_str)))"

definition parse_pipeline_entries ::
  "(TaskName, TaskDefinition) hmap \<Rightarrow> PackageName list \<Rightarrow> (PipelineKey \<times> TaskDefinition) list" where
  "parse_pipeline_entries pipeline package_names =
     List.map_filter (\<lambda>(raw_key, definition).
       map_option (\<lambda>key. (key, definition)) (parse_pipeline_key package_names raw_key)) pipeline"

record task_tables =
  tt_global :: "(TaskName, TaskDefinition) hmap"
  tt_package :: "(PackageName \<times> TaskName, TaskDefinition) hmap"
  tt_root :: "(TaskName, TaskDefinition) hmap"

fun add_entry :: "PipelineKey \<times> TaskDefinition \<Rightarrow> task_tables \<Rightarrow> task_tables" where
  "add_entry (GlobalKey task, d) tt = tt\<lparr>tt_global := AList.update task d (tt_global tt)\<rparr>"
| "add_entry (PackageKey package task, d) tt =
     tt\<lparr>tt_package := AList.update (package, task) d (tt_package tt)\<rparr>"
| "add_entry (RootKey task, d) tt = tt\<lparr>tt_root := AList.update task d (tt_root tt)\<rparr>"

type_synonym expansion =
  "(TaskId, TaskDefinition) hmap \<times> (PackageName, TaskName list) hmap"

text \<open>One package: the global tasks, unless it is the workspace root, then its own tasks, which
  replace global ones of the same name.\<close>

definition package_entries ::
  "task_tables \<Rightarrow> PackageName option \<Rightarrow> PackageName \<Rightarrow> (TaskName \<times> TaskDefinition) list" where
  "package_entries tt root_package package_name =
     (if root_package = Some package_name then [] else tt_global tt) @
     map (\<lambda>((_, task_name), d). (task_name, d))
       (filter (\<lambda>((package, _), _). package = package_name) (tt_package tt))"

fun expand_package ::
  "task_tables \<Rightarrow> PackageName option \<Rightarrow> PackageName \<Rightarrow> expansion \<Rightarrow> expansion" where
  "expand_package tt root_package package_name (tasks_by_id, names_by_package) =
     (let entries = package_entries tt root_package package_name;
          tasks = fold (\<lambda>(t, d) m. AList.update (task_id_new package_name t) d m) entries tasks_by_id;
          task_names = fold (\<lambda>(t, _) ns. set_insert t ns) entries []
      in (tasks, if task_names = [] then names_by_package
                 else AList.update package_name task_names names_by_package))"

definition resolved_pipeline_build ::
  "toposort \<Rightarrow> PackageGraph \<Rightarrow> (TaskName, TaskDefinition) hmap \<Rightarrow> EngineError + ResolvedPipeline" where
  "resolved_pipeline_build topo package_graph pipeline =
     (case pg_topological_order topo package_graph of
        Inl e \<Rightarrow> Inl (EngineWorkspace e)
      | Inr packages \<Rightarrow>
          (let package_names = map pn_name packages;
               tt = fold add_entry (parse_pipeline_entries pipeline (remdups package_names))
                      \<lparr>tt_global = [], tt_package = [], tt_root = []\<rparr>;
               (tasks, names_by_package) =
                 fold (expand_package tt (pg_root_package package_graph)) package_names ([], []);
               tasks_by_id = fold (\<lambda>(t, d) m. AList.update (root_task_id t) d m) (tt_root tt) tasks;
               root_task_names = fold (\<lambda>(t, _) ns. set_insert t ns) (tt_root tt) []
           in Inr \<lparr>rp_tasks_by_id = tasks_by_id, rp_task_names_by_package = names_by_package,
                   rp_root_task_names = root_task_names, rp_prune_reasons_by_id = [],
                   rp_inputs_from_worker_by_id = []\<rparr>))"

section \<open>Asking the workers\<close>

record PackageResolveInfo =
  pri_cwd :: "string option"
  pri_scripts :: "string list"

definition resolve_info_from_node :: "PackageNode \<Rightarrow> PackageResolveInfo" where
  "resolve_info_from_node p = \<lparr>pri_cwd = Some (pn_path p), pri_scripts = sort (pn_scripts p)\<rparr>"

definition map_from_packages :: "PackageNode list \<Rightarrow> (PackageName, PackageResolveInfo) hmap" where
  "map_from_packages packages =
     collect_map (map (\<lambda>p. (pn_name p, resolve_info_from_node p)) packages)"

definition map_from_packages_with_root ::
  "PackageNode list \<Rightarrow> string \<Rightarrow> (PackageName, PackageResolveInfo) hmap" where
  "map_from_packages_with_root packages workspace_root =
     (case List.find (\<lambda>p. pn_path p = workspace_root) packages of
        Some root \<Rightarrow> AList.update ROOT_PACKAGE_NAME (resolve_info_from_node root) (map_from_packages packages)
      | None \<Rightarrow> map_from_packages packages)"

type_synonym resolve_request = "TaskId \<times> string \<times> ResolveTask"
type_synonym resolver = "string \<Rightarrow> ResolveTask \<Rightarrow> string + ResolveResult"
type_synonym scheduler = "TaskId list \<Rightarrow> nat"
type_synonym outcomes = "(TaskId, string + ResolveResult) hmap"

definition resolve_request_for ::
  "(PackageName, PackageResolveInfo) hmap \<Rightarrow> ResolveMode \<Rightarrow> TaskId \<Rightarrow> TaskDefinition \<Rightarrow> ResolveTask" where
  "resolve_request_for packages mode task_id d =
     (let info = map_of packages (tid_package task_id) in
      \<lparr>rt_id = task_id_to_string task_id, rt_name = tid_task task_id,
       rt_command = (case td_command d of Some c \<Rightarrow> trim c | None \<Rightarrow> []),
       rt_package = tid_package task_id,
       rt_cwd = Option.bind info pri_cwd,
       rt_scripts = (case info of Some i \<Rightarrow> pri_scripts i | None \<Rightarrow> []),
       rt_inputs = td_inputs d, rt_mode = mode\<rparr>)"

text \<open>Phase 1: one request per task that has a worker, in the order of the printed ids.\<close>

definition resolve_requests ::
  "(PackageName, PackageResolveInfo) hmap \<Rightarrow> ResolveMode \<Rightarrow> ResolvedPipeline \<Rightarrow> resolve_request list" where
  "resolve_requests packages mode rp =
     List.map_filter (\<lambda>(task_id, d). map_option (\<lambda>worker.
         (task_id, worker, resolve_request_for packages mode task_id d)) (td_worker d))
       (sort_key (\<lambda>(task_id, _). task_id_to_string task_id) (rp_tasks_by_id rp))"

text \<open>
  Phase 2: at most \<open>max_in_flight\<close> round-trips are pending; whichever completes next is replaced
  by the next request. \<open>sched\<close> picks the one that completes from the tasks in flight.
\<close>

lemma pool_shrinks:
  fixes i rq :: "'a list"
  assumes "i \<noteq> []"
  shows "length rq - Suc 0 + (n mod length i + (length i - Suc (n mod length i) +
    min (length rq) (Suc 0))) < length rq + length i"
proof -
  have "n mod length i < length i" using assms by simp
  then show ?thesis by (cases rq) auto
qed

function pool_loop :: "scheduler \<Rightarrow> resolver \<Rightarrow> resolve_request list \<Rightarrow> resolve_request list \<Rightarrow>
    outcomes \<Rightarrow> outcomes" where
  "pool_loop sched resolver requests in_flight outs =
     (if in_flight = [] then outs
      else let k = sched (map fst in_flight) mod length in_flight;
               (task_id, worker, request) = in_flight ! k;
               outs' = AList.update task_id (resolver worker request) outs;
               rest = take k in_flight @ drop (Suc k) in_flight
           in pool_loop sched resolver (drop 1 requests) (rest @ take 1 requests) outs')"
  by pat_completeness auto
termination
  by (relation "measure (\<lambda>(_, _, requests, in_flight, _). length requests + length in_flight)")
     (auto simp: pool_shrinks)

declare pool_loop.simps [simp del]

definition run_pool :: "scheduler \<Rightarrow> resolver \<Rightarrow> nat \<Rightarrow> resolve_request list \<Rightarrow> outcomes" where
  "run_pool sched resolver max_in_flight requests =
     pool_loop sched resolver (drop max_in_flight requests) (take max_in_flight requests) []"

datatype PruneOutcome = Pruned "string option" | PruneRejected string

record PrunedTask =
  pt_task_id :: TaskId
  pt_outcome :: PruneOutcome

fun describe :: "PruneOutcome \<Rightarrow> string" where
  "describe (Pruned (Some reason)) = reason"
| "describe (Pruned None) = ''pruned by worker''"
| "describe (PruneRejected message) = message"

fun is_rejected :: "PruneOutcome \<Rightarrow> bool" where
  "is_rejected (PruneRejected _) = True"
| "is_rejected (Pruned _) = False"

definition modify_task :: "TaskId \<Rightarrow> TaskModification \<Rightarrow> ResolvedPipeline \<Rightarrow> ResolvedPipeline" where
  "modify_task task_id m rp =
     (let rp1 = (if tm_inputs m \<noteq> None
                 then rp\<lparr>rp_inputs_from_worker_by_id :=
                        AList.update task_id True (rp_inputs_from_worker_by_id rp)\<rparr>
                 else rp)
      in rp1\<lparr>rp_tasks_by_id :=
            map (\<lambda>(k, d). if k = task_id then (k, apply_to m d) else (k, d)) (rp_tasks_by_id rp1)\<rparr>)"

text \<open>Phase 3: apply the outcomes one after the other; the first failure ends the phase.\<close>

fun apply_outcomes :: "ResolveMode \<Rightarrow> (TaskId \<times> (string + ResolveResult)) list \<Rightarrow>
    ResolvedPipeline \<Rightarrow> PrunedTask list \<Rightarrow> ResolveError + (ResolvedPipeline \<times> PrunedTask list)" where
  "apply_outcomes mode [] rp pruned = Inr (rp, pruned)"
| "apply_outcomes mode ((task_id, outcome) # rest) rp pruned =
     (case outcome of
        Inl message \<Rightarrow> Inl (WorkerFailed task_id message)
      | Inr result \<Rightarrow>
     (case rr_decision result of
        Accept \<Rightarrow> apply_outcomes mode rest rp pruned
      | Modify m \<Rightarrow> apply_outcomes mode rest (modify_task task_id m rp) pruned
      | Prune reason \<Rightarrow> apply_outcomes mode rest rp
          (pruned @ [\<lparr>pt_task_id = task_id, pt_outcome = Pruned reason\<rparr>])
      | Reject message \<Rightarrow>
          (if mode = Check then Inl (Rejected task_id message)
           else apply_outcomes mode rest rp
             (pruned @ [\<lparr>pt_task_id = task_id, pt_outcome = PruneRejected message\<rparr>]))))"

definition sorted_outcomes :: "outcomes \<Rightarrow> outcomes" where
  "sorted_outcomes outs = sort_key (\<lambda>(task_id, _). task_id_to_string task_id) outs"

definition pipeline_resolve :: "scheduler \<Rightarrow> nat \<Rightarrow> (PackageName, PackageResolveInfo) hmap \<Rightarrow>
    resolver \<Rightarrow> ResolveMode \<Rightarrow> ResolvedPipeline \<Rightarrow> ResolveError + (ResolvedPipeline \<times> PrunedTask list)" where
  "pipeline_resolve sched parallelism packages resolver mode rp =
     (let requests = resolve_requests packages mode rp;
          outs = run_pool sched resolver (max parallelism 1) requests
      in apply_outcomes mode (sorted_outcomes outs) rp [])"

section \<open>Injecting and pruning\<close>

fun push_new_deps :: "DependsOn list \<Rightarrow> DependsOn list \<Rightarrow> DependsOn list" where
  "push_new_deps [] deps = deps"
| "push_new_deps (dep # rest) deps =
     (if dep \<in> set deps then push_new_deps rest deps else push_new_deps rest (deps @ [dep]))"

definition inject_into :: "(string, WorkerDefinition) hmap \<Rightarrow> TaskDefinition \<Rightarrow> TaskDefinition" where
  "inject_into worker_definitions d =
     (case td_worker d of
        None \<Rightarrow> d
      | Some worker_name \<Rightarrow>
     (case map_of worker_definitions worker_name of
        None \<Rightarrow> d
      | Some worker_def \<Rightarrow>
          (if wd_depends_on worker_def = [] then d
           else d\<lparr>td_depends_on := push_new_deps (wd_depends_on worker_def) (td_depends_on d)\<rparr>)))"

definition inject_worker_dependencies ::
  "(string, WorkerDefinition) hmap \<Rightarrow> ResolvedPipeline \<Rightarrow> ResolvedPipeline" where
  "inject_worker_dependencies worker_definitions rp =
     rp\<lparr>rp_tasks_by_id := map (\<lambda>(k, d). (k, inject_into worker_definitions d)) (rp_tasks_by_id rp)\<rparr>"

definition apply_prune :: "PrunedTask \<Rightarrow> ResolvedPipeline \<Rightarrow> ResolvedPipeline" where
  "apply_prune entry rp =
     (let task_id = pt_task_id entry;
          names = (case map_of (rp_task_names_by_package rp) (tid_package task_id) of
                     None \<Rightarrow> rp_task_names_by_package rp
                   | Some task_names \<Rightarrow>
                       (let left = removeAll (tid_task task_id) task_names in
                        if left = [] then AList.delete (tid_package task_id) (rp_task_names_by_package rp)
                        else AList.update (tid_package task_id) left (rp_task_names_by_package rp)))
      in rp\<lparr>rp_prune_reasons_by_id :=
              AList.update task_id (describe (pt_outcome entry)) (rp_prune_reasons_by_id rp),
            rp_tasks_by_id := AList.delete task_id (rp_tasks_by_id rp),
            rp_task_names_by_package := names,
            rp_root_task_names := (if is_root_task task_id
                                   then removeAll (tid_task task_id) (rp_root_task_names rp)
                                   else rp_root_task_names rp)\<rparr>)"

definition apply_prunes :: "PrunedTask list \<Rightarrow> ResolvedPipeline \<Rightarrow> ResolvedPipeline \<times> TaskId list" where
  "apply_prunes pruned rp =
     (fold apply_prune pruned rp, fold (\<lambda>e s. set_insert (pt_task_id e) s) pruned [])"

definition prune_reason :: "ResolvedPipeline \<Rightarrow> TaskId \<Rightarrow> string option" where
  "prune_reason rp task_id = map_of (rp_prune_reasons_by_id rp) task_id"

definition contains_package_task :: "ResolvedPipeline \<Rightarrow> PackageName \<Rightarrow> TaskName \<Rightarrow> bool" where
  "contains_package_task rp package_name task_name \<longleftrightarrow>
     (case map_of (rp_task_names_by_package rp) package_name of
        Some task_names \<Rightarrow> task_name \<in> set task_names
      | None \<Rightarrow> False)"

definition contains_root_task :: "ResolvedPipeline \<Rightarrow> TaskName \<Rightarrow> bool" where
  "contains_root_task rp task_name \<longleftrightarrow> task_name \<in> set (rp_root_task_names rp)"

definition task_exists_in_any_package :: "ResolvedPipeline \<Rightarrow> TaskName \<Rightarrow> bool" where
  "task_exists_in_any_package rp task_name \<longleftrightarrow>
     (\<exists>(_, task_names) \<in> set (rp_task_names_by_package rp). task_name \<in> set task_names)"

section \<open>The pool of round-trips\<close>

lemma take_drop_nth_set:
  assumes "k < length xs"
  shows "mset (take k xs @ drop (Suc k) xs) + {#xs ! k#} = mset xs"
proof -
  have "xs = take k xs @ xs ! k # drop (Suc k) xs" using assms by (rule id_take_nth_drop)
  then have "mset xs = mset (take k xs @ xs ! k # drop (Suc k) xs)" by (rule arg_cong)
  then show ?thesis by simp
qed

definition answer :: "resolver \<Rightarrow> resolve_request \<Rightarrow> TaskId \<times> (string + ResolveResult)" where
  "answer resolver req = (case req of (task_id, worker, request) \<Rightarrow> (task_id, resolver worker request))"

lemma fst_answer [simp]: "fst (answer resolver req) = fst req"
  by (simp add: answer_def split: prod.splits)

lemma distinct_mset_eq: "mset xs = mset ys \<Longrightarrow> distinct xs \<longleftrightarrow> distinct ys"
  by (metis distinct_count_atmost_1 set_mset_mset)

text \<open>Whatever completes first, the pool ends with every request answered exactly once.\<close>

lemma pool_loop_outcomes:
  assumes "distinct (map fst (requests @ in_flight) @ map fst outs)" "in_flight = [] \<Longrightarrow> requests = []"
  shows "mset (pool_loop sched resolver requests in_flight outs) =
    mset outs + mset (map (answer resolver) (requests @ in_flight))"
  using assms
proof (induction sched resolver requests in_flight outs rule: pool_loop.induct)
  case (1 sched resolver requests in_flight outs)
  show ?case
  proof (cases "in_flight = []")
    case True
    with 1(3) show ?thesis by (simp add: pool_loop.simps[of _ _ _ "[]"])
  next
    case False
    define k where "k = sched (map fst in_flight) mod length in_flight"
    have k: "k < length in_flight" using False by (simp add: k_def)
    obtain t w r where twr: "in_flight ! k = (t, w, r)" by (metis prod_cases3)
    define rest where "rest = take k in_flight @ drop (Suc k) in_flight"
    have fl: "mset in_flight = mset rest + {#(t, w, r)#}"
      using take_drop_nth_set[OF k] by (simp add: rest_def twr)
    have t_in: "(t, w, r) \<in> set in_flight" using k twr by (metis nth_mem)
    then have fresh: "t \<notin> fst ` set outs" using 1(2) by (force simp: image_iff)
    let ?outs = "AList.update t (resolver w r) outs"
    have outs: "?outs = outs @ [(t, resolver w r)]" using fresh by (rule update_fresh)
    have rq: "mset requests = mset (drop 1 requests) + mset (take 1 requests)" by (cases requests) auto
    have ms: "mset (map fst (drop 1 requests @ rest @ take 1 requests) @ map fst ?outs) =
        mset (map fst (requests @ in_flight) @ map fst outs)"
      using arg_cong[OF fl, of "image_mset fst"] arg_cong[OF rq, of "image_mset fst"]
      by (simp add: outs mset_map[symmetric] del: mset_map)
    have d: "distinct (map fst (drop 1 requests @ rest @ take 1 requests) @ map fst ?outs)"
      using distinct_mset_eq[OF ms] 1(2) by blast
    have ne: "rest @ take 1 requests = [] \<Longrightarrow> drop 1 requests = []" by (cases requests) auto
    have "mset (pool_loop sched resolver requests in_flight outs) =
        mset (pool_loop sched resolver (drop 1 requests) (rest @ take 1 requests) ?outs)"
      using False by (subst pool_loop.simps) (simp add: Let_def k_def[symmetric] twr rest_def)
    also have "\<dots> = mset ?outs + mset (map (answer resolver) (drop 1 requests @ rest @ take 1 requests))"
      using 1(1)[OF False k_def twr[symmetric] refl refl refl rest_def] d ne by simp
    also have "\<dots> = mset outs + mset (map (answer resolver) (requests @ in_flight))"
      using arg_cong[OF fl, of "image_mset (answer resolver)"] arg_cong[OF rq, of "image_mset (answer resolver)"]
      by (simp add: outs answer_def mset_map[symmetric] del: mset_map)
    finally show ?thesis .
  qed
qed

lemma run_pool_outcomes:
  assumes "distinct (map fst requests)" "0 < max_in_flight"
  shows "mset (run_pool sched resolver max_in_flight requests) = mset (map (answer resolver) requests)"
proof -
  have "mset (drop max_in_flight requests @ take max_in_flight requests) = mset requests"
    by (metis append_take_drop_id mset_append union_commute)
  moreover have "distinct (map fst (drop max_in_flight requests @ take max_in_flight requests) @ map fst ([] :: outcomes))"
    using assms(1) distinct_mset_eq[of "map fst (drop max_in_flight requests @ take max_in_flight requests)" "map fst requests"]
      calculation by (metis append_Nil2 list.simps(8) mset_map)
  ultimately show ?thesis
    unfolding run_pool_def using assms(2)
    by (subst pool_loop_outcomes) (auto simp flip: mset_append map_append simp del: mset_append map_append)
qed

section \<open>Resolution equals its sequential form\<close>

text \<open>Asking one worker after the other, in the order of the requests.\<close>

definition sequential_resolve :: "(PackageName, PackageResolveInfo) hmap \<Rightarrow>
    resolver \<Rightarrow> ResolveMode \<Rightarrow> ResolvedPipeline \<Rightarrow> ResolveError + (ResolvedPipeline \<times> PrunedTask list)" where
  "sequential_resolve packages resolver mode rp =
     apply_outcomes mode (map (answer resolver) (resolve_requests packages mode rp)) rp []"

definition rp_ids :: "ResolvedPipeline \<Rightarrow> TaskId set" where
  "rp_ids rp = fst ` set (rp_tasks_by_id rp)"

lemma map_filter_subseq_keys:
  assumes "\<And>x y. f x = Some y \<Longrightarrow> g y = h x"
  shows "map g (List.map_filter f xs) = map h (filter (\<lambda>x. f x \<noteq> None) xs)"
  using assms by (induction xs) (auto simp: map_filter_def)

lemma request_ids:
  "map fst (resolve_requests packages mode rp) =
     map fst (filter (\<lambda>(_, d). td_worker d \<noteq> None)
       (sort_key (\<lambda>(task_id, _). task_id_to_string task_id) (rp_tasks_by_id rp)))"
  unfolding resolve_requests_def
  by (subst map_filter_subseq_keys[where h = fst]) (auto simp: case_prod_unfold)

lemma request_ids_sorted:
  "sorted (map task_id_to_string (map fst (resolve_requests packages mode rp)))"
proof -
  have "sorted (map (\<lambda>(task_id, _). task_id_to_string task_id)
      (sort_key (\<lambda>(task_id, _). task_id_to_string task_id) (rp_tasks_by_id rp)))"
    by (rule sorted_sort_key)
  then show ?thesis
    unfolding request_ids by (simp add: case_prod_unfold comp_def sorted_filter)
qed

lemma request_ids_distinct:
  assumes "distinct (map fst (rp_tasks_by_id rp))"
  shows "distinct (map fst (resolve_requests packages mode rp))"
proof -
  have "mset (map fst (sort_key (\<lambda>(task_id, _). task_id_to_string task_id) (rp_tasks_by_id rp))) =
      mset (map fst (rp_tasks_by_id rp))" by simp
  from distinct_mset_eq[OF this] assms show ?thesis
    unfolding request_ids by (rule_tac distinct_map_filter) simp
qed

lemma request_ids_subset: "fst ` set (resolve_requests packages mode rp) \<subseteq> rp_ids rp"
proof -
  have "set (map fst (resolve_requests packages mode rp)) \<subseteq> rp_ids rp"
    unfolding request_ids rp_ids_def by auto
  then show ?thesis by simp
qed

lemma pipeline_resolve_sequential:
  assumes dist: "distinct (map fst (rp_tasks_by_id rp))" and inj: "inj_on task_id_to_string (rp_ids rp)"
  shows "pipeline_resolve sched parallelism packages resolver mode rp =
    sequential_resolve packages resolver mode rp"
proof -
  let ?rs = "resolve_requests packages mode rp" and ?key = "\<lambda>(task_id, _). task_id_to_string task_id"
  let ?outs = "run_pool sched resolver (max parallelism 1) ?rs"
  have outs: "mset ?outs = mset (map (answer resolver) ?rs)"
    by (rule run_pool_outcomes[OF request_ids_distinct[OF dist]]) simp
  have ids: "inj_on task_id_to_string (fst ` set ?rs)"
    using inj request_ids_subset by (rule inj_on_subset)
  have set_outs: "set ?outs = answer resolver ` set ?rs" using arg_cong[OF outs, of set_mset] by simp
  have "inj_on ?key (set ?outs)"
  proof (rule inj_onI, clarify)
    fix t o1 t' o2
    assume o: "(t, o1) \<in> set ?outs" "(t', o2) \<in> set ?outs" and eq: "task_id_to_string t = task_id_to_string t'"
    from o(1) obtain r1 where r1: "(t, o1) = answer resolver r1" "r1 \<in> set ?rs" unfolding set_outs by (rule imageE)
    from o(2) obtain r2 where r2: "(t', o2) = answer resolver r2" "r2 \<in> set ?rs" unfolding set_outs by (rule imageE)
    note r = r1(2) r1(1)[symmetric] r2(2) r2(1)[symmetric]
    have "fst r1 = t" "fst r2 = t'" using r(2,4) by (metis fst_answer fst_conv)+
    with r(1,3) eq ids have "fst r1 = fst r2" by (auto dest: inj_onD)
    then have "r1 = r2" using request_ids_distinct[OF dist] r(1,3) by (metis distinct_map inj_onD)
    with r show "t = t' \<and> o1 = o2" by simp
  qed
  moreover have "sorted (map ?key (map (answer resolver) ?rs))"
    using request_ids_sorted[of packages mode rp] by (simp add: comp_def case_prod_unfold)
  ultimately have "sort_key ?key ?outs = map (answer resolver) ?rs"
    using sort_key_inj_key_eq[OF outs] by blast
  then show ?thesis
    by (simp add: pipeline_resolve_def sequential_resolve_def sorted_outcomes_def Let_def)
qed

section \<open>The invariant of the resolved pipeline\<close>

text \<open>The name indexes mirror the task table: the tasks of every real package, and the root tasks.\<close>

definition wf_pipeline :: "ResolvedPipeline \<Rightarrow> bool" where
  "wf_pipeline rp \<longleftrightarrow> distinct (map fst (rp_tasks_by_id rp)) \<and>
     distinct (map fst (rp_task_names_by_package rp)) \<and>
     (\<forall>p t. p \<noteq> ROOT_PACKAGE_NAME \<longrightarrow> (contains_package_task rp p t \<longleftrightarrow> task_id_new p t \<in> rp_ids rp)) \<and>
     (\<forall>t. contains_root_task rp t \<longleftrightarrow> root_task_id t \<in> rp_ids rp)"

text \<open>
  The steps that only rewrite definitions share a contract: they keep the task ids in place and
  leave both name indexes alone. Whatever has that contract keeps the invariant.
\<close>

locale keeps_ids =
  fixes step :: "ResolvedPipeline \<Rightarrow> ResolvedPipeline"
  assumes ids: "map fst (rp_tasks_by_id (step rp)) = map fst (rp_tasks_by_id rp)"
    and names: "rp_task_names_by_package (step rp) = rp_task_names_by_package rp"
    and roots: "rp_root_task_names (step rp) = rp_root_task_names rp"
begin

lemma same_ids: "rp_ids (step rp) = rp_ids rp"
  using arg_cong[OF ids, of set] by (simp add: rp_ids_def)

lemma keeps_wf: "wf_pipeline rp \<Longrightarrow> wf_pipeline (step rp)"
  by (simp add: wf_pipeline_def same_ids ids names roots contains_package_task_def contains_root_task_def)

end

interpretation inject: keeps_ids "inject_worker_dependencies ws"
  by unfold_locales (simp_all add: inject_worker_dependencies_def case_prod_unfold)

interpretation modify: keeps_ids "modify_task t m"
  by unfold_locales (auto simp: modify_task_def Let_def case_prod_unfold)

lemma apply_outcomes_keeps:
  assumes "apply_outcomes mode outs rp pruned = Inr (rp', pruned')"
  shows "wf_pipeline rp \<Longrightarrow> wf_pipeline rp'" and "rp_ids rp' = rp_ids rp"
  using assms
  by (induction mode outs rp pruned rule: apply_outcomes.induct)
     (auto simp: modify.same_ids intro: modify.keeps_wf split: sum.splits ResolveDecision.splits if_splits)

lemma apply_prune_ids: "rp_ids (apply_prune e rp) = rp_ids rp - {pt_task_id e}"
  by (simp add: rp_ids_def apply_prune_def Let_def hmap_simps)

lemma apply_prune_names:
  assumes "distinct (map fst (rp_task_names_by_package rp))"
  shows "contains_package_task (apply_prune e rp) p t \<longleftrightarrow>
    contains_package_task rp p t \<and> \<not> (p = tid_package (pt_task_id e) \<and> t = tid_task (pt_task_id e))"
  by (cases "map_of (rp_task_names_by_package rp) (tid_package (pt_task_id e))")
     (auto simp: contains_package_task_def apply_prune_def Let_def hmap_simps split: option.splits)

lemma apply_prune_roots:
  "contains_root_task (apply_prune e rp) t \<longleftrightarrow>
    contains_root_task rp t \<and> \<not> (is_root_task (pt_task_id e) \<and> t = tid_task (pt_task_id e))"
  by (auto simp: contains_root_task_def apply_prune_def Let_def)

lemma task_id_eq_iff: "(x :: TaskId) = task_id_new p t \<longleftrightarrow> tid_package x = p \<and> tid_task x = t"
  by (cases x) auto

lemma apply_prune_wf:
  assumes "wf_pipeline rp"
  shows "wf_pipeline (apply_prune e rp)"
proof -
  have "distinct (map fst (rp_tasks_by_id (apply_prune e rp)))"
    "distinct (map fst (rp_task_names_by_package (apply_prune e rp)))"
    using assms by (auto simp: apply_prune_def Let_def wf_pipeline_def split: option.splits)
  moreover have "contains_package_task (apply_prune e rp) p t \<longleftrightarrow> task_id_new p t \<in> rp_ids (apply_prune e rp)"
    if "p \<noteq> ROOT_PACKAGE_NAME" for p t
    using that assms task_id_eq_iff[of "pt_task_id e" p t]
    by (auto simp: apply_prune_names apply_prune_ids wf_pipeline_def)
  moreover have "contains_root_task (apply_prune e rp) t \<longleftrightarrow> root_task_id t \<in> rp_ids (apply_prune e rp)" for t
    using assms task_id_eq_iff[of "pt_task_id e" ROOT_PACKAGE_NAME t]
    by (auto simp: apply_prune_roots apply_prune_ids wf_pipeline_def is_root_task_def task_is_root_def
        package_is_root_def root_task_id_def root_package_name_def)
  ultimately show ?thesis by (simp add: wf_pipeline_def)
qed

lemma apply_prunes_wf: "wf_pipeline rp \<Longrightarrow> wf_pipeline (fst (apply_prunes ps rp))"
proof -
  have "wf_pipeline rp \<Longrightarrow> wf_pipeline (fold apply_prune ps rp)"
    by (induction ps arbitrary: rp) (auto simp: apply_prune_wf)
  then show "wf_pipeline rp \<Longrightarrow> ?thesis" by (simp add: apply_prunes_def)
qed

lemma apply_prunes_ids: "rp_ids (fst (apply_prunes ps rp)) = rp_ids rp - pt_task_id ` set ps"
proof -
  have "rp_ids (fold apply_prune ps rp) = rp_ids rp - pt_task_id ` set ps"
    by (induction ps arbitrary: rp) (auto simp: apply_prune_ids)
  then show ?thesis by (simp add: apply_prunes_def)
qed

lemma apply_prunes_removed: "set (snd (apply_prunes ps rp)) = pt_task_id ` set ps"
proof -
  have "set (fold (\<lambda>e s. set_insert (pt_task_id e) s) ps s) = set s \<union> pt_task_id ` set ps" for s
    by (induction ps arbitrary: s) auto
  then show ?thesis by (simp add: apply_prunes_def)
qed

lemma apply_prune_tasks: "map_of (rp_tasks_by_id (apply_prune e rp)) = (map_of (rp_tasks_by_id rp))(pt_task_id e := None)"
  by (simp add: apply_prune_def Let_def hmap_simps)

lemma apply_prunes_tasks:
  "map_of (rp_tasks_by_id (fst (apply_prunes ps rp))) t =
    (if t \<in> pt_task_id ` set ps then None else map_of (rp_tasks_by_id rp) t)"
proof -
  have "map_of (rp_tasks_by_id (fold apply_prune ps rp)) t =
    (if t \<in> pt_task_id ` set ps then None else map_of (rp_tasks_by_id rp) t)"
    by (induction ps arbitrary: rp) (auto simp: apply_prune_tasks)
  then show ?thesis by (simp add: apply_prunes_def)
qed

section \<open>Injected dependencies\<close>

lemma push_new_deps_appends:
  "\<exists>new. push_new_deps ws deps = deps @ new \<and> set new = set ws - set deps \<and> distinct new"
proof (induction ws arbitrary: deps)
  case Nil
  then show ?case by simp
next
  case (Cons w ws)
  show ?case
  proof (cases "w \<in> set deps")
    case True
    with Cons[of deps] show ?thesis by auto
  next
    case False
    obtain new where new: "push_new_deps ws (deps @ [w]) = (deps @ [w]) @ new"
      "set new = set ws - set (deps @ [w])" "distinct new"
      using Cons[of "deps @ [w]"] by blast
    then show ?thesis using False by (intro exI[of _ "w # new"]) auto
  qed
qed

lemma inject_task:
  "map_of (rp_tasks_by_id (inject_worker_dependencies ws rp)) t =
    map_option (inject_into ws) (map_of (rp_tasks_by_id rp) t)"
  by (simp add: inject_worker_dependencies_def map_of_map)

lemma inject_into_frame:
  "td_worker (inject_into ws d) = td_worker d" "td_weight (inject_into ws d) = td_weight d"
  "td_command (inject_into ws d) = td_command d"
  by (simp_all add: inject_into_def split: option.split)

section \<open>What the expansion contains\<close>

text \<open>The configuration key a pipeline key is written as, and the keys that are accepted.\<close>

fun raw_of :: "PipelineKey \<Rightarrow> string" where
  "raw_of (GlobalKey t) = t"
| "raw_of (PackageKey p t) = p @ ''#'' @ t"
| "raw_of (RootKey t) = ''#'' @ t"

definition key_valid :: "PackageName set \<Rightarrow> PipelineKey \<Rightarrow> bool" where
  "key_valid names key = (case key of
      GlobalKey t \<Rightarrow> CHR ''#'' \<notin> set t
    | PackageKey p t \<Rightarrow> p \<noteq> [] \<and> t \<noteq> [] \<and> CHR ''#'' \<notin> set p \<and> p \<in> names
    | RootKey t \<Rightarrow> t \<noteq> [])"

definition configured_key ::
  "PackageName set \<Rightarrow> (TaskName, TaskDefinition) hmap \<Rightarrow> PipelineKey \<Rightarrow> TaskDefinition option" where
  "configured_key names pipeline key =
     (if key_valid names key then map_of pipeline (raw_of key) else None)"

text \<open>The definition a task id has in the configuration: root tasks from their own keys, a
  package's own definition before the global one, no global tasks in the workspace root.\<close>

definition configured_task :: "PackageName set \<Rightarrow> PackageName option \<Rightarrow>
    (TaskName, TaskDefinition) hmap \<Rightarrow> TaskId \<Rightarrow> TaskDefinition option" where
  "configured_task names root_package pipeline tid =
     (if tid_package tid = ROOT_PACKAGE_NAME then configured_key names pipeline (RootKey (tid_task tid))
      else if tid_package tid \<notin> names then None
      else case configured_key names pipeline (PackageKey (tid_package tid) (tid_task tid)) of
        Some d \<Rightarrow> Some d
      | None \<Rightarrow> (if root_package = Some (tid_package tid) then None
                 else configured_key names pipeline (GlobalKey (tid_task tid))))"

lemma parse_pipeline_key_iff:
  "parse_pipeline_key names raw = Some key \<longleftrightarrow> key_valid (set names) key \<and> raw = raw_of key"
proof (cases "strip_prefix ''#'' raw")
  case (Some t)
  then have raw: "raw = CHR ''#'' # t" by (simp add: strip_prefix_Some)
  show ?thesis
    by (cases key) (auto simp: parse_pipeline_key_def raw key_valid_def Cons_eq_append_conv)
next
  case None
  then have nohash: "\<And>t. raw \<noteq> CHR ''#'' # t" by (simp add: strip_prefix_None)
  show ?thesis
  proof (cases "split_once (CHR ''#'') raw")
    case None
    then have "CHR ''#'' \<notin> set raw" by (simp add: split_once_None)
    with None \<open>strip_prefix ''#'' raw = None\<close> show ?thesis
      by (cases key) (auto simp: parse_pipeline_key_def key_valid_def)
  next
    case (Some pt)
    then have raw: "raw = fst pt @ CHR ''#'' # snd pt" "CHR ''#'' \<notin> set (fst pt)"
      by (cases pt, simp add: split_once_Some)+
    have uniq: "raw = p @ CHR ''#'' # t \<and> CHR ''#'' \<notin> set p \<longleftrightarrow> pt = (p, t)" for p t
      using Some split_once_Some[of "CHR ''#''" raw p t] by auto
    have parse: "parse_pipeline_key names raw =
        (if fst pt = [] \<or> snd pt = [] \<or> fst pt \<notin> set names then None else Some (PackageKey (fst pt) (snd pt)))"
      using Some \<open>strip_prefix ''#'' raw = None\<close> by (simp add: parse_pipeline_key_def split: prod.splits)
    show ?thesis
    proof (cases key)
      case (GlobalKey t)
      then show ?thesis using parse raw(1) by (auto simp: key_valid_def)
    next
      case (PackageKey p t)
      then have "key_valid (set names) key \<and> raw = raw_of key \<longleftrightarrow>
          p \<noteq> [] \<and> t \<noteq> [] \<and> p \<in> set names \<and> pt = (p, t)"
        using uniq[of p t] by (auto simp: key_valid_def)
      then show ?thesis using parse PackageKey by auto
    next
      case (RootKey t)
      then show ?thesis using parse nohash[of t] by (simp add: key_valid_def)
    qed
  qed
qed

lemma entries_lookup:
  "map_of (parse_pipeline_entries pipeline names) key = configured_key (set names) pipeline key"
  unfolding parse_pipeline_entries_def configured_key_def
proof (induction pipeline)
  case Nil
  then show ?case by (simp add: map_filter_def)
next
  case (Cons rd pipeline)
  obtain raw d where rd: "rd = (raw, d)" by fastforce
  show ?case
  proof (cases "parse_pipeline_key names raw")
    case None
    then have "\<not> (key_valid (set names) key \<and> raw = raw_of key)"
      using parse_pipeline_key_iff[of names raw key] by simp
    with Cons None rd show ?thesis by (auto simp: map_filter_def)
  next
    case (Some k)
    then have "k = key \<longleftrightarrow> key_valid (set names) key \<and> raw = raw_of key"
      using parse_pipeline_key_iff[of names raw key] by auto
    with Cons Some rd show ?thesis by (auto simp: map_filter_def)
  qed
qed

lemma entries_distinct:
  assumes "distinct (map fst pipeline)"
  shows "distinct (map fst (parse_pipeline_entries pipeline names))"
proof -
  let ?f = "\<lambda>(raw, d). map_option (\<lambda>key. (key, d :: TaskDefinition)) (parse_pipeline_key names raw)"
  have eq: "map (raw_of \<circ> fst) (List.map_filter ?f pipeline) = map fst (filter (\<lambda>x. ?f x \<noteq> None) pipeline)"
    by (rule map_filter_subseq_keys) (auto simp: parse_pipeline_key_iff)
  have "distinct (map fst (filter (\<lambda>x. ?f x \<noteq> None) pipeline))"
    using assms by (rule distinct_map_filter)
  then have "distinct (map raw_of (map fst (List.map_filter ?f pipeline)))" using eq by simp
  then show ?thesis unfolding parse_pipeline_entries_def by (metis distinct_map)
qed

lemma add_entry_cases: "add_entry x s = (case fst x of
    GlobalKey t \<Rightarrow> s\<lparr>tt_global := AList.update t (snd x) (tt_global s)\<rparr>
  | PackageKey p t \<Rightarrow> s\<lparr>tt_package := AList.update (p, t) (snd x) (tt_package s)\<rparr>
  | RootKey t \<Rightarrow> s\<lparr>tt_root := AList.update t (snd x) (tt_root s)\<rparr>)"
  by (cases x; cases "fst x") auto

lemma tables_lookup:
  "map_of (tt_global (fold add_entry es tt)) t =
    (case map_of (rev es) (GlobalKey t) of Some d \<Rightarrow> Some d | None \<Rightarrow> map_of (tt_global tt) t)"
  "map_of (tt_package (fold add_entry es tt)) (p, t) =
    (case map_of (rev es) (PackageKey p t) of Some d \<Rightarrow> Some d | None \<Rightarrow> map_of (tt_package tt) (p, t))"
  "map_of (tt_root (fold add_entry es tt)) t =
    (case map_of (rev es) (RootKey t) of Some d \<Rightarrow> Some d | None \<Rightarrow> map_of (tt_root tt) t)"
  by (induction es rule: rev_induct)
     (auto simp: add_entry_cases hmap_simps split: PipelineKey.splits)

definition distinct_tables :: "task_tables \<Rightarrow> bool" where
  "distinct_tables tt \<longleftrightarrow> distinct (map fst (tt_global tt)) \<and> distinct (map fst (tt_package tt)) \<and>
     distinct (map fst (tt_root tt))"

lemma tables_distinct: "distinct_tables tt \<Longrightarrow> distinct_tables (fold add_entry es tt)"
proof (induction es arbitrary: tt)
  case (Cons e es)
  have "distinct_tables (add_entry e tt)"
    using Cons.prems by (cases e; cases "fst e") (auto simp: distinct_tables_def)
  with Cons.IH show ?case by simp
qed simp

lemma package_entries_lookup:
  assumes "distinct_tables tt"
  shows "map_of (rev (package_entries tt root p)) t =
    (case map_of (tt_package tt) (p, t) of Some d \<Rightarrow> Some d
     | None \<Rightarrow> (if root = Some p then None else map_of (tt_global tt) t))"
proof -
  have pick: "map_of (map (\<lambda>((_, task_name), d). (task_name, d)) (filter (\<lambda>((package, _), _). package = p) l)) t =
      map_of l (p, t)" for l :: "((PackageName \<times> TaskName) \<times> TaskDefinition) list"
    by (induction l) auto
  have "map_of (rev (tt_package tt)) = map_of (tt_package tt)" "map_of (rev (tt_global tt)) = map_of (tt_global tt)"
    using assms by (simp_all add: distinct_tables_def map_of_rev_distinct)
  then have "map_of (rev (map (\<lambda>((_, task_name), d). (task_name, d))
      (filter (\<lambda>((package, _), _). package = p) (tt_package tt)))) t = map_of (tt_package tt) (p, t)"
    and "map_of (rev (tt_global tt)) t = map_of (tt_global tt) t"
    using pick[of "rev (tt_package tt)"] by (simp_all add: rev_map rev_filter)
  then show ?thesis by (simp add: package_entries_def map_add_def split: option.split)
qed

lemma update_ids_lookup:
  "map_of (fold (\<lambda>(t, d) m. AList.update (task_id_new q t) d m) es m0) (task_id_new p t) =
    (case (if p = q then map_of (rev es) t else None) of Some d \<Rightarrow> Some d
     | None \<Rightarrow> map_of m0 (task_id_new p t))"
  by (induction es rule: rev_induct) (auto simp: hmap_simps)

lemma update_ids_distinct:
  "distinct (map fst m0) \<Longrightarrow>
   distinct (map fst (fold (\<lambda>(t, d) m. AList.update (f t) d m) es m0))"
  by (induction es arbitrary: m0) auto

lemma collect_names_set: "set (fold (\<lambda>(t, _) ns. set_insert t ns) es ns0) = set ns0 \<union> fst ` set es"
  by (induction es arbitrary: ns0) auto

lemma entries_names: "t \<in> fst ` set es \<longleftrightarrow> map_of (rev es) t \<noteq> None"
  by (simp add: map_of_eq_None_iff)

abbreviation names_contain :: "(PackageName, TaskName list) hmap \<Rightarrow> PackageName \<Rightarrow> TaskName \<Rightarrow> bool" where
  "names_contain nbp p t \<equiv> (case map_of nbp p of Some ns \<Rightarrow> t \<in> set ns | None \<Rightarrow> False)"

text \<open>Expanding the packages one after the other.\<close>

lemma expand_packages_lookup:
  assumes "fold (expand_package tt root) names (tasks0, nbp0) = (tasks, nbp)" "distinct names"
    and "\<And>p t. p \<in> set names \<Longrightarrow> map_of tasks0 (task_id_new p t) = None \<and> map_of nbp0 p = None"
    and "distinct (map fst tasks0)" "distinct (map fst nbp0)"
  shows "map_of tasks (task_id_new p t) =
      (if p \<in> set names then map_of (rev (package_entries tt root p)) t else map_of tasks0 (task_id_new p t))"
    and "names_contain nbp p t \<longleftrightarrow>
      (if p \<in> set names then map_of (rev (package_entries tt root p)) t \<noteq> None else names_contain nbp0 p t)"
    and "distinct (map fst tasks)" and "distinct (map fst nbp)"
proof -
  have "map_of tasks (task_id_new p t) =
      (if p \<in> set names then map_of (rev (package_entries tt root p)) t else map_of tasks0 (task_id_new p t)) \<and>
    (names_contain nbp p t \<longleftrightarrow>
      (if p \<in> set names then map_of (rev (package_entries tt root p)) t \<noteq> None else names_contain nbp0 p t)) \<and>
    distinct (map fst tasks) \<and> distinct (map fst nbp)"
    using assms
  proof (induction names arbitrary: tasks0 nbp0)
    case Nil
    then show ?case by simp
  next
    case (Cons q names)
    let ?es = "package_entries tt root q"
    let ?t1 = "fold (\<lambda>(t, d) m. AList.update (task_id_new q t) d m) ?es tasks0"
    let ?ns = "fold (\<lambda>(t, _) ns. set_insert t ns) ?es []"
    define n1 where "n1 = (if ?ns = [] then nbp0 else AList.update q ?ns nbp0)"
    have run: "fold (expand_package tt root) names (?t1, n1) = (tasks, nbp)"
      using Cons.prems(1) by (simp add: n1_def Let_def)
    have t1: "map_of ?t1 (task_id_new p t) = (if p = q then map_of (rev ?es) t else map_of tasks0 (task_id_new p t))" for p t
      using Cons.prems(3)[of q t] by (simp add: update_ids_lookup split: option.split)
    have ns: "set ?ns = fst ` set ?es" by (simp add: collect_names_set)
    have n1_lookup: "names_contain n1 p t \<longleftrightarrow> (if p = q then map_of (rev ?es) t \<noteq> None else names_contain nbp0 p t)" for p t
      using Cons.prems(3)[of q t] ns entries_names[of t ?es]
      by (auto simp: n1_def hmap_simps split: option.splits)
    have n1_none: "map_of n1 p = None" if "p \<in> set names" for p
      using that Cons.prems(2) Cons.prems(3)[of p] by (auto simp: n1_def hmap_simps)
    have "distinct (map fst ?t1)" "distinct (map fst n1)"
      using Cons.prems(4,5) by (auto simp: n1_def intro: update_ids_distinct)
    moreover have "map_of ?t1 (task_id_new p t) = None \<and> map_of n1 p = None" if "p \<in> set names" for p t
      using that Cons.prems(2) Cons.prems(3)[of p t] n1_none t1 by auto
    ultimately show ?case
      using Cons.IH[OF run] Cons.prems(2) t1[where p = p and t = t] n1_lookup[where p = p and t = t] by auto
  qed
  then show "map_of tasks (task_id_new p t) =
      (if p \<in> set names then map_of (rev (package_entries tt root p)) t else map_of tasks0 (task_id_new p t))"
    "names_contain nbp p t \<longleftrightarrow>
      (if p \<in> set names then map_of (rev (package_entries tt root p)) t \<noteq> None else names_contain nbp0 p t)"
    "distinct (map fst tasks)" "distinct (map fst nbp)" by blast+
qed

lemma resolved_pipeline_build_spec:
  assumes topo: "toposort_laws topo" and wf: "wf_package_graph g" and dist: "distinct (map fst pipeline)"
    and noroot: "ROOT_PACKAGE_NAME \<notin> pg_names g"
    and build: "resolved_pipeline_build topo g pipeline = Inr rp"
  shows "map_of (rp_tasks_by_id rp) tid = configured_task (pg_names g) (pg_root_package g) pipeline tid"
    and "wf_pipeline rp" and "rp_prune_reasons_by_id rp = []" and "rp_inputs_from_worker_by_id rp = []"
    and "\<not> contains_package_task rp ROOT_PACKAGE_NAME t"
proof -
  from build obtain pkgs where order: "pg_topological_order topo g = Inr pkgs"
    by (auto simp: resolved_pipeline_build_def split: sum.splits)
  let ?names = "map pn_name pkgs"
  have names: "distinct ?names" "set ?names = pg_names g"
    using pg_topological_order_Inr(1,2)[OF topo wf order] by (simp_all add: pg_names_def)
  define es where "es = parse_pipeline_entries pipeline (remdups ?names)"
  define tt where "tt = fold add_entry es \<lparr>tt_global = [], tt_package = [], tt_root = []\<rparr>"
  obtain tasks nbp where exp: "fold (expand_package tt (pg_root_package g)) ?names ([], []) = (tasks, nbp)"
    by fastforce
  have rp: "rp_tasks_by_id rp = fold (\<lambda>(t, d) m. AList.update (root_task_id t) d m) (tt_root tt) tasks"
    "rp_task_names_by_package rp = nbp" "rp_prune_reasons_by_id rp = []" "rp_inputs_from_worker_by_id rp = []"
    "rp_root_task_names rp = fold (\<lambda>(t, _) ns. set_insert t ns) (tt_root tt) []"
    using build order exp by (auto simp: resolved_pipeline_build_def Let_def es_def tt_def)
  then show "rp_prune_reasons_by_id rp = []" "rp_inputs_from_worker_by_id rp = []" by auto
  have es: "map_of (rev es) key = configured_key (pg_names g) pipeline key" for key
    using map_of_rev_distinct[OF entries_distinct[OF dist]] names(2) by (simp add: es_def entries_lookup)
  have tables: "map_of (tt_global tt) t = configured_key (pg_names g) pipeline (GlobalKey t)"
    "map_of (tt_package tt) (p, t) = configured_key (pg_names g) pipeline (PackageKey p t)"
    "map_of (tt_root tt) t = configured_key (pg_names g) pipeline (RootKey t)" for p t
    unfolding tt_def tables_lookup es by (simp_all split: option.split)
  have dt: "distinct_tables tt" unfolding tt_def by (rule tables_distinct) (simp add: distinct_tables_def)
  have dr: "map_of (rev (tt_root tt)) = map_of (tt_root tt)"
    using dt by (simp add: distinct_tables_def map_of_rev_distinct)
  note ex = expand_packages_lookup[OF exp names(1), simplified]
  have look: "map_of (rp_tasks_by_id rp) (task_id_new p t) = configured_task (pg_names g) (pg_root_package g) pipeline (task_id_new p t)" for p t
    using noroot names(2)
    unfolding rp(1) root_task_id_def update_ids_lookup dr
    by (auto simp: ex(1) package_entries_lookup[OF dt] tables configured_task_def root_package_name_def
        split: option.splits)
  then show "map_of (rp_tasks_by_id rp) tid = configured_task (pg_names g) (pg_root_package g) pipeline tid"
    by (cases tid) simp
  show "\<not> contains_package_task rp ROOT_PACKAGE_NAME t"
    using ex(2)[where p = ROOT_PACKAGE_NAME and t = t] noroot names(2) by (simp add: contains_package_task_def rp(2))
  have "names_contain nbp p t \<longleftrightarrow> task_id_new p t \<in> rp_ids rp" if "p \<noteq> ROOT_PACKAGE_NAME" for p t
    using that names(2) unfolding rp_ids_def keys_map_of look ex(2)
    by (auto simp: configured_task_def package_entries_lookup[OF dt] tables split: option.splits)
  moreover have "t \<in> set (rp_root_task_names rp) \<longleftrightarrow> root_task_id t \<in> rp_ids rp" for t
    unfolding rp_ids_def keys_map_of root_task_id_def look rp(5) collect_names_set
    using entries_names[of t "tt_root tt"] by (simp add: dr tables configured_task_def root_package_name_def)
  ultimately show "wf_pipeline rp"
    using ex(3,4) update_ids_distinct[of tasks root_task_id "tt_root tt"]
    by (simp add: wf_pipeline_def contains_package_task_def contains_root_task_def rp(1,2))
qed

lemma resolved_pipeline_build_total:
  assumes "pg_topological_order topo g = Inr pkgs"
  shows "\<exists>rp. resolved_pipeline_build topo g pipeline = Inr rp"
  by (simp add: resolved_pipeline_build_def assms Let_def split: prod.split)

lemma pipeline_resolve_keeps:
  assumes "pipeline_resolve sched n packages resolver mode rp = Inr (rp', pruned)"
  shows "wf_pipeline rp \<Longrightarrow> wf_pipeline rp'" and "rp_ids rp' = rp_ids rp"
  using assms apply_outcomes_keeps unfolding pipeline_resolve_def Let_def by blast+

lemma apply_outcomes_pruned_ids:
  assumes "apply_outcomes mode outs rp pruned = Inr (rp', pruned')"
  shows "pt_task_id ` set pruned' = pt_task_id ` set pruned \<union>
    {t. \<exists>r. (t, Inr r) \<in> set outs \<and> (\<exists>m. rr_decision r = Prune m \<or> (\<exists>n. rr_decision r = Reject n))}"
  using assms
  by (induction mode outs rp pruned rule: apply_outcomes.induct)
     (auto split: sum.splits ResolveDecision.splits if_splits)

section \<open>Properties\<close>

text \<open>C19: The expanded pipeline gives every task id exactly the definition the configuration
  assigns to it: root tasks come from their hash keys, a package's own definition takes
  precedence over the global one, and the workspace root package gets no global tasks.\<close>

theorem pipeline_expansion_correct:
  assumes "toposort_laws topo" and "wf_package_graph g" and "distinct (map fst pipeline)"
    and "ROOT_PACKAGE_NAME \<notin> pg_names g" and "resolved_pipeline_build topo g pipeline = Inr rp"
  shows "map_of (rp_tasks_by_id rp) tid = configured_task (pg_names g) (pg_root_package g) pipeline tid"
  using resolved_pipeline_build_spec(1)[OF assms] .

definition example_pipeline :: "(TaskName, TaskDefinition) hmap" where
  "example_pipeline =
     [(''build'', task_definition_new [DirectUpstream ''build''] 2),
      (''ui#build'', task_definition_new [SamePackage ''lint''] 3),
      (''#setup'', task_definition_default)]"

lemma example_order: "pg_topological_order ref_toposort example_graph = Inr (rev example_packages)"
  by (simp add: pg_topological_order_def ref_toposort_def ref_sort.simps no_pred_def upt_rec
      example_graph_def example_packages_def)

lemma example_noroot: "ROOT_PACKAGE_NAME \<notin> pg_names example_graph"
  by (simp add: ROOT_PACKAGE_NAME_def pg_names_def example_graph_def example_packages_def)

lemma example_pipeline_distinct: "distinct (map fst example_pipeline)"
  by (simp add: example_pipeline_def)

theorem pipeline_expansion_correct_witness:
  "\<exists>rp. resolved_pipeline_build ref_toposort example_graph example_pipeline = Inr rp \<and>
     map_of (rp_tasks_by_id rp) (task_id_new ''ui'' ''build'') =
       Some (task_definition_new [SamePackage ''lint''] 3) \<and>
     map_of (rp_tasks_by_id rp) (task_id_new ''core'' ''build'') =
       Some (task_definition_new [DirectUpstream ''build''] 2)"
proof -
  obtain rp where rp: "resolved_pipeline_build ref_toposort example_graph example_pipeline = Inr rp"
    using resolved_pipeline_build_total[OF example_order] by blast
  note spec = pipeline_expansion_correct[OF ref.toposort_laws_axioms example_wf
      example_pipeline_distinct example_noroot rp]
  show ?thesis
  proof (intro exI[of _ rp] conjI, rule rp)
  qed (simp_all add: spec configured_task_def configured_key_def key_valid_def ROOT_PACKAGE_NAME_def
         pg_names_def example_graph_def example_packages_def example_pipeline_def)
qed

text \<open>C18: However many worker round-trips run at once and in whatever order they complete, the
  resolution phase gives exactly the result of asking the workers one after the other in the
  order of the printed task ids: the same rewritten tasks, the same prunes in the same order,
  and the same error.\<close>

theorem resolve_order_independent:
  assumes "distinct (map fst (rp_tasks_by_id rp))" and "inj_on task_id_to_string (rp_ids rp)"
  shows "pipeline_resolve sched parallelism packages resolver mode rp =
    sequential_resolve packages resolver mode rp"
  by (rule pipeline_resolve_sequential[OF assms])

definition example_worker_pipeline :: ResolvedPipeline where
  "example_worker_pipeline =
     \<lparr>rp_tasks_by_id = [(task_id_new ''ui'' ''build'', task_definition_default\<lparr>td_worker := Some ''yarn''\<rparr>),
        (task_id_new ''core'' ''build'', task_definition_default\<lparr>td_worker := Some ''yarn''\<rparr>)],
      rp_task_names_by_package = [(''ui'', [''build'']), (''core'', [''build''])],
      rp_root_task_names = [], rp_prune_reasons_by_id = [], rp_inputs_from_worker_by_id = []\<rparr>"

lemma example_worker_pipeline_wf:
  "distinct (map fst (rp_tasks_by_id example_worker_pipeline)) \<and>
   inj_on task_id_to_string (rp_ids example_worker_pipeline)"
  by (simp add: example_worker_pipeline_def rp_ids_def inj_on_def task_id_to_string_def
      task_is_root_def package_is_root_def ROOT_PACKAGE_NAME_def)

theorem resolve_order_independent_witness:
  "pipeline_resolve (\<lambda>ids. length ids) 8 [] (\<lambda>w r. Inl ''gone'') Run example_worker_pipeline =
   pipeline_resolve (\<lambda>_. 0) 1 [] (\<lambda>w r. Inl ''gone'') Run example_worker_pipeline"
  using resolve_order_independent[of example_worker_pipeline] example_worker_pipeline_wf by simp

text \<open>Through expansion, resolution, injection of worker dependencies and pruning, the two
  name indexes keep mirroring the task table, and the tasks that remain are exactly the
  configured ones that were not pruned.\<close>

lemma pipeline_phases_invariant:
  assumes "toposort_laws topo" and "wf_package_graph g" and "distinct (map fst pipeline)"
    and "ROOT_PACKAGE_NAME \<notin> pg_names g" and "resolved_pipeline_build topo g pipeline = Inr rp"
    and "pipeline_resolve sched n packages resolver mode rp = Inr (rp', pruned)"
  shows "wf_pipeline (fst (apply_prunes pruned (inject_worker_dependencies ws rp'))) \<and>
    rp_ids (fst (apply_prunes pruned (inject_worker_dependencies ws rp'))) =
      {tid. configured_task (pg_names g) (pg_root_package g) pipeline tid \<noteq> None} - pt_task_id ` set pruned"
proof -
  note build = resolved_pipeline_build_spec[OF assms(1-5)]
  have "rp_ids rp = {tid. configured_task (pg_names g) (pg_root_package g) pipeline tid \<noteq> None}"
    unfolding rp_ids_def by (intro set_eqI) (simp add: keys_map_of build(1))
  then show ?thesis
    using build(2) pipeline_resolve_keeps[OF assms(6)]
    by (simp add: apply_prunes_ids apply_prunes_wf inject.same_ids inject.keeps_wf)
qed

lemma pipeline_phases_invariant_witness:
  "\<exists>rp rp'. resolved_pipeline_build ref_toposort example_graph example_pipeline = Inr rp \<and>
     pipeline_resolve (\<lambda>_. 0) 4 [] (\<lambda>w r. Inl ''gone'') Run rp = Inr (rp', []) \<and>
     wf_pipeline (fst (apply_prunes [] (inject_worker_dependencies [] rp')))"
proof -
  obtain rp where rp: "resolved_pipeline_build ref_toposort example_graph example_pipeline = Inr rp"
    using resolved_pipeline_build_total[OF example_order] by blast
  note spec = resolved_pipeline_build_spec[OF ref.toposort_laws_axioms example_wf
      example_pipeline_distinct example_noroot rp]
  have "td_worker d = None" if "(tid, d) \<in> set (rp_tasks_by_id rp)" for tid d
  proof -
    have "map_of (rp_tasks_by_id rp) tid = Some d" using that spec(2) by (simp add: wf_pipeline_def)
    then show ?thesis
      unfolding spec(1)
      by (auto simp: configured_task_def configured_key_def example_pipeline_def task_definition_new_def
          task_definition_default_def split: if_splits option.splits)
  qed
  then have "resolve_requests [] Run rp = []"
    by (auto simp: resolve_requests_def map_filter_def filter_empty_conv split: prod.splits)
  then have res: "pipeline_resolve (\<lambda>_. 0) 4 [] (\<lambda>w r. Inl ''gone'') Run rp = Inr (rp, [])"
    by (simp add: pipeline_resolve_def run_pool_def pool_loop.simps sorted_outcomes_def)
  show ?thesis
    using rp res pipeline_phases_invariant[OF ref.toposort_laws_axioms example_wf
        example_pipeline_distinct example_noroot rp res] by blast
qed

text \<open>Injecting worker dependencies appends to each task that names a defined worker exactly
  those of the worker's dependencies it did not already have, each once and after its own, and
  leaves every other task and every other field unchanged.\<close>

lemma injection_appends_missing:
  assumes "map_of (rp_tasks_by_id rp) tid = Some d" and "td_worker d = Some w"
    and "map_of worker_definitions w = Some wd"
  shows "\<exists>d' new. map_of (rp_tasks_by_id (inject_worker_dependencies worker_definitions rp)) tid = Some d' \<and>
    d' = d\<lparr>td_depends_on := td_depends_on d @ new\<rparr> \<and> distinct new \<and>
    set new = set (wd_depends_on wd) - set (td_depends_on d)"
proof -
  obtain new where "push_new_deps (wd_depends_on wd) (td_depends_on d) = td_depends_on d @ new"
    "set new = set (wd_depends_on wd) - set (td_depends_on d)" "distinct new"
    using push_new_deps_appends by blast
  moreover from this have "new = []" if "wd_depends_on wd = []" using that by simp
  ultimately show ?thesis
    using assms by (auto simp: inject_task inject_into_def intro!: exI[of _ new])
qed

lemma injection_appends_missing_witness:
  "\<exists>d'. map_of (rp_tasks_by_id (inject_worker_dependencies
      [(''yarn'', \<lparr>wd_command = ''y'', wd_depends_on = [Root ''setup''], wd_cache = None, wd_env = []\<rparr>)]
      example_worker_pipeline)) (task_id_new ''ui'' ''build'') = Some d' \<and>
    Root ''setup'' \<in> set (td_depends_on d')"
proof -
  have a: "map_of (rp_tasks_by_id example_worker_pipeline) (task_id_new ''ui'' ''build'') =
      Some (task_definition_default\<lparr>td_worker := Some ''yarn''\<rparr>)"
    by (simp add: example_worker_pipeline_def)
  have b: "td_worker (task_definition_default\<lparr>td_worker := Some ''yarn''\<rparr>) = Some ''yarn''" by simp
  show ?thesis
    using injection_appends_missing[OF a b, of "[(''yarn'', \<lparr>wd_command = ''y'',
        wd_depends_on = [Root ''setup''], wd_cache = None, wd_env = []\<rparr>)]"]
    by (fastforce simp: task_definition_default_def)
qed

end
