(* ===== verification/TaskGraph.thy ===== *)
theory TaskGraph
  imports Pipeline
begin

text \<open>
  The task graph of \<open>crates/luchta-engine/src/task_graph.rs\<close>: one node per task of the resolved
  pipeline and one edge per declared dependency that designates a task. The section on the
  specification says what a \<open>depends_on\<close> entry designates in terms of the package relation; the
  lemmas show that the edges are exactly those, that construction fails exactly on a cycle, and
  that the order it offers to the walker respects every edge.
\<close>

record TaskNode =
  tn_id :: TaskId
  tn_weight :: u32

record TaskGraph =
  tg_graph :: "TaskNode digraph"
  tg_indices_by_id :: "(TaskId, nat) hmap"
  tg_definitions_by_id :: "(TaskId, TaskDefinition) hmap"
  tg_inputs_from_worker_by_id :: "(TaskId, bool) hmap"

section \<open>Packages upstream of a task\<close>

definition upstream_source_package :: "PackageGraph \<Rightarrow> TaskId \<Rightarrow> PackageName" where
  "upstream_source_package g source_task_id =
     (if package_is_root (tid_package source_task_id)
      then (case pg_root_package g of Some root \<Rightarrow> root | None \<Rightarrow> tid_package source_task_id)
      else tid_package source_task_id)"

definition enqueue_unvisited_dependencies :: "PackageGraph \<Rightarrow> PackageName \<Rightarrow>
    PackageName list \<times> PackageName list \<Rightarrow> EngineError + PackageName list \<times> PackageName list" where
  "enqueue_unvisited_dependencies g package_name vq =
     (case pg_dependencies_of g package_name of
        Inl e \<Rightarrow> Inl (EngineWorkspace e)
      | Inr dependencies \<Rightarrow> Inr (push_unvisited (map pn_name dependencies) vq))"

lemma dependencies_in_range:
  assumes "pg_dependencies_of g n = Inr ds"
  shows "set (map pn_name ds) \<subseteq> Range (pg_rel g Outgoing)"
  using assms by (force simp: pg_dependencies_of_def bind_result_Inr_iff pg_rel_def)

lemma finite_Range_pg_rel [simp]: "finite (Range (pg_rel g d))"
  unfolding pg_rel_named by (rule finite_Range) simp

function upstream_loop :: "PackageGraph \<Rightarrow> PackageName list \<Rightarrow> PackageName list \<Rightarrow>
    EngineError + PackageName list" where
  "upstream_loop g visited queue =
     (case queue of
        [] \<Rightarrow> Inr visited
      | current # rest \<Rightarrow>
          (case enqueue_unvisited_dependencies g current (visited, rest) of
             Inl e \<Rightarrow> Inl e
           | Inr (visited', queue') \<Rightarrow> upstream_loop g visited' queue'))"
  by pat_completeness auto
termination
proof (relation "measure (\<lambda>(g, V, Q). 2 * card (Range (pg_rel g Outgoing) - set V) + length Q)")
  fix g :: PackageGraph and V Q c r VQ V' Q'
  assume Q: "Q = c # r" and push: "enqueue_unvisited_dependencies g c (V, r) = Inr VQ" "(V', Q') = VQ"
  then obtain ds where ds: "pg_dependencies_of g c = Inr ds" "push_unvisited (map pn_name ds) (V, r) = (V', Q')"
    by (auto simp: enqueue_unvisited_dependencies_def split: sum.splits)
  show "((g, V', Q'), g, V, Q) \<in>
      measure (\<lambda>(g, V, Q). 2 * card (Range (pg_rel g Outgoing) - set V) + length Q)"
    using search_measure_decreases[OF ds(2) dependencies_in_range[OF ds(1)], of Q] Q by auto
qed simp

declare upstream_loop.simps [simp del]

definition transitive_upstream_packages :: "PackageGraph \<Rightarrow> PackageName \<Rightarrow> EngineError + PackageName list" where
  "transitive_upstream_packages g package_name =
     bind_result (enqueue_unvisited_dependencies g package_name ([], []))
       (\<lambda>(visited, queue). upstream_loop g visited queue)"

section \<open>Construction\<close>

definition tg_task_definition :: "TaskGraph \<Rightarrow> TaskId \<Rightarrow> TaskDefinition option" where
  "tg_task_definition tg task_id = map_of (tg_definitions_by_id tg) task_id"

definition task_definition_candidates :: "ResolvedPipeline \<Rightarrow> TaskName \<Rightarrow> TaskId list" where
  "task_definition_candidates rp task_name =
     filter (\<lambda>task_id. tid_task task_id = task_name) (map fst (rp_tasks_by_id rp))"

definition is_direct_upstream :: "TaskId \<Rightarrow> TaskId \<Rightarrow> PackageGraph \<Rightarrow> PackageName \<Rightarrow> bool" where
  "is_direct_upstream source_task_id dependency_task_id g root_package \<longleftrightarrow>
     (if tid_package dependency_task_id = root_package then False
      else case pg_dependencies_of g (upstream_source_package g source_task_id) of
             Inl _ \<Rightarrow> False
           | Inr dependencies \<Rightarrow> list_ex (\<lambda>d. pn_name d = tid_package dependency_task_id) dependencies)"

definition is_transitive_upstream :: "TaskId \<Rightarrow> TaskId \<Rightarrow> PackageGraph \<Rightarrow> PackageName \<Rightarrow> bool" where
  "is_transitive_upstream source_task_id dependency_task_id g root_package \<longleftrightarrow>
     (if tid_package dependency_task_id = root_package then False
      else case transitive_upstream_packages g (upstream_source_package g source_task_id) of
             Inl _ \<Rightarrow> False
           | Inr packages \<Rightarrow> list_ex (\<lambda>p. p = tid_package dependency_task_id) packages)"

fun expand_dependency :: "TaskGraph \<Rightarrow> TaskId \<Rightarrow> PackageGraph \<Rightarrow> ResolvedPipeline \<Rightarrow> PackageName \<Rightarrow>
    DependsOn \<Rightarrow> EngineError + TaskId list" where
  "expand_dependency tg source_task_id g rp root_package (SamePackage task_name) =
     (let candidate = task_id_new (tid_package source_task_id) task_name in
      Inr (case tg_task_definition tg candidate of Some _ \<Rightarrow> [candidate] | None \<Rightarrow> []))"
| "expand_dependency tg source_task_id g rp root_package (Specific task_id) =
     Inr (case tg_task_definition tg task_id of Some _ \<Rightarrow> [task_id] | None \<Rightarrow> [])"
| "expand_dependency tg source_task_id g rp root_package (DirectUpstream task_name) =
     Inr (filter (\<lambda>task_id. is_direct_upstream source_task_id task_id g root_package)
       (task_definition_candidates rp task_name))"
| "expand_dependency tg source_task_id g rp root_package (TransitiveUpstream task_name) =
     Inr (filter (\<lambda>task_id. is_transitive_upstream source_task_id task_id g root_package)
       (task_definition_candidates rp task_name))"
| "expand_dependency tg source_task_id g rp root_package (Root task_name) =
     Inr (filter (\<lambda>task_id. tid_package task_id = root_package)
       (task_definition_candidates rp task_name))"

definition add_edge_if_present :: "TaskId \<Rightarrow> TaskId \<Rightarrow> TaskGraph \<Rightarrow> TaskGraph" where
  "add_edge_if_present source dependency tg =
     (case (map_of (tg_indices_by_id tg) source, map_of (tg_indices_by_id tg) dependency) of
        (Some source_index, Some dependency_index) \<Rightarrow>
          (if dg_has_edge (tg_graph tg) source_index dependency_index then tg
           else tg\<lparr>tg_graph := dg_add_edge (tg_graph tg) source_index dependency_index\<rparr>)
      | _ \<Rightarrow> tg)"

fun add_task_nodes :: "(TaskId \<times> TaskDefinition) list \<Rightarrow> TaskNode digraph \<times> (TaskId, nat) hmap \<Rightarrow>
    TaskNode digraph \<times> (TaskId, nat) hmap" where
  "add_task_nodes [] (graph, indices) = (graph, indices)"
| "add_task_nodes ((task_id, d) # rest) (graph, indices) =
     (case dg_add_node graph \<lparr>tn_id = task_id, tn_weight = td_weight d\<rparr> of
        (graph', index) \<Rightarrow> add_task_nodes rest (graph', AList.update task_id index indices))"

fun add_dependency_edges :: "PackageGraph \<Rightarrow> ResolvedPipeline \<Rightarrow> PackageName \<Rightarrow> TaskId \<Rightarrow>
    DependsOn list \<Rightarrow> TaskGraph \<Rightarrow> EngineError + TaskGraph" where
  "add_dependency_edges g rp root_package source_id [] tg = Inr tg"
| "add_dependency_edges g rp root_package source_id (dependency # rest) tg =
     (case expand_dependency tg source_id g rp root_package dependency of
        Inl e \<Rightarrow> Inl e
      | Inr dependency_ids \<Rightarrow>
          add_dependency_edges g rp root_package source_id rest
            (fold (add_edge_if_present source_id) dependency_ids tg))"

fun add_task_edges :: "PackageGraph \<Rightarrow> ResolvedPipeline \<Rightarrow> PackageName \<Rightarrow>
    (TaskId \<times> TaskDefinition) list \<Rightarrow> TaskGraph \<Rightarrow> EngineError + TaskGraph" where
  "add_task_edges g rp root_package [] tg = Inr tg"
| "add_task_edges g rp root_package ((source_id, d) # rest) tg =
     (case add_dependency_edges g rp root_package source_id (td_depends_on d) tg of
        Inl e \<Rightarrow> Inl e
      | Inr tg' \<Rightarrow> add_task_edges g rp root_package rest tg')"

abbreviation tg_weight :: "TaskGraph \<Rightarrow> nat \<Rightarrow> TaskNode" where
  "tg_weight tg i \<equiv> dg_nodes (tg_graph tg) ! i"

definition tg_topological_order :: "toposort \<Rightarrow> TaskGraph \<Rightarrow> EngineError + TaskNode list" where
  "tg_topological_order topo tg =
     (case topo (length (dg_nodes (tg_graph tg))) (dg_edges (tg_graph tg)) of
        Inl v \<Rightarrow> Inl (TaskGraphCycle (tn_id (tg_weight tg v)))
      | Inr order \<Rightarrow> Inr (rev (map (tg_weight tg) order)))"

definition validate_acyclic :: "toposort \<Rightarrow> TaskGraph \<Rightarrow> EngineError + unit" where
  "validate_acyclic topo tg = bind_result (tg_topological_order topo tg) (\<lambda>_. Inr ())"

definition from_resolved_pipeline ::
  "toposort \<Rightarrow> PackageGraph \<Rightarrow> ResolvedPipeline \<Rightarrow> EngineError + TaskGraph" where
  "from_resolved_pipeline topo g rp =
     (let root_package = root_package_name;
          (graph, indices) = add_task_nodes (rp_tasks_by_id rp) (dg_empty, []);
          with_nodes = \<lparr>tg_graph = graph, tg_indices_by_id = indices,
            tg_definitions_by_id = rp_tasks_by_id rp,
            tg_inputs_from_worker_by_id = rp_inputs_from_worker_by_id rp\<rparr>
      in bind_result (add_task_edges g rp root_package (rp_tasks_by_id rp) with_nodes) (\<lambda>with_edges.
           bind_result (validate_acyclic topo with_edges) (\<lambda>_. Inr with_edges)))"

definition tg_build ::
  "toposort \<Rightarrow> PackageGraph \<Rightarrow> (TaskName, TaskDefinition) hmap \<Rightarrow> EngineError + TaskGraph" where
  "tg_build topo g pipeline =
     bind_result (resolved_pipeline_build topo g pipeline) (from_resolved_pipeline topo g)"

definition build_resolved :: "toposort \<Rightarrow> scheduler \<Rightarrow> nat \<Rightarrow> PackageGraph \<Rightarrow>
    (TaskName, TaskDefinition) hmap \<Rightarrow> (PackageName, PackageResolveInfo) hmap \<Rightarrow>
    (string, WorkerDefinition) hmap \<Rightarrow> resolver \<Rightarrow> ResolveMode \<Rightarrow>
    EngineError + TaskGraph \<times> PrunedTask list" where
  "build_resolved topo sched parallelism g pipeline packages worker_definitions resolver mode =
     bind_result (resolved_pipeline_build topo g pipeline) (\<lambda>rp0.
     case pipeline_resolve sched parallelism packages resolver mode rp0 of
       Inl e \<Rightarrow> Inl (EngineResolve e)
     | Inr (rp1, pruned) \<Rightarrow>
         (let rp2 = inject_worker_dependencies worker_definitions rp1;
              rp3 = fst (apply_prunes pruned rp2)
          in bind_result (from_resolved_pipeline topo g rp3) (\<lambda>graph. Inr (graph, pruned))))"

section \<open>Queries\<close>

definition tg_nodes :: "TaskGraph \<Rightarrow> TaskNode list" where
  "tg_nodes tg = dg_nodes (tg_graph tg)"

definition tg_node_index :: "TaskGraph \<Rightarrow> TaskId \<Rightarrow> nat option" where
  "tg_node_index tg task_id = map_of (tg_indices_by_id tg) task_id"

definition tg_dependencies_of :: "TaskGraph \<Rightarrow> TaskId \<Rightarrow> TaskNode list" where
  "tg_dependencies_of tg task_id =
     (case tg_node_index tg task_id of
        None \<Rightarrow> []
      | Some index \<Rightarrow> map (tg_weight tg) (neighbors_directed (tg_graph tg) index Outgoing))"

definition tg_inputs_from_worker :: "TaskGraph \<Rightarrow> TaskId \<Rightarrow> bool" where
  "tg_inputs_from_worker tg task_id =
     (case map_of (tg_inputs_from_worker_by_id tg) task_id of Some b \<Rightarrow> b | None \<Rightarrow> False)"

definition tg_task_node :: "TaskGraph \<Rightarrow> TaskId \<Rightarrow> TaskNode option" where
  "tg_task_node tg task_id = map_option (tg_weight tg) (tg_node_index tg task_id)"

definition tg_node_count :: "TaskGraph \<Rightarrow> nat" where
  "tg_node_count tg = length (dg_nodes (tg_graph tg))"

definition tg_edge_count :: "TaskGraph \<Rightarrow> nat" where
  "tg_edge_count tg = length (dg_edges (tg_graph tg))"

section \<open>Specification\<close>

text \<open>The tasks an entry of \<open>depends_on\<close> designates, over all conceivable task ids: a same-package
  or specific entry names one task; the upstream entries name that task in the direct or
  transitive dependencies of the source's package, never the root task; a root entry names the
  root task.\<close>

fun designates :: "PackageGraph \<Rightarrow> TaskId \<Rightarrow> DependsOn \<Rightarrow> TaskId set" where
  "designates g source (SamePackage t) = {task_id_new (tid_package source) t}"
| "designates g source (Specific tid) = {tid}"
| "designates g source (DirectUpstream t) =
     {task_id_new p t | p. p \<noteq> ROOT_PACKAGE_NAME \<and> (upstream_source_package g source, p) \<in> pg_rel g Outgoing}"
| "designates g source (TransitiveUpstream t) =
     {task_id_new p t | p. p \<noteq> ROOT_PACKAGE_NAME \<and> (upstream_source_package g source, p) \<in> (pg_rel g Outgoing)\<^sup>+}"
| "designates g source (Root t) = {root_task_id t}"

definition declared_rel :: "PackageGraph \<Rightarrow> (TaskId, TaskDefinition) hmap \<Rightarrow> (TaskId \<times> TaskId) set" where
  "declared_rel g tasks =
     {(a, b). \<exists>d dep. (a, d) \<in> set tasks \<and> dep \<in> set (td_depends_on d) \<and> b \<in> designates g a dep \<and>
        b \<in> fst ` set tasks}"

definition wf_task_graph :: "TaskGraph \<Rightarrow> bool" where
  "wf_task_graph tg \<longleftrightarrow> wf_named tn_id (tg_graph tg) (tg_indices_by_id tg) \<and>
     distinct (dg_edges (tg_graph tg)) \<and>
     (\<forall>n \<in> set (dg_nodes (tg_graph tg)). \<exists>d. map_of (tg_definitions_by_id tg) (tn_id n) = Some d \<and>
        tn_weight n = td_weight d) \<and>
     fst ` set (tg_definitions_by_id tg) = tn_id ` set (dg_nodes (tg_graph tg))"

definition tg_ids :: "TaskGraph \<Rightarrow> TaskId set" where
  "tg_ids tg = tn_id ` set (dg_nodes (tg_graph tg))"

text \<open>The edges, from a task to the tasks it waits for.\<close>

definition tg_rel :: "TaskGraph \<Rightarrow> (TaskId \<times> TaskId) set" where
  "tg_rel tg = named_rel tn_id (tg_graph tg) Outgoing"

section \<open>Upstream packages\<close>

lemma enqueue_Inr:
  assumes "wf_package_graph g" "n \<in> pg_names g"
  shows "\<exists>ds. enqueue_unvisited_dependencies g n vq = Inr (push_unvisited ds vq) \<and>
    set ds = pg_rel g Outgoing `` {n}"
proof -
  obtain ds where "pg_dependencies_of g n = Inr ds" using pgs.deps_known[OF assms(1)] assms(2) by blast
  moreover from this have "set (map pn_name ds) = pg_rel g Outgoing `` {n}"
    using pgs.deps_rel[OF assms(1)] by simp
  ultimately show ?thesis
    by (intro exI[of _ "map pn_name ds"]) (simp add: enqueue_unvisited_dependencies_def)
qed

lemma search_inv_known:
  assumes "search_inv (pg_rel g Outgoing) S V Q" "wf_package_graph g" "S \<subseteq> pg_names g"
  shows "set V \<subseteq> pg_names g"
proof
  fix x assume "x \<in> set V"
  then obtain s where "s \<in> S" "(s, x) \<in> (pg_rel g Outgoing)\<^sup>*" using assms(1) by (auto simp: search_inv_def)
  then show "x \<in> pg_names g" using pgs.reach_names[OF _ assms(2)] assms(3) by blast
qed

lemma upstream_loop_reaches:
  assumes "wf_package_graph g" "S \<subseteq> pg_names g" "search_inv (pg_rel g Outgoing) S V Q"
  shows "\<exists>ps. upstream_loop g V Q = Inr ps \<and> set ps = (pg_rel g Outgoing)\<^sup>* `` S"
  using assms
proof (induction g V Q rule: upstream_loop.induct)
  case (1 g V Q)
  show ?case
  proof (cases Q)
    case Nil
    then show ?thesis using 1(4) search_inv_done[of _ S V] by (simp add: upstream_loop.simps[of g V "[]"])
  next
    case (Cons c r)
    then have "c \<in> pg_names g" using search_inv_known[OF 1(4,2,3)] 1(4) by (auto simp: search_inv_def)
    then obtain ds where ds: "enqueue_unvisited_dependencies g c (V, r) = Inr (push_unvisited ds (V, r))"
      "set ds = pg_rel g Outgoing `` {c}" using enqueue_Inr[OF 1(2)] by blast
    obtain V' Q' where push: "push_unvisited ds (V, r) = (V', Q')" by fastforce
    have "search_inv (pg_rel g Outgoing) S V' Q'"
      by (rule search_inv_step[OF 1(4) _ ds(2) push]) (simp add: Cons)
    then show ?thesis
      using 1(1)[OF Cons ds(1) push[symmetric] 1(2,3)] ds(1) push Cons
      by (simp add: upstream_loop.simps[of g V "c # r"])
  qed
qed

text \<open>The breadth-first search returns the packages reachable in one step or more.\<close>

lemma transitive_upstream_spec:
  assumes wf: "wf_package_graph g"
  shows "n \<in> pg_names g \<Longrightarrow> \<exists>ps. transitive_upstream_packages g n = Inr ps \<and>
      set ps = (pg_rel g Outgoing)\<^sup>+ `` {n}"
    and "n \<notin> pg_names g \<Longrightarrow> \<exists>e. transitive_upstream_packages g n = Inl e"
proof -
  assume "n \<in> pg_names g"
  then obtain ds where ds: "enqueue_unvisited_dependencies g n ([], []) = Inr (push_unvisited ds ([], []))"
    "set ds = pg_rel g Outgoing `` {n}" using enqueue_Inr[OF wf] by blast
  obtain V Q where push: "push_unvisited ds ([], []) = (V, Q)" by fastforce
  have "set ds \<subseteq> pg_names g" using ds(2) pg_rel_names[OF wf] by blast
  from upstream_loop_reaches[OF wf this search_inv_seeds[OF push]]
  show "\<exists>ps. transitive_upstream_packages g n = Inr ps \<and> set ps = (pg_rel g Outgoing)\<^sup>+ `` {n}"
    by (auto simp: transitive_upstream_packages_def ds push trancl_unfold_left)
next
  assume "n \<notin> pg_names g"
  then obtain e where "pg_dependencies_of g n = Inl e"
    using pgs.deps_known[OF wf, of n] by (cases "pg_dependencies_of g n") auto
  then show "\<exists>e. transitive_upstream_packages g n = Inl e"
    by (simp add: transitive_upstream_packages_def enqueue_unvisited_dependencies_def)
qed

lemma is_direct_upstream_iff:
  assumes wf: "wf_package_graph g"
  shows "is_direct_upstream source dep g root \<longleftrightarrow>
    tid_package dep \<noteq> root \<and> (upstream_source_package g source, tid_package dep) \<in> pg_rel g Outgoing"
proof (cases "pg_dependencies_of g (upstream_source_package g source)")
  case (Inl e)
  then have "upstream_source_package g source \<notin> pg_names g"
    using pgs.deps_known[OF wf] by (metis Inl_Inr_False)
  then show ?thesis using Inl pg_rel_names[OF wf] by (auto simp: is_direct_upstream_def)
next
  case (Inr ds)
  have "(\<exists>d \<in> set ds. pn_name d = tid_package dep) \<longleftrightarrow> tid_package dep \<in> pn_name ` set ds"
    by (metis image_iff)
  also have "\<dots> \<longleftrightarrow> (upstream_source_package g source, tid_package dep) \<in> pg_rel g Outgoing"
    unfolding pgs.deps_rel[OF wf Inr] by simp
  finally have "(\<exists>d \<in> set ds. pn_name d = tid_package dep) \<longleftrightarrow>
      (upstream_source_package g source, tid_package dep) \<in> pg_rel g Outgoing" .
  then show ?thesis using Inr by (simp add: is_direct_upstream_def list_ex_iff)
qed

lemma is_transitive_upstream_iff:
  assumes wf: "wf_package_graph g"
  shows "is_transitive_upstream source dep g root \<longleftrightarrow>
    tid_package dep \<noteq> root \<and> (upstream_source_package g source, tid_package dep) \<in> (pg_rel g Outgoing)\<^sup>+"
proof (cases "upstream_source_package g source \<in> pg_names g")
  case True
  then obtain ps where "transitive_upstream_packages g (upstream_source_package g source) = Inr ps"
    "set ps = (pg_rel g Outgoing)\<^sup>+ `` {upstream_source_package g source}"
    using transitive_upstream_spec(1)[OF wf] by blast
  then show ?thesis by (simp add: is_transitive_upstream_def list_ex_iff)
next
  case False
  then have "(upstream_source_package g source, p) \<notin> (pg_rel g Outgoing)\<^sup>+" for p
    using pg_rel_names[OF wf, of Outgoing] by (meson SigmaD1 subsetD tranclD)
  with transitive_upstream_spec(2)[OF wf False] show ?thesis
    by (auto simp: is_transitive_upstream_def)
qed

section \<open>Edges\<close>

text \<open>Entries designate exactly the tasks that expansion returns, among those that exist.\<close>

lemma candidates_set:
  "set (task_definition_candidates rp t) = {task_id_new p t | p. task_id_new p t \<in> rp_ids rp}"
proof (intro set_eqI)
  fix x
  show "x \<in> set (task_definition_candidates rp t) \<longleftrightarrow> x \<in> {task_id_new p t | p. task_id_new p t \<in> rp_ids rp}"
    by (cases x) (auto simp: task_definition_candidates_def rp_ids_def)
qed

lemma expand_dependency_spec:
  assumes wf: "wf_package_graph g" and defs: "tg_definitions_by_id tg = rp_tasks_by_id rp"
  shows "\<exists>ids. expand_dependency tg source g rp root_package_name dep = Inr ids \<and>
    set ids = designates g source dep \<inter> rp_ids rp"
proof -
  have known: "(case tg_task_definition tg t of Some _ \<Rightarrow> [t] | None \<Rightarrow> []) =
      (if t \<in> rp_ids rp then [t] else [])" for t
    using map_of_eq_None_iff[of "rp_tasks_by_id rp" t]
    by (cases "map_of (rp_tasks_by_id rp) t") (auto simp: tg_task_definition_def defs rp_ids_def)
  show ?thesis
    by (cases dep) (auto simp: Let_def candidates_set is_direct_upstream_iff[OF wf]
        is_transitive_upstream_iff[OF wf] root_package_name_def root_task_id_def known)
qed

text \<open>\<open>extends tg E tg'\<close>: the step kept the nodes, the tables and the invariant, and added exactly
  the edges \<open>E\<close>.\<close>

definition edge_inv :: "TaskGraph \<Rightarrow> bool" where
  "edge_inv tg \<longleftrightarrow> wf_named tn_id (tg_graph tg) (tg_indices_by_id tg) \<and> distinct (dg_edges (tg_graph tg))"

definition extends :: "TaskGraph \<Rightarrow> (TaskId \<times> TaskId) set \<Rightarrow> TaskGraph \<Rightarrow> bool" where
  "extends tg E tg' \<longleftrightarrow> edge_inv tg' \<and> dg_nodes (tg_graph tg') = dg_nodes (tg_graph tg) \<and>
     tg_indices_by_id tg' = tg_indices_by_id tg \<and> tg_definitions_by_id tg' = tg_definitions_by_id tg \<and>
     tg_inputs_from_worker_by_id tg' = tg_inputs_from_worker_by_id tg \<and> tg_rel tg' = tg_rel tg \<union> E"

lemma extends_refl: "edge_inv tg \<Longrightarrow> extends tg {} tg"
  by (simp add: extends_def)

lemma extends_trans: "extends tg E tg' \<Longrightarrow> extends tg' F tg'' \<Longrightarrow> extends tg (E \<union> F) tg''"
  by (auto simp: extends_def)

lemma extends_ids: "extends tg E tg' \<Longrightarrow> tg_ids tg' = tg_ids tg"
  by (simp add: extends_def tg_ids_def)

lemma extends_inv: "extends tg E tg' \<Longrightarrow> edge_inv tg'"
  by (simp add: extends_def)

lemma add_edge_extends:
  assumes inv: "edge_inv tg"
  shows "extends tg ({(a, b)} \<inter> tg_ids tg \<times> tg_ids tg) (add_edge_if_present a b tg)"
proof -
  have wf: "wf_named tn_id (tg_graph tg) (tg_indices_by_id tg)" using inv by (simp add: edge_inv_def)
  show ?thesis
  proof (cases "a \<in> tg_ids tg \<and> b \<in> tg_ids tg")
    case False
    then have "add_edge_if_present a b tg = tg"
      using named_unknown[OF wf, of a] named_unknown[OF wf, of b]
      by (auto simp: add_edge_if_present_def tg_ids_def split: option.split)
    then show ?thesis using False inv by (auto simp: extends_def)
  next
    case True
    then obtain i j where ij: "map_of (tg_indices_by_id tg) a = Some i" "map_of (tg_indices_by_id tg) b = Some j"
      using named_known[OF wf] unfolding tg_ids_def by metis
    then have at: "i < length (dg_nodes (tg_graph tg))" "tn_id (tg_weight tg i) = a"
      "j < length (dg_nodes (tg_graph tg))" "tn_id (tg_weight tg j) = b"
      using wf_namedD(2)[OF wf] by auto
    show ?thesis
    proof (cases "dg_has_edge (tg_graph tg) i j")
      case True
      then have "(a, b) \<in> tg_rel tg" using at by (force simp: tg_rel_def named_rel_def dg_has_edge_def)
      then show ?thesis using True ij inv by (auto simp: add_edge_if_present_def extends_def)
    next
      case False
      let ?g = "dg_add_edge (tg_graph tg) i j"
      have "wf_named tn_id ?g (tg_indices_by_id tg)"
        using wf at by (auto simp: wf_named_def wf_digraph_def)
      moreover have "named_rel tn_id ?g Outgoing = insert (a, b) (tg_rel tg)"
        using at by (auto simp: named_rel_def tg_rel_def)
      ultimately show ?thesis
        using False ij inv \<open>a \<in> tg_ids tg \<and> b \<in> tg_ids tg\<close>
        by (auto simp: add_edge_if_present_def extends_def edge_inv_def dg_has_edge_def tg_rel_def)
    qed
  qed
qed

lemma add_edges_extends:
  assumes "edge_inv tg"
  shows "extends tg (({a} \<times> set bs) \<inter> tg_ids tg \<times> tg_ids tg) (fold (add_edge_if_present a) bs tg)"
  using assms
proof (induction bs arbitrary: tg)
  case Nil
  then show ?case by (simp add: extends_refl)
next
  case (Cons b bs)
  note first = add_edge_extends[OF Cons.prems, of a b]
  have "({a} \<times> set (b # bs)) \<inter> tg_ids tg \<times> tg_ids tg =
      ({(a, b)} \<inter> tg_ids tg \<times> tg_ids tg) \<union> (({a} \<times> set bs) \<inter> tg_ids tg \<times> tg_ids tg)" by auto
  with extends_trans[OF first Cons.IH[OF extends_inv[OF first]]] extends_ids[OF first]
  show ?case by simp
qed

definition edges_of_task :: "PackageGraph \<Rightarrow> TaskId \<Rightarrow> DependsOn list \<Rightarrow> (TaskId \<times> TaskId) set" where
  "edges_of_task g a deps = {a} \<times> (\<Union>dep \<in> set deps. designates g a dep)"

lemma add_dependency_edges_extends:
  assumes "wf_package_graph g" "tg_definitions_by_id tg = rp_tasks_by_id rp" "tg_ids tg = rp_ids rp" "edge_inv tg"
  shows "\<exists>tg'. add_dependency_edges g rp root_package_name a deps tg = Inr tg' \<and>
    extends tg (edges_of_task g a deps \<inter> rp_ids rp \<times> rp_ids rp) tg'"
  using assms
proof (induction deps arbitrary: tg)
  case Nil
  then show ?case by (simp add: extends_refl edges_of_task_def)
next
  case (Cons dep deps)
  obtain ids where ids: "expand_dependency tg a g rp root_package_name dep = Inr ids"
    "set ids = designates g a dep \<inter> rp_ids rp" using expand_dependency_spec[OF Cons.prems(1,2)] by blast
  let ?tg = "fold (add_edge_if_present a) ids tg"
  have first: "extends tg (({a} \<times> set ids) \<inter> rp_ids rp \<times> rp_ids rp) ?tg"
    using add_edges_extends[OF Cons.prems(4), of a ids] Cons.prems(3) by simp
  then have "tg_definitions_by_id ?tg = rp_tasks_by_id rp" "tg_ids ?tg = rp_ids rp"
    using Cons.prems(2,3) extends_ids[OF first] by (simp_all add: extends_def)
  then obtain tg' where tg': "add_dependency_edges g rp root_package_name a deps ?tg = Inr tg'"
    "extends ?tg (edges_of_task g a deps \<inter> rp_ids rp \<times> rp_ids rp) tg'"
    using Cons.IH[OF Cons.prems(1) _ _ extends_inv[OF first]] by blast
  have "(({a} \<times> set ids) \<inter> rp_ids rp \<times> rp_ids rp) \<union> (edges_of_task g a deps \<inter> rp_ids rp \<times> rp_ids rp) =
      edges_of_task g a (dep # deps) \<inter> rp_ids rp \<times> rp_ids rp"
    using ids(2) by (auto simp: edges_of_task_def)
  with extends_trans[OF first tg'(2)] tg'(1) ids(1) show ?case by auto
qed

lemma add_task_edges_extends:
  assumes "wf_package_graph g" "tg_definitions_by_id tg = rp_tasks_by_id rp" "tg_ids tg = rp_ids rp" "edge_inv tg"
  shows "\<exists>tg'. add_task_edges g rp root_package_name tasks tg = Inr tg' \<and>
    extends tg ((\<Union>(a, d) \<in> set tasks. edges_of_task g a (td_depends_on d)) \<inter> rp_ids rp \<times> rp_ids rp) tg'"
  using assms
proof (induction tasks arbitrary: tg)
  case Nil
  then show ?case by (simp add: extends_refl)
next
  case (Cons ad tasks)
  obtain a d where ad: "ad = (a, d)" by fastforce
  let ?I = "rp_ids rp \<times> rp_ids rp"
  obtain tg1 where tg1: "add_dependency_edges g rp root_package_name a (td_depends_on d) tg = Inr tg1"
    "extends tg (edges_of_task g a (td_depends_on d) \<inter> ?I) tg1"
    using add_dependency_edges_extends[OF Cons.prems] by blast
  then have "tg_definitions_by_id tg1 = rp_tasks_by_id rp" "tg_ids tg1 = rp_ids rp"
    using Cons.prems(2,3) extends_ids[OF tg1(2)] by (simp_all add: extends_def)
  then obtain tg' where tg': "add_task_edges g rp root_package_name tasks tg1 = Inr tg'"
    "extends tg1 ((\<Union>(a, d) \<in> set tasks. edges_of_task g a (td_depends_on d)) \<inter> ?I) tg'"
    using Cons.IH[OF Cons.prems(1) _ _ extends_inv[OF tg1(2)]] by blast
  show ?case
    using extends_trans[OF tg1(2) tg'(2)] tg1(1) tg'(1) by (simp add: ad Int_Un_distrib2)
qed

lemma all_task_edges:
  "(\<Union>(a, d) \<in> set (rp_tasks_by_id rp). edges_of_task g a (td_depends_on d)) \<inter> rp_ids rp \<times> rp_ids rp =
    declared_rel g (rp_tasks_by_id rp)"
  by (force simp: edges_of_task_def declared_rel_def rp_ids_def)

section \<open>Nodes\<close>

definition task_node_of :: "TaskId \<times> TaskDefinition \<Rightarrow> TaskNode" where
  "task_node_of td = \<lparr>tn_id = fst td, tn_weight = td_weight (snd td)\<rparr>"

lemma add_task_nodes_spec:
  assumes "indexes tn_id (dg_nodes graph) indices" "distinct (map fst tasks)"
    "fst ` set tasks \<inter> tn_id ` set (dg_nodes graph) = {}"
    "add_task_nodes tasks (graph, indices) = (graph', indices')"
  shows "dg_nodes graph' = dg_nodes graph @ map task_node_of tasks \<and> dg_edges graph' = dg_edges graph \<and>
    indexes tn_id (dg_nodes graph') indices'"
  using assms
proof (induction tasks arbitrary: graph indices)
  case Nil
  then show ?case by simp
next
  case (Cons td tasks)
  obtain t d where td: "td = (t, d)" by fastforce
  let ?n = "task_node_of td" and ?g = "graph\<lparr>dg_nodes := dg_nodes graph @ [task_node_of td]\<rparr>"
  have "t \<notin> set (map fst indices)"
    unfolding indexes_keys[OF Cons.prems(1)] using Cons.prems(3) td by auto
  then have "map_of indices (tn_id ?n) = None" by (simp add: task_node_of_def td map_of_eq_None_iff)
  note snoc = indexes_snoc[OF Cons.prems(1) this]
  have run: "add_task_nodes tasks (?g, AList.update t (length (dg_nodes graph)) indices) = (graph', indices')"
    using Cons.prems(4) by (simp add: td dg_add_node_def task_node_of_def)
  have "fst ` set tasks \<inter> tn_id ` set (dg_nodes ?g) = {}"
    using Cons.prems(2,3) by (auto simp: td task_node_of_def)
  from Cons.IH[OF _ _ this run] snoc Cons.prems(2) show ?case by (auto simp: task_node_of_def td)
qed

lemma tg_order_Inr:
  assumes topo: "toposort_laws topo" and wf: "wf_task_graph tg" and r: "tg_topological_order topo tg = Inr ns"
  shows "set ns = set (dg_nodes (tg_graph tg))" "distinct (map tn_id ns)"
    "ns = xs @ n # ys \<Longrightarrow> (tn_id n, d) \<in> tg_rel tg \<Longrightarrow> d \<in> tn_id ` set xs"
proof -
  from r obtain os where os: "topo (length (dg_nodes (tg_graph tg))) (dg_edges (tg_graph tg)) = Inr os"
    "ns = map (tg_weight tg) (rev os)"
    by (auto simp: tg_topological_order_def rev_map split: sum.splits)
  have "wf_named tn_id (tg_graph tg) (tg_indices_by_id tg)" using wf by (simp add: wf_task_graph_def)
  note order = named_order[OF topo this os]
  show "set ns = set (dg_nodes (tg_graph tg))" "distinct (map tn_id ns)" by (fact order)+
  show "ns = xs @ n # ys \<Longrightarrow> (tn_id n, d) \<in> tg_rel tg \<Longrightarrow> d \<in> tn_id ` set xs"
    unfolding tg_rel_def by (rule order(3))
qed

text \<open>The outcome of construction: the graph of the declared relation, or a task on a cycle of it.\<close>

lemma from_resolved_pipeline_spec:
  assumes topo: "toposort_laws topo" and wf: "wf_package_graph g"
    and dist: "distinct (map fst (rp_tasks_by_id rp))"
  shows "case from_resolved_pipeline topo g rp of
      Inr tg \<Rightarrow> wf_task_graph tg \<and> tg_ids tg = rp_ids rp \<and> tg_rel tg = declared_rel g (rp_tasks_by_id rp) \<and>
        tg_definitions_by_id tg = rp_tasks_by_id rp \<and>
        tg_inputs_from_worker_by_id tg = rp_inputs_from_worker_by_id rp \<and> acyclic (tg_rel tg)
    | Inl e \<Rightarrow> (\<exists>t. e = TaskGraphCycle t \<and> (t, t) \<in> (declared_rel g (rp_tasks_by_id rp))\<^sup>+)"
proof -
  obtain graph indices where gi: "add_task_nodes (rp_tasks_by_id rp) (dg_empty, []) = (graph, indices)"
    by fastforce
  have nodes: "dg_nodes graph = map task_node_of (rp_tasks_by_id rp)" "dg_edges graph = []"
    "indexes tn_id (dg_nodes graph) indices"
    using add_task_nodes_spec[OF _ dist _ gi] by (auto simp: dg_empty_def)
  define tg0 where "tg0 = \<lparr>tg_graph = graph, tg_indices_by_id = indices,
    tg_definitions_by_id = rp_tasks_by_id rp, tg_inputs_from_worker_by_id = rp_inputs_from_worker_by_id rp\<rparr>"
  have tg0: "edge_inv tg0" "tg_ids tg0 = rp_ids rp" "tg_definitions_by_id tg0 = rp_tasks_by_id rp" "tg_rel tg0 = {}"
    using nodes by (auto simp: tg0_def edge_inv_def wf_named_def wf_digraph_def tg_ids_def rp_ids_def
        tg_rel_def named_rel_def task_node_of_def image_image)
  obtain tg where tg: "add_task_edges g rp root_package_name (rp_tasks_by_id rp) tg0 = Inr tg"
    "extends tg0 (declared_rel g (rp_tasks_by_id rp)) tg"
    using add_task_edges_extends[OF wf tg0(3,2,1), of "rp_tasks_by_id rp"] unfolding all_task_edges by blast
  have frame: "dg_nodes (tg_graph tg) = map task_node_of (rp_tasks_by_id rp)"
    "tg_definitions_by_id tg = rp_tasks_by_id rp" "tg_rel tg = declared_rel g (rp_tasks_by_id rp)"
    "tg_inputs_from_worker_by_id tg = rp_inputs_from_worker_by_id rp" "edge_inv tg"
    using tg(2) nodes(1) tg0(4) by (simp_all add: extends_def tg0_def)
  have named: "wf_named tn_id (tg_graph tg) (tg_indices_by_id tg)" using frame(5) by (simp add: edge_inv_def)
  have wf_tg: "wf_task_graph tg"
    using frame dist by (auto simp: wf_task_graph_def edge_inv_def task_node_of_def image_image)
  have result: "from_resolved_pipeline topo g rp = bind_result (validate_acyclic topo tg) (\<lambda>_. Inr tg)"
    using tg(1) by (simp add: from_resolved_pipeline_def gi tg0_def)
  show ?thesis
  proof (cases "topo (length (dg_nodes (tg_graph tg))) (dg_edges (tg_graph tg))")
    case (Inl v)
    from named_cycle[OF topo named Inl] frame(3) show ?thesis
      by (simp add: result validate_acyclic_def tg_topological_order_def Inl tg_rel_def)
  next
    case (Inr os)
    then have "acyclic (tg_rel tg)" using named_sorts_iff[OF topo named] unfolding tg_rel_def by blast
    moreover have "from_resolved_pipeline topo g rp = Inr tg"
      by (simp add: result validate_acyclic_def tg_topological_order_def Inr)
    ultimately show ?thesis using wf_tg frame extends_ids[OF tg(2)] tg0(2) by simp
  qed
qed

lemma tg_dependencies_of_ids:
  assumes "wf_task_graph tg"
  shows "tn_id ` set (tg_dependencies_of tg t) = tg_rel tg `` {t}"
proof -
  have wf: "wf_named tn_id (tg_graph tg) (tg_indices_by_id tg)" using assms by (simp add: wf_task_graph_def)
  show ?thesis
  proof (cases "map_of (tg_indices_by_id tg) t")
    case None
    then have "tg_rel tg `` {t} = {}"
      using named_unknown[OF wf, of t] named_rel_keys[OF wf, of Outgoing] by (auto simp: tg_rel_def)
    with None show ?thesis by (simp add: tg_dependencies_of_def tg_node_index_def)
  next
    case (Some i)
    then have i: "i < length (dg_nodes (tg_graph tg))" "tn_id (tg_weight tg i) = t"
      using wf_namedD(2)[OF wf] by auto
    from named_rel_at[OF wf i(1), of Outgoing] i(2) Some show ?thesis
      by (simp add: tg_dependencies_of_def tg_node_index_def tg_rel_def image_image
          del: neighbors_directed.simps)
  qed
qed

lemma build_resolved_stages:
  assumes "build_resolved topo sched n g pipeline packages ws resolver mode = Inr (tg, pruned)"
  obtains rp0 rp1 where "resolved_pipeline_build topo g pipeline = Inr rp0"
    "pipeline_resolve sched n packages resolver mode rp0 = Inr (rp1, pruned)"
    "from_resolved_pipeline topo g (fst (apply_prunes pruned (inject_worker_dependencies ws rp1))) = Inr tg"
  using assms
  by (cases "resolved_pipeline_build topo g pipeline")
     (auto simp: build_resolved_def bind_result_Inr_iff Let_def split: sum.splits)

section \<open>Properties\<close>

text \<open>C3: Building a task graph from a resolved pipeline gives either a graph whose nodes are the
  tasks of the pipeline and whose edges are exactly the existing tasks that the
  \<open>depends_on\<close> entries designate, with no cycle among them, or an error that names a task
  lying on a cycle of the declared dependencies.\<close>

theorem task_graph_construction:
  assumes "toposort_laws topo" and "wf_package_graph g" and "distinct (map fst (rp_tasks_by_id rp))"
  shows "case from_resolved_pipeline topo g rp of
      Inr tg \<Rightarrow> wf_task_graph tg \<and> tg_ids tg = rp_ids rp \<and> acyclic (tg_rel tg) \<and>
        tg_rel tg = declared_rel g (rp_tasks_by_id rp) \<and> tg_definitions_by_id tg = rp_tasks_by_id rp
    | Inl e \<Rightarrow> (\<exists>t. e = TaskGraphCycle t \<and> (t, t) \<in> (declared_rel g (rp_tasks_by_id rp))\<^sup>+)"
  using from_resolved_pipeline_spec[OF assms] by (auto split: sum.splits)

definition example_rp :: ResolvedPipeline where
  "example_rp =
     \<lparr>rp_tasks_by_id = [(task_id_new ''ui'' ''build'', task_definition_new [DirectUpstream ''build''] 2),
        (task_id_new ''core'' ''build'', task_definition_new [DirectUpstream ''build''] 1)],
      rp_task_names_by_package = [(''ui'', [''build'']), (''core'', [''build''])],
      rp_root_task_names = [], rp_prune_reasons_by_id = [], rp_inputs_from_worker_by_id = []\<rparr>"

definition example_tg :: TaskGraph where
  "example_tg = \<lparr>tg_graph = \<lparr>dg_nodes = [\<lparr>tn_id = task_id_new ''ui'' ''build'', tn_weight = 2\<rparr>,
       \<lparr>tn_id = task_id_new ''core'' ''build'', tn_weight = 1\<rparr>], dg_edges = [(0, 1)]\<rparr>,
     tg_indices_by_id = [(task_id_new ''ui'' ''build'', 0), (task_id_new ''core'' ''build'', 1)],
     tg_definitions_by_id = rp_tasks_by_id example_rp, tg_inputs_from_worker_by_id = []\<rparr>"

lemma example_rp_distinct: "distinct (map fst (rp_tasks_by_id example_rp))"
  by (simp add: example_rp_def)

lemma example_tg_built: "from_resolved_pipeline ref_toposort example_graph example_rp = Inr example_tg"
  by (simp add: from_resolved_pipeline_def example_rp_def example_tg_def dg_empty_def dg_add_node_def
      task_definition_new_def task_definition_candidates_def is_direct_upstream_def upstream_source_package_def
      package_is_root_def root_package_name_def ROOT_PACKAGE_NAME_def pg_dependencies_of_def pg_node_index_def
      example_graph_def example_packages_def add_edge_if_present_def dg_has_edge_def dg_add_edge_def
      validate_acyclic_def tg_topological_order_def ref_toposort_def ref_sort.simps no_pred_def upt_rec)

theorem task_graph_construction_witness:
  "from_resolved_pipeline ref_toposort example_graph example_rp = Inr example_tg \<and>
   wf_task_graph example_tg \<and> acyclic (tg_rel example_tg)"
  using task_graph_construction[OF ref.toposort_laws_axioms example_wf example_rp_distinct]
  unfolding example_tg_built by auto

text \<open>Construction from a resolved pipeline fails exactly when the declared dependencies,
  restricted to the tasks that exist, contain a cycle.\<close>

lemma task_graph_fails_exactly:
  assumes "toposort_laws topo" and "wf_package_graph g" and "distinct (map fst (rp_tasks_by_id rp))"
  shows "(\<exists>e. from_resolved_pipeline topo g rp = Inl e) \<longleftrightarrow> \<not> acyclic (declared_rel g (rp_tasks_by_id rp))"
  using from_resolved_pipeline_spec[OF assms]
  by (cases "from_resolved_pipeline topo g rp") (auto simp: acyclic_def)

lemma task_graph_fails_exactly_witness:
  "acyclic (declared_rel example_graph (rp_tasks_by_id example_rp))"
  using task_graph_fails_exactly[OF ref.toposort_laws_axioms example_wf example_rp_distinct]
    example_tg_built by simp

text \<open>A one-task pipeline whose worker prunes its task in one package.\<close>

definition example_build :: "EngineError + TaskGraph \<times> PrunedTask list" where
  "example_build = build_resolved ref_toposort (\<lambda>_. 0) 4 example_graph
     [(''build'', task_definition_default\<lparr>td_worker := Some ''yarn''\<rparr>)] [] []
     (\<lambda>w r. Inr \<lparr>
        rr_decision = (if rt_package r = ''ui'' then Prune (Some ''no script'') else Accept)\<rparr>) Run"

definition example_built_tg :: TaskGraph where
  "example_built_tg = \<lparr>tg_graph = \<lparr>dg_nodes = [\<lparr>tn_id = task_id_new ''core'' ''build'', tn_weight = 1\<rparr>], dg_edges = []\<rparr>,
     tg_indices_by_id = [(task_id_new ''core'' ''build'', 0)],
     tg_definitions_by_id = [(task_id_new ''core'' ''build'', task_definition_default\<lparr>td_worker := Some ''yarn''\<rparr>)],
     tg_inputs_from_worker_by_id = []\<rparr>"

lemma example_build_value:
  "example_build = Inr (example_built_tg,
     [\<lparr>pt_task_id = task_id_new ''ui'' ''build'', pt_outcome = Pruned (Some ''no script'')\<rparr>])"
  by code_simp



text \<open>The order the task graph offers lists every task once, each after all the tasks it
  depends on, and it exists for every graph without a cycle.\<close>

lemma task_order_correct:
  assumes "toposort_laws topo" and "wf_task_graph tg"
  shows "((\<exists>ns. tg_topological_order topo tg = Inr ns) \<longleftrightarrow> acyclic (tg_rel tg)) \<and>
    (\<forall>ns. tg_topological_order topo tg = Inr ns \<longrightarrow> set ns = set (tg_nodes tg) \<and> distinct (map tn_id ns) \<and>
      (\<forall>xs n ys. ns = xs @ n # ys \<longrightarrow> tg_rel tg `` {tn_id n} \<subseteq> tn_id ` set xs))"
proof -
  have "wf_named tn_id (tg_graph tg) (tg_indices_by_id tg)" using assms(2) by (simp add: wf_task_graph_def)
  from named_sorts_iff[OF assms(1) this]
  have "(\<exists>ns. tg_topological_order topo tg = Inr ns) \<longleftrightarrow> acyclic (tg_rel tg)"
    by (auto simp: tg_topological_order_def tg_rel_def split: sum.splits)
  moreover have "tg_rel tg `` {tn_id n} \<subseteq> tn_id ` set xs"
    if "tg_topological_order topo tg = Inr ns" "ns = xs @ n # ys" for ns xs n ys
    using tg_order_Inr(3)[OF assms that] by auto
  ultimately show ?thesis unfolding tg_nodes_def using tg_order_Inr(1,2)[OF assms] by blast
qed

lemma example_tg_wf: "wf_task_graph example_tg" "acyclic (tg_rel example_tg)"
  using from_resolved_pipeline_spec[OF ref.toposort_laws_axioms example_wf example_rp_distinct]
  unfolding example_tg_built by auto

lemma task_order_correct_witness:
  "wf_task_graph example_tg \<and> (\<exists>ns. tg_topological_order ref_toposort example_tg = Inr ns \<and>
     set ns = set (tg_nodes example_tg))"
proof -
  note order = task_order_correct[OF ref.toposort_laws_axioms example_tg_wf(1)]
  obtain ns where "tg_topological_order ref_toposort example_tg = Inr ns"
    using order example_tg_wf(2) by metis
  then show ?thesis using order example_tg_wf(1) by metis
qed

text \<open>The breadth-first search behind transitive upstream dependencies ends with exactly the
  packages reachable in one or more dependency steps from a known package, and reports an error
  for an unknown one.\<close>

lemma transitive_upstream_correct:
  assumes "wf_package_graph g"
  shows "(n \<in> pg_names g \<longrightarrow> (\<exists>ps. transitive_upstream_packages g n = Inr ps \<and>
      set ps = (pg_rel g Outgoing)\<^sup>+ `` {n})) \<and>
    (n \<notin> pg_names g \<longrightarrow> (\<exists>e. transitive_upstream_packages g n = Inl e))"
  using transitive_upstream_spec[OF assms] by blast

lemma transitive_upstream_correct_witness:
  "\<exists>ps. transitive_upstream_packages example_graph ''ui'' = Inr ps \<and> ''core'' \<in> set ps"
proof -
  have "''ui'' \<in> pg_names example_graph" by (simp add: pg_names_def example_graph_def example_packages_def)
  with transitive_upstream_correct[OF example_wf, of "''ui''"] example_rel show ?thesis by auto
qed

text \<open>The dependencies of a task listed by the graph are exactly its successors in the edge
  relation; an unknown task has none.\<close>

lemma task_dependencies_correct:
  assumes "wf_task_graph tg"
  shows "tn_id ` set (tg_dependencies_of tg t) = tg_rel tg `` {t} \<and>
    (t \<notin> tg_ids tg \<longrightarrow> tg_dependencies_of tg t = [])"
proof -
  have wf: "wf_named tn_id (tg_graph tg) (tg_indices_by_id tg)" using assms by (simp add: wf_task_graph_def)
  have "t \<notin> tg_ids tg \<Longrightarrow> tg_dependencies_of tg t = []"
    using named_unknown[OF wf, of t] by (simp add: tg_dependencies_of_def tg_node_index_def tg_ids_def)
  then show ?thesis using tg_dependencies_of_ids[OF assms] by blast
qed

lemma task_dependencies_correct_witness:
  "wf_task_graph example_tg \<and>
   tn_id ` set (tg_dependencies_of example_tg (task_id_new ''ui'' ''build'')) =
     tg_rel example_tg `` {task_id_new ''ui'' ''build''}"
  using example_tg_wf task_dependencies_correct[OF example_tg_wf(1)] by blast

end
