(* ===== verification/PathGlob.thy ===== *)
theory PathGlob
  imports Types
begin

text \<open>
  Path-glob semantics, \<open>crates/luchta-glob/src/lib.rs\<close>. The glob compiler is the third-party
  crate \<open>globset\<close>: its operations are the fields of \<open>globset_api\<close>, an argument of every
  definition that compiles or matches a pattern. The locale \<open>globset_laws\<close> states the one
  documented fact the code relies on: a set matches a path iff one of its globs does.
\<close>

record ('g, 's, 'e) globset_api =
  api_build_glob :: "string \<Rightarrow> 'e + 'g"
  api_glob_match :: "'g \<Rightarrow> string \<Rightarrow> bool"
  api_build_set :: "'g list \<Rightarrow> 'e + 's"
  api_set_match :: "'s \<Rightarrow> string \<Rightarrow> bool"

text \<open>\<open>api_build_glob\<close> is globset's builder with \<open>literal_separator\<close> and \<open>backslash_escape\<close> set.\<close>

definition build_path_glob :: "('g, 's, 'e) globset_api \<Rightarrow> string \<Rightarrow> 'e + 'g" where
  "build_path_glob api pattern = api_build_glob api pattern"

definition build_path_globset :: "('g, 's, 'e) globset_api \<Rightarrow> string list \<Rightarrow> 'e + 's" where
  "build_path_globset api patterns =
     bind_result (map_result (build_path_glob api) patterns) (api_build_set api)"

definition split_negation :: "string \<Rightarrow> bool \<times> string" where
  "split_negation pattern =
     (case strip_prefix ''!'' pattern of Some body \<Rightarrow> (True, body) | None \<Rightarrow> (False, pattern))"

definition is_negated :: "string \<Rightarrow> bool" where
  "is_negated pattern = fst (split_negation pattern)"

fun unescape_literal :: "string \<Rightarrow> string" where
  "unescape_literal [] = []"
| "unescape_literal [ch] = [ch]"
| "unescape_literal (ch # escaped # rest) =
     (if ch = CHR 0x5C then escaped # unescape_literal rest
      else ch # unescape_literal (escaped # rest))"

record 's PathMatcher =
  pm_includes :: 's
  pm_excludes :: 's

text \<open>The loop over the patterns: the first pattern that does not compile aborts.\<close>

fun route_patterns ::
  "('g, 's, 'e) globset_api \<Rightarrow> string list \<Rightarrow> 'g list \<Rightarrow> 'g list \<Rightarrow> 'e + ('g list \<times> 'g list)" where
  "route_patterns api [] includes excludes = Inr (includes, excludes)"
| "route_patterns api (pattern # rest) includes excludes =
     (case split_negation pattern of (negated, body) \<Rightarrow>
       (case build_path_glob api body of
          Inl e \<Rightarrow> Inl e
        | Inr glob \<Rightarrow>
            (if negated then route_patterns api rest includes (excludes @ [glob])
             else route_patterns api rest (includes @ [glob]) excludes)))"

definition path_matcher_new ::
  "('g, 's, 'e) globset_api \<Rightarrow> string list \<Rightarrow> 'e + 's PathMatcher" where
  "path_matcher_new api patterns =
     bind_result (route_patterns api patterns [] []) (\<lambda>(includes, excludes).
       bind_result (api_build_set api includes) (\<lambda>inc.
         bind_result (api_build_set api excludes) (\<lambda>exc.
           Inr \<lparr>pm_includes = inc, pm_excludes = exc\<rparr>)))"

definition path_matcher_is_match ::
  "('g, 's, 'e) globset_api \<Rightarrow> 's PathMatcher \<Rightarrow> string \<Rightarrow> bool" where
  "path_matcher_is_match api m path \<longleftrightarrow>
     api_set_match api (pm_includes m) path \<and> \<not> api_set_match api (pm_excludes m) path"

section \<open>Lemmas\<close>

lemma split_negation_Cons [simp]:
  "split_negation [] = (False, [])"
  "split_negation (c # cs) = (if c = CHR ''!'' then (True, cs) else (False, c # cs))"
  by (auto simp: split_negation_def)

lemma unescape_literal_plain:
  "CHR 0x5C \<notin> set s \<Longrightarrow> unescape_literal s = s"
  by (induction s rule: unescape_literal.induct) auto

lemma length_unescape_literal: "length (unescape_literal s) \<le> length s"
  by (induction s rule: unescape_literal.induct) auto

text \<open>Escaping every character is undone.\<close>

lemma unescape_escaped: "unescape_literal (concat (map (\<lambda>c. [CHR 0x5C, c]) s)) = s"
  by (induction s) auto

text \<open>A pattern as an include or an exclude: what it says of one path.\<close>

definition pattern_selects ::
  "('g, 's, 'e) globset_api \<Rightarrow> bool \<Rightarrow> string \<Rightarrow> string \<Rightarrow> bool" where
  "pattern_selects api negated path pattern \<longleftrightarrow>
     fst (split_negation pattern) = negated \<and>
     (\<exists>g. build_path_glob api (snd (split_negation pattern)) = Inr g \<and> api_glob_match api g path)"

lemma route_patterns_Inr:
  assumes "route_patterns api ps inc exc = Inr (inc', exc')"
  shows "(\<exists>g \<in> set inc'. api_glob_match api g path) \<longleftrightarrow>
      (\<exists>g \<in> set inc. api_glob_match api g path) \<or> (\<exists>p \<in> set ps. pattern_selects api False path p)"
    and "(\<exists>g \<in> set exc'. api_glob_match api g path) \<longleftrightarrow>
      (\<exists>g \<in> set exc. api_glob_match api g path) \<or> (\<exists>p \<in> set ps. pattern_selects api True path p)"
  using assms
  by (induction api ps inc exc arbitrary: inc' exc' rule: route_patterns.induct)
     (auto simp: pattern_selects_def split: prod.splits sum.splits if_splits)

lemma route_patterns_Inl:
  "(\<exists>e. route_patterns api ps inc exc = Inl e) \<longleftrightarrow>
   (\<exists>p \<in> set ps. \<exists>e. build_path_glob api (snd (split_negation p)) = Inl e)"
  by (induction api ps inc exc rule: route_patterns.induct)
     (auto split: prod.splits sum.splits if_splits)

locale globset_laws =
  fixes api :: "('g, 's, 'e) globset_api"
  assumes set_match: "api_build_set api gs = Inr s \<Longrightarrow>
    api_set_match api s path \<longleftrightarrow> (\<exists>g \<in> set gs. api_glob_match api g path)"
begin

text \<open>A compiled matcher accepts a path iff some include selects it and no exclude does.\<close>

lemma matcher_spec:
  assumes "path_matcher_new api ps = Inr m"
  shows "path_matcher_is_match api m path \<longleftrightarrow>
    (\<exists>p \<in> set ps. pattern_selects api False path p) \<and>
    \<not> (\<exists>p \<in> set ps. pattern_selects api True path p)"
proof -
  from assms obtain inc exc si se where r: "route_patterns api ps [] [] = Inr (inc, exc)"
    and s: "api_build_set api inc = Inr si" "api_build_set api exc = Inr se"
    and m: "m = \<lparr>pm_includes = si, pm_excludes = se\<rparr>"
    by (auto simp: path_matcher_new_def bind_result_Inr_iff)
  show ?thesis
    using route_patterns_Inr[OF r, of path] set_match[OF s(1)] set_match[OF s(2)]
    by (simp add: path_matcher_is_match_def m)
qed

text \<open>So the order of the patterns does not matter.\<close>

lemma matcher_order_irrelevant:
  assumes "path_matcher_new api ps = Inr m" "path_matcher_new api qs = Inr n" "set ps = set qs"
  shows "path_matcher_is_match api m path = path_matcher_is_match api n path"
  using assms by (simp add: matcher_spec)

lemma globset_spec:
  assumes "build_path_globset api ps = Inr s"
  shows "api_set_match api s path \<longleftrightarrow>
    (\<exists>p \<in> set ps. \<exists>g. build_path_glob api p = Inr g \<and> api_glob_match api g path)"
proof -
  from assms obtain gs where gs: "list_all2 (\<lambda>p g. build_path_glob api p = Inr g) ps gs"
    and s: "api_build_set api gs = Inr s"
    by (auto simp: build_path_globset_def bind_result_Inr_iff map_result_Inr)
  from gs have "(\<exists>g \<in> set gs. api_glob_match api g path) \<longleftrightarrow>
      (\<exists>p \<in> set ps. \<exists>g. build_path_glob api p = Inr g \<and> api_glob_match api g path)"
    by (induction rule: list_all2_induct) auto
  then show ?thesis using set_match[OF s] by simp
qed

end

text \<open>
  A concrete glob compiler, to evaluate examples: a pattern without wildcards matches its
  unescaped text, a pattern with wildcards does not compile.
\<close>

definition literal_globset :: "(string, string list, string) globset_api" where
  "literal_globset =
     \<lparr>api_build_glob = (\<lambda>p. if classify_pattern p = Literal then Inr (unescape_literal p)
                            else Inl ''wildcard''),
      api_glob_match = (\<lambda>g path. g = path),
      api_build_set = Inr,
      api_set_match = (\<lambda>s path. path \<in> set s)\<rparr>"

interpretation lit: globset_laws literal_globset
  by unfold_locales (auto simp: literal_globset_def)

section \<open>Properties\<close>

text \<open>A path matcher accepts a path exactly when some plain pattern selects it and no
  negated pattern does, wherever the negated patterns stand in the list: reordering or repeating
  the patterns of a matcher does not change what it accepts.\<close>

lemma path_matcher_negation_wins:
  assumes "globset_laws api" and "path_matcher_new api ps = Inr m"
    and "path_matcher_new api qs = Inr n" and "set qs = set ps"
  shows "path_matcher_is_match api n path = path_matcher_is_match api m path \<and>
    (path_matcher_is_match api m path \<longleftrightarrow>
      (\<exists>p \<in> set ps. pattern_selects api False path p) \<and>
      (\<forall>p \<in> set ps. \<not> pattern_selects api True path p))"
  using globset_laws.matcher_spec[OF assms(1,2)]
    globset_laws.matcher_order_irrelevant[OF assms(1,3,2,4)] by blast

lemma path_matcher_negation_wins_witness:
  "\<exists>m n. path_matcher_new literal_globset [''a'', ''b'', ''!b''] = Inr m \<and>
     path_matcher_new literal_globset [''!b'', ''a'', ''b''] = Inr n \<and>
     path_matcher_is_match literal_globset n ''b'' = path_matcher_is_match literal_globset m ''b''"
proof -
  have h: "path_matcher_new literal_globset [''a'', ''b'', ''!b''] =
      Inr \<lparr>pm_includes = [''a'', ''b''], pm_excludes = [''b'']\<rparr>"
    "path_matcher_new literal_globset [''!b'', ''a'', ''b''] =
      Inr \<lparr>pm_includes = [''a'', ''b''], pm_excludes = [''b'']\<rparr>"
    by (simp_all add: path_matcher_new_def literal_globset_def build_path_glob_def classify_pattern_def)
  have e: "set [''!b'', ''a'', ''b''] = set [''a'', ''b'', ''!b'']" by auto
  show ?thesis
    using h path_matcher_negation_wins[OF lit.globset_laws_axioms h e, of "''b''"] by blast
qed

end
