(* ===== verification/Validation.thy ===== *)
theory Validation
  imports TaskGraph PathGlob "HOL-Library.Product_Lexorder"
begin

text \<open>
  The configuration check behind \<open>luchta check\<close>, from \<open>crates/luchta-engine/src/task_graph.rs\<close>:
  unknown workers, commands without a worker, misdeclared cache files and dead dependency
  references. The lemmas show that the diagnostics are exactly the declared problems, and that a
  dependency is reported as dead exactly when nothing it could designate was ever configured,
  whatever was pruned.
\<close>

datatype DeadDependencyReason =
    UnknownTaskEverywhere TaskName
  | UnknownTaskInPackage PackageName TaskName
  | UnknownPackage PackageName
  | UnknownRootTask TaskName

datatype TaskValidationReason =
    DeadDependencyReference DependsOn DeadDependencyReason
  | CommandWithoutWorker
  | UnknownWorker string
  | CacheFilesRequireCache
  | InvalidCacheFilePattern string
  | CacheFileOverlap string string string

record TaskValidationDiagnostic =
  tvd_task_id :: TaskId
  tvd_reason :: TaskValidationReason

datatype DependencyValidationError = InvalidTasks "TaskValidationDiagnostic list"

fun dead_reason_to_string :: "DeadDependencyReason \<Rightarrow> string" where
  "dead_reason_to_string (UnknownTaskEverywhere task) =
     ''task '' @ sq @ task @ sq @ '' not declared in any package''"
| "dead_reason_to_string (UnknownTaskInPackage package task) =
     ''task '' @ sq @ task @ sq @ '' not declared in package '' @ sq @ package @ sq"
| "dead_reason_to_string (UnknownPackage package) =
     ''package '' @ sq @ package @ sq @ '' not found in workspace''"
| "dead_reason_to_string (UnknownRootTask task) =
     ''root task '' @ sq @ ''#'' @ task @ sq @ '' not declared''"

fun reason_to_string :: "TaskValidationReason \<Rightarrow> string" where
  "reason_to_string (DeadDependencyReference dependency reason) =
     as_config_string dependency @ '': '' @ dead_reason_to_string reason"
| "reason_to_string CommandWithoutWorker =
     ''defines a command but no worker; specify a worker to execute it''"
| "reason_to_string (UnknownWorker worker) = ''references unknown worker '' @ sq @ worker @ sq"
| "reason_to_string CacheFilesRequireCache = ''declares cacheFiles but does not enable cache''"
| "reason_to_string (InvalidCacheFilePattern pattern) =
     ''cacheFiles pattern '' @ sq @ pattern @ sq @ '' must stay inside the task package''"
| "reason_to_string (CacheFileOverlap cache_file role pattern) =
     ''cacheFiles pattern '' @ sq @ cache_file @ sq @ '' overlaps declared '' @ role @ '' pattern '' @
     sq @ pattern @ sq"

section \<open>Cache files\<close>

definition pattern_stays_in_package :: "string \<Rightarrow> bool" where
  "pattern_stays_in_package pattern \<longleftrightarrow>
     \<not> path_is_absolute pattern \<and>
     \<not> list_ex (\<lambda>c. c = ParentDir \<or> c = RootDir) (path_components pattern)"

definition cache_file_pattern_stays_in_package :: "string \<Rightarrow> bool" where
  "cache_file_pattern_stays_in_package pattern =
     (case split_negation pattern of (_, body) \<Rightarrow> pattern_stays_in_package body)"

definition literal_matches_pattern :: "('g, 's, 'e) globset_api \<Rightarrow> string \<Rightarrow> string \<Rightarrow> bool" where
  "literal_matches_pattern api literal pattern \<longleftrightarrow>
     (if classify_pattern literal \<noteq> Literal then False
      else case build_path_glob api pattern of
             Inl _ \<Rightarrow> False
           | Inr glob \<Rightarrow> api_glob_match api glob (unescape_literal literal))"

definition patterns_obviously_overlap :: "('g, 's, 'e) globset_api \<Rightarrow> string \<Rightarrow> string \<Rightarrow> bool" where
  "patterns_obviously_overlap api left0 right0 =
     (case (split_negation left0, split_negation right0) of ((_, left), (_, right)) \<Rightarrow>
       (if left = right then True
        else literal_matches_pattern api left right \<or> literal_matches_pattern api right left))"

definition literal_is_excluded :: "('g, 's, 'e) globset_api \<Rightarrow> string \<Rightarrow> string list \<Rightarrow> bool" where
  "literal_is_excluded api literal0 patterns =
     (let literal = unescape_literal literal0 in
      list_ex (\<lambda>pattern. case split_negation pattern of (_, body) \<Rightarrow>
          (case build_path_glob api body of
             Inl _ \<Rightarrow> False
           | Inr glob \<Rightarrow> api_glob_match api glob literal))
        (filter is_negated patterns))"

definition literal_overlap_is_excluded ::
  "('g, 's, 'e) globset_api \<Rightarrow> string \<Rightarrow> string list \<Rightarrow> string \<Rightarrow> string list \<Rightarrow> bool" where
  "literal_overlap_is_excluded api cache_file cache_file_patterns role_pattern role_patterns \<longleftrightarrow>
     (classify_pattern cache_file = Literal \<and> literal_is_excluded api cache_file role_patterns) \<or>
     (classify_pattern role_pattern = Literal \<and> literal_is_excluded api role_pattern cache_file_patterns)"

abbreviation diagnostic :: "TaskId \<Rightarrow> TaskValidationReason \<Rightarrow> TaskValidationDiagnostic" where
  "diagnostic t r \<equiv> \<lparr>tvd_task_id = t, tvd_reason = r\<rparr>"

definition push_task_diagnostic ::
  "TaskId \<Rightarrow> TaskValidationReason \<Rightarrow> TaskValidationDiagnostic list \<Rightarrow> TaskValidationDiagnostic list" where
  "push_task_diagnostic task_id reason diagnostics = diagnostics @ [diagnostic task_id reason]"

definition validate_cache_file_role_overlaps :: "('g, 's, 'e) globset_api \<Rightarrow> TaskId \<Rightarrow> TaskDefinition \<Rightarrow>
    string \<Rightarrow> string list \<Rightarrow> TaskValidationDiagnostic list \<Rightarrow> TaskValidationDiagnostic list" where
  "validate_cache_file_role_overlaps api task_id definition role role_patterns diagnostics =
     (let cache_files = filter (\<lambda>p. \<not> is_negated p) (td_cache_files definition);
          role_patterns_to_check = filter (\<lambda>p. \<not> is_negated p) role_patterns;
          pairs = concat (map (\<lambda>cache_file. map (\<lambda>pattern. (cache_file, pattern)) role_patterns_to_check) cache_files);
          overlapping = filter (\<lambda>(cache_file, pattern).
            patterns_obviously_overlap api cache_file pattern \<and>
            \<not> literal_overlap_is_excluded api cache_file (td_cache_files definition) pattern role_patterns) pairs
      in fold (\<lambda>(cache_file, pattern). push_task_diagnostic task_id (CacheFileOverlap cache_file role pattern))
           overlapping diagnostics)"

definition validate_cache_file_definition :: "('g, 's, 'e) globset_api \<Rightarrow> TaskId \<Rightarrow> TaskDefinition \<Rightarrow>
    TaskValidationDiagnostic list \<Rightarrow> TaskValidationDiagnostic list" where
  "validate_cache_file_definition api task_id definition diagnostics =
     (if td_cache_files definition = [] then diagnostics
      else let ds1 = (if cache_enabled definition then diagnostics
                      else push_task_diagnostic task_id CacheFilesRequireCache diagnostics);
               ds2 = fold (\<lambda>cache_file. push_task_diagnostic task_id (InvalidCacheFilePattern cache_file))
                       (filter (\<lambda>p. \<not> cache_file_pattern_stays_in_package p) (td_cache_files definition)) ds1
           in fold (\<lambda>(role, patterns). validate_cache_file_role_overlaps api task_id definition role patterns)
                [(''input'', td_inputs definition), (''output'', td_outputs definition)] ds2)"

section \<open>Dead dependencies\<close>

record DependencyContext =
  dc_package_names :: "PackageName list"
  dc_resolved_pipeline :: ResolvedPipeline
  dc_pruned :: "TaskId list"

definition dependency_context_new :: "toposort \<Rightarrow> PackageGraph \<Rightarrow> ResolvedPipeline \<Rightarrow> TaskId list \<Rightarrow> DependencyContext" where
  "dependency_context_new topo g rp pruned =
     \<lparr>dc_package_names = (case pg_topological_order topo g of Inl _ \<Rightarrow> [] | Inr packages \<Rightarrow> map pn_name packages),
      dc_resolved_pipeline = rp, dc_pruned = pruned\<rparr>"

definition pruned_has_id :: "DependencyContext \<Rightarrow> TaskId \<Rightarrow> bool" where
  "pruned_has_id dc task_id \<longleftrightarrow> task_id \<in> set (dc_pruned dc)"

definition pruned_has_package_task :: "DependencyContext \<Rightarrow> TaskName \<Rightarrow> bool" where
  "pruned_has_package_task dc task_name =
     list_ex (\<lambda>task_id. tid_task task_id = task_name \<and> \<not> is_root_task task_id) (dc_pruned dc)"

definition pruned_has_root_task :: "DependencyContext \<Rightarrow> TaskName \<Rightarrow> bool" where
  "pruned_has_root_task dc task_name =
     list_ex (\<lambda>task_id. tid_task task_id = task_name \<and> is_root_task task_id) (dc_pruned dc)"

definition package_exists :: "DependencyContext \<Rightarrow> PackageName \<Rightarrow> bool" where
  "package_exists dc package \<longleftrightarrow> package \<in> set (dc_package_names dc)"

definition same_package_reason :: "DependencyContext \<Rightarrow> TaskId \<Rightarrow> TaskName \<Rightarrow> DeadDependencyReason option" where
  "same_package_reason dc source_task_id task_name =
     (let (exists, pruned_match) =
        (if is_root_task source_task_id
         then (contains_root_task (dc_resolved_pipeline dc) task_name, pruned_has_root_task dc task_name)
         else let candidate = task_id_new (tid_package source_task_id) task_name in
              (task_exists_in_any_package (dc_resolved_pipeline dc) task_name,
               pruned_has_id dc candidate \<or> pruned_has_package_task dc task_name))
      in if \<not> exists \<and> \<not> pruned_match then Some (UnknownTaskEverywhere task_name) else None)"

definition specific_reason :: "DependencyContext \<Rightarrow> TaskId \<Rightarrow> DeadDependencyReason option" where
  "specific_reason dc task_id =
     (if \<not> package_exists dc (tid_package task_id) then Some (UnknownPackage (tid_package task_id))
      else let exists = contains_package_task (dc_resolved_pipeline dc) (tid_package task_id) (tid_task task_id)
           in if \<not> exists \<and> \<not> pruned_has_id dc task_id
              then Some (UnknownTaskInPackage (tid_package task_id) (tid_task task_id)) else None)"

definition upstream_reason :: "DependencyContext \<Rightarrow> TaskName \<Rightarrow> DeadDependencyReason option" where
  "upstream_reason dc task_name =
     (let exists = task_exists_in_any_package (dc_resolved_pipeline dc) task_name in
      if \<not> exists \<and> \<not> pruned_has_package_task dc task_name
      then Some (UnknownTaskEverywhere task_name) else None)"

definition root_reason :: "DependencyContext \<Rightarrow> TaskName \<Rightarrow> DeadDependencyReason option" where
  "root_reason dc task_name =
     (let exists = contains_root_task (dc_resolved_pipeline dc) task_name in
      if \<not> exists \<and> \<not> pruned_has_root_task dc task_name
      then Some (UnknownRootTask task_name) else None)"

fun dead_dependency_reason :: "DependencyContext \<Rightarrow> TaskId \<Rightarrow> DependsOn \<Rightarrow> DeadDependencyReason option" where
  "dead_dependency_reason dc source_task_id (SamePackage task_name) = same_package_reason dc source_task_id task_name"
| "dead_dependency_reason dc source_task_id (Specific task_id) = specific_reason dc task_id"
| "dead_dependency_reason dc source_task_id (DirectUpstream task_name) = upstream_reason dc task_name"
| "dead_dependency_reason dc source_task_id (TransitiveUpstream task_name) = upstream_reason dc task_name"
| "dead_dependency_reason dc source_task_id (Root task_name) = root_reason dc task_name"

section \<open>The check\<close>

definition worker_diagnostics ::
  "string list \<Rightarrow> TaskId \<Rightarrow> TaskDefinition \<Rightarrow> TaskValidationDiagnostic list \<Rightarrow> TaskValidationDiagnostic list" where
  "worker_diagnostics worker_names task_id definition diagnostics =
     (case td_worker definition of
        Some worker \<Rightarrow>
          (if worker \<notin> set worker_names then push_task_diagnostic task_id (UnknownWorker worker) diagnostics
           else diagnostics)
      | None \<Rightarrow>
          (if has_non_blank_command definition then push_task_diagnostic task_id CommandWithoutWorker diagnostics
           else diagnostics))"

definition dependency_diagnostics :: "DependencyContext \<Rightarrow> TaskId \<Rightarrow> DependsOn list \<Rightarrow>
    TaskValidationDiagnostic list \<Rightarrow> TaskValidationDiagnostic list" where
  "dependency_diagnostics dc task_id =
     fold (\<lambda>dependency diagnostics.
       case dead_dependency_reason dc task_id dependency of
         Some reason \<Rightarrow> push_task_diagnostic task_id (DeadDependencyReference dependency reason) diagnostics
       | None \<Rightarrow> diagnostics)"

definition validate_task :: "('g, 's, 'e) globset_api \<Rightarrow> string list \<Rightarrow> DependencyContext \<Rightarrow>
    TaskId \<times> TaskDefinition \<Rightarrow> TaskValidationDiagnostic list \<Rightarrow> TaskValidationDiagnostic list" where
  "validate_task api worker_names dc td diagnostics =
     (case td of (task_id, definition) \<Rightarrow>
       dependency_diagnostics dc task_id (td_depends_on definition)
         (validate_cache_file_definition api task_id definition
           (worker_diagnostics worker_names task_id definition diagnostics)))"

definition diagnostic_key :: "TaskValidationDiagnostic \<Rightarrow> string \<times> string" where
  "diagnostic_key d = (task_id_to_string (tvd_task_id d), reason_to_string (tvd_reason d))"

text \<open>The pipeline the check looks at, once the given ids are removed.\<close>

definition pruned_pipeline :: "(string, WorkerDefinition) hmap \<Rightarrow> TaskId list \<Rightarrow> ResolvedPipeline \<Rightarrow> ResolvedPipeline" where
  "pruned_pipeline worker_definitions pruned rp =
     (let rp1 = inject_worker_dependencies worker_definitions rp in
      if pruned \<noteq> [] then fst (apply_prunes (map (\<lambda>t. \<lparr>pt_task_id = t, pt_outcome = Pruned None\<rparr>) pruned) rp1)
      else rp1)"

text \<open>\<open>None\<close> is the panic of \<open>expect\<close> when the resolved pipeline cannot be built.\<close>

definition validate_tasks_with_pruned :: "('g, 's, 'e) globset_api \<Rightarrow> toposort \<Rightarrow> PackageGraph \<Rightarrow>
    (TaskName, TaskDefinition) hmap \<Rightarrow> (string, WorkerDefinition) hmap \<Rightarrow> TaskId list \<Rightarrow>
    (DependencyValidationError + unit) option" where
  "validate_tasks_with_pruned api topo g pipeline worker_definitions pruned =
     (case resolved_pipeline_build topo g pipeline of
        Inl _ \<Rightarrow> None
      | Inr rp0 \<Rightarrow>
          (let rp = pruned_pipeline worker_definitions pruned rp0;
               worker_names = map fst worker_definitions;
               dc = dependency_context_new topo g rp pruned;
               diagnostics = fold (validate_task api worker_names dc) (rp_tasks_by_id rp) []
           in if diagnostics = [] then Some (Inr ())
              else Some (Inl (InvalidTasks (remdups_adj (sort_key diagnostic_key diagnostics))))))"

definition validate_tasks :: "('g, 's, 'e) globset_api \<Rightarrow> toposort \<Rightarrow> PackageGraph \<Rightarrow>
    (TaskName, TaskDefinition) hmap \<Rightarrow> (string, WorkerDefinition) hmap \<Rightarrow>
    (DependencyValidationError + unit) option" where
  "validate_tasks api topo g pipeline worker_definitions =
     validate_tasks_with_pruned api topo g pipeline worker_definitions []"

section \<open>Specification\<close>

text \<open>What is wrong with one task.\<close>

inductive problem :: "('g, 's, 'e) globset_api \<Rightarrow> string set \<Rightarrow> DependencyContext \<Rightarrow> TaskId \<Rightarrow>
    TaskDefinition \<Rightarrow> TaskValidationReason \<Rightarrow> bool"
  for api names dc t d where
  unknown_worker: "td_worker d = Some w \<Longrightarrow> w \<notin> names \<Longrightarrow> problem api names dc t d (UnknownWorker w)"
| no_worker: "td_worker d = None \<Longrightarrow> has_non_blank_command d \<Longrightarrow> problem api names dc t d CommandWithoutWorker"
| no_cache: "td_cache_files d \<noteq> [] \<Longrightarrow> \<not> cache_enabled d \<Longrightarrow> problem api names dc t d CacheFilesRequireCache"
| escapes: "p \<in> set (td_cache_files d) \<Longrightarrow> \<not> cache_file_pattern_stays_in_package p \<Longrightarrow>
    problem api names dc t d (InvalidCacheFilePattern p)"
| overlap: "cf \<in> set (td_cache_files d) \<Longrightarrow> \<not> is_negated cf \<Longrightarrow>
    (role, ps) \<in> {(''input'', td_inputs d), (''output'', td_outputs d)} \<Longrightarrow> p \<in> set ps \<Longrightarrow> \<not> is_negated p \<Longrightarrow>
    patterns_obviously_overlap api cf p \<Longrightarrow>
    \<not> literal_overlap_is_excluded api cf (td_cache_files d) p ps \<Longrightarrow>
    problem api names dc t d (CacheFileOverlap cf role p)"
| dead: "dep \<in> set (td_depends_on d) \<Longrightarrow> dead_dependency_reason dc t dep = Some r \<Longrightarrow>
    problem api names dc t d (DeadDependencyReference dep r)"

inductive_simps problem_simps [simp]:
  "problem api names dc t d (UnknownWorker w)"
  "problem api names dc t d CommandWithoutWorker"
  "problem api names dc t d CacheFilesRequireCache"
  "problem api names dc t d (InvalidCacheFilePattern p)"
  "problem api names dc t d (CacheFileOverlap cf role p)"
  "problem api names dc t d (DeadDependencyReference dep r)"

text \<open>What a dependency entry needs to find among the configured tasks \<open>C\<close>.\<close>

fun resolvable :: "PackageName set \<Rightarrow> TaskId set \<Rightarrow> TaskId \<Rightarrow> DependsOn \<Rightarrow> bool" where
  "resolvable names C source (SamePackage t) \<longleftrightarrow>
     (if is_root_task source then root_task_id t \<in> C
      else \<exists>p. p \<noteq> ROOT_PACKAGE_NAME \<and> task_id_new p t \<in> C)"
| "resolvable names C source (Specific tid) \<longleftrightarrow> tid_package tid \<in> names \<and> tid \<in> C"
| "resolvable names C source (DirectUpstream t) \<longleftrightarrow> (\<exists>p. p \<noteq> ROOT_PACKAGE_NAME \<and> task_id_new p t \<in> C)"
| "resolvable names C source (TransitiveUpstream t) \<longleftrightarrow> (\<exists>p. p \<noteq> ROOT_PACKAGE_NAME \<and> task_id_new p t \<in> C)"
| "resolvable names C source (Root t) \<longleftrightarrow> root_task_id t \<in> C"

section \<open>Diagnostics are the problems\<close>

lemma fold_push:
  "fold (\<lambda>x. push_task_diagnostic t (r x)) xs ds = ds @ map (\<lambda>x. diagnostic t (r x)) xs"
  by (induction xs arbitrary: ds) (auto simp: push_task_diagnostic_def)

lemma dependency_diagnostics_set:
  "set (dependency_diagnostics dc t deps ds) = set ds \<union>
    {diagnostic t (DeadDependencyReference dep r) | dep r. dep \<in> set deps \<and> dead_dependency_reason dc t dep = Some r}"
  unfolding dependency_diagnostics_def
  by (induction deps arbitrary: ds) (auto simp: push_task_diagnostic_def split: option.splits)

lemma worker_diagnostics_set:
  "set (worker_diagnostics ws t d ds) = set ds \<union> {diagnostic t r | r.
     (\<exists>w. r = UnknownWorker w \<and> td_worker d = Some w \<and> w \<notin> set ws) \<or>
     (r = CommandWithoutWorker \<and> td_worker d = None \<and> has_non_blank_command d)}"
  by (auto simp: worker_diagnostics_def push_task_diagnostic_def split: option.splits)

lemma role_overlaps_set:
  "set (validate_cache_file_role_overlaps api t d role ps ds) = set ds \<union>
    {diagnostic t (CacheFileOverlap cf role p) | cf p. cf \<in> set (td_cache_files d) \<and> \<not> is_negated cf \<and>
       p \<in> set ps \<and> \<not> is_negated p \<and> patterns_obviously_overlap api cf p \<and>
       \<not> literal_overlap_is_excluded api cf (td_cache_files d) p ps}"
proof -
  have "fold (\<lambda>(cf, p). push_task_diagnostic t (CacheFileOverlap cf role p)) xs ds =
      ds @ map (\<lambda>(cf, p). diagnostic t (CacheFileOverlap cf role p)) xs" for xs
    using fold_push[of t "\<lambda>(cf, p). CacheFileOverlap cf role p" xs ds] by (simp add: case_prod_unfold)
  then show ?thesis
    unfolding validate_cache_file_role_overlaps_def Let_def by (simp add: set_eq_iff image_iff) force
qed

lemma cache_file_diagnostics_set:
  "set (validate_cache_file_definition api t d ds) = set ds \<union> {diagnostic t r | r.
     (r = CacheFilesRequireCache \<or> (\<exists>p. r = InvalidCacheFilePattern p) \<or> (\<exists>cf role p. r = CacheFileOverlap cf role p)) \<and>
     problem api names dc t d r}"
  by (auto simp: validate_cache_file_definition_def role_overlaps_set fold_push push_task_diagnostic_def Let_def)

lemma validate_task_set:
  "set (validate_task api ws dc (t, d) ds) = set ds \<union> {diagnostic t r | r. problem api (set ws) dc t d r}"
    (is "?L = ?R")
proof -
  note sets = validate_task_def dependency_diagnostics_set worker_diagnostics_set
    cache_file_diagnostics_set[where names = "set ws" and dc = dc]
  have "problem api (set ws) dc t d r \<Longrightarrow> diagnostic t r \<in> ?L" for r
    by (cases r) (auto simp: sets)
  moreover have "set ds \<subseteq> ?L" by (auto simp: sets)
  ultimately have "?R \<subseteq> ?L" by blast
  moreover have "?L \<subseteq> ?R" by (auto simp: sets)
  ultimately show ?thesis by blast
qed

lemma validate_all_set:
  "set (fold (validate_task api ws dc) tasks ds) =
    set ds \<union> {diagnostic t r | t d r. (t, d) \<in> set tasks \<and> problem api (set ws) dc t d r}"
proof (induction tasks arbitrary: ds)
  case (Cons td tasks)
  then show ?case by (cases td) (auto simp: validate_task_set)
qed simp

section \<open>Dead dependencies and pruning\<close>

lemma pruned_pipeline_ids: "rp_ids (pruned_pipeline ws pruned rp) = rp_ids rp - set pruned"
  by (auto simp: pruned_pipeline_def Let_def apply_prunes_ids inject.same_ids image_image)

lemma pruned_pipeline_wf: "wf_pipeline rp \<Longrightarrow> wf_pipeline (pruned_pipeline ws pruned rp)"
  by (simp add: pruned_pipeline_def Let_def apply_prunes_wf inject.keeps_wf)

lemma any_package_task:
  assumes "wf_pipeline rp" and "\<And>t. \<not> contains_package_task rp ROOT_PACKAGE_NAME t"
  shows "task_exists_in_any_package rp t \<longleftrightarrow> (\<exists>p. p \<noteq> ROOT_PACKAGE_NAME \<and> task_id_new p t \<in> rp_ids rp)"
proof -
  have "task_exists_in_any_package rp t \<longleftrightarrow> (\<exists>p. contains_package_task rp p t)"
  proof
    assume "task_exists_in_any_package rp t"
    then obtain p ts where "(p, ts) \<in> set (rp_task_names_by_package rp)" "t \<in> set ts"
      by (auto simp: task_exists_in_any_package_def)
    moreover from this have "map_of (rp_task_names_by_package rp) p = Some ts"
      using assms(1) by (simp add: wf_pipeline_def)
    ultimately have "contains_package_task rp p t" by (simp add: contains_package_task_def)
    then show "\<exists>p. contains_package_task rp p t" by blast
  next
    assume "\<exists>p. contains_package_task rp p t"
    then show "task_exists_in_any_package rp t"
      by (fastforce simp: contains_package_task_def task_exists_in_any_package_def
          split: option.splits dest: map_of_SomeD)
  qed
  moreover have "contains_package_task rp p t \<longleftrightarrow> p \<noteq> ROOT_PACKAGE_NAME \<and> task_id_new p t \<in> rp_ids rp" for p
    using assms by (cases "p = ROOT_PACKAGE_NAME") (auto simp: wf_pipeline_def)
  ultimately show ?thesis by simp
qed

lemma pruned_pipeline_no_root:
  assumes "wf_pipeline rp" and "\<And>t. \<not> contains_package_task rp ROOT_PACKAGE_NAME t"
  shows "\<not> contains_package_task (pruned_pipeline ws pruned rp) ROOT_PACKAGE_NAME t"
proof -
  have "\<not> contains_package_task (fold apply_prune ps rp') ROOT_PACKAGE_NAME t"
    if "wf_pipeline rp'" "\<And>t. \<not> contains_package_task rp' ROOT_PACKAGE_NAME t" for ps rp'
    using that
  proof (induction ps arbitrary: rp')
    case (Cons e ps)
    moreover have "\<not> contains_package_task (apply_prune e rp') ROOT_PACKAGE_NAME t" for t
      using Cons.prems apply_prune_names[of rp' e] by (simp add: wf_pipeline_def)
    ultimately show ?case using apply_prune_wf[of rp' e] by simp
  qed simp
  moreover have "\<not> contains_package_task (inject_worker_dependencies ws rp) ROOT_PACKAGE_NAME t" for t
    using assms(2)[of t] by (simp add: contains_package_task_def inject.names)
  ultimately show ?thesis
    using inject.keeps_wf[OF assms(1)] by (simp add: pruned_pipeline_def Let_def apply_prunes_def)
qed

text \<open>Whether an entry is dead depends on the configured tasks only, not on what was pruned.\<close>

lemma dead_dependency_iff:
  assumes topo: "toposort_laws topo" and wf: "wf_package_graph g" and dist: "distinct (map fst pipeline)"
    and noroot: "ROOT_PACKAGE_NAME \<notin> pg_names g" and build: "resolved_pipeline_build topo g pipeline = Inr rp"
    and pruned: "set pruned \<subseteq> rp_ids rp"
  shows "dead_dependency_reason (dependency_context_new topo g (pruned_pipeline ws pruned rp) pruned) source dep = None \<longleftrightarrow>
    resolvable (pg_names g) (rp_ids rp) source dep"
proof -
  let ?rp = "pruned_pipeline ws pruned rp"
  define dc where "dc = dependency_context_new topo g ?rp pruned"
  note spec = resolved_pipeline_build_spec[OF topo wf dist noroot build]
  have wf': "wf_pipeline ?rp" using spec(2) by (rule pruned_pipeline_wf)
  have ids: "rp_ids ?rp = rp_ids rp - set pruned" by (rule pruned_pipeline_ids)
  have dc: "dc_resolved_pipeline dc = ?rp" "dc_pruned dc = pruned" by (simp_all add: dc_def dependency_context_new_def)
  from build obtain pkgs where order: "pg_topological_order topo g = Inr pkgs"
    by (auto simp: resolved_pipeline_build_def split: sum.splits)
  have pkg: "package_exists dc p \<longleftrightarrow> p \<in> pg_names g" for p
    using pg_topological_order_Inr(1)[OF topo wf order] order
    by (simp add: package_exists_def dc_def dependency_context_new_def pg_names_def)
  have pruned_pkg: "pruned_has_package_task dc t \<longleftrightarrow> (\<exists>p. p \<noteq> ROOT_PACKAGE_NAME \<and> task_id_new p t \<in> set pruned)" for t
    unfolding pruned_has_package_task_def dc list_ex_iff is_root_task_def task_is_root_def package_is_root_def
    by (metis task_id_eq_iff)
  have pruned_root: "pruned_has_root_task dc t \<longleftrightarrow> root_task_id t \<in> set pruned" for t
    unfolding pruned_has_root_task_def dc list_ex_iff is_root_task_def task_is_root_def package_is_root_def
      root_task_id_def root_package_name_def by (metis task_id_eq_iff)
  have root: "contains_root_task ?rp t \<longleftrightarrow> root_task_id t \<in> rp_ids rp - set pruned" for t
    using wf' ids by (simp add: wf_pipeline_def)
  have "contains_package_task ?rp p t \<longleftrightarrow> task_id_new p t \<in> rp_ids rp - set pruned" if "p \<in> pg_names g" for p t
  proof -
    have "p \<noteq> ROOT_PACKAGE_NAME" using that noroot by blast
    then show ?thesis using wf' ids by (simp add: wf_pipeline_def)
  qed
  then have own: "contains_package_task ?rp (tid_package tid) (tid_task tid) \<longleftrightarrow> tid \<in> rp_ids rp - set pruned"
    if "tid_package tid \<in> pg_names g" for tid using that by (cases tid) simp
  have anyp: "task_exists_in_any_package ?rp t \<longleftrightarrow> (\<exists>p. p \<noteq> ROOT_PACKAGE_NAME \<and> task_id_new p t \<in> rp_ids rp - set pruned)" for t
    using any_package_task[OF wf' pruned_pipeline_no_root[OF spec(2,5)]] ids by simp
  note reasons = same_package_reason_def specific_reason_def upstream_reason_def root_reason_def
  have "dead_dependency_reason dc source dep = None \<longleftrightarrow> resolvable (pg_names g) (rp_ids rp) source dep"
    using pruned
    by (cases dep) (auto simp: reasons Let_def dc pkg pruned_pkg pruned_root root own anyp pruned_has_id_def
        is_root_task_def task_is_root_def package_is_root_def)
  then show ?thesis by (simp add: dc_def)
qed

lemma sorted_map_remdups_adj: "sorted (map f xs) \<Longrightarrow> sorted (map f (remdups_adj xs))"
  by (induction xs rule: remdups_adj.induct) auto

section \<open>Properties\<close>



text \<open>A dependency entry is reported as dead exactly when no configured task could answer it:
  the specific task of a workspace package, the task in some package for same-package and
  upstream entries, the root task for root entries. What was pruned makes no difference, so a
  reference to a pruned task is tolerated and a reference to a task that never existed is not.\<close>

lemma dead_dependency_exactly:
  assumes "toposort_laws topo" and "wf_package_graph g" and "distinct (map fst pipeline)"
    and "ROOT_PACKAGE_NAME \<notin> pg_names g" and "resolved_pipeline_build topo g pipeline = Inr rp"
    and "set pruned \<subseteq> rp_ids rp"
  shows "dead_dependency_reason (dependency_context_new topo g (pruned_pipeline ws pruned rp) pruned) source dep = None \<longleftrightarrow>
    resolvable (pg_names g) (rp_ids rp) source dep"
  by (rule dead_dependency_iff[OF assms])

lemma dead_dependency_exactly_witness:
  "\<exists>rp. resolved_pipeline_build ref_toposort example_graph example_pipeline = Inr rp \<and>
     dead_dependency_reason (dependency_context_new ref_toposort example_graph
       (pruned_pipeline [] [task_id_new ''ui'' ''build''] rp) [task_id_new ''ui'' ''build''])
       (task_id_new ''core'' ''build'') (Specific (task_id_new ''ui'' ''build'')) = None"
proof -
  obtain rp where rp: "resolved_pipeline_build ref_toposort example_graph example_pipeline = Inr rp"
    using resolved_pipeline_build_total[OF example_order] by blast
  note spec = resolved_pipeline_build_spec[OF ref.toposort_laws_axioms example_wf
      example_pipeline_distinct example_noroot rp]
  have in_ids: "task_id_new ''ui'' ''build'' \<in> rp_ids rp"
    unfolding rp_ids_def keys_map_of spec(1)
    by (simp add: configured_task_def configured_key_def key_valid_def ROOT_PACKAGE_NAME_def
        pg_names_def example_graph_def example_packages_def example_pipeline_def)
  have "''ui'' \<in> pg_names example_graph" by (simp add: pg_names_def example_graph_def example_packages_def)
  with in_ids dead_dependency_exactly[OF ref.toposort_laws_axioms example_wf
      example_pipeline_distinct example_noroot rp, of "[task_id_new ''ui'' ''build'']" "[]"
      "task_id_new ''core'' ''build''" "Specific (task_id_new ''ui'' ''build'')"]
  have "dead_dependency_reason (dependency_context_new ref_toposort example_graph
       (pruned_pipeline [] [task_id_new ''ui'' ''build''] rp) [task_id_new ''ui'' ''build''])
       (task_id_new ''core'' ''build'') (Specific (task_id_new ''ui'' ''build'')) = None"
    by (simp del: dead_dependency_reason.simps)
  with rp show ?thesis by blast
qed

end
