(* ===== verification/Walker.thy ===== *)
theory Walker
  imports TaskGraph "HOL-Library.Product_Lexorder"
begin

text \<open>
  The walker of \<open>crates/luchta-engine/src/walker.rs\<close>, which hands the tasks of a task graph to
  the executor as soon as their dependencies have succeeded. A panic is \<open>None\<close>, the counters are
  natural numbers, and the downstream weights wrap at 64 bits as in the release profile. The
  driver awaits whichever running task completes next: one completion is one step of the
  relation \<open>walk_step\<close>, with any running task and any outcome, and \<open>walk_run\<close> is the same loop
  for given choices. The invariant gives safety in every reachable state (a task runs only after
  all its dependencies succeeded, at most once) and the outcome of every finished walk.
\<close>

section \<open>Descending order\<close>

datatype 'a reverse = Reverse (unreverse: 'a)

instantiation reverse :: (linorder) linorder
begin

definition less_eq_reverse :: "'a reverse \<Rightarrow> 'a reverse \<Rightarrow> bool" where
  "less_eq_reverse a b \<longleftrightarrow> unreverse b \<le> unreverse a"

definition less_reverse :: "'a reverse \<Rightarrow> 'a reverse \<Rightarrow> bool" where
  "less_reverse a b \<longleftrightarrow> unreverse b < unreverse a"

instance
proof
qed (auto simp: less_eq_reverse_def less_reverse_def reverse.expand)

end

section \<open>State\<close>

datatype NodeState = Pending | Running | Succeeded | Failed | Skipped

record WalkerState =
  ws_nodes :: "(nat, TaskNode) hmap"
  ws_dependencies_remaining :: "(nat, nat) hmap"
  ws_dependents :: "(nat, nat list) hmap"
  ws_downstream_weights :: "(nat, u64) hmap"
  ws_states :: "(nat, NodeState) hmap"
  ws_terminal_count :: nat
  ws_total_count :: nat

definition dependents_of :: "(nat, nat list) hmap \<Rightarrow> nat \<Rightarrow> nat list" where
  "dependents_of dependents i = (case map_of dependents i of Some ds \<Rightarrow> ds | None \<Rightarrow> [])"

fun weights_loop :: "(nat, TaskNode) hmap \<Rightarrow> (nat, nat list) hmap \<Rightarrow> nat list \<Rightarrow> (nat, u64) hmap \<Rightarrow>
    (nat, u64) hmap option" where
  "weights_loop nodes dependents [] downstream_weights = Some downstream_weights"
| "weights_loop nodes dependents (node_index # rest) downstream_weights =
     (case map_of nodes node_index of
        None \<Rightarrow> None
      | Some node \<Rightarrow>
     (case those (map (map_of downstream_weights) (dependents_of dependents node_index)) of
        None \<Rightarrow> None
      | Some ws \<Rightarrow>
          weights_loop nodes dependents rest
            (AList.update node_index (ucast (tn_weight node) + sum_list ws) downstream_weights)))"

definition compute_downstream_weights ::
  "(nat, TaskNode) hmap \<Rightarrow> (nat, nat list) hmap \<Rightarrow> nat list \<Rightarrow> (nat, u64) hmap option" where
  "compute_downstream_weights nodes dependents order = weights_loop nodes dependents order []"

fun collect_dependents :: "(nat \<times> nat) list \<Rightarrow> (nat, nat list) hmap \<Rightarrow> (nat, nat list) hmap" where
  "collect_dependents [] dependents = dependents"
| "collect_dependents ((source, target) # edges) dependents =
     collect_dependents edges (AList.update target (dependents_of dependents target @ [source]) dependents)"

definition from_graph :: "toposort \<Rightarrow> TaskGraph \<Rightarrow> WalkerState option" where
  "from_graph topo graph =
     (let indexed = zip [0..<length (dg_nodes (tg_graph graph))] (dg_nodes (tg_graph graph));
          nodes = fold (\<lambda>(i, n). AList.update i n) indexed [];
          remaining = fold (\<lambda>(i, _). AList.update i (length (neighbors_directed (tg_graph graph) i Outgoing))) indexed [];
          dependents = collect_dependents (dg_edges (tg_graph graph)) (fold (\<lambda>(i, _). AList.update i []) indexed []);
          states = fold (\<lambda>(i, _). AList.update i Pending) indexed [];
          indices_by_id = collect_map (map (\<lambda>(i, n). (tn_id n, i)) nodes)
      in case tg_topological_order topo graph of
           Inl _ \<Rightarrow> None
         | Inr sorted_nodes \<Rightarrow>
        (case those (map (\<lambda>n. map_of indices_by_id (tn_id n)) sorted_nodes) of
           None \<Rightarrow> None
         | Some order \<Rightarrow>
        (case compute_downstream_weights nodes dependents (rev order) of
           None \<Rightarrow> None
         | Some weights \<Rightarrow>
             Some \<lparr>ws_nodes = nodes, ws_dependencies_remaining = remaining, ws_dependents = dependents,
                   ws_downstream_weights = weights, ws_states = states, ws_terminal_count = 0,
                   ws_total_count = length nodes\<rparr>)))"

section \<open>Operations\<close>

definition bump_terminal_count :: "nat \<Rightarrow> WalkerState \<Rightarrow> WalkerState" where
  "bump_terminal_count n ws = ws\<lparr>ws_terminal_count := ws_terminal_count ws + n\<rparr>"

abbreviation st :: "WalkerState \<Rightarrow> nat \<Rightarrow> NodeState option" where
  "st ws i \<equiv> map_of (ws_states ws) i"

definition is_ready :: "WalkerState \<Rightarrow> nat \<Rightarrow> bool" where
  "is_ready ws node_index \<longleftrightarrow> st ws node_index = Some Pending \<and>
     (case map_of (ws_dependencies_remaining ws) node_index of Some n \<Rightarrow> n | None \<Rightarrow> 0) = 0"

definition dispatch_key :: "WalkerState \<Rightarrow> nat \<times> TaskNode \<Rightarrow> u64 reverse \<times> u32 reverse \<times> string \<times> string" where
  "dispatch_key ws entry =
     (case entry of (node_index, node) \<Rightarrow>
       (Reverse (case map_of (ws_downstream_weights ws) node_index of Some w \<Rightarrow> w | None \<Rightarrow> 0),
        Reverse (tn_weight node), tid_package (tn_id node), tid_task (tn_id node)))"

definition take_ready_nodes :: "WalkerState \<Rightarrow> nat list" where
  "take_ready_nodes ws =
     map fst (sort_key (dispatch_key ws) (filter (\<lambda>(i, _). is_ready ws i) (ws_nodes ws)))"

definition set_running :: "nat \<Rightarrow> WalkerState \<Rightarrow> WalkerState" where
  "set_running node_index ws =
     (if st ws node_index = Some Pending
      then ws\<lparr>ws_states := AList.update node_index Running (ws_states ws)\<rparr> else ws)"

definition decrement_remaining :: "(nat, NodeState) hmap \<Rightarrow> nat \<Rightarrow> (nat, nat) hmap \<Rightarrow> (nat, nat) hmap" where
  "decrement_remaining states dependent remaining =
     (if map_of states dependent \<noteq> Some Pending then remaining
      else case map_of remaining dependent of
             Some n \<Rightarrow> AList.update dependent (n - 1) remaining
           | None \<Rightarrow> remaining)"

definition mark_succeeded :: "nat \<Rightarrow> WalkerState \<Rightarrow> WalkerState" where
  "mark_succeeded node_index ws =
     (let previous = st ws node_index;
          ws1 = ws\<lparr>ws_states := AList.update node_index Succeeded (ws_states ws)\<rparr>
      in if previous \<noteq> Some Running then ws1
         else let ws2 = bump_terminal_count 1 ws1 in
              ws2\<lparr>ws_dependencies_remaining :=
                fold (decrement_remaining (ws_states ws2)) (dependents_of (ws_dependents ws2) node_index)
                  (ws_dependencies_remaining ws2)\<rparr>)"

definition pending_nodes :: "(nat, NodeState) hmap \<Rightarrow> nat set" where
  "pending_nodes states = {i. map_of states i = Some Pending}"

lemma finite_pending [simp]: "finite (pending_nodes states)"
  by (rule finite_subset[of _ "dom (map_of states)"]) (auto simp: pending_nodes_def finite_dom_map_of)

function skip_loop :: "(nat, nat list) hmap \<Rightarrow> nat list \<Rightarrow> nat list \<Rightarrow> (nat, NodeState) hmap \<Rightarrow> nat \<Rightarrow>
    (nat, NodeState) hmap \<times> nat" where
  "skip_loop dependents queue visited states skipped =
     (case queue of
        [] \<Rightarrow> (states, skipped)
      | dependent # rest \<Rightarrow>
          (if dependent \<in> set visited then skip_loop dependents rest visited states skipped
           else if map_of states dependent = Some Pending
           then skip_loop dependents (rest @ dependents_of dependents dependent) (dependent # visited)
                  (AList.update dependent Skipped states) (skipped + 1)
           else skip_loop dependents rest (dependent # visited) states skipped))"
  by pat_completeness auto
termination
proof (relation "inv_image (less_than <*lex*> less_than)
    (\<lambda>(dependents, queue, visited, states, skipped). (card (pending_nodes states), length queue))")
  fix states :: "(nat, NodeState) hmap" and d
  assume "map_of states d = Some Pending"
  then have "pending_nodes (AList.update d Skipped states) \<subset> pending_nodes states"
    by (auto simp: pending_nodes_def hmap_simps)
  then have "card (pending_nodes (AList.update d Skipped states)) < card (pending_nodes states)"
    by (rule psubset_card_mono[rotated]) simp
  then show "((dependents, rest @ dependents_of dependents d, d # visited, AList.update d Skipped states, skipped + 1),
      (dependents, queue, visited, states, skipped))
    \<in> inv_image (less_than <*lex*> less_than)
      (\<lambda>(dependents, queue, visited, states, skipped). (card (pending_nodes states), length queue))"
    for dependents rest visited skipped queue by simp
qed auto

declare skip_loop.simps [simp del]

definition skip_dependents :: "nat \<Rightarrow> WalkerState \<Rightarrow> WalkerState" where
  "skip_dependents node_index ws =
     (case skip_loop (ws_dependents ws) (dependents_of (ws_dependents ws) node_index) [] (ws_states ws) 0 of
        (states, skipped) \<Rightarrow>
          (let ws1 = ws\<lparr>ws_states := states\<rparr> in
           if skipped > 0 then bump_terminal_count skipped ws1 else ws1))"

definition mark_failed :: "nat \<Rightarrow> WalkerState \<Rightarrow> WalkerState" where
  "mark_failed node_index ws =
     (let previous = st ws node_index;
          ws1 = ws\<lparr>ws_states := AList.update node_index Failed (ws_states ws)\<rparr>
      in if previous \<noteq> Some Running then ws1
         else skip_dependents node_index (bump_terminal_count 1 ws1))"

section \<open>The driver\<close>

text \<open>\<open>rs_sent\<close> is what the receiver got, in order; \<open>rx_open\<close> says whether the receiver still
  listens after what it has got. The channel holds every task, so sending never waits.\<close>

record RunState =
  rs_walker :: WalkerState
  rs_join_set :: "nat list"
  rs_sent :: "nat list"

fun enqueue_nodes :: "(nat list \<Rightarrow> bool) \<Rightarrow> nat list \<Rightarrow> RunState \<Rightarrow> RunState" where
  "enqueue_nodes rx_open [] rs = rs"
| "enqueue_nodes rx_open (node_index # rest) rs =
     (let ws = set_running node_index (rs_walker rs) in
      if \<not> rx_open (rs_sent rs) then rs\<lparr>rs_walker := ws\<rparr>
      else enqueue_nodes rx_open rest
        \<lparr>rs_walker = ws, rs_join_set = rs_join_set rs @ [node_index], rs_sent = rs_sent rs @ [node_index]\<rparr>)"

definition enqueue_ready_nodes :: "(nat list \<Rightarrow> bool) \<Rightarrow> RunState \<Rightarrow> RunState" where
  "enqueue_ready_nodes rx_open rs = enqueue_nodes rx_open (take_ready_nodes (rs_walker rs)) rs"

definition run_start :: "(nat list \<Rightarrow> bool) \<Rightarrow> WalkerState \<Rightarrow> RunState" where
  "run_start rx_open ws = enqueue_ready_nodes rx_open \<lparr>rs_walker = ws, rs_join_set = [], rs_sent = []\<rparr>"

definition complete :: "(nat list \<Rightarrow> bool) \<Rightarrow> nat \<Rightarrow> bool \<Rightarrow> RunState \<Rightarrow> RunState" where
  "complete rx_open node_index outcome rs =
     (let ws = (if outcome then mark_succeeded node_index (rs_walker rs)
                else mark_failed node_index (rs_walker rs))
      in enqueue_ready_nodes rx_open
           \<lparr>rs_walker = ws, rs_join_set = remove1 node_index (rs_join_set rs), rs_sent = rs_sent rs\<rparr>)"

definition run_continues :: "RunState \<Rightarrow> bool" where
  "run_continues rs \<longleftrightarrow> ws_terminal_count (rs_walker rs) < ws_total_count (rs_walker rs) \<and> rs_join_set rs \<noteq> []"

text \<open>One iteration of the loop: any task of the join set completes, with any outcome.\<close>

inductive walk_step :: "(nat list \<Rightarrow> bool) \<Rightarrow> RunState \<Rightarrow> RunState \<Rightarrow> bool" for rx_open where
  completes: "run_continues rs \<Longrightarrow> i \<in> set (rs_join_set rs) \<Longrightarrow>
    walk_step rx_open rs (complete rx_open i outcome rs)"

inductive_cases walk_stepE: "walk_step rx_open rs rs'"

text \<open>The loop for one choice of completions: \<open>sched\<close> picks the task that completes from the join
  set, \<open>outcome\<close> is its result. Each iteration ends one task, so as many iterations as there are
  tasks suffice.\<close>

fun walk_run :: "(nat list \<Rightarrow> bool) \<Rightarrow> (nat list \<Rightarrow> nat) \<Rightarrow> (nat \<Rightarrow> bool) \<Rightarrow> nat \<Rightarrow> RunState \<Rightarrow> RunState option" where
  "walk_run rx_open sched outcome fuel rs =
     (if \<not> run_continues rs then Some rs
      else case fuel of
        0 \<Rightarrow> None
      | Suc fuel' \<Rightarrow>
          (let i = rs_join_set rs ! (sched (rs_join_set rs) mod length (rs_join_set rs)) in
           walk_run rx_open sched outcome fuel' (complete rx_open i (outcome i) rs)))"

declare walk_run.simps [simp del]

section \<open>Invariant\<close>

text \<open>The laws a consistent assignment of states obeys. \<open>(i, j) \<in> E\<close> says that \<open>i\<close> depends on \<open>j\<close>.\<close>

definition started :: "NodeState option \<Rightarrow> bool" where
  "started s \<longleftrightarrow> s \<in> {Some Running, Some Succeeded, Some Failed}"

definition blocked :: "NodeState option \<Rightarrow> bool" where
  "blocked s \<longleftrightarrow> s \<in> {Some Failed, Some Skipped}"

definition terminal :: "NodeState option \<Rightarrow> bool" where
  "terminal s \<longleftrightarrow> s \<in> {Some Succeeded, Some Failed, Some Skipped}"

lemmas state_classes = started_def blocked_def terminal_def

definition consistent :: "nat \<Rightarrow> (nat \<times> nat) set \<Rightarrow> (nat \<Rightarrow> NodeState option) \<Rightarrow> bool" where
  "consistent n E f \<longleftrightarrow>
     (\<forall>i. f i \<noteq> None \<longleftrightarrow> i < n) \<and>
     (\<forall>i j. started (f i) \<longrightarrow> (i, j) \<in> E \<longrightarrow> f j = Some Succeeded) \<and>
     (\<forall>i. f i = Some Skipped \<longrightarrow> (\<exists>j. (i, j) \<in> E \<and> blocked (f j))) \<and>
     (\<forall>i j. f i = Some Pending \<longrightarrow> (i, j) \<in> E \<longrightarrow> \<not> blocked (f j))"

text \<open>What skipping after the failure of \<open>i\<close> does to the states: some pending nodes become
  skipped, each because of \<open>i\<close> or of another one, and no dependent of those stays pending.\<close>

definition skips :: "(nat \<times> nat) set \<Rightarrow> nat \<Rightarrow> (nat \<Rightarrow> NodeState option) \<Rightarrow> (nat \<Rightarrow> NodeState option) \<Rightarrow> bool" where
  "skips E i f g \<longleftrightarrow>
     (\<forall>k. g k = f k \<or> (f k = Some Pending \<and> g k = Some Skipped)) \<and>
     (\<forall>k. f k \<noteq> g k \<longrightarrow> (\<exists>c. (k, c) \<in> E \<and> (c = i \<or> f c \<noteq> g c))) \<and>
     (\<forall>c d. (c = i \<or> f c \<noteq> g c) \<longrightarrow> (d, c) \<in> E \<longrightarrow> g d \<noteq> Some Pending)"

lemma consistentD:
  assumes "consistent n E f"
  shows "f i \<noteq> None \<longleftrightarrow> i < n"
    "started (f i) \<Longrightarrow> (i, j) \<in> E \<Longrightarrow> f j = Some Succeeded"
    "f i = Some Skipped \<Longrightarrow> \<exists>j. (i, j) \<in> E \<and> blocked (f j)"
    "f i = Some Pending \<Longrightarrow> (i, j) \<in> E \<Longrightarrow> \<not> blocked (f j)"
  using assms unfolding consistent_def by blast+

text \<open>Starting a node whose dependencies succeeded, and the success of a running node.\<close>

lemma consistent_advance:
  assumes con: "consistent n E f" and i: "f i = Some Pending \<or> f i = Some Running"
    and s: "s = Some Running \<or> s = Some Succeeded" and deps: "\<And>j. (i, j) \<in> E \<Longrightarrow> f j = Some Succeeded"
  shows "consistent n E (f(i := s))"
proof -
  let ?g = "f(i := s)"
  have "?g k \<noteq> None \<longleftrightarrow> k < n" for k
    using consistentD(1)[OF con, of k] i s by auto
  moreover have "?g j = Some Succeeded" if k: "started (?g k)" and kj: "(k, j) \<in> E" for k j
  proof -
    have "f j = Some Succeeded"
      using k deps kj consistentD(2)[OF con, of k j] by (cases "k = i") auto
    then show ?thesis using i by auto
  qed
  moreover have "\<exists>j. (k, j) \<in> E \<and> blocked (?g j)" if k: "?g k = Some Skipped" for k
  proof -
    have "f k = Some Skipped" using k s by (auto split: if_splits)
    then obtain j where j: "(k, j) \<in> E" "blocked (f j)" using consistentD(3)[OF con] by blast
    then have "?g j = f j" using i by (auto simp: blocked_def)
    with j show ?thesis by (intro exI[of _ j]) simp
  qed
  moreover have "\<not> blocked (?g j)" if k: "?g k = Some Pending" and kj: "(k, j) \<in> E" for k j
    using k kj s consistentD(4)[OF con, of k j] by (auto simp: blocked_def split: if_splits)
  ultimately show ?thesis unfolding consistent_def by blast
qed

lemma skipsD:
  assumes "skips E i f g"
  shows "g k = f k \<or> (f k = Some Pending \<and> g k = Some Skipped)"
    "f k \<noteq> g k \<Longrightarrow> \<exists>c. (k, c) \<in> E \<and> (c = i \<or> f c \<noteq> g c)"
    "c = i \<or> f c \<noteq> g c \<Longrightarrow> (d, c) \<in> E \<Longrightarrow> g d \<noteq> Some Pending"
  using assms unfolding skips_def by blast+

lemma consistent_failed:
  assumes con: "consistent n E f" and i: "f i = Some Running" and sk: "skips E i (f(i := Some Failed)) g"
  shows "consistent n E g"
proof -
  let ?f = "f(i := Some Failed)"
  note sk' = skipsD[OF sk]
  have g_i: "g i = Some Failed" using sk'(1)[of i] by auto
  have succ: "g j = Some Succeeded \<longleftrightarrow> f j = Some Succeeded" for j
    using sk'(1)[of j] i by (auto split: if_splits)
  have start: "started (g j) \<Longrightarrow> started (f j)" for j
    using sk'(1)[of j] i by (auto simp: started_def split: if_splits)
  have "f k = Some Pending" if "g k = Some Pending" for k
    using that sk'(1)[of k] i by (auto split: if_splits)
  moreover have "blocked (f j) \<or> j = i \<or> ?f j \<noteq> g j" if "blocked (g j)" for j
    using that sk'(1)[of j] by (auto simp: blocked_def split: if_splits)
  ultimately have pend: "\<not> blocked (g j)" if "g k = Some Pending" "(k, j) \<in> E" for k j
    using that con sk'(3)[of j k] unfolding consistent_def by blast
  have skip: "\<exists>j. (k, j) \<in> E \<and> blocked (g j)" if k: "g k = Some Skipped" for k
  proof (cases "f k = Some Skipped")
    case True
    then obtain j where j: "(k, j) \<in> E" "blocked (f j)" using con unfolding consistent_def by blast
    then have "blocked (g j)" using sk'(1)[of j] i by (auto simp: blocked_def split: if_splits)
    with j show ?thesis by blast
  next
    case False
    then have "?f k \<noteq> g k" using k i by auto
    then obtain c where c: "(k, c) \<in> E" "c = i \<or> ?f c \<noteq> g c" using sk'(2) by blast
    then have "blocked (g c)" using g_i sk'(1)[of c] by (auto simp: blocked_def)
    with c show ?thesis by blast
  qed
  have "g k \<noteq> None \<longleftrightarrow> k < n" for k
    using con sk'(1)[of k] i unfolding consistent_def by (cases "k = i") force+
  then show ?thesis
    using con start succ pend skip unfolding consistent_def by blast
qed

section \<open>Skipping\<close>

definition skip_inv :: "(nat \<times> nat) set \<Rightarrow> nat \<Rightarrow> (nat \<Rightarrow> NodeState option) \<Rightarrow> nat list \<Rightarrow> nat list \<Rightarrow>
    (nat \<Rightarrow> NodeState option) \<Rightarrow> nat \<Rightarrow> bool" where
  "skip_inv E i f Q V g k \<longleftrightarrow>
     (\<forall>x. g x = f x \<or> (f x = Some Pending \<and> g x = Some Skipped)) \<and>
     (\<forall>x. f x \<noteq> g x \<longrightarrow> (\<exists>c. (x, c) \<in> E \<and> (c = i \<or> f c \<noteq> g c))) \<and>
     (\<forall>x \<in> set Q. \<exists>c. (x, c) \<in> E \<and> (c = i \<or> f c \<noteq> g c)) \<and>
     (\<forall>c d. (c = i \<or> f c \<noteq> g c) \<longrightarrow> (d, c) \<in> E \<longrightarrow> d \<in> set Q \<or> g d \<noteq> Some Pending) \<and>
     (\<forall>v \<in> set V. g v \<noteq> Some Pending) \<and> k = card {x. f x \<noteq> g x}"

lemma skip_inv_start: "set Q = {d. (d, i) \<in> E} \<Longrightarrow> skip_inv E i f Q [] f 0"
  by (auto simp: skip_inv_def)

lemma skip_inv_done: "skip_inv E i f [] V g k \<Longrightarrow> skips E i f g \<and> k = card {x. f x \<noteq> g x}"
  unfolding skip_inv_def skips_def by simp

lemma skip_inv_drop:
  "skip_inv E i f (x # Q) V g k \<Longrightarrow> g x \<noteq> Some Pending \<Longrightarrow> set V' \<subseteq> insert x (set V) \<Longrightarrow> skip_inv E i f Q V' g k"
  unfolding skip_inv_def by (simp; blast)

lemma skip_inv_skip:
  assumes inv: "skip_inv E i f (x # Q) V g k" and x: "g x = Some Pending"
    and ds: "set ds = {d. (d, x) \<in> E}" and fin: "finite {x. f x \<noteq> None}"
  shows "skip_inv E i f (Q @ ds) (x # V) (g(x := Some Skipped)) (k + 1)"
proof -
  let ?g = "g(x := Some Skipped)"
  have fx: "f x = Some Pending" using inv x unfolding skip_inv_def by (metis option.inject NodeState.distinct(7))
  have grow: "f c \<noteq> ?g c \<longleftrightarrow> c = x \<or> f c \<noteq> g c" for c using fx by auto
  have "{y. f y \<noteq> ?g y} = insert x {y. f y \<noteq> g y}" unfolding grow by blast
  moreover have "finite {y. f y \<noteq> g y}"
  proof (rule finite_subset[OF _ fin], intro subsetI CollectI notI)
    fix y assume "y \<in> {y. f y \<noteq> g y}" "f y = None"
    moreover have "g y = f y \<or> f y = Some Pending" using inv unfolding skip_inv_def by blast
    ultimately show False by simp
  qed
  moreover have "x \<notin> {y. f y \<noteq> g y}" using fx x by simp
  ultimately have cnt: "card {y. f y \<noteq> ?g y} = card {y. f y \<noteq> g y} + 1" by simp
  have "?g y = f y \<or> (f y = Some Pending \<and> ?g y = Some Skipped)" for y
    using inv fx unfolding skip_inv_def by simp
  moreover have "\<exists>c. (y, c) \<in> E \<and> (c = i \<or> f c \<noteq> ?g c)" if "f y \<noteq> ?g y \<or> y \<in> set (Q @ ds)" for y
    using that inv ds unfolding grow skip_inv_def by auto
  moreover have "d \<in> set (Q @ ds) \<or> ?g d \<noteq> Some Pending" if "c = i \<or> f c \<noteq> ?g c" "(d, c) \<in> E" for c d
    using that inv ds unfolding grow skip_inv_def by auto
  moreover have "\<forall>v \<in> set (x # V). ?g v \<noteq> Some Pending" using inv unfolding skip_inv_def by auto
  moreover have "k + 1 = card {y. f y \<noteq> ?g y}" using inv cnt unfolding skip_inv_def by simp
  ultimately show ?thesis unfolding skip_inv_def by blast
qed

lemma skip_loop_skips:
  assumes "\<And>c. set (dependents_of deps c) = {d. (d, c) \<in> E}" "finite {x. f x \<noteq> None}"
    "skip_inv E i f Q V (map_of S) k" "skip_loop deps Q V S k = (S', k')"
  shows "skips E i f (map_of S') \<and> k' = card {x. f x \<noteq> map_of S' x}"
  using assms
proof (induction deps Q V S k rule: skip_loop.induct)
  case (1 deps Q V S k)
  show ?case
  proof (cases Q)
    case Nil
    then show ?thesis using 1(6,7) skip_inv_done[of E i f V "map_of S" k] by (simp add: skip_loop.simps[of _ "[]"])
  next
    case (Cons x rest)
    note run = 1(7)[unfolded Cons skip_loop.simps[of _ "x # rest"], simplified]
    note inv = 1(6)[unfolded Cons]
    show ?thesis
    proof (cases "x \<in> set V")
      case True
      then have "map_of S x \<noteq> Some Pending" using inv unfolding skip_inv_def by blast
      from skip_inv_drop[OF inv this, of V] True show ?thesis using 1(1)[OF Cons True 1(4,5)] run by auto
    next
      case False
      show ?thesis
      proof (cases "map_of S x = Some Pending")
        case True
        from skip_inv_skip[OF inv True 1(4)[of x] 1(5)]
        have "skip_inv E i f (rest @ dependents_of deps x) (x # V) (map_of (AList.update x Skipped S)) (k + 1)"
          by (simp add: hmap_simps)
        then show ?thesis using 1(2)[OF Cons False True 1(4,5)] run False True by simp
      next
        case pend: False
        from skip_inv_drop[OF inv pend, of "x # V"] show ?thesis
          using 1(3)[OF Cons False pend 1(4,5)] run False pend by auto
      qed
    qed
  qed
qed

section \<open>The walker's invariant\<close>

definition walk_inv :: "nat \<Rightarrow> (nat \<times> nat) set \<Rightarrow> WalkerState \<Rightarrow> bool" where
  "walk_inv n E ws \<longleftrightarrow>
     E \<subseteq> {..<n} \<times> {..<n} \<and> acyclic E \<and>
     distinct (map fst (ws_nodes ws)) \<and> set (map fst (ws_nodes ws)) = {..<n} \<and> ws_total_count ws = n \<and>
     (\<forall>c. distinct (dependents_of (ws_dependents ws) c) \<and>
        set (dependents_of (ws_dependents ws) c) = {d. (d, c) \<in> E}) \<and>
     consistent n E (st ws) \<and>
     (\<forall>i < n. \<exists>k. map_of (ws_dependencies_remaining ws) i = Some k \<and>
        (st ws i = Some Pending \<longrightarrow> k = card {j. (i, j) \<in> E \<and> st ws j \<noteq> Some Succeeded})) \<and>
     ws_terminal_count ws = card {i. terminal (st ws i)}"

lemma walk_invD:
  assumes "walk_inv n E ws"
  shows "E \<subseteq> {..<n} \<times> {..<n}" "acyclic E" "distinct (map fst (ws_nodes ws))"
    "set (map fst (ws_nodes ws)) = {..<n}" "ws_total_count ws = n"
    "distinct (dependents_of (ws_dependents ws) c)" "set (dependents_of (ws_dependents ws) c) = {d. (d, c) \<in> E}"
    "consistent n E (st ws)"
    "i < n \<Longrightarrow> \<exists>k. map_of (ws_dependencies_remaining ws) i = Some k \<and>
        (st ws i = Some Pending \<longrightarrow> k = card {j. (i, j) \<in> E \<and> st ws j \<noteq> Some Succeeded})"
    "ws_terminal_count ws = card {i. terminal (st ws i)}"
  using assms unfolding walk_inv_def by blast+

lemma finite_edges_of: "E \<subseteq> {..<n :: nat} \<times> {..<n} \<Longrightarrow> finite {j. (i, j) \<in> E \<and> P j}"
  by (rule finite_subset[of _ "{..<n}"]) auto

lemma states_in_range:
  assumes "walk_inv n E ws" "st ws i = Some s"
  shows "i < n"
  using consistentD(1)[OF walk_invD(8)[OF assms(1)], of i] assms(2) by auto

lemma finite_states: "finite {i. Q (st ws i) \<and> st ws i \<noteq> None}"
  by (rule finite_subset[of _ "dom (map_of (ws_states ws))"]) (auto simp: finite_dom_map_of)

lemma terminal_finite: "finite {i. terminal (st ws i)}"
  by (rule finite_subset[OF _ finite_states[of terminal ws]]) (auto simp: terminal_def)

text \<open>A node is ready exactly when it is pending and everything it depends on has succeeded.\<close>

lemma is_ready_iff:
  assumes inv: "walk_inv n E ws"
  shows "is_ready ws i \<longleftrightarrow> st ws i = Some Pending \<and> (\<forall>j. (i, j) \<in> E \<longrightarrow> st ws j = Some Succeeded)"
proof (cases "st ws i = Some Pending")
  case True
  have i: "i < n" using states_in_range[OF inv True] .
  then obtain k where "map_of (ws_dependencies_remaining ws) i = Some k"
    "k = card {j. (i, j) \<in> E \<and> st ws j \<noteq> Some Succeeded}" using walk_invD(9)[OF inv i] True by blast
  moreover have "card {j. (i, j) \<in> E \<and> st ws j \<noteq> Some Succeeded} = 0 \<longleftrightarrow>
      (\<forall>j. (i, j) \<in> E \<longrightarrow> st ws j = Some Succeeded)"
    using finite_edges_of[OF walk_invD(1)[OF inv], of i] by (auto simp: card_eq_0_iff)
  ultimately show ?thesis using True by (simp add: is_ready_def)
qed (simp add: is_ready_def)

lemma ready_nodes:
  assumes inv: "walk_inv n E ws"
  shows "distinct (take_ready_nodes ws)" "set (take_ready_nodes ws) = {i. is_ready ws i}"
proof -
  let ?xs = "filter (\<lambda>(i, _). is_ready ws i) (ws_nodes ws)"
  have "mset (map fst (sort_key (dispatch_key ws) ?xs)) = mset (map fst ?xs)" by simp
  moreover have "distinct (map fst ?xs)" using walk_invD(3)[OF inv] by (rule distinct_map_filter)
  ultimately show "distinct (take_ready_nodes ws)" unfolding take_ready_nodes_def by (metis distinct_mset_eq)
  have "i \<in> fst ` set (ws_nodes ws)" if "is_ready ws i" for i
    using that states_in_range[OF inv] walk_invD(4)[OF inv] by (auto simp: is_ready_def)
  then show "set (take_ready_nodes ws) = {i. is_ready ws i}"
    unfolding take_ready_nodes_def by force
qed

definition same_graph :: "WalkerState \<Rightarrow> WalkerState \<Rightarrow> bool" where
  "same_graph ws ws' \<longleftrightarrow> ws_nodes ws' = ws_nodes ws \<and> ws_dependents ws' = ws_dependents ws \<and>
     ws_total_count ws' = ws_total_count ws \<and> ws_downstream_weights ws' = ws_downstream_weights ws"

lemma walk_inv_step:
  assumes "walk_inv n E ws" "same_graph ws ws'" "consistent n E (st ws')"
    "\<And>i. i < n \<Longrightarrow> \<exists>k. map_of (ws_dependencies_remaining ws') i = Some k \<and>
        (st ws' i = Some Pending \<longrightarrow> k = card {j. (i, j) \<in> E \<and> st ws' j \<noteq> Some Succeeded})"
    "ws_terminal_count ws' = card {i. terminal (st ws' i)}"
  shows "walk_inv n E ws'"
  using assms(1,2) assms(3-5) unfolding walk_inv_def same_graph_def by simp

text \<open>Steps that leave the remaining counts alone and neither start nor end a success keep them right.\<close>

lemma remaining_kept:
  assumes inv: "walk_inv n E ws" and i: "i < n" and rem: "ws_dependencies_remaining ws' = ws_dependencies_remaining ws"
    and succ: "\<And>j. st ws' j = Some Succeeded \<longleftrightarrow> st ws j = Some Succeeded"
    and pend: "\<And>j. st ws' j = Some Pending \<Longrightarrow> st ws j = Some Pending"
  shows "\<exists>k. map_of (ws_dependencies_remaining ws') i = Some k \<and>
      (st ws' i = Some Pending \<longrightarrow> k = card {j. (i, j) \<in> E \<and> st ws' j \<noteq> Some Succeeded})"
  using walk_invD(9)[OF inv i] pend[of i] unfolding rem succ by blast

lemma set_running_inv:
  assumes inv: "walk_inv n E ws" and ready: "is_ready ws i"
  shows "walk_inv n E (set_running i ws)" "st (set_running i ws) = (st ws)(i := Some Running)"
proof -
  have pend: "st ws i = Some Pending" and deps: "\<And>j. (i, j) \<in> E \<Longrightarrow> st ws j = Some Succeeded"
    using ready is_ready_iff[OF inv] by auto
  show s: "st (set_running i ws) = (st ws)(i := Some Running)"
    using pend by (auto simp: set_running_def hmap_simps)
  have t: "{j. terminal (((st ws)(i := Some Running)) j)} = {j. terminal (st ws j)}"
    using pend by (auto simp: terminal_def)
  have sg: "same_graph ws (set_running i ws)" by (simp add: same_graph_def set_running_def)
  have con: "consistent n E (st (set_running i ws))"
    unfolding s using consistent_advance[OF walk_invD(8)[OF inv]] pend deps by blast
  show "walk_inv n E (set_running i ws)"
  proof (rule walk_inv_step[OF inv sg con])
    show "ws_terminal_count (set_running i ws) = card {j. terminal (st (set_running i ws) j)}"
      unfolding s t using walk_invD(10)[OF inv] by (simp add: set_running_def)
  next
    fix k assume k: "k < n"
    show "\<exists>m. map_of (ws_dependencies_remaining (set_running i ws)) k = Some m \<and>
        (st (set_running i ws) k = Some Pending \<longrightarrow>
          m = card {j. (k, j) \<in> E \<and> st (set_running i ws) j \<noteq> Some Succeeded})"
      by (rule remaining_kept[OF inv k]) (use pend in \<open>auto simp: set_running_def hmap_simps split: if_splits\<close>)
  qed
qed

lemma decrement_lookup:
  "map_of (decrement_remaining S d rem) k =
    map_option (\<lambda>m. if k = d \<and> map_of S k = Some Pending then m - 1 else m) (map_of rem k)"
  by (cases "map_of rem k") (auto simp: decrement_remaining_def hmap_simps split: option.split)

lemma fold_decrement:
  assumes "distinct ds"
  shows "map_of (fold (decrement_remaining S) ds rem) k =
    map_option (\<lambda>m. if k \<in> set ds \<and> map_of S k = Some Pending then m - 1 else m) (map_of rem k)"
  using assms
proof (induction ds arbitrary: rem)
  case Nil
  then show ?case by (simp add: option.map_ident)
next
  case (Cons d ds)
  then show ?case
    by (cases "map_of rem k") (auto simp: decrement_lookup)
qed

lemma mark_succeeded_inv:
  assumes inv: "walk_inv n E ws" and i: "st ws i = Some Running"
  shows "walk_inv n E (mark_succeeded i ws)" "st (mark_succeeded i ws) = (st ws)(i := Some Succeeded)"
    "ws_terminal_count (mark_succeeded i ws) = Suc (ws_terminal_count ws)"
proof -
  let ?ws = "mark_succeeded i ws"
  show s: "st ?ws = (st ws)(i := Some Succeeded)"
    using i by (auto simp: mark_succeeded_def Let_def bump_terminal_count_def hmap_simps)
  show cnt: "ws_terminal_count ?ws = Suc (ws_terminal_count ws)"
    using i by (simp add: mark_succeeded_def Let_def bump_terminal_count_def)
  have "{j. terminal (((st ws)(i := Some Succeeded)) j)} = insert i {j. terminal (st ws j)}"
    using i by (auto simp: terminal_def)
  then have t: "card {j. terminal (st ?ws j)} = Suc (card {j. terminal (st ws j)})"
    unfolding s using i terminal_finite[of ws] by (simp add: terminal_def)
  have sg: "same_graph ws ?ws"
    by (simp add: same_graph_def mark_succeeded_def Let_def bump_terminal_count_def)
  have con: "consistent n E (st ?ws)"
    unfolding s using consistentD(2)[OF walk_invD(8)[OF inv], of i] i
    by (intro consistent_advance[OF walk_invD(8)[OF inv]]) (simp_all add: started_def)
  show "walk_inv n E ?ws"
  proof (rule walk_inv_step[OF inv sg con])
    show "ws_terminal_count ?ws = card {j. terminal (st ?ws j)}" using t cnt walk_invD(10)[OF inv] by simp
  next
    fix k assume k: "k < n"
    let ?A = "{j. (k, j) \<in> E \<and> st ws j \<noteq> Some Succeeded}"
    have A: "{j. (k, j) \<in> E \<and> st ?ws j \<noteq> Some Succeeded} = ?A - {i}" unfolding s by auto
    obtain m where m: "map_of (ws_dependencies_remaining ws) k = Some m" "st ws k = Some Pending \<longrightarrow> m = card ?A"
      using walk_invD(9)[OF inv k] by blast
    have "map_of (ws_dependencies_remaining ?ws) k =
        Some (if (k, i) \<in> E \<and> st ?ws k = Some Pending then m - 1 else m)"
      using i m(1) fold_decrement[OF walk_invD(6)[OF inv, of i]] walk_invD(7)[OF inv, of i]
      by (simp add: mark_succeeded_def Let_def bump_terminal_count_def)
    moreover have "card (?A - {i}) = (if (k, i) \<in> E then card ?A - 1 else card ?A)"
      using i finite_edges_of[OF walk_invD(1)[OF inv], of k] by (auto simp: card_Diff_singleton_if)
    moreover have "st ws k = Some Pending" if "st ?ws k = Some Pending" using that unfolding s by (auto split: if_splits)
    ultimately show "\<exists>m. map_of (ws_dependencies_remaining ?ws) k = Some m \<and>
        (st ?ws k = Some Pending \<longrightarrow> m = card {j. (k, j) \<in> E \<and> st ?ws j \<noteq> Some Succeeded})"
      unfolding A using m(2) by auto
  qed
qed

lemma skip_dependents_states:
  assumes inv: "walk_inv n E ws0" and ws: "same_graph ws0 ws"
  shows "skips E i (st ws) (st (skip_dependents i ws))"
    "ws_terminal_count (skip_dependents i ws) =
      ws_terminal_count ws + card {x. st ws x \<noteq> st (skip_dependents i ws) x}"
    "same_graph ws (skip_dependents i ws)"
    "ws_dependencies_remaining (skip_dependents i ws) = ws_dependencies_remaining ws"
proof -
  obtain S k where r: "skip_loop (ws_dependents ws) (dependents_of (ws_dependents ws) i) [] (ws_states ws) 0 = (S, k)"
    by fastforce
  have deps: "set (dependents_of (ws_dependents ws) c) = {d. (d, c) \<in> E}" for c
    using walk_invD(7)[OF inv] ws by (simp add: same_graph_def)
  have fin: "finite {x. st ws x \<noteq> None}"
    using finite_dom_map_of[of "ws_states ws"] by (simp add: dom_def)
  from skip_loop_skips[OF deps fin skip_inv_start[OF deps] r]
  have "skips E i (st ws) (map_of S)" "k = card {x. st ws x \<noteq> map_of S x}" by blast+
  then show "skips E i (st ws) (st (skip_dependents i ws))"
    "ws_terminal_count (skip_dependents i ws) =
      ws_terminal_count ws + card {x. st ws x \<noteq> st (skip_dependents i ws) x}"
    using r by (simp_all add: skip_dependents_def Let_def bump_terminal_count_def)
  show "same_graph ws (skip_dependents i ws)"
    "ws_dependencies_remaining (skip_dependents i ws) = ws_dependencies_remaining ws"
    using r by (simp_all add: skip_dependents_def Let_def bump_terminal_count_def same_graph_def)
qed

lemma mark_failed_inv:
  assumes inv: "walk_inv n E ws" and i: "st ws i = Some Running"
  shows "walk_inv n E (mark_failed i ws)" "skips E i ((st ws)(i := Some Failed)) (st (mark_failed i ws))"
    "ws_terminal_count (mark_failed i ws) > ws_terminal_count ws"
proof -
  let ?ws1 = "bump_terminal_count 1 (ws\<lparr>ws_states := AList.update i Failed (ws_states ws)\<rparr>)"
  have s1: "st ?ws1 = (st ws)(i := Some Failed)"
    by (auto simp: bump_terminal_count_def hmap_simps)
  have sg1: "same_graph ws ?ws1" by (simp add: same_graph_def bump_terminal_count_def)
  have f: "mark_failed i ws = skip_dependents i ?ws1" using i by (simp add: mark_failed_def Let_def)
  define g where "g = st (mark_failed i ws)"
  have g: "st (mark_failed i ws) = g" "skips E i ((st ws)(i := Some Failed)) g"
    "ws_terminal_count (mark_failed i ws) =
      ws_terminal_count ?ws1 + card {x. ((st ws)(i := Some Failed)) x \<noteq> g x}"
    "same_graph ?ws1 (mark_failed i ws)"
    "ws_dependencies_remaining (mark_failed i ws) = ws_dependencies_remaining ?ws1"
    using skip_dependents_states[OF inv sg1, of i] unfolding s1 f[symmetric] g_def by (simp_all add: fun_upd_def)
  then show "skips E i ((st ws)(i := Some Failed)) (st (mark_failed i ws))" by simp
  note sk = skipsD(1)[OF g(2)]
  have cnt: "ws_terminal_count ?ws1 = Suc (ws_terminal_count ws)" by (simp add: bump_terminal_count_def)
  then show "ws_terminal_count (mark_failed i ws) > ws_terminal_count ws" using g(3) by simp
  have sg: "same_graph ws (mark_failed i ws)" using sg1 g(4) by (simp add: same_graph_def)
  have con: "consistent n E (st (mark_failed i ws))"
    using consistent_failed[OF walk_invD(8)[OF inv] i] g(1,2) by simp
  let ?C = "{x. ((st ws)(i := Some Failed)) x \<noteq> g x}" and ?T = "{x. terminal (st ws x)}"
  have changed: "st ws x = Some Pending" if "x \<in> ?C" for x using that sk[of x] by (cases "x = i") auto
  have "{x. terminal (g x)} = insert i (?T \<union> ?C)"
  proof (intro set_eqI)
    fix x show "x \<in> {x. terminal (g x)} \<longleftrightarrow> x \<in> insert i (?T \<union> ?C)"
      using sk[of x] by (auto simp: terminal_def split: if_splits)
  qed
  moreover have "finite ?C"
  proof (rule finite_subset[of _ "dom (map_of (ws_states ws))"], intro subsetI)
    fix x assume "x \<in> ?C"
    then show "x \<in> dom (map_of (ws_states ws))" using changed by blast
  qed (simp add: finite_dom_map_of)
  moreover have "?T \<inter> ?C = {}"
  proof (intro equals0I)
    fix x assume "x \<in> ?T \<inter> ?C"
    with changed[of x] show False by (simp add: terminal_def)
  qed
  moreover have "i \<notin> ?T" "i \<notin> ?C" using i sk[of i] by (auto simp: terminal_def)
  ultimately have t: "card {x. terminal (g x)} = Suc (card ?T + card ?C)"
    using terminal_finite[of ws] by (simp add: card_Un_disjoint)
  show "walk_inv n E (mark_failed i ws)"
  proof (rule walk_inv_step[OF inv sg con])
    show "ws_terminal_count (mark_failed i ws) = card {x. terminal (st (mark_failed i ws) x)}"
      using t g(1,3) cnt walk_invD(10)[OF inv] by simp
  next
    fix k assume k: "k < n"
    have "g j = Some Succeeded \<longleftrightarrow> st ws j = Some Succeeded" "g j = Some Pending \<Longrightarrow> st ws j = Some Pending" for j
      using sk[of j] i by (auto split: if_splits)
    then show "\<exists>m. map_of (ws_dependencies_remaining (mark_failed i ws)) k = Some m \<and>
        (st (mark_failed i ws) k = Some Pending \<longrightarrow>
          m = card {j. (k, j) \<in> E \<and> st (mark_failed i ws) j \<noteq> Some Succeeded})"
      using remaining_kept[OF inv k, of "mark_failed i ws"] g(1,5) by (simp add: bump_terminal_count_def)
  qed
qed

section \<open>The driver's invariant\<close>

text \<open>The messages of a run: each task is sent once, after everything it depends on.\<close>

definition run_inv :: "nat \<Rightarrow> (nat \<times> nat) set \<Rightarrow> RunState \<Rightarrow> bool" where
  "run_inv n E rs \<longleftrightarrow> walk_inv n E (rs_walker rs) \<and>
     distinct (rs_join_set rs) \<and> set (rs_join_set rs) \<subseteq> set (rs_sent rs) \<and>
     (\<forall>i \<in> set (rs_join_set rs). st (rs_walker rs) i = Some Running) \<and>
     distinct (rs_sent rs) \<and> (\<forall>i \<in> set (rs_sent rs). started (st (rs_walker rs) i)) \<and>
     (\<forall>i. st (rs_walker rs) i \<in> {Some Succeeded, Some Failed} \<longrightarrow> i \<in> set (rs_sent rs)) \<and>
     (\<forall>xs i ys j. rs_sent rs = xs @ i # ys \<longrightarrow> (i, j) \<in> E \<longrightarrow> j \<in> set xs)"

text \<open>While the receiver listens, every running task is in the join set, and after a round of
  dispatching no task is ready.\<close>

definition quiescent :: "RunState \<Rightarrow> bool" where
  "quiescent rs \<longleftrightarrow> {i. st (rs_walker rs) i = Some Running} \<subseteq> set (rs_join_set rs) \<and>
     (\<forall>i. \<not> is_ready (rs_walker rs) i)"

lemma run_invD:
  assumes "run_inv n E rs"
  shows "walk_inv n E (rs_walker rs)" "distinct (rs_join_set rs)" "set (rs_join_set rs) \<subseteq> set (rs_sent rs)"
    "i \<in> set (rs_join_set rs) \<Longrightarrow> st (rs_walker rs) i = Some Running"
    "distinct (rs_sent rs)" "i \<in> set (rs_sent rs) \<Longrightarrow> started (st (rs_walker rs) i)"
    "st (rs_walker rs) i = Some Succeeded \<or> st (rs_walker rs) i = Some Failed \<Longrightarrow> i \<in> set (rs_sent rs)"
    "rs_sent rs = xs @ i # ys \<Longrightarrow> (i, j) \<in> E \<Longrightarrow> j \<in> set xs"
  using assms unfolding run_inv_def by blast+

lemma split_snoc:
  assumes "sent @ [x] = xs @ i # ys"
  shows "(i = x \<and> xs = sent) \<or> (\<exists>zs. sent = xs @ i # zs)"
  using assms by (cases ys rule: rev_cases) auto

text \<open>Dispatching one ready task, with the receiver listening or not.\<close>

lemma run_inv_send:
  assumes inv: "run_inv n E rs" and ready: "is_ready (rs_walker rs) i"
  shows "run_inv n E (rs\<lparr>rs_walker := set_running i (rs_walker rs)\<rparr>)"
    "run_inv n E \<lparr>rs_walker = set_running i (rs_walker rs), rs_join_set = rs_join_set rs @ [i],
       rs_sent = rs_sent rs @ [i]\<rparr>"
proof -
  note w = run_invD(1)[OF inv]
  note sr = set_running_inv[OF w ready]
  have pend: "st (rs_walker rs) i = Some Pending"
    and deps: "\<And>j. (i, j) \<in> E \<Longrightarrow> st (rs_walker rs) j = Some Succeeded" using ready is_ready_iff[OF w] by auto
  have new: "i \<notin> set (rs_sent rs)" using run_invD(6)[OF inv, of i] pend by (auto simp: started_def)
  have run: "st (set_running i (rs_walker rs)) j = (if j = i then Some Running else st (rs_walker rs) j)" for j
    using sr(2) by (simp add: fun_eq_iff)
  have old: "started (st (set_running i (rs_walker rs)) j)" if "j \<in> set (rs_sent rs)" for j
    using run_invD(6)[OF inv that] by (simp add: run started_def)
  have join: "st (set_running i (rs_walker rs)) j = Some Running" if "j \<in> set (rs_join_set rs)" for j
    using run_invD(4)[OF inv that] by (simp add: run)
  have ended: "j \<in> set (rs_sent rs)" if "st (set_running i (rs_walker rs)) j \<in> {Some Succeeded, Some Failed}" for j
    using that run_invD(7)[OF inv, of j] by (auto simp: run split: if_splits)
  show "run_inv n E (rs\<lparr>rs_walker := set_running i (rs_walker rs)\<rparr>)"
    using sr(1) run_invD(2,3,5,8)[OF inv] old join ended unfolding run_inv_def by simp
  have order: "j \<in> set xs" if "rs_sent rs @ [i] = xs @ k # ys" "(k, j) \<in> E" for xs k ys j
    using split_snoc[OF that(1)] that(2) deps run_invD(7,8)[OF inv] by blast
  show "run_inv n E \<lparr>rs_walker = set_running i (rs_walker rs), rs_join_set = rs_join_set rs @ [i],
       rs_sent = rs_sent rs @ [i]\<rparr>"
    using sr(1) run_invD(2,3,5)[OF inv] old join ended new order
    unfolding run_inv_def by (auto simp: run started_def)
qed

lemma ready_after_running:
  assumes "walk_inv n E ws" "is_ready ws i" "j \<noteq> i"
  shows "is_ready (set_running i ws) j \<longleftrightarrow> is_ready ws j"
  using assms(2,3) by (simp add: is_ready_def set_running_def hmap_simps)

lemma ready_rest:
  assumes "walk_inv n E ws" "distinct (i # is)" "\<forall>j \<in> set (i # is). is_ready ws j"
  shows "\<forall>j \<in> set is. is_ready (set_running i ws) j"
proof
  fix j assume j: "j \<in> set is"
  then have "j \<noteq> i" using assms(2) by auto
  then show "is_ready (set_running i ws) j" using ready_after_running[OF assms(1), of i j] assms(3) j by simp
qed

lemma enqueue_nodes_inv:
  assumes "run_inv n E rs" "distinct is" "\<forall>i \<in> set is. is_ready (rs_walker rs) i"
  shows "run_inv n E (enqueue_nodes rx_open is rs)"
  using assms
proof (induction "is" arbitrary: rs)
  case Nil
  then show ?case by simp
next
  case (Cons i "is")
  have ready: "is_ready (rs_walker rs) i" using Cons.prems(3) by simp
  note send = run_inv_send[OF Cons.prems(1) ready]
  have "\<forall>j \<in> set is. is_ready (set_running i (rs_walker rs)) j"
    by (rule ready_rest[OF run_invD(1)[OF Cons.prems(1)] Cons.prems(2,3)])
  then show ?case using Cons.IH[OF send(2)] Cons.prems(2) send(1) by (simp add: Let_def)
qed

lemma enqueue_nodes_open:
  assumes "run_inv n E rs" "distinct is" "\<forall>i \<in> set is. is_ready (rs_walker rs) i"
  shows "(\<forall>j. st (rs_walker (enqueue_nodes (\<lambda>_. True) is rs)) j =
      (if j \<in> set is then Some Running else st (rs_walker rs) j)) \<and>
    rs_join_set (enqueue_nodes (\<lambda>_. True) is rs) = rs_join_set rs @ is"
  using assms
proof (induction "is" arbitrary: rs)
  case Nil
  then show ?case by simp
next
  case (Cons i "is")
  let ?rs = "\<lparr>rs_walker = set_running i (rs_walker rs), rs_join_set = rs_join_set rs @ [i], rs_sent = rs_sent rs @ [i]\<rparr>"
  have ready: "is_ready (rs_walker rs) i" using Cons.prems(3) by simp
  have "\<forall>j \<in> set is. is_ready (rs_walker ?rs) j"
    using ready_rest[OF run_invD(1)[OF Cons.prems(1)] Cons.prems(2,3)] by simp
  then have ih: "(\<forall>j. st (rs_walker (enqueue_nodes (\<lambda>_. True) is ?rs)) j =
      (if j \<in> set is then Some Running else st (rs_walker ?rs) j)) \<and>
      rs_join_set (enqueue_nodes (\<lambda>_. True) is ?rs) = rs_join_set ?rs @ is"
    using Cons.IH[OF run_inv_send(2)[OF Cons.prems(1) ready]] Cons.prems(2) by simp
  have "st (set_running i (rs_walker rs)) j = (if j = i then Some Running else st (rs_walker rs) j)" for j
    using set_running_inv(2)[OF run_invD(1)[OF Cons.prems(1)] ready] by (simp add: fun_eq_iff)
  with ih show ?case using Cons.prems(2) by (auto simp: Let_def)
qed

lemma enqueue_ready_inv:
  assumes "run_inv n E rs"
  shows "run_inv n E (enqueue_ready_nodes rx_open rs)"
  unfolding enqueue_ready_nodes_def
  using enqueue_nodes_inv[OF assms] ready_nodes[OF run_invD(1)[OF assms]] by blast

lemma enqueue_ready_quiescent:
  assumes inv: "run_inv n E rs" and run: "{i. st (rs_walker rs) i = Some Running} \<subseteq> set (rs_join_set rs)"
  shows "quiescent (enqueue_ready_nodes (\<lambda>_. True) rs)"
proof -
  let ?is = "take_ready_nodes (rs_walker rs)" and ?rs = "enqueue_ready_nodes (\<lambda>_. True) rs"
  note w = run_invD(1)[OF inv]
  note open' = enqueue_nodes_open[OF inv ready_nodes(1)[OF w]]
  have s: "st (rs_walker ?rs) j = (if is_ready (rs_walker rs) j then Some Running else st (rs_walker rs) j)" for j
    using open' ready_nodes(2)[OF w] by (simp add: enqueue_ready_nodes_def)
  have j: "rs_join_set ?rs = rs_join_set rs @ ?is"
    using open' ready_nodes(2)[OF w] by (simp add: enqueue_ready_nodes_def)
  have "\<not> is_ready (rs_walker ?rs) i" for i
  proof
    assume "is_ready (rs_walker ?rs) i"
    then have i: "st (rs_walker ?rs) i = Some Pending" "\<And>j. (i, j) \<in> E \<Longrightarrow> st (rs_walker ?rs) j = Some Succeeded"
      using is_ready_iff[OF run_invD(1)[OF enqueue_ready_inv[OF inv]]] by blast+
    then have "\<not> is_ready (rs_walker rs) i" "st (rs_walker rs) i = Some Pending" unfolding s by (auto split: if_splits)
    moreover have "st (rs_walker rs) j = Some Succeeded" if "(i, j) \<in> E" for j
      using i(2)[OF that] unfolding s by (auto split: if_splits)
    ultimately show False using is_ready_iff[OF w] by blast
  qed
  then show ?thesis
    unfolding quiescent_def j using run ready_nodes(2)[OF w] by (auto simp: s split: if_splits)
qed

text \<open>The state between the completion of a task and the next round of dispatching.\<close>

definition completed :: "nat \<Rightarrow> bool \<Rightarrow> RunState \<Rightarrow> RunState" where
  "completed i outcome rs =
     \<lparr>rs_walker = (if outcome then mark_succeeded i (rs_walker rs) else mark_failed i (rs_walker rs)),
      rs_join_set = remove1 i (rs_join_set rs), rs_sent = rs_sent rs\<rparr>"

lemma complete_alt: "complete rx_open i outcome rs = enqueue_ready_nodes rx_open (completed i outcome rs)"
  by (simp add: complete_def completed_def)

lemma completed_states:
  assumes inv: "run_inv n E rs" and i: "i \<in> set (rs_join_set rs)"
  shows "st (rs_walker (completed i outcome rs)) i = Some (if outcome then Succeeded else Failed)"
    "j \<noteq> i \<Longrightarrow> st (rs_walker (completed i outcome rs)) j = st (rs_walker rs) j \<or>
      (\<not> outcome \<and> st (rs_walker rs) j = Some Pending \<and> st (rs_walker (completed i outcome rs)) j = Some Skipped)"
proof -
  note w = run_invD(1)[OF inv] and r = run_invD(4)[OF inv i]
  note ok = mark_succeeded_inv(2)[OF w r] and bad = skipsD(1)[OF mark_failed_inv(2)[OF w r]]
  show "st (rs_walker (completed i outcome rs)) i = Some (if outcome then Succeeded else Failed)"
    using ok bad[of i] by (auto simp: completed_def fun_eq_iff)
  show "j \<noteq> i \<Longrightarrow> st (rs_walker (completed i outcome rs)) j = st (rs_walker rs) j \<or>
      (\<not> outcome \<and> st (rs_walker rs) j = Some Pending \<and> st (rs_walker (completed i outcome rs)) j = Some Skipped)"
    using ok bad[of j] by (auto simp: completed_def fun_eq_iff)
qed

lemma completed_inv:
  assumes inv: "run_inv n E rs" and i: "i \<in> set (rs_join_set rs)"
  shows "run_inv n E (completed i outcome rs)"
    "ws_terminal_count (rs_walker (completed i outcome rs)) > ws_terminal_count (rs_walker rs)"
proof -
  let ?rs = "completed i outcome rs"
  note w = run_invD(1)[OF inv] and r = run_invD(4)[OF inv i]
  note states = completed_states[OF inv i, where outcome = outcome]
  show "ws_terminal_count (rs_walker ?rs) > ws_terminal_count (rs_walker rs)"
    using mark_succeeded_inv(3)[OF w r] mark_failed_inv(3)[OF w r] by (simp add: completed_def)
  have "walk_inv n E (rs_walker ?rs)"
    using mark_succeeded_inv(1)[OF w r] mark_failed_inv(1)[OF w r] by (simp add: completed_def)
  moreover have "st (rs_walker ?rs) j = Some Running" if "j \<in> set (rs_join_set ?rs)" for j
    using that run_invD(2,4)[OF inv] states(2)[of j] by (auto simp: completed_def[of i outcome rs] split: if_splits)
  moreover have "started (st (rs_walker ?rs) j)" if "j \<in> set (rs_sent ?rs)" for j
    using that run_invD(6)[OF inv, of j] states(1) states(2)[of j]
    by (cases "j = i") (auto simp: started_def completed_def[of i outcome rs] split: if_splits)
  moreover have "j \<in> set (rs_sent ?rs)" if "st (rs_walker ?rs) j \<in> {Some Succeeded, Some Failed}" for j
    using that run_invD(7)[OF inv, of j] run_invD(3)[OF inv] i states(2)[of j]
    by (cases "j = i") (auto simp: completed_def[of i outcome rs])
  ultimately show "run_inv n E ?rs"
    using run_invD(2,3,5,8)[OF inv] unfolding run_inv_def by (auto simp: completed_def dest: in_set_remove1)
qed

lemma complete_inv:
  assumes "run_inv n E rs" "i \<in> set (rs_join_set rs)"
  shows "run_inv n E (complete rx_open i outcome rs)"
  unfolding complete_alt by (rule enqueue_ready_inv[OF completed_inv(1)[OF assms]])

lemma complete_quiescent:
  assumes inv: "run_inv n E rs" and i: "i \<in> set (rs_join_set rs)" and q: "quiescent rs"
  shows "quiescent (complete (\<lambda>_. True) i outcome rs)"
  unfolding complete_alt
proof (rule enqueue_ready_quiescent[OF completed_inv(1)[OF inv i]], intro subsetI CollectI)
  fix j assume "j \<in> {j. st (rs_walker (completed i outcome rs)) j = Some Running}"
  then have j: "st (rs_walker (completed i outcome rs)) j = Some Running" by simp
  then have "j \<noteq> i" using completed_states(1)[OF inv i, where outcome = outcome] by (auto split: if_splits)
  moreover from this have "st (rs_walker rs) j = Some Running"
    using completed_states(2)[OF inv i, where outcome = outcome and j = j] j by auto
  ultimately show "j \<in> set (rs_join_set (completed i outcome rs))"
    using q run_invD(2)[OF inv] by (auto simp: quiescent_def completed_def)
qed

lemma enqueue_nodes_frame: "ws_terminal_count (rs_walker (enqueue_nodes rx_open is rs)) = ws_terminal_count (rs_walker rs)"
  by (induction "is" arbitrary: rs) (auto simp: Let_def set_running_def)

lemma complete_counts:
  assumes "run_inv n E rs" "i \<in> set (rs_join_set rs)"
  shows "ws_terminal_count (rs_walker (complete rx_open i outcome rs)) > ws_terminal_count (rs_walker rs)"
  using completed_inv(2)[OF assms] by (simp add: complete_alt enqueue_ready_nodes_def enqueue_nodes_frame)

lemma terminal_bound:
  assumes "walk_inv n E ws"
  shows "ws_terminal_count ws \<le> n" "ws_terminal_count ws = n \<longleftrightarrow> (\<forall>i < n. terminal (st ws i))"
proof -
  have sub: "{i. terminal (st ws i)} \<subseteq> {..<n}"
    using states_in_range[OF assms] by (auto simp: terminal_def)
  show "ws_terminal_count ws \<le> n"
    using card_mono[OF _ sub] walk_invD(10)[OF assms] by simp
  show "ws_terminal_count ws = n \<longleftrightarrow> (\<forall>i < n. terminal (st ws i))"
  proof
    assume "ws_terminal_count ws = n"
    then have "{i. terminal (st ws i)} = {..<n}"
      using card_subset_eq[OF _ sub] walk_invD(10)[OF assms] by simp
    then show "\<forall>i < n. terminal (st ws i)" by blast
  next
    assume "\<forall>i < n. terminal (st ws i)"
    then have "{i. terminal (st ws i)} = {..<n}" using sub by blast
    then show "ws_terminal_count ws = n" using walk_invD(10)[OF assms] by simp
  qed
qed

lemma finite_graph_wf:
  assumes "E \<subseteq> {..<n :: nat} \<times> {..<n}" "acyclic E"
  shows "wf (E\<inverse>)"
  using finite_acyclic_wf_converse[OF finite_subset[OF assms(1)] assms(2)] by simp

text \<open>When nothing is in flight and the receiver listened throughout, nothing is left pending.\<close>

lemma quiescent_finished:
  assumes inv: "run_inv n E rs" and q: "quiescent rs" and stop: "\<not> run_continues rs"
  shows "i < n \<Longrightarrow> terminal (st (rs_walker rs) i)"
proof (cases "rs_join_set rs = []")
  case True
  note w = run_invD(1)[OF inv]
  have idle: "st (rs_walker rs) i \<noteq> Some Running" for i using q True by (auto simp: quiescent_def)
  have no_pending: "st (rs_walker rs) i \<noteq> Some Pending" for i
  proof (induction i rule: wf_induct_rule[OF finite_graph_wf[OF walk_invD(1,2)[OF w]]])
    case (1 i)
    show ?case
    proof
      assume p: "st (rs_walker rs) i = Some Pending"
      have "st (rs_walker rs) j = Some Succeeded" if "(i, j) \<in> E" for j
      proof -
        have "j < n" using that walk_invD(1)[OF w] by blast
        then have "st (rs_walker rs) j \<noteq> None" using consistentD(1)[OF walk_invD(8)[OF w], of j] by blast
        moreover have "st (rs_walker rs) j \<noteq> Some Pending" using 1 that by simp
        moreover have "\<not> blocked (st (rs_walker rs) j)" using consistentD(4)[OF walk_invD(8)[OF w] p that] .
        ultimately show ?thesis using idle[of j]
          by (cases "st (rs_walker rs) j"; cases "the (st (rs_walker rs) j)") (auto simp: blocked_def)
      qed
      then have "is_ready (rs_walker rs) i" using p is_ready_iff[OF w] by blast
      then show False using q by (simp add: quiescent_def)
    qed
  qed
  show "i < n \<Longrightarrow> ?thesis"
    using idle[of i] no_pending[of i] consistentD(1)[OF walk_invD(8)[OF w], of i]
    by (cases "st (rs_walker rs) i"; cases "the (st (rs_walker rs) i)") (auto simp: terminal_def)
next
  case False
  then have "ws_terminal_count (rs_walker rs) = n"
    using stop terminal_bound(1)[OF run_invD(1)[OF inv]] walk_invD(5)[OF run_invD(1)[OF inv]]
    by (simp add: run_continues_def)
  then show "i < n \<Longrightarrow> ?thesis" using terminal_bound(2)[OF run_invD(1)[OF inv]] by blast
qed

section \<open>The initial state\<close>

lemma fold_update_fresh:
  assumes "distinct (map fst kvs)" "fst ` set kvs \<inter> fst ` set m = {}"
  shows "fold (\<lambda>(i, n). AList.update i (f i n)) kvs m = m @ map (\<lambda>(i, n). (i, f i n)) kvs"
  using assms
proof (induction kvs arbitrary: m)
  case (Cons kv kvs)
  obtain i n where kv: "kv = (i, n)" by fastforce
  have "AList.update i (f i n) m = m @ [(i, f i n)]" using Cons.prems(2) kv by (intro update_fresh) auto
  moreover have "fst ` set kvs \<inter> fst ` set (m @ [(i, f i n)]) = {}" using Cons.prems kv by auto
  ultimately show ?case using Cons.IH[of "m @ [(i, f i n)]"] Cons.prems(1) by (simp add: kv)
qed simp

lemma map_of_indexed:
  "map_of (map (\<lambda>(i, x). (i, f i x)) (zip [0..<length xs] xs)) i = (if i < length xs then Some (f i (xs ! i)) else None)"
proof (cases "i < length xs")
  case True
  then have "(i, xs ! i) \<in> set (zip [0..<length xs] xs)" by (auto simp: set_zip intro!: exI[of _ i])
  then have "(i, f i (xs ! i)) \<in> set (map (\<lambda>(i, x). (i, f i x)) (zip [0..<length xs] xs))"
    by (auto intro!: image_eqI[of _ _ "(i, xs ! i)"])
  moreover have "distinct (map fst (map (\<lambda>(i, x). (i, f i x)) (zip [0..<length xs] xs)))"
    by (simp add: comp_def case_prod_unfold map_fst_zip[unfolded fst_def])
  ultimately show ?thesis using True by simp
next
  case False
  then show ?thesis by (auto simp: map_of_eq_None_iff set_zip)
qed

lemma collect_dependents_lookup:
  "dependents_of (collect_dependents es m) c = dependents_of m c @ map fst (filter (\<lambda>e. snd e = c) es)"
  by (induction es m rule: collect_dependents.induct) (auto simp: dependents_of_def hmap_simps)

lemma those_known: "set ds \<subseteq> dom m \<Longrightarrow> those (map m ds) = Some (map (\<lambda>d. the (m d)) ds)"
  by (induction ds) auto

lemma weights_loop_spec:
  assumes "distinct os" "set os \<inter> dom (map_of acc) = {}" "\<forall>x \<in> set os. map_of nodes x \<noteq> None"
    "\<forall>xs x ys. os = xs @ x # ys \<longrightarrow> set (dependents_of deps x) \<subseteq> dom (map_of acc) \<union> set xs"
  shows "\<exists>W. weights_loop nodes deps os acc = Some W \<and> dom (map_of W) = dom (map_of acc) \<union> set os \<and>
    (\<forall>k \<in> dom (map_of acc). map_of W k = map_of acc k) \<and>
    (\<forall>x \<in> set os. map_of W x = Some (ucast (tn_weight (the (map_of nodes x))) +
       sum_list (map (\<lambda>d. the (map_of W d)) (dependents_of deps x))))"
  using assms
proof (induction os arbitrary: acc)
  case Nil
  then show ?case by simp
next
  case (Cons x os)
  obtain node where node: "map_of nodes x = Some node" using Cons.prems(3) by auto
  have known: "set (dependents_of deps x) \<subseteq> dom (map_of acc)" using Cons.prems(4) by (metis append_Nil set_empty sup_bot.right_neutral)
  then have those: "those (map (map_of acc) (dependents_of deps x)) =
      Some (map (\<lambda>d. the (map_of acc d)) (dependents_of deps x))"
    by (rule those_known)
  let ?w = "ucast (tn_weight node) + sum_list (map (\<lambda>d. the (map_of acc d)) (dependents_of deps x))"
  let ?acc = "AList.update x ?w acc"
  have dom: "dom (map_of ?acc) = insert x (dom (map_of acc))" by (auto simp: hmap_simps split: if_splits)
  have deps: "\<forall>xs y ys. os = xs @ y # ys \<longrightarrow> set (dependents_of deps y) \<subseteq> dom (map_of ?acc) \<union> set xs"
  proof (intro allI impI)
    fix xs y ys assume "os = xs @ y # ys"
    then have "set (dependents_of deps y) \<subseteq> dom (map_of acc) \<union> set (x # xs)"
      using Cons.prems(4) by (metis append_Cons)
    then show "set (dependents_of deps y) \<subseteq> dom (map_of ?acc) \<union> set xs" unfolding dom by simp
  qed
  have fresh: "distinct os" "set os \<inter> dom (map_of ?acc) = {}" using Cons.prems(1,2) by (auto simp: dom)
  have nodes: "\<forall>y \<in> set os. map_of nodes y \<noteq> None" using Cons.prems(3) by simp
  obtain W where W: "weights_loop nodes deps os ?acc = Some W" "dom (map_of W) = dom (map_of ?acc) \<union> set os"
    "\<forall>k \<in> dom (map_of ?acc). map_of W k = map_of ?acc k"
    "\<forall>y \<in> set os. map_of W y = Some (ucast (tn_weight (the (map_of nodes y))) +
       sum_list (map (\<lambda>d. the (map_of W d)) (dependents_of deps y)))"
    using Cons.IH[OF fresh nodes deps] by blast
  have old: "map_of W k = map_of acc k" if "k \<in> dom (map_of acc)" for k
    using that W(3) Cons.prems(2) dom by (auto simp: hmap_simps)
  have "map_of W x = Some ?w" using W(3) dom by (simp add: hmap_simps)
  moreover have "map (\<lambda>d. the (map_of acc d)) (dependents_of deps x) = map (\<lambda>d. the (map_of W d)) (dependents_of deps x)"
    by (intro map_cong refl) (metis known old subsetD)
  ultimately show ?case using W old dom node those by (intro exI[of _ W]) auto
qed

lemma indexed_keys: "map fst (zip [0..<length xs] xs) = [0..<length xs]"
  by simp

lemma graph_dependents:
  fixes ns :: "'n list"
  assumes "distinct es"
  defines "deps \<equiv> collect_dependents es (map (\<lambda>(i, n). (i, [])) (zip [0..<length ns] ns))"
  shows "distinct (dependents_of deps c)" "set (dependents_of deps c) = {d. (d, c) \<in> set es}"
proof -
  have dep: "dependents_of deps c = map fst (filter (\<lambda>e. snd e = c) es)"
    unfolding deps_def collect_dependents_lookup
    using map_of_indexed[of "\<lambda>i n. [] :: nat list" ns c] by (simp add: dependents_of_def)
  then show "set (dependents_of deps c) = {d. (d, c) \<in> set es}" by force
  have "inj_on fst (set (filter (\<lambda>e. snd e = c) es))" by (auto simp: inj_on_def)
  then show "distinct (dependents_of deps c)" unfolding dep using assms(1) by (simp add: distinct_map)
qed

lemma map_key_indexed: "map fst (map (\<lambda>(i, n). (key n, i)) (zip [0..<length ns] ns)) = map key ns"
  by (rule nth_equalityI) simp_all

lemma index_lookup:
  assumes "distinct (map key ns)" "i < length ns"
  shows "map_of (collect_map (map (\<lambda>(i, n). (key n, i)) (zip [0..<length ns] ns))) (key (ns ! i)) = Some i"
proof -
  let ?ps = "map (\<lambda>(i, n). (key n, i)) (zip [0..<length ns] ns)"
  have d: "distinct (map fst ?ps)" unfolding map_key_indexed by (rule assms(1))
  have "(i, ns ! i) \<in> set (zip [0..<length ns] ns)" using assms(2) by (auto simp: set_zip intro!: exI[of _ i])
  then have "(key (ns ! i), i) \<in> set ?ps" by (auto intro!: image_eqI[of _ _ "(i, ns ! i)"])
  then have "map_of ?ps (key (ns ! i)) = Some i" using d by (simp only: map_of_is_SomeI)
  then show ?thesis unfolding map_of_collect_map map_of_rev_distinct[OF d] .
qed

lemma those_order:
  assumes "distinct (map key ns)" "set os \<subseteq> {..<length ns}"
  shows "those (map (\<lambda>n. map_of (collect_map (map (\<lambda>(i, n). (key n, i)) (zip [0..<length ns] ns))) (key n))
    (map ((!) ns) os)) = Some os"
proof -
  have "those (map Some xs) = Some xs" for xs :: "nat list" by (induction xs) auto
  moreover have "map (\<lambda>n. map_of (collect_map (map (\<lambda>(i, n). (key n, i)) (zip [0..<length ns] ns))) (key n))
      (map ((!) ns) os) = map Some os"
    using index_lookup[OF assms(1)] assms(2) by auto
  ultimately show ?thesis by metis
qed

lemma dependents_precede:
  assumes topo: "toposort_laws topo" and below: "edges_below n es" and os: "topo n es = Inr os"
    and split: "os = xs @ x # ys" and e: "(d, x) \<in> set es"
  shows "d \<in> set xs"
proof -
  have nodes: "distinct os" "set os = {..<n}" using toposort_laws.topo_nodes[OF topo below os] by auto
  then have "d \<in> set os" using below e by (auto simp: edges_below_def)
  then obtain us vs where uv: "os = us @ d # vs" by (meson split_list)
  then have "x \<in> set vs" using toposort_laws.topo_order[OF topo below _ e] os by simp
  then show ?thesis using uv split nodes(1) by (auto simp: append_eq_append_conv2 Cons_eq_append_conv append_eq_Cons_conv)
qed

lemma indexed_tables:
  fixes f :: "nat \<Rightarrow> 'n \<Rightarrow> 'v"
  shows "fold (\<lambda>(i, n). AList.update i (f i n)) (zip [0..<length ns] ns) [] =
    map (\<lambda>(i, n). (i, f i n)) (zip [0..<length ns] ns)"
  using fold_update_fresh[of "zip [0..<length ns] ns" "[]" f] by simp

lemma map_id_pairs: "map (\<lambda>(i, n). (i, n)) xs = xs"
  by (simp add: case_prod_unfold)

text \<open>The tables \<open>from_graph\<close> computes: on a well-formed acyclic graph it does not panic.\<close>

definition initial_walker :: "TaskGraph \<Rightarrow> (nat, u64) hmap \<Rightarrow> WalkerState" where
  "initial_walker tg W =
     (let ns = dg_nodes (tg_graph tg); ix = zip [0..<length ns] ns in
      \<lparr>ws_nodes = ix,
       ws_dependencies_remaining = map (\<lambda>(i, n). (i, length (neighbors_directed (tg_graph tg) i Outgoing))) ix,
       ws_dependents = collect_dependents (dg_edges (tg_graph tg)) (map (\<lambda>(i, n). (i, [])) ix),
       ws_downstream_weights = W, ws_states = map (\<lambda>(i, n). (i, Pending)) ix,
       ws_terminal_count = 0, ws_total_count = length ns\<rparr>)"

lemma from_graph_initial:
  assumes topo: "toposort_laws topo" and wf: "wf_task_graph tg" and ac: "acyclic (tg_rel tg)"
  shows "\<exists>W. from_graph topo tg = Some (initial_walker tg W) \<and>
    (\<forall>i < length (tg_nodes tg). map_of W i = Some (ucast (tn_weight (tg_nodes tg ! i)) +
       sum_list (map (\<lambda>d. the (map_of W d)) (dependents_of (ws_dependents (initial_walker tg W)) i))))"
proof -
  let ?g = "tg_graph tg" and ?ns = "dg_nodes (tg_graph tg)"
  let ?ix = "zip [0..<length ?ns] ?ns"
  let ?deps = "collect_dependents (dg_edges ?g) (map (\<lambda>(i, n). (i, [])) ?ix)"
  have named: "wf_named tn_id ?g (tg_indices_by_id tg)" and dist: "distinct (dg_edges ?g)"
    using wf by (simp_all add: wf_task_graph_def)
  note below = named_edges_below[OF named]
  obtain os where os: "topo (length ?ns) (dg_edges ?g) = Inr os"
    using named_sorts_iff[OF topo named] ac unfolding tg_rel_def by blast
  have os_set: "distinct os" "set os = {..<length ?ns}" using toposort_laws.topo_nodes[OF topo below os] by auto
  have order: "tg_topological_order topo tg = Inr (map ((!) ?ns) (rev os))"
    by (simp add: tg_topological_order_def os rev_map)
  have ids: "those (map (\<lambda>n. map_of (collect_map (map (\<lambda>(i, n). (tn_id n, i)) ?ix)) (tn_id n)) (map ((!) ?ns) (rev os)))
      = Some (rev os)"
    using os_set(2) by (intro those_order named_distinct[OF named]) simp
  have node: "map_of ?ix x = Some (?ns ! x)" if "x < length ?ns" for x
    using map_of_indexed[of "\<lambda>i n. n" ?ns x] that by (simp add: map_id_pairs)
  have deps: "set (dependents_of ?deps x) \<subseteq> set xs" if "os = xs @ x # ys" for xs x ys
    using dependents_precede[OF topo below os that] graph_dependents(2)[OF dist, of ?ns x] by blast
  obtain W where W: "weights_loop ?ix ?deps os [] = Some W"
    "\<forall>x \<in> set os. map_of W x = Some (ucast (tn_weight (the (map_of ?ix x))) +
       sum_list (map (\<lambda>d. the (map_of W d)) (dependents_of ?deps x)))"
    using weights_loop_spec[of os "[]" ?ix ?deps] os_set node deps by auto
  have "from_graph topo tg = Some (initial_walker tg W)"
    using order ids W(1)
    by (simp add: from_graph_def initial_walker_def Let_def indexed_tables[where f = "\<lambda>i n. n", simplified]
        indexed_tables map_id_pairs compute_downstream_weights_def)
  then show ?thesis
    using W(2) os_set(2) node by (intro exI[of _ W]) (simp add: initial_walker_def Let_def tg_nodes_def)
qed

abbreviation tg_edges :: "TaskGraph \<Rightarrow> (nat \<times> nat) set" where
  "tg_edges tg \<equiv> set (dg_edges (tg_graph tg))"

lemma initial_inv:
  assumes wf: "wf_task_graph tg" and ac: "acyclic (tg_rel tg)"
  shows "walk_inv (length (tg_nodes tg)) (tg_edges tg) (initial_walker tg W)"
    and "i < length (tg_nodes tg) \<Longrightarrow> st (initial_walker tg W) i = Some Pending"
proof -
  let ?ws = "initial_walker tg W" and ?ns = "dg_nodes (tg_graph tg)"
  have named: "wf_named tn_id (tg_graph tg) (tg_indices_by_id tg)" and dist: "distinct (dg_edges (tg_graph tg))"
    using wf by (simp_all add: wf_task_graph_def)
  have s: "st ?ws i = (if i < length ?ns then Some Pending else None)" for i
    using map_of_indexed[of "\<lambda>i n. Pending" ?ns i] by (simp add: initial_walker_def Let_def)
  then show "i < length (tg_nodes tg) \<Longrightarrow> st ?ws i = Some Pending" by (simp add: tg_nodes_def)
  have "consistent (length ?ns) (tg_edges tg) (st ?ws)"
    unfolding consistent_def state_classes by (simp add: s)
  moreover have "map_of (ws_dependencies_remaining ?ws) i = Some (card {j. (i, j) \<in> tg_edges tg \<and> st ?ws j \<noteq> Some Succeeded})"
    if "i < length ?ns" for i
  proof -
    let ?out = "map snd (filter (\<lambda>e. fst e = i) (dg_edges (tg_graph tg)))"
    have "inj_on snd (set (filter (\<lambda>e. fst e = i) (dg_edges (tg_graph tg))))" by (auto simp: inj_on_def)
    then have "distinct ?out" using dist by (simp add: distinct_map)
    then have "length ?out = card (set ?out)" by (simp only: distinct_card)
    also have "set ?out = {j. (i, j) \<in> tg_edges tg \<and> st ?ws j \<noteq> Some Succeeded}" by (force simp: s)
    finally show ?thesis
      using that map_of_indexed[of "\<lambda>i n. length (neighbors_directed (tg_graph tg) i Outgoing)" ?ns i]
      by (simp add: initial_walker_def Let_def)
  qed
  moreover have "acyclic (tg_edges tg)" using ac named_acyclic[OF named] by (simp add: tg_rel_def)
  moreover have "tg_edges tg \<subseteq> {..<length ?ns} \<times> {..<length ?ns}"
    using named_edges_below[OF named] by (auto simp: edges_below_def)
  moreover have "{i. terminal (st ?ws i)} = {}" by (simp add: s terminal_def)
  moreover have "ws_terminal_count ?ws = 0" "ws_total_count ?ws = length ?ns" "map fst (ws_nodes ?ws) = [0..<length ?ns]"
    by (simp_all add: initial_walker_def Let_def)
  moreover have "distinct (dependents_of (ws_dependents ?ws) c)"
    "set (dependents_of (ws_dependents ?ws) c) = {d. (d, c) \<in> tg_edges tg}" for c
    using graph_dependents[OF dist, of ?ns c] by (simp_all add: initial_walker_def Let_def)
  ultimately show "walk_inv (length (tg_nodes tg)) (tg_edges tg) ?ws"
    unfolding walk_inv_def tg_nodes_def by (simp add: lessThan_atLeast0)
qed

lemma run_start_inv:
  assumes "walk_inv n E ws" "\<And>i. i < n \<Longrightarrow> st ws i = Some Pending"
  shows "run_inv n E (run_start rx_open ws)" "quiescent (run_start (\<lambda>_. True) ws)"
proof -
  let ?rs = "\<lparr>rs_walker = ws, rs_join_set = [], rs_sent = []\<rparr>"
  have p: "st ws i = Some Pending \<or> st ws i = None" for i
    using assms(2)[of i] consistentD(1)[OF walk_invD(8)[OF assms(1)], of i] by blast
  have no: "st ws i \<noteq> Some s" if "s \<noteq> Pending" for i s using p[of i] that by auto
  then have inv: "run_inv n E ?rs" using assms(1) unfolding run_inv_def by simp
  then show "run_inv n E (run_start rx_open ws)" unfolding run_start_def by (rule enqueue_ready_inv)
  have "{i. st (rs_walker ?rs) i = Some Running} \<subseteq> set (rs_join_set ?rs)"
    using no[of Running] by simp
  then show "quiescent (run_start (\<lambda>_. True) ws)" unfolding run_start_def by (rule enqueue_ready_quiescent[OF inv])
qed

text \<open>Reachable states of the loop.\<close>

lemma reachable_inv:
  assumes "(walk_step rx_open)\<^sup>*\<^sup>* rs rs'" "run_inv n E rs"
  shows "run_inv n E rs'"
  using assms by (induction rule: rtranclp_induct) (auto elim!: walk_stepE intro: complete_inv)

lemma reachable_quiescent:
  assumes "(walk_step (\<lambda>_. True))\<^sup>*\<^sup>* rs rs'" "run_inv n E rs" "quiescent rs"
  shows "quiescent rs'"
  using assms
proof (induction rule: rtranclp_induct)
  case (step rs1 rs2)
  then have "run_inv n E rs1" using reachable_inv by blast
  with step show ?case by (auto elim!: walk_stepE intro: complete_quiescent)
qed

lemma walk_start:
  assumes "toposort_laws topo" "wf_task_graph tg" "acyclic (tg_rel tg)" "from_graph topo tg = Some ws"
  shows "run_inv (length (tg_nodes tg)) (tg_edges tg) (run_start rx_open ws)"
    "quiescent (run_start (\<lambda>_. True) ws)" "walk_inv (length (tg_nodes tg)) (tg_edges tg) ws"
proof -
  obtain W where "ws = initial_walker tg W" using from_graph_initial[OF assms(1-3)] assms(4) by auto
  with initial_inv[OF assms(2,3)] show "walk_inv (length (tg_nodes tg)) (tg_edges tg) ws"
    "run_inv (length (tg_nodes tg)) (tg_edges tg) (run_start rx_open ws)" "quiescent (run_start (\<lambda>_. True) ws)"
    using run_start_inv by blast+
qed

section \<open>Outcomes\<close>

text \<open>The states agree with the outcomes the tasks reported.\<close>

definition outcome_ok :: "(nat \<Rightarrow> bool) \<Rightarrow> (nat \<Rightarrow> NodeState option) \<Rightarrow> bool" where
  "outcome_ok outcome f \<longleftrightarrow> (\<forall>i. (f i = Some Succeeded \<longrightarrow> outcome i) \<and> (f i = Some Failed \<longrightarrow> \<not> outcome i))"

lemma enqueue_nodes_states:
  "st (rs_walker (enqueue_nodes rx_open is rs)) j = st (rs_walker rs) j \<or>
    st (rs_walker (enqueue_nodes rx_open is rs)) j = Some Running"
proof (induction "is" arbitrary: rs)
  case (Cons i "is")
  have "st (set_running i (rs_walker rs)) j = st (rs_walker rs) j \<or> st (set_running i (rs_walker rs)) j = Some Running"
    by (simp add: set_running_def hmap_simps)
  moreover note Cons.IH[of "\<lparr>rs_walker = set_running i (rs_walker rs), rs_join_set = rs_join_set rs @ [i],
      rs_sent = rs_sent rs @ [i]\<rparr>"]
  ultimately show ?case by (auto simp: Let_def)
qed simp

lemma outcome_ok_running:
  assumes "outcome_ok outcome f" "\<And>j. g j = f j \<or> g j = Some Running"
  shows "outcome_ok outcome g"
  unfolding outcome_ok_def
proof
  fix j show "(g j = Some Succeeded \<longrightarrow> outcome j) \<and> (g j = Some Failed \<longrightarrow> \<not> outcome j)"
    using assms(2)[of j] assms(1) by (auto simp: outcome_ok_def)
qed

lemma complete_outcome_ok:
  assumes inv: "run_inv n E rs" and i: "i \<in> set (rs_join_set rs)" and ok: "outcome_ok outcome (st (rs_walker rs))"
  shows "outcome_ok outcome (st (rs_walker (complete rx_open i (outcome i) rs)))"
proof -
  let ?rs = "completed i (outcome i) rs"
  have mid: "st (rs_walker ?rs) j = (if j = i then Some (if outcome i then Succeeded else Failed)
      else if st (rs_walker ?rs) j = Some Skipped then Some Skipped else st (rs_walker rs) j)" for j
    using completed_states[OF inv i, where outcome = "outcome i"] by (auto split: if_splits)
  have "outcome_ok outcome (st (rs_walker ?rs))"
    unfolding outcome_ok_def
  proof
    fix j show "(st (rs_walker ?rs) j = Some Succeeded \<longrightarrow> outcome j) \<and> (st (rs_walker ?rs) j = Some Failed \<longrightarrow> \<not> outcome j)"
      using mid[of j] ok by (auto simp: outcome_ok_def split: if_splits)
  qed
  then show ?thesis
    unfolding complete_alt enqueue_ready_nodes_def by (rule outcome_ok_running[OF _ enqueue_nodes_states])
qed

lemma start_outcome_ok:
  assumes "walk_inv n E ws" "\<And>i. i < n \<Longrightarrow> st ws i = Some Pending"
  shows "outcome_ok outcome (st (rs_walker (run_start rx_open ws)))"
proof -
  have "st ws i = Some Pending \<or> st ws i = None" for i
    using assms(2)[of i] consistentD(1)[OF walk_invD(8)[OF assms(1)], of i] by blast
  then have "outcome_ok outcome (st ws)"
    unfolding outcome_ok_def by (metis NodeState.distinct(3,5) option.distinct(1) option.inject)
  then show ?thesis
    unfolding run_start_def enqueue_ready_nodes_def
    by (intro outcome_ok_running[OF _ enqueue_nodes_states]) simp
qed

text \<open>Enough fuel finishes the walk.\<close>

lemma walk_run_finishes:
  assumes "run_inv n E rs" "n \<le> ws_terminal_count (rs_walker rs) + fuel"
  shows "\<exists>rs'. walk_run rx_open sched outcome fuel rs = Some rs' \<and> (walk_step rx_open)\<^sup>*\<^sup>* rs rs' \<and>
    \<not> run_continues rs' \<and> (outcome_ok outcome (st (rs_walker rs)) \<longrightarrow> outcome_ok outcome (st (rs_walker rs')))"
  using assms
proof (induction fuel arbitrary: rs)
  case 0
  then have "\<not> run_continues rs"
    using walk_invD(5)[OF run_invD(1)[OF 0(1)]] by (simp add: run_continues_def)
  then show ?case by (simp add: walk_run.simps)
next
  case (Suc fuel)
  show ?case
  proof (cases "run_continues rs")
    case False
    then show ?thesis by (simp add: walk_run.simps)
  next
    case True
    define i where "i = rs_join_set rs ! (sched (rs_join_set rs) mod length (rs_join_set rs))"
    have i: "i \<in> set (rs_join_set rs)" using True by (simp add: i_def run_continues_def)
    let ?rs = "complete rx_open i (outcome i) rs"
    have "n \<le> ws_terminal_count (rs_walker ?rs) + fuel"
      using complete_counts[OF Suc.prems(1) i, where rx_open = rx_open and outcome = "outcome i"] Suc.prems(2) by simp
    then obtain rs' where rs': "walk_run rx_open sched outcome fuel ?rs = Some rs'" "(walk_step rx_open)\<^sup>*\<^sup>* ?rs rs'"
      "\<not> run_continues rs'" "outcome_ok outcome (st (rs_walker ?rs)) \<longrightarrow> outcome_ok outcome (st (rs_walker rs'))"
      using Suc.IH[OF complete_inv[OF Suc.prems(1) i]] by blast
    have "walk_step rx_open rs ?rs" using True i by (rule walk_step.completes)
    then have "(walk_step rx_open)\<^sup>*\<^sup>* rs rs'" using rs'(2) by (rule converse_rtranclp_into_rtranclp)
    moreover have "walk_run rx_open sched outcome (Suc fuel) rs = Some rs'"
      using True rs'(1) by (simp add: walk_run.simps[of _ _ _ "Suc fuel"] Let_def i_def)
    ultimately show ?thesis
      using rs'(3,4) complete_outcome_ok[OF Suc.prems(1) i] by blast
  qed
qed

lemma skipped_iff_blocked:
  assumes con: "consistent n E f" and t: "terminal (f i)"
  shows "f i = Some Skipped \<longleftrightarrow> (\<exists>j. (i, j) \<in> E \<and> blocked (f j))"
proof
  assume "\<exists>j. (i, j) \<in> E \<and> blocked (f j)"
  then obtain j where "(i, j) \<in> E" "blocked (f j)" by blast
  then have "\<not> started (f i)" using consistentD(2)[OF con, of i j] by (auto simp: blocked_def)
  then show "f i = Some Skipped" using t by (auto simp: started_def terminal_def)
qed (rule consistentD(3)[OF con])

text \<open>In a finished walk, a task is skipped exactly when it depends on a failed one.\<close>

lemma finished_skipped_iff:
  assumes con: "consistent n E f" and wf: "wf (E\<inverse>)" and fin: "\<And>i. i < n \<Longrightarrow> terminal (f i)"
    and range: "E \<subseteq> {..<n} \<times> {..<n}" and i: "i < n"
  shows "f i = Some Skipped \<longleftrightarrow> (\<exists>j. (i, j) \<in> E\<^sup>+ \<and> f j = Some Failed)"
proof
  show "f i = Some Skipped \<Longrightarrow> \<exists>j. (i, j) \<in> E\<^sup>+ \<and> f j = Some Failed"
  proof (induction i rule: wf_induct_rule[OF wf])
    case (1 i)
    then obtain j where j: "(i, j) \<in> E" "blocked (f j)" using consistentD(3)[OF con] by blast
    show ?case
    proof (cases "f j = Some Failed")
      case True
      with j(1) show ?thesis by blast
    next
      case False
      then have "f j = Some Skipped" using j(2) by (auto simp: blocked_def)
      then obtain k where "(j, k) \<in> E\<^sup>+" "f k = Some Failed" using 1(1)[of j] j(1) by auto
      then show ?thesis using j(1) by (meson trancl_into_trancl2)
    qed
  qed
next
  have blk: "f i = Some Skipped" if "(i, j) \<in> E" "blocked (f j)" for i j
  proof -
    have "i < n" using that(1) range by auto
    then show ?thesis using skipped_iff_blocked[OF con fin] that by blast
  qed
  assume "\<exists>j. (i, j) \<in> E\<^sup>+ \<and> f j = Some Failed"
  then obtain j where "(i, j) \<in> E\<^sup>+" "f j = Some Failed" by blast
  then show "f i = Some Skipped"
  proof (induction rule: converse_trancl_induct)
    case (base i)
    then show ?case using blk by (simp add: blocked_def)
  next
    case (step i k)
    then show ?case using blk by (simp add: blocked_def)
  qed
qed

lemma finished_unique:
  assumes con: "consistent n E f" "consistent n E g" and wf: "wf (E\<inverse>)" and range: "E \<subseteq> {..<n} \<times> {..<n}"
    and fin: "\<And>i. i < n \<Longrightarrow> terminal (f i)" "\<And>i. i < n \<Longrightarrow> terminal (g i)"
    and ok: "outcome_ok outcome f" "outcome_ok outcome g"
  shows "f i = g i"
proof (induction i rule: wf_induct_rule[OF wf])
  case (1 i)
  have eq: "f j = g j" if "(i, j) \<in> E" for j using 1 that by simp
  show ?case
  proof (cases "i < n")
    case False
    then show ?thesis using consistentD(1)[OF con(1), of i] consistentD(1)[OF con(2), of i] by simp
  next
    case True
    have decided: "h i = (if outcome i then Some Succeeded else Some Failed)"
      if "terminal (h i)" "h i \<noteq> Some Skipped" "outcome_ok outcome h" for h
      using that by (auto simp: terminal_def outcome_ok_def)
    have "(\<exists>j. (i, j) \<in> E \<and> blocked (f j)) \<longleftrightarrow> (\<exists>j. (i, j) \<in> E \<and> blocked (g j))" using eq by auto
    then have "f i = Some Skipped \<longleftrightarrow> g i = Some Skipped"
      using skipped_iff_blocked[OF con(1) fin(1)[OF True]] skipped_iff_blocked[OF con(2) fin(2)[OF True]] by blast
    then show ?thesis
      using decided[OF fin(1)[OF True] _ ok(1)] decided[OF fin(2)[OF True] _ ok(2)] by (cases "g i = Some Skipped") auto
  qed
qed

lemma walk_run_from_start:
  assumes "toposort_laws topo" "wf_task_graph tg" "acyclic (tg_rel tg)" "from_graph topo tg = Some ws"
  shows "\<exists>rs. walk_run rx_open sched outcome (tg_node_count tg) (run_start rx_open ws) = Some rs \<and>
    (walk_step rx_open)\<^sup>*\<^sup>* (run_start rx_open ws) rs \<and> \<not> run_continues rs \<and> outcome_ok outcome (st (rs_walker rs))"
proof -
  obtain W where W: "ws = initial_walker tg W" using from_graph_initial[OF assms(1-3)] assms(4) by auto
  note init = initial_inv[OF assms(2,3), where W = W]
  have "outcome_ok outcome (st (rs_walker (run_start rx_open ws)))"
    unfolding W by (rule start_outcome_ok[OF init])
  then show ?thesis
    using walk_run_finishes[OF walk_start(1)[OF assms], where fuel = "tg_node_count tg"]
    by (fastforce simp: tg_node_count_def tg_nodes_def)
qed

section \<open>Properties\<close>

text \<open>C1: In every reachable state of the walker, whatever completes in whatever order with
  whatever outcome and whether or not the receiver still listens, each task has been handed out
  at most once, only after all the tasks it depends on were handed out and succeeded, and the
  count of finished tasks is right.\<close>

theorem walker_safety:
  assumes "toposort_laws topo" and "wf_task_graph tg" and "acyclic (tg_rel tg)" and "from_graph topo tg = Some ws"
    and "(walk_step rx_open)\<^sup>*\<^sup>* (run_start rx_open ws) rs"
  shows "distinct (rs_sent rs) \<and>
    (\<forall>xs i ys j. rs_sent rs = xs @ i # ys \<longrightarrow> (i, j) \<in> tg_edges tg \<longrightarrow>
      j \<in> set xs \<and> st (rs_walker rs) j = Some Succeeded) \<and>
    ws_terminal_count (rs_walker rs) = card {i. terminal (st (rs_walker rs) i)}"
proof -
  note inv = reachable_inv[OF assms(5) walk_start(1)[OF assms(1-4)]]
  have "j \<in> set xs \<and> st (rs_walker rs) j = Some Succeeded"
    if s: "rs_sent rs = xs @ i # ys" and e: "(i, j) \<in> tg_edges tg" for xs i ys j
  proof -
    have "i \<in> set (rs_sent rs)" using s by simp
    from run_invD(6)[OF inv this] show ?thesis
      using consistentD(2)[OF walk_invD(8)[OF run_invD(1)[OF inv]] _ e] run_invD(8)[OF inv s e] by blast
  qed
  then show ?thesis
    using run_invD(5)[OF inv] walk_invD(10)[OF run_invD(1)[OF inv]] by blast
qed

theorem walker_safety_witness:
  "\<exists>ws. from_graph ref_toposort example_tg = Some ws \<and> distinct (rs_sent (run_start (\<lambda>_. True) ws))"
proof -
  obtain ws where ws: "from_graph ref_toposort example_tg = Some ws"
    using from_graph_initial[OF ref.toposort_laws_axioms example_tg_wf] by blast
  with walker_safety[OF ref.toposort_laws_axioms example_tg_wf ws rtranclp.rtrancl_refl] show ?thesis by blast
qed

text \<open>C2: When the walker stops while its receiver listened throughout, every task is succeeded,
  failed or skipped; the skipped tasks are exactly those that depend, directly or not, on a
  failed one, and every other task was handed out.\<close>

theorem walker_outcome:
  assumes "toposort_laws topo" and "wf_task_graph tg" and "acyclic (tg_rel tg)" and "from_graph topo tg = Some ws"
    and "(walk_step (\<lambda>_. True))\<^sup>*\<^sup>* (run_start (\<lambda>_. True) ws) rs" and "\<not> run_continues rs"
    and "i < tg_node_count tg"
  shows "terminal (st (rs_walker rs) i) \<and>
    (st (rs_walker rs) i = Some Skipped \<longleftrightarrow> (\<exists>j. (i, j) \<in> (tg_edges tg)\<^sup>+ \<and> st (rs_walker rs) j = Some Failed)) \<and>
    (i \<in> set (rs_sent rs) \<longleftrightarrow> st (rs_walker rs) i \<noteq> Some Skipped)"
proof -
  note start = walk_start[OF assms(1-4)]
  note inv = reachable_inv[OF assms(5) start(1)] and q = reachable_quiescent[OF assms(5) start(1,2)]
  note w = run_invD(1)[OF inv]
  have fin: "terminal (st (rs_walker rs) k)" if "k < length (tg_nodes tg)" for k
    by (rule quiescent_finished[OF inv q assms(6) that])
  have i: "i < length (tg_nodes tg)" using assms(7) by (simp add: tg_node_count_def tg_nodes_def)
  have "i \<in> set (rs_sent rs) \<longleftrightarrow> st (rs_walker rs) i \<noteq> Some Skipped"
    using run_invD(6,7)[OF inv, of i] fin[OF i] by (auto simp: started_def terminal_def)
  then show ?thesis
    using fin[OF i] finished_skipped_iff[OF walk_invD(8)[OF w] finite_graph_wf[OF walk_invD(1,2)[OF w]] fin
        walk_invD(1)[OF w] i] by blast
qed

theorem walker_outcome_witness:
  "\<exists>ws rs. from_graph ref_toposort example_tg = Some ws \<and>
     walk_run (\<lambda>_. True) (\<lambda>_. 0) (\<lambda>_. False) 2 (run_start (\<lambda>_. True) ws) = Some rs \<and>
     terminal (st (rs_walker rs) 0)"
proof -
  obtain ws where ws: "from_graph ref_toposort example_tg = Some ws"
    using from_graph_initial[OF ref.toposort_laws_axioms example_tg_wf] by blast
  have two: "tg_node_count example_tg = 2" by (simp add: tg_node_count_def example_tg_def)
  from walk_run_from_start[OF ref.toposort_laws_axioms example_tg_wf ws, of "\<lambda>_. True" "\<lambda>_. 0" "\<lambda>_. False"]
  obtain rs where rs: "walk_run (\<lambda>_. True) (\<lambda>_. 0) (\<lambda>_. False) 2 (run_start (\<lambda>_. True) ws) = Some rs"
    "(walk_step (\<lambda>_. True))\<^sup>*\<^sup>* (run_start (\<lambda>_. True) ws) rs" "\<not> run_continues rs"
    unfolding two by blast
  with ws walker_outcome[OF ref.toposort_laws_axioms example_tg_wf ws rs(2,3), of 0] two show ?thesis by auto
qed

text \<open>C11: The walker always stops, after at most as many completions as there are tasks, for
  every order of completion, every outcome and every behaviour of the receiver.\<close>

theorem walker_terminates:
  assumes "toposort_laws topo" and "wf_task_graph tg" and "acyclic (tg_rel tg)" and "from_graph topo tg = Some ws"
  shows "\<exists>rs. walk_run rx_open sched outcome (tg_node_count tg) (run_start rx_open ws) = Some rs \<and>
    (walk_step rx_open)\<^sup>*\<^sup>* (run_start rx_open ws) rs \<and> \<not> run_continues rs"
  using walk_run_from_start[OF assms] by blast

theorem walker_terminates_witness:
  "\<exists>ws rs. from_graph ref_toposort example_tg = Some ws \<and>
     walk_run (\<lambda>_. True) (\<lambda>_. 7) (\<lambda>i. i = 1) (tg_node_count example_tg) (run_start (\<lambda>_. True) ws) = Some rs"
proof -
  obtain ws where ws: "from_graph ref_toposort example_tg = Some ws"
    using from_graph_initial[OF ref.toposort_laws_axioms example_tg_wf] by blast
  with walker_terminates[OF ref.toposort_laws_axioms example_tg_wf ws, of "\<lambda>_. True" "\<lambda>_. 7" "\<lambda>i. i = 1"]
  show ?thesis by blast
qed

text \<open>C10: The final state of a walk whose receiver listens depends only on the outcomes of the
  tasks, not on the order in which they complete.\<close>

theorem walker_order_independent:
  assumes "toposort_laws topo" and "wf_task_graph tg" and "acyclic (tg_rel tg)" and "from_graph topo tg = Some ws"
    and "walk_run (\<lambda>_. True) sched outcome (tg_node_count tg) (run_start (\<lambda>_. True) ws) = Some rs"
    and "walk_run (\<lambda>_. True) sched' outcome (tg_node_count tg) (run_start (\<lambda>_. True) ws) = Some rs'"
  shows "st (rs_walker rs) i = st (rs_walker rs') i"
proof -
  let ?n = "length (tg_nodes tg)"
  note start = walk_start[OF assms(1-4)]
  have run: "consistent ?n (tg_edges tg) (st (rs_walker r)) \<and> (\<forall>k < ?n. terminal (st (rs_walker r) k)) \<and>
      outcome_ok outcome (st (rs_walker r))"
    if "walk_run (\<lambda>_. True) s outcome (tg_node_count tg) (run_start (\<lambda>_. True) ws) = Some r" for s r
  proof -
    have r: "(walk_step (\<lambda>_. True))\<^sup>*\<^sup>* (run_start (\<lambda>_. True) ws) r" "\<not> run_continues r"
      "outcome_ok outcome (st (rs_walker r))"
      using walk_run_from_start[OF assms(1-4), of "\<lambda>_. True" s outcome] that by auto
    note inv = reachable_inv[OF r(1) start(1)]
    show ?thesis
      using walk_invD(8)[OF run_invD(1)[OF inv]] r(3)
        quiescent_finished[OF inv reachable_quiescent[OF r(1) start(1,2)] r(2)] by blast
  qed
  show ?thesis
    using finished_unique[of ?n "tg_edges tg" "st (rs_walker rs)" "st (rs_walker rs')" outcome i]
      run[OF assms(5)] run[OF assms(6)] walk_invD(1)[OF start(3)]
      finite_graph_wf[OF walk_invD(1,2)[OF start(3)]] by blast
qed

theorem walker_order_independent_witness:
  "\<exists>ws rs rs'. from_graph ref_toposort example_tg = Some ws \<and>
     walk_run (\<lambda>_. True) (\<lambda>_. 0) (\<lambda>i. i = 1) (tg_node_count example_tg) (run_start (\<lambda>_. True) ws) = Some rs \<and>
     walk_run (\<lambda>_. True) (\<lambda>_. 5) (\<lambda>i. i = 1) (tg_node_count example_tg) (run_start (\<lambda>_. True) ws) = Some rs' \<and>
     st (rs_walker rs) 0 = st (rs_walker rs') 0"
proof -
  obtain ws where ws: "from_graph ref_toposort example_tg = Some ws"
    using from_graph_initial[OF ref.toposort_laws_axioms example_tg_wf] by blast
  note run = walk_run_from_start[OF ref.toposort_laws_axioms example_tg_wf ws, of "\<lambda>_. True" _ "\<lambda>i. i = 1"]
  obtain rs rs' where r: "walk_run (\<lambda>_. True) (\<lambda>_. 0) (\<lambda>i. i = 1) (tg_node_count example_tg) (run_start (\<lambda>_. True) ws) = Some rs"
    "walk_run (\<lambda>_. True) (\<lambda>_. 5) (\<lambda>i. i = 1) (tg_node_count example_tg) (run_start (\<lambda>_. True) ws) = Some rs'"
    using run[of "\<lambda>_. 0"] run[of "\<lambda>_. 5"] by blast
  with ws walker_order_independent[OF ref.toposort_laws_axioms example_tg_wf ws r, of 0] show ?thesis by blast
qed

text \<open>The walker's state can be built for every acyclic task graph without a panic, and each
  downstream weight is the task's own weight plus the downstream weights of its direct
  dependents, modulo the 64-bit range.\<close>

lemma downstream_weights_correct:
  assumes "toposort_laws topo" and "wf_task_graph tg" and "acyclic (tg_rel tg)"
  shows "\<exists>ws. from_graph topo tg = Some ws \<and>
    (\<forall>i < tg_node_count tg. \<exists>ds. set ds = {d. (d, i) \<in> tg_edges tg} \<and> distinct ds \<and>
      map_of (ws_downstream_weights ws) i = Some (ucast (tn_weight (tg_nodes tg ! i)) +
        sum_list (map (\<lambda>d. the (map_of (ws_downstream_weights ws) d)) ds)))"
proof -
  obtain W where W: "from_graph topo tg = Some (initial_walker tg W)"
    "\<forall>i < length (tg_nodes tg). map_of W i = Some (ucast (tn_weight (tg_nodes tg ! i)) +
       sum_list (map (\<lambda>d. the (map_of W d)) (dependents_of (ws_dependents (initial_walker tg W)) i)))"
    using from_graph_initial[OF assms] by blast
  note w = initial_inv(1)[OF assms(2,3), of W]
  show ?thesis
  proof (intro exI[of _ "initial_walker tg W"] conjI allI impI, rule W(1))
    fix i assume "i < tg_node_count tg"
    then have i: "i < length (tg_nodes tg)" by (simp add: tg_node_count_def tg_nodes_def)
    have "ws_downstream_weights (initial_walker tg W) = W" by (simp add: initial_walker_def Let_def)
    then show "\<exists>ds. set ds = {d. (d, i) \<in> tg_edges tg} \<and> distinct ds \<and>
        map_of (ws_downstream_weights (initial_walker tg W)) i = Some (ucast (tn_weight (tg_nodes tg ! i)) +
          sum_list (map (\<lambda>d. the (map_of (ws_downstream_weights (initial_walker tg W)) d)) ds))"
      using W(2) i walk_invD(6,7)[OF w, of i]
      by (intro exI[of _ "dependents_of (ws_dependents (initial_walker tg W)) i"]) simp
  qed
qed

lemma downstream_weights_correct_witness:
  "\<exists>ws. from_graph ref_toposort example_tg = Some ws \<and> (\<exists>w. map_of (ws_downstream_weights ws) 1 = Some w)"
proof -
  have "1 < tg_node_count example_tg" by (simp add: tg_node_count_def example_tg_def)
  then show ?thesis
    using downstream_weights_correct[OF ref.toposort_laws_axioms example_tg_wf] by blast
qed

text \<open>In every reachable state, the tasks ready for dispatch are exactly the pending ones whose
  dependencies have all succeeded, and they are handed out by falling downstream weight, then
  falling own weight, then by package and task name.\<close>

lemma ready_tasks_dispatched_in_order:
  assumes "toposort_laws topo" and "wf_task_graph tg" and "acyclic (tg_rel tg)" and "from_graph topo tg = Some ws0"
    and "(walk_step rx_open)\<^sup>*\<^sup>* (run_start rx_open ws0) rs" and "ws = rs_walker rs"
  shows "set (take_ready_nodes ws) =
      {i. st ws i = Some Pending \<and> (\<forall>j. (i, j) \<in> tg_edges tg \<longrightarrow> st ws j = Some Succeeded)} \<and>
    distinct (take_ready_nodes ws) \<and>
    sorted (map (\<lambda>i. dispatch_key ws (i, the (map_of (ws_nodes ws) i))) (take_ready_nodes ws))"
proof -
  have w: "walk_inv (length (tg_nodes tg)) (tg_edges tg) ws"
    using run_invD(1)[OF reachable_inv[OF assms(5) walk_start(1)[OF assms(1-4)]]] assms(6) by simp
  let ?ys = "sort_key (dispatch_key ws) (filter (\<lambda>(i, _). is_ready ws i) (ws_nodes ws))"
  have "dispatch_key ws (fst e, the (map_of (ws_nodes ws) (fst e))) = dispatch_key ws e" if "e \<in> set ?ys" for e
    using that walk_invD(3)[OF w] by (cases e rule: prod.exhaust) auto
  then have "map (\<lambda>i. dispatch_key ws (i, the (map_of (ws_nodes ws) i))) (take_ready_nodes ws) = map (dispatch_key ws) ?ys"
    by (simp add: take_ready_nodes_def)
  then show ?thesis
    using ready_nodes[OF w] is_ready_iff[OF w] by simp
qed

lemma ready_tasks_dispatched_in_order_witness:
  "\<exists>ws. from_graph ref_toposort example_tg = Some ws \<and>
     distinct (take_ready_nodes (rs_walker (run_start (\<lambda>_. False) ws)))"
proof -
  obtain ws where ws: "from_graph ref_toposort example_tg = Some ws"
    using from_graph_initial[OF ref.toposort_laws_axioms example_tg_wf] by blast
  with ready_tasks_dispatched_in_order[OF ref.toposort_laws_axioms example_tg_wf ws rtranclp.rtrancl_refl refl]
  show ?thesis by blast
qed

end
