(* ===== verification/CacheHash.thy ===== *)
theory CacheHash
  imports Types "HOL-Library.Multiset"
begin

text \<open>
  The record of a task run and the hashes that identify one: \<open>crates/luchta-cache/src/record.rs\<close>,
  \<open>reason.rs\<close>, \<open>hashing.rs\<close> and the combined hashes of \<open>resolve.rs\<close>. Each hash is BLAKE3 of a byte
  stream; BLAKE3 is the parameter \<open>blake3\<close>, and the bincode encoding of integers, lengths and tags is
  the parameter \<open>bincode\<close> with the laws of the locale \<open>bincode_laws\<close>. What is proved is about the
  streams: they determine what they are made of, so that equal hashes of different things are collisions of
  BLAKE3 and nothing else.
\<close>

type_synonym hash32 = string

abbreviation zero_hash :: hash32 where
  "zero_hash \<equiv> replicate 32 (CHR 0x00)"

section \<open>Records\<close>

text \<open>Errors of other crates are carried as their text.\<close>

datatype CacheError =
    Io string
  | SerializeRecord string
  | InvalidGlob string
  | BuildGlobSet string
  | Git string
  | WalkDir string
  | StripBaseDir string
  | InvalidMtime string
  | InputExpansion string

record FileEntry =
  fe_path :: string
  fe_size :: u64
  fe_mtime_ns :: int
  fe_hash :: hash32
  fe_absent :: bool

definition file_entry_absent :: "string \<Rightarrow> FileEntry" where
  "file_entry_absent path =
     \<lparr>fe_path = path, fe_size = 0, fe_mtime_ns = 0, fe_hash = zero_hash, fe_absent = True\<rparr>"

record ReportMeta =
  rm_filename :: string
  rm_mime_type :: string

record FileDelta =
  fd_path :: string
  fd_prior_hash :: hash32
  fd_current_hash :: hash32
  fd_prior_absent :: bool
  fd_current_absent :: bool

datatype RunReason =
    NoPriorRecord
  | PriorFailed
  | NonceChanged
  | TaskSpecMismatch
  | DepOutputMismatch "string list"
  | PkgDepMismatch
  | EnvMismatch
  | InputChanged "FileDelta list" bool u32
  | OutputChanged "FileDelta list" bool u32
  | CacheHit
  | SharedCacheHit

record TaskRunRecord =
  rr_schema_version :: u32
  rr_task_spec_hash :: hash32
  rr_input_patterns :: "string list"
  rr_inputs :: "FileEntry list"
  rr_output_patterns :: "string list"
  rr_outputs :: "FileEntry list"
  rr_detected_input_patterns :: bool
  rr_detected_output_patterns :: bool
  rr_outputs_hash :: hash32
  rr_env_hash :: hash32
  rr_pkg_dep_hash :: hash32
  rr_dep_outputs :: "(string, hash32) hmap"
  rr_exit_status :: "32 word"
  rr_succeeded :: bool
  rr_start_unix_ms :: u64
  rr_end_unix_ms :: u64
  rr_reports :: "ReportMeta list"
  rr_cache_nonce :: "string option"
  rr_run_reason :: "RunReason option"

fun join_with :: "string \<Rightarrow> string list \<Rightarrow> string" where
  "join_with sep [] = []"
| "join_with sep [s] = s"
| "join_with sep (s # t # ts) = s @ sep @ join_with sep (t # ts)"

fun summary :: "RunReason \<Rightarrow> string" where
  "summary NoPriorRecord = ''no prior run''"
| "summary PriorFailed = ''previous run failed''"
| "summary NonceChanged = ''cache nonce changed''"
| "summary TaskSpecMismatch = ''task definition changed''"
| "summary (DepOutputMismatch tasks) =
     (if tasks = [] then ''dependency output changed''
      else ''dependency output changed: '' @ join_with '', '' tasks)"
| "summary PkgDepMismatch = ''package dependencies changed''"
| "summary EnvMismatch = ''env changed''"
| "summary (InputChanged _ _ n) =
     (if n > 0 then ''input changed ('' @ decimal (unat n) @ '' changes)'' else ''input changed'')"
| "summary (OutputChanged _ _ n) =
     (if n > 0 then ''output changed ('' @ decimal (unat n) @ '' changes)'' else ''output changed'')"
| "summary CacheHit = ''up to date (local cache hit)''"
| "summary SharedCacheHit = ''restored from shared cache''"

section \<open>Combined hashes of files\<close>

fun le_bytes :: "nat \<Rightarrow> nat \<Rightarrow> string" where
  "le_bytes 0 n = []"
| "le_bytes (Suc k) n = char_of (n mod 256) # le_bytes k (n div 256)"

definition COMBINED_OUTPUTS_HASH_DOMAIN :: string where
  "COMBINED_OUTPUTS_HASH_DOMAIN = ''luchta-cache:combined-outputs:v1''"

definition COMBINED_INPUTS_HASH_DOMAIN :: string where
  "COMBINED_INPUTS_HASH_DOMAIN = ''luchta-cache:combined-inputs:v1''"

definition COMBINED_CACHE_FILES_HASH_DOMAIN :: string where
  "COMBINED_CACHE_FILES_HASH_DOMAIN = ''luchta-cache:combined-cache-files:v1''"

definition entry_frame :: "FileEntry \<Rightarrow> string" where
  "entry_frame e =
     le_bytes 8 (length (fe_path e)) @ fe_path e @ [if fe_absent e then CHR 0x01 else CHR 0x00] @ fe_hash e"

definition entries_stream :: "string \<Rightarrow> FileEntry list \<Rightarrow> string" where
  "entries_stream domain entries =
     (let sorted = sort_key fe_path entries
      in domain @ le_bytes 8 (length sorted) @ concat (map entry_frame sorted))"

definition combined_entries_hash :: "(string \<Rightarrow> hash32) \<Rightarrow> string \<Rightarrow> FileEntry list \<Rightarrow> hash32" where
  "combined_entries_hash blake3 domain entries = blake3 (entries_stream domain entries)"

definition combined_outputs_hash :: "(string \<Rightarrow> hash32) \<Rightarrow> FileEntry list \<Rightarrow> hash32" where
  "combined_outputs_hash blake3 = combined_entries_hash blake3 COMBINED_OUTPUTS_HASH_DOMAIN"

definition combined_inputs_hash :: "(string \<Rightarrow> hash32) \<Rightarrow> FileEntry list \<Rightarrow> hash32" where
  "combined_inputs_hash blake3 = combined_entries_hash blake3 COMBINED_INPUTS_HASH_DOMAIN"

definition combined_cache_files_hash :: "(string \<Rightarrow> hash32) \<Rightarrow> FileEntry list \<Rightarrow> hash32" where
  "combined_cache_files_hash blake3 = combined_entries_hash blake3 COMBINED_CACHE_FILES_HASH_DOMAIN"

section \<open>Hashes of the task, its environment and its packages\<close>

text \<open>The primitives of the encoding: a 64-bit length, a 32-bit integer, an enum variant, and the
  tag of an option or boolean. Sequences are a length and the elements, structs the fields in order.\<close>

record bincode =
  bc_len :: "nat \<Rightarrow> string"
  bc_u32 :: "u32 \<Rightarrow> string"
  bc_tag :: "bool \<Rightarrow> string"

definition enc_str :: "bincode \<Rightarrow> string \<Rightarrow> string" where
  "enc_str B s = bc_len B (length s) @ s"

definition enc_opt :: "bincode \<Rightarrow> string option \<Rightarrow> string" where
  "enc_opt B x = (case x of None \<Rightarrow> bc_tag B False | Some s \<Rightarrow> bc_tag B True @ enc_str B s)"

definition enc_seq :: "bincode \<Rightarrow> ('a \<Rightarrow> string) \<Rightarrow> 'a list \<Rightarrow> string" where
  "enc_seq B enc xs = bc_len B (length xs) @ concat (map enc xs)"

record TaskSpecHashInput =
  si_command :: "string option"
  si_worker :: "string option"
  si_weight :: u32
  si_depends_on :: "string list"
  si_cache_enabled :: bool
  si_inputs :: "string list"
  si_outputs :: "string list"
  si_nonce :: "string option"

definition enc_spec :: "bincode \<Rightarrow> TaskSpecHashInput \<Rightarrow> string" where
  "enc_spec B s =
     enc_opt B (si_command s) @ enc_opt B (si_worker s) @ bc_u32 B (si_weight s) @
     enc_seq B (enc_str B) (si_depends_on s) @ bc_tag B (si_cache_enabled s) @
     enc_seq B (enc_str B) (si_inputs s) @ enc_seq B (enc_str B) (si_outputs s) @ enc_opt B (si_nonce s)"

definition spec_hash_input :: "TaskDefinition \<Rightarrow> string option \<Rightarrow> TaskSpecHashInput" where
  "spec_hash_input task_def nonce =
     \<lparr>si_command = td_command task_def, si_worker = td_worker task_def, si_weight = td_weight task_def,
      si_depends_on = map as_config_string (td_depends_on task_def),
      si_cache_enabled = cache_enabled task_def, si_inputs = td_inputs task_def,
      si_outputs = td_outputs task_def, si_nonce = nonce\<rparr>"

definition version_suffix :: "string option \<Rightarrow> string" where
  "version_suffix tool_version =
     (case tool_version of
        None \<Rightarrow> []
      | Some version \<Rightarrow> ''luchta-cache:task-spec-tool-version:v1'' @ le_bytes 8 (length version) @ version)"

definition spec_stream :: "bincode \<Rightarrow> TaskDefinition \<Rightarrow> string option \<Rightarrow> string" where
  "spec_stream B task_def nonce =
     (let bytes = enc_spec B (spec_hash_input task_def nonce)
      in if td_cache_files task_def = [] \<and> td_tool_version task_def = None then bytes
         else
           (if td_cache_files task_def = [] then bytes
            else let cache_files = enc_seq B (enc_str B) (td_cache_files task_def)
                 in ''luchta-cache:task-spec-cache-files:v1'' @ le_bytes 8 (length bytes) @ bytes @
                    le_bytes 8 (length cache_files) @ cache_files) @
           version_suffix (td_tool_version task_def))"

definition task_spec_hash :: "bincode \<Rightarrow> (string \<Rightarrow> hash32) \<Rightarrow> TaskDefinition \<Rightarrow> string option \<Rightarrow> hash32" where
  "task_spec_hash B blake3 task_def nonce = blake3 (spec_stream B task_def nonce)"

datatype ResolvedEnvValue = Present string | Absent

record SignificantEnvEntry =
  se_name :: string
  se_value :: ResolvedEnvValue

definition significant_env :: "(string, EnvSpec) hmap \<Rightarrow> (string \<Rightarrow> string option) \<Rightarrow> SignificantEnvEntry list" where
  "significant_env env resolver =
     map (\<lambda>(name, spec).
       \<lparr>se_name = name,
        se_value = (case resolve_env_value spec name (\<lambda>_. resolver name) of
                      Some value \<Rightarrow> Present value
                    | None \<Rightarrow> Absent)\<rparr>)
     (filter (\<lambda>(name, spec). es_input spec) env)"

fun enc_env_value :: "bincode \<Rightarrow> ResolvedEnvValue \<Rightarrow> string" where
  "enc_env_value B (Present value) = bc_u32 B 0 @ enc_str B value"
| "enc_env_value B Absent = bc_u32 B 1"

definition enc_env_entry :: "bincode \<Rightarrow> SignificantEnvEntry \<Rightarrow> string" where
  "enc_env_entry B e = enc_str B (se_name e) @ enc_env_value B (se_value e)"

definition env_hash ::
  "bincode \<Rightarrow> (string \<Rightarrow> hash32) \<Rightarrow> (string, EnvSpec) hmap \<Rightarrow> (string \<Rightarrow> string option) \<Rightarrow> hash32" where
  "env_hash B blake3 env resolver = blake3 (enc_seq B (enc_env_entry B) (significant_env env resolver))"

definition canonical_pairs :: "(string \<times> string) list \<Rightarrow> (string \<times> string) list" where
  "canonical_pairs pairs = remdups_adj (sort pairs)"

definition enc_pair :: "bincode \<Rightarrow> string \<times> string \<Rightarrow> string" where
  "enc_pair B p = enc_str B (fst p) @ enc_str B (snd p)"

definition pkg_dep_hash :: "bincode \<Rightarrow> (string \<Rightarrow> hash32) \<Rightarrow> (string \<times> string) list \<Rightarrow> hash32" where
  "pkg_dep_hash B blake3 pairs = blake3 (enc_seq B (enc_pair B) (canonical_pairs pairs))"

section \<open>Streams that can be read back\<close>

text \<open>An encoding is readable on a set if the encoded value can be told from whatever follows it.\<close>

definition readable :: "('a \<Rightarrow> string) \<Rightarrow> 'a set \<Rightarrow> bool" where
  "readable enc A \<longleftrightarrow> (\<forall>a \<in> A. \<forall>b \<in> A. \<forall>x y. enc a @ x = enc b @ y \<longrightarrow> a = b \<and> x = y)"

lemma readableI: "(\<And>a b x y. a \<in> A \<Longrightarrow> b \<in> A \<Longrightarrow> enc a @ x = enc b @ y \<Longrightarrow> a = b \<and> x = y) \<Longrightarrow> readable enc A"
  unfolding readable_def by blast

lemma readableD: "readable enc A \<Longrightarrow> enc a @ x = enc b @ y \<Longrightarrow> a \<in> A \<Longrightarrow> b \<in> A \<Longrightarrow> a = b \<and> x = y"
  unfolding readable_def by blast

lemma readable_concat:
  assumes r: "readable enc A" and "set xs \<subseteq> A" "set ys \<subseteq> A" "length xs = length ys"
    and "concat (map enc xs) @ x = concat (map enc ys) @ y"
  shows "xs = ys \<and> x = y"
  using assms(4,2,3,5) by (induction xs ys rule: list_induct2) (auto dest: readableD[OF r])

abbreviation fits :: "'a list \<Rightarrow> bool" where
  "fits s \<equiv> length s < 2 ^ 64"

lemma length_le_bytes [simp]: "length (le_bytes k n) = k"
  by (induction k arbitrary: n) simp_all

lemma le_bytes_inj: "le_bytes k n = le_bytes k m \<Longrightarrow> n < 256 ^ k \<Longrightarrow> m < 256 ^ k \<Longrightarrow> n = m"
proof (induction k arbitrary: n m)
  case (Suc k)
  have "n mod 256 = m mod 256"
    using Suc.prems(1) by (metis le_bytes.simps(2) list.inject of_char_of of_char_mod_256 mod_mod_trivial)
  moreover have "n div 256 = m div 256"
    using Suc.prems by (intro Suc.IH) (auto simp: less_mult_imp_div_less mult.commute)
  ultimately show ?case by (metis div_mult_mod_eq)
qed simp

lemma le_bytes_append:
  assumes "le_bytes 8 n @ x = le_bytes 8 m @ y" "n < 2 ^ 64" "m < 2 ^ 64"
  shows "n = m \<and> x = y"
  using assms le_bytes_inj[of 8 n m] by (simp add: append_eq_append_conv)

lemma framed_append:
  assumes "le_bytes 8 (length s) @ s @ x = le_bytes 8 (length t) @ t @ y" "fits s" "fits t"
  shows "s = t \<and> x = y"
  using le_bytes_append[OF assms(1)] assms(2,3) by (metis append_eq_append_conv)

locale bincode_laws =
  fixes B :: bincode
  assumes len_readable: "readable (bc_len B) {n. n < 2 ^ 64}"
    and u32_readable: "readable (bc_u32 B) UNIV"
    and tag_byte: "bc_tag B b = [if b then CHR 0x01 else CHR 0x00]"
begin

lemma str_readable: "readable (enc_str B) {s. fits s}"
proof (rule readableI)
  fix s t x y
  assume "s \<in> {s. fits s}" "t \<in> {s. fits s}" "enc_str B s @ x = enc_str B t @ y"
  then show "s = t \<and> x = y"
    using readableD[OF len_readable, of "length s" "s @ x" "length t" "t @ y"] append_eq_append_conv[of s t x y]
    by (simp add: enc_str_def)
qed

lemma opt_readable: "readable (enc_opt B) {x. pred_option fits x}"
proof (rule readableI)
  fix u v x y
  assume "u \<in> {x. pred_option fits x}" "v \<in> {x. pred_option fits x}" "enc_opt B u @ x = enc_opt B v @ y"
  then show "u = v \<and> x = y"
    using readableD[OF str_readable, of "the u" x "the v" y] by (auto simp: enc_opt_def tag_byte split: option.splits)
qed

lemma seq_readable:
  assumes "readable enc A"
  shows "readable (enc_seq B enc) {xs. fits xs \<and> set xs \<subseteq> A}"
proof (rule readableI)
  fix xs ys x y
  assume xy: "xs \<in> {xs. fits xs \<and> set xs \<subseteq> A}" "ys \<in> {xs. fits xs \<and> set xs \<subseteq> A}" "enc_seq B enc xs @ x = enc_seq B enc ys @ y"
  then have "length xs = length ys" "concat (map enc xs) @ x = concat (map enc ys) @ y"
    using readableD[OF len_readable, of "length xs" "concat (map enc xs) @ x" "length ys" "concat (map enc ys) @ y"]
    by (simp_all add: enc_seq_def)
  then show "xs = ys \<and> x = y" using xy(1,2) by (intro readable_concat[OF assms]) simp_all
qed

lemma tag_readable: "readable (bc_tag B) UNIV"
  by (rule readableI) (simp add: tag_byte split: if_splits)

end

definition strs_fit :: "string list \<Rightarrow> bool" where
  "strs_fit ss \<longleftrightarrow> fits ss \<and> list_all fits ss"

definition spec_fits :: "TaskSpecHashInput \<Rightarrow> bool" where
  "spec_fits s \<longleftrightarrow>
     pred_option fits (si_command s) \<and> pred_option fits (si_worker s) \<and> pred_option fits (si_nonce s) \<and>
     strs_fit (si_depends_on s) \<and> strs_fit (si_inputs s) \<and> strs_fit (si_outputs s)"

context bincode_laws begin

lemma strs_readD:
  "enc_seq B (enc_str B) ss @ x = enc_seq B (enc_str B) ts @ y \<Longrightarrow> strs_fit ss \<Longrightarrow> strs_fit ts \<Longrightarrow> ss = ts \<and> x = y"
  using readableD[OF seq_readable[OF str_readable], of ss x ts y] by (auto simp: strs_fit_def list_all_iff)

lemma spec_readable: "readable (enc_spec B) {s. spec_fits s}"
proof (rule readableI)
  fix s t :: TaskSpecHashInput and x y
  assume fit: "s \<in> {s. spec_fits s}" "t \<in> {s. spec_fits s}" and eq: "enc_spec B s @ x = enc_spec B t @ y"
  note f = fit[simplified, unfolded spec_fits_def]
  from eq have "enc_opt B (si_command s) @ enc_opt B (si_worker s) @ bc_u32 B (si_weight s) @
      enc_seq B (enc_str B) (si_depends_on s) @ bc_tag B (si_cache_enabled s) @
      enc_seq B (enc_str B) (si_inputs s) @ enc_seq B (enc_str B) (si_outputs s) @ enc_opt B (si_nonce s) @ x =
      enc_opt B (si_command t) @ enc_opt B (si_worker t) @ bc_u32 B (si_weight t) @
      enc_seq B (enc_str B) (si_depends_on t) @ bc_tag B (si_cache_enabled t) @
      enc_seq B (enc_str B) (si_inputs t) @ enc_seq B (enc_str B) (si_outputs t) @ enc_opt B (si_nonce t) @ y"
    by (simp add: enc_spec_def)
  from readableD[OF opt_readable this] f have a: "si_command s = si_command t" and
    1: "enc_opt B (si_worker s) @ bc_u32 B (si_weight s) @
      enc_seq B (enc_str B) (si_depends_on s) @ bc_tag B (si_cache_enabled s) @
      enc_seq B (enc_str B) (si_inputs s) @ enc_seq B (enc_str B) (si_outputs s) @ enc_opt B (si_nonce s) @ x =
      enc_opt B (si_worker t) @ bc_u32 B (si_weight t) @
      enc_seq B (enc_str B) (si_depends_on t) @ bc_tag B (si_cache_enabled t) @
      enc_seq B (enc_str B) (si_inputs t) @ enc_seq B (enc_str B) (si_outputs t) @ enc_opt B (si_nonce t) @ y"
    by simp_all
  from readableD[OF opt_readable 1] f have b: "si_worker s = si_worker t" and
    2: "bc_u32 B (si_weight s) @
      enc_seq B (enc_str B) (si_depends_on s) @ bc_tag B (si_cache_enabled s) @
      enc_seq B (enc_str B) (si_inputs s) @ enc_seq B (enc_str B) (si_outputs s) @ enc_opt B (si_nonce s) @ x =
      bc_u32 B (si_weight t) @
      enc_seq B (enc_str B) (si_depends_on t) @ bc_tag B (si_cache_enabled t) @
      enc_seq B (enc_str B) (si_inputs t) @ enc_seq B (enc_str B) (si_outputs t) @ enc_opt B (si_nonce t) @ y"
    by simp_all
  from readableD[OF u32_readable 2] strs_readD[of "si_depends_on s" _ "si_depends_on t"] f
  have c: "si_weight s = si_weight t" "si_depends_on s = si_depends_on t" and
    3: "bc_tag B (si_cache_enabled s) @
      enc_seq B (enc_str B) (si_inputs s) @ enc_seq B (enc_str B) (si_outputs s) @ enc_opt B (si_nonce s) @ x =
      bc_tag B (si_cache_enabled t) @
      enc_seq B (enc_str B) (si_inputs t) @ enc_seq B (enc_str B) (si_outputs t) @ enc_opt B (si_nonce t) @ y"
    by blast+
  from readableD[OF tag_readable 3] strs_readD[of "si_inputs s" _ "si_inputs t"]
    strs_readD[of "si_outputs s" _ "si_outputs t"] f
  have d: "si_cache_enabled s = si_cache_enabled t" "si_inputs s = si_inputs t" "si_outputs s = si_outputs t"
    and 4: "enc_opt B (si_nonce s) @ x = enc_opt B (si_nonce t) @ y" by blast+
  from readableD[OF opt_readable 4] f a b c d show "s = t \<and> x = y" by simp
qed

end

text \<open>The documented format with fixed integers: little-endian lengths of eight bytes and variants of four.\<close>

definition fixed_bincode :: bincode where
  "fixed_bincode =
     \<lparr>bc_len = le_bytes 8, bc_u32 = (\<lambda>w. le_bytes 4 (unat w)), bc_tag = (\<lambda>b. [if b then CHR 0x01 else CHR 0x00])\<rparr>"

lemma le_bytes_u32:
  assumes "le_bytes 4 (unat (v :: u32)) @ x = le_bytes 4 (unat w) @ y"
  shows "v = w \<and> x = y"
proof -
  have "unat u < 256 ^ 4" for u :: u32 using unsigned_less[of u] by simp
  then show ?thesis using assms le_bytes_inj[of 4 "unat v" "unat w"]
    by (simp add: append_eq_append_conv word_unat_eq_iff)
qed

interpretation fixed: bincode_laws fixed_bincode
  by unfold_locales (auto intro!: readableI dest: le_bytes_append le_bytes_u32 simp: fixed_bincode_def)

section \<open>What the streams determine\<close>

definition entry_view :: "FileEntry \<Rightarrow> string \<times> bool \<times> hash32" where
  "entry_view e = (fe_path e, fe_absent e, fe_hash e)"

definition wf_entries :: "FileEntry list \<Rightarrow> bool" where
  "wf_entries es \<longleftrightarrow>
     distinct (map fe_path es) \<and> fits es \<and>
     (\<forall>e \<in> set es. fits (fe_path e) \<and> length (fe_hash e) = 32 \<and> (fe_absent e \<longrightarrow> fe_hash e = zero_hash))"

lemma entry_frame_view: "entry_frame e = (case entry_view e of (p, a, h) \<Rightarrow>
    le_bytes 8 (length p) @ p @ [if a then CHR 0x01 else CHR 0x00] @ h)"
  by (simp add: entry_frame_def entry_view_def)

lemma frames_of_views: "map entry_frame es =
    map (\<lambda>(p, a, h). le_bytes 8 (length p) @ p @ [if a then CHR 0x01 else CHR 0x00] @ h) (map entry_view es)"
  by (simp add: entry_frame_view)

lemma frames_readable:
  "readable (\<lambda>(p, a, h). le_bytes 8 (length p) @ p @ [if a then CHR 0x01 else CHR 0x00] @ h)
     {(p, a, h). fits p \<and> length h = 32}"
proof (rule readableI, clarify)
  fix p a h q b k x y
  assume "(le_bytes 8 (length p) @ p @ [if a then CHR 0x01 else CHR 0x00] @ h) @ x =
      (le_bytes 8 (length q) @ q @ [if b then CHR 0x01 else CHR 0x00] @ k) @ y"
    and l: "fits p" "length h = 32" "fits q" "length k = 32"
  then have "p = q \<and> ([if a then CHR 0x01 else CHR 0x00] @ h) @ x = ([if b then CHR 0x01 else CHR 0x00] @ k) @ y"
    by (intro framed_append) simp_all
  then show "(p, a, h) = (q, b, k) \<and> x = y" using l by (auto split: if_splits)
qed

lemma entries_stream_views:
  assumes eq: "entries_stream d es = entries_stream d es'" and wf: "wf_entries es" "wf_entries es'"
  shows "map entry_view (sort_key fe_path es) = map entry_view (sort_key fe_path es')"
proof -
  have "length es = length es' \<and> concat (map entry_frame (sort_key fe_path es)) = concat (map entry_frame (sort_key fe_path es'))"
    using eq wf by (intro le_bytes_append) (simp_all add: entries_stream_def wf_entries_def)
  then show ?thesis
    using wf readable_concat[OF frames_readable, of "map entry_view (sort_key fe_path es)" "map entry_view (sort_key fe_path es')" "[]" "[]"]
    by (auto simp: frames_of_views entry_view_def wf_entries_def)
qed

lemma sort_key_distinct_unique:
  assumes "mset xs = mset ys" "distinct (map f xs)"
  shows "sort_key f xs = sort_key f ys"
proof (rule properties_for_sort_key)
  show "mset (sort_key f ys) = mset xs" using assms by simp
  show "filter (\<lambda>x. f k = f x) (sort_key f ys) = filter (\<lambda>x. f k = f x) xs" if "k \<in> set (sort_key f ys)" for k
  proof -
    have "filter (\<lambda>x. f k = f x) zs = [k]" if "mset zs = mset xs" for zs
    proof -
      have "distinct (map f zs)" "k \<in> set zs"
        using that assms \<open>k \<in> _\<close> by (metis mset_eq_imp_distinct_iff mset_map, metis mset_eq_setD set_sort)
      then show ?thesis by (induction zs) (auto simp: filter_empty_conv image_iff)
    qed
    then show ?thesis using assms by simp
  qed
qed simp

lemma sort_key_map_view: "sort_key fst (map entry_view es) = map entry_view (sort_key fe_path es)"
proof -
  have k: "fst \<circ> entry_view = fe_path" by (simp add: entry_view_def fun_eq_iff)
  have "insort_key fst (entry_view e) (map entry_view xs) = map entry_view (insort_key fe_path e xs)" for e xs
    by (induction xs) (auto simp: entry_view_def)
  then show ?thesis by (induction es) simp_all
qed

lemma entries_stream_eq_iff:
  assumes wf: "wf_entries es" "wf_entries es'"
  shows "entries_stream d es = entries_stream d es' \<longleftrightarrow> entry_view ` set es = entry_view ` set es'"
proof
  assume "entries_stream d es = entries_stream d es'"
  from arg_cong[OF entries_stream_views[OF this wf], of set] show "entry_view ` set es = entry_view ` set es'" by simp
next
  assume same: "entry_view ` set es = entry_view ` set es'"
  have d: "distinct (map entry_view xs)" if "wf_entries xs" for xs
    using that by (auto simp: wf_entries_def entry_view_def distinct_map inj_on_def)
  have "mset (map entry_view es) = mset (map entry_view es')"
    using same d wf by (metis image_set set_eq_iff_mset_eq_distinct)
  moreover have "distinct (map fst (map entry_view es))" using wf(1) by (simp add: wf_entries_def entry_view_def comp_def)
  ultimately have "sort_key fst (map entry_view es) = sort_key fst (map entry_view es')"
    by (rule sort_key_distinct_unique)
  then have "map entry_view (sort_key fe_path es) = map entry_view (sort_key fe_path es')"
    by (simp add: sort_key_map_view)
  then have "map entry_frame (sort_key fe_path es) = map entry_frame (sort_key fe_path es')"
    by (simp add: frames_of_views)
  moreover from this have "length (sort_key fe_path es) = length (sort_key fe_path es')" by (rule map_eq_imp_length_eq)
  ultimately show "entries_stream d es = entries_stream d es'" unfolding entries_stream_def Let_def by (simp only:)
qed

definition task_fits :: "bincode \<Rightarrow> TaskDefinition \<Rightarrow> string option \<Rightarrow> bool" where
  "task_fits B t nonce \<longleftrightarrow>
     spec_fits (spec_hash_input t nonce) \<and> strs_fit (td_cache_files t) \<and> pred_option fits (td_tool_version t) \<and>
     fits (enc_spec B (spec_hash_input t nonce)) \<and> fits (enc_seq B (enc_str B) (td_cache_files t))"

lemma version_suffix_inj:
  assumes "version_suffix v = version_suffix w" "pred_option fits v" "pred_option fits w"
  shows "v = w"
  using assms framed_append[of "the v" "[]" "the w" "[]"]
  by (auto simp: version_suffix_def split: option.splits)

context bincode_laws begin

lemma enc_spec_first: "\<exists>rest. enc_spec B s = CHR 0x00 # rest \<or> enc_spec B s = CHR 0x01 # rest"
  by (auto simp: enc_spec_def enc_opt_def tag_byte split: option.splits)

lemma spec_stream_cases:
  "spec_stream B t nonce =
     (if td_cache_files t = [] then enc_spec B (spec_hash_input t nonce)
      else ''luchta-cache:task-spec-cache-files:v1'' @
        le_bytes 8 (length (enc_spec B (spec_hash_input t nonce))) @ enc_spec B (spec_hash_input t nonce) @
        le_bytes 8 (length (enc_seq B (enc_str B) (td_cache_files t))) @ enc_seq B (enc_str B) (td_cache_files t)) @
     version_suffix (td_tool_version t)"
  by (simp add: spec_stream_def version_suffix_def Let_def)

lemma spec_stream_plain:
  assumes "spec_stream B t n = spec_stream B t' n'" "task_fits B t n" "task_fits B t' n'"
    and "td_cache_files t = []" "td_cache_files t' = []"
  shows "spec_hash_input t n = spec_hash_input t' n' \<and> td_tool_version t = td_tool_version t'"
proof -
  have "enc_spec B (spec_hash_input t n) @ version_suffix (td_tool_version t) =
      enc_spec B (spec_hash_input t' n') @ version_suffix (td_tool_version t')"
    using assms by (simp add: spec_stream_cases)
  from readableD[OF spec_readable this] show ?thesis
    using assms(2,3) by (auto simp: task_fits_def dest: version_suffix_inj)
qed

lemma spec_stream_with_files:
  assumes "spec_stream B t n = spec_stream B t' n'" "task_fits B t n" "task_fits B t' n'"
    and "td_cache_files t \<noteq> []" "td_cache_files t' \<noteq> []"
  shows "spec_hash_input t n = spec_hash_input t' n' \<and> td_cache_files t = td_cache_files t' \<and>
    td_tool_version t = td_tool_version t'"
proof -
  let ?b = "enc_spec B (spec_hash_input t n)" and ?b' = "enc_spec B (spec_hash_input t' n')"
  let ?c = "enc_seq B (enc_str B) (td_cache_files t)" and ?c' = "enc_seq B (enc_str B) (td_cache_files t')"
  have "le_bytes 8 (length ?b) @ ?b @ le_bytes 8 (length ?c) @ ?c @ version_suffix (td_tool_version t) =
      le_bytes 8 (length ?b') @ ?b' @ le_bytes 8 (length ?c') @ ?c' @ version_suffix (td_tool_version t')"
    using assms by (simp add: spec_stream_cases)
  from framed_append[OF this] have b: "?b = ?b'" and
    "le_bytes 8 (length ?c) @ ?c @ version_suffix (td_tool_version t) =
      le_bytes 8 (length ?c') @ ?c' @ version_suffix (td_tool_version t')"
    using assms(2,3) by (auto simp: task_fits_def)
  from framed_append[OF this(2)] have c: "?c = ?c'" and v: "version_suffix (td_tool_version t) = version_suffix (td_tool_version t')"
    using assms(2,3) by (auto simp: task_fits_def)
  show ?thesis
    using readableD[OF spec_readable, of _ "[]" _ "[]"] b strs_readD[of _ "[]" _ "[]"] c version_suffix_inj[OF v] assms(2,3)
    by (simp add: task_fits_def)
qed

lemma spec_stream_mixed:
  assumes "td_cache_files t = []" "td_cache_files t' \<noteq> []"
  shows "spec_stream B t n \<noteq> spec_stream B t' n'"
  using assms enc_spec_first[of "spec_hash_input t n"] by (auto simp: spec_stream_cases)

lemma spec_stream_eq_iff:
  assumes "task_fits B t n" "task_fits B t' n'"
  shows "spec_stream B t n = spec_stream B t' n' \<longleftrightarrow>
    spec_hash_input t n = spec_hash_input t' n' \<and> td_cache_files t = td_cache_files t' \<and>
    td_tool_version t = td_tool_version t'"
proof
  assume eq: "spec_stream B t n = spec_stream B t' n'"
  then have "td_cache_files t = [] \<longleftrightarrow> td_cache_files t' = []" using spec_stream_mixed by metis
  then show "spec_hash_input t n = spec_hash_input t' n' \<and> td_cache_files t = td_cache_files t' \<and>
      td_tool_version t = td_tool_version t'"
    using spec_stream_plain[OF eq assms] spec_stream_with_files[OF eq assms] by metis
qed (simp add: spec_stream_cases)

lemma env_entry_readable:
  "readable (enc_env_entry B) {e. fits (se_name e) \<and> (\<forall>s. se_value e = Present s \<longrightarrow> fits s)}"
proof (rule readableI)
  fix d e x y
  assume f: "d \<in> {e. fits (se_name e) \<and> (\<forall>s. se_value e = Present s \<longrightarrow> fits s)}"
      "e \<in> {e. fits (se_name e) \<and> (\<forall>s. se_value e = Present s \<longrightarrow> fits s)}"
    and eq: "enc_env_entry B d @ x = enc_env_entry B e @ y"
  from eq have "enc_str B (se_name d) @ enc_env_value B (se_value d) @ x = enc_str B (se_name e) @ enc_env_value B (se_value e) @ y"
    by (simp add: enc_env_entry_def)
  from readableD[OF str_readable this] f have n: "se_name d = se_name e" and
    v: "enc_env_value B (se_value d) @ x = enc_env_value B (se_value e) @ y" by auto
  have "se_value d = se_value e \<and> x = y"
  proof (cases "se_value d"; cases "se_value e")
    fix s t assume st: "se_value d = Present s" "se_value e = Present t"
    then have "bc_u32 B 0 @ enc_str B s @ x = bc_u32 B 0 @ enc_str B t @ y" using v by simp
    from readableD[OF u32_readable this] have "enc_str B s @ x = enc_str B t @ y" by simp
    from readableD[OF str_readable this] show ?thesis using f st by simp
  next
    fix s assume st: "se_value d = Present s" "se_value e = Absent"
    then have "bc_u32 B 0 @ enc_str B s @ x = bc_u32 B 1 @ y" using v by simp
    from readableD[OF u32_readable this] show ?thesis by simp
  next
    fix t assume st: "se_value d = Absent" "se_value e = Present t"
    then have "bc_u32 B 1 @ x = bc_u32 B 0 @ enc_str B t @ y" using v by simp
    from readableD[OF u32_readable this] show ?thesis by simp
  qed (use v in simp)
  with n show "d = e \<and> x = y" by simp
qed

lemma pair_readable: "readable (enc_pair B) {p. fits (fst p) \<and> fits (snd p)}"
proof (rule readableI)
  fix p q x y
  assume f: "p \<in> {p. fits (fst p) \<and> fits (snd p)}" "q \<in> {p. fits (fst p) \<and> fits (snd p)}"
    and eq: "enc_pair B p @ x = enc_pair B q @ y"
  from eq have "enc_str B (fst p) @ enc_str B (snd p) @ x = enc_str B (fst q) @ enc_str B (snd q) @ y"
    by (simp add: enc_pair_def)
  from readableD[OF str_readable this] f have "fst p = fst q" "enc_str B (snd p) @ x = enc_str B (snd q) @ y" by auto
  with readableD[OF str_readable this(2)] f show "p = q \<and> x = y" by (simp add: prod_eq_iff)
qed

end


lemma distinct_remdups_adj_sorted: "sorted xs \<Longrightarrow> distinct (remdups_adj xs)"
  by (induction xs rule: remdups_adj.induct) (auto simp: order.antisym)

lemma canonical_pairs_eq_iff: "canonical_pairs ps = canonical_pairs qs \<longleftrightarrow> set ps = set qs"
proof
  assume "set ps = set qs"
  then show "canonical_pairs ps = canonical_pairs qs"
    unfolding canonical_pairs_def
    by (intro sorted_distinct_set_unique) (simp_all add: sorted_remdups_adj distinct_remdups_adj_sorted)
next
  assume "canonical_pairs ps = canonical_pairs qs"
  from arg_cong[OF this, of set] show "set ps = set qs" by (simp add: canonical_pairs_def)
qed

lemma domains_differ:
  assumes "(d, d') \<in> {(COMBINED_INPUTS_HASH_DOMAIN, COMBINED_OUTPUTS_HASH_DOMAIN),
    (COMBINED_INPUTS_HASH_DOMAIN, COMBINED_CACHE_FILES_HASH_DOMAIN), (COMBINED_OUTPUTS_HASH_DOMAIN, COMBINED_CACHE_FILES_HASH_DOMAIN)}"
  shows "entries_stream d es \<noteq> entries_stream d' es'"
  using assms by (auto simp: entries_stream_def COMBINED_INPUTS_HASH_DOMAIN_def COMBINED_OUTPUTS_HASH_DOMAIN_def
      COMBINED_CACHE_FILES_HASH_DOMAIN_def)

section \<open>Properties\<close>

text \<open>C26: Where BLAKE3 has no collision among the streams at hand, the combined hash of inputs identifies
  the files: two resolved lists hash alike exactly when they have the same paths with the same presence
  and content hash, whatever their order; and inputs, outputs and cache files never hash alike.\<close>

theorem combined_hash_identity:
  assumes "wf_entries es" "wf_entries es'"
    and "inj_on blake3 {entries_stream d xs |d xs. xs \<in> {es, es'} \<and>
      d \<in> {COMBINED_INPUTS_HASH_DOMAIN, COMBINED_OUTPUTS_HASH_DOMAIN, COMBINED_CACHE_FILES_HASH_DOMAIN}}"
  shows "(combined_inputs_hash blake3 es = combined_inputs_hash blake3 es' \<longleftrightarrow> entry_view ` set es = entry_view ` set es') \<and>
    (combined_outputs_hash blake3 es = combined_outputs_hash blake3 es' \<longleftrightarrow> entry_view ` set es = entry_view ` set es') \<and>
    combined_inputs_hash blake3 es \<noteq> combined_outputs_hash blake3 es' \<and>
    combined_inputs_hash blake3 es \<noteq> combined_cache_files_hash blake3 es' \<and>
    combined_outputs_hash blake3 es \<noteq> combined_cache_files_hash blake3 es'"
proof -
  have inj: "combined_entries_hash blake3 d xs = combined_entries_hash blake3 d' ys \<longleftrightarrow> entries_stream d xs = entries_stream d' ys"
    if "d \<in> {COMBINED_INPUTS_HASH_DOMAIN, COMBINED_OUTPUTS_HASH_DOMAIN, COMBINED_CACHE_FILES_HASH_DOMAIN}"
      "d' \<in> {COMBINED_INPUTS_HASH_DOMAIN, COMBINED_OUTPUTS_HASH_DOMAIN, COMBINED_CACHE_FILES_HASH_DOMAIN}"
      "xs \<in> {es, es'}" "ys \<in> {es, es'}" for d d' xs ys
    unfolding combined_entries_hash_def by (rule inj_on_eq_iff[OF assms(3)]) (use that in blast)+
  show ?thesis
    unfolding combined_inputs_hash_def combined_outputs_hash_def combined_cache_files_hash_def
    by (simp add: inj domains_differ entries_stream_eq_iff[OF assms(1,2)])
qed

theorem combined_hash_identity_witness:
  "combined_inputs_hash (\<lambda>s. s) [file_entry_absent ''a''] \<noteq> combined_inputs_hash (\<lambda>s. s) [file_entry_absent ''b'']"
proof -
  have "wf_entries [file_entry_absent ''a'']" "wf_entries [file_entry_absent ''b'']"
    by (simp_all add: wf_entries_def file_entry_absent_def)
  from combined_hash_identity[OF this, of "\<lambda>s. s"] show ?thesis
    by (simp add: entry_view_def file_entry_absent_def)
qed

text \<open>C25: The hash of a task definition identifies it: where BLAKE3 does not collide on the two streams,
  two definitions hash alike exactly when they agree on command, worker, weight, dependencies as written,
  caching, declared inputs and outputs, nonce, cache files and tool version. In particular the streams with and
  without the optional parts cannot be confused.\<close>

theorem task_spec_identity:
  assumes "bincode_laws B" "task_fits B t n" "task_fits B t' n'"
    and "inj_on blake3 {spec_stream B t n, spec_stream B t' n'}"
  shows "task_spec_hash B blake3 t n = task_spec_hash B blake3 t' n' \<longleftrightarrow>
    td_command t = td_command t' \<and> td_worker t = td_worker t' \<and> td_weight t = td_weight t' \<and>
    map as_config_string (td_depends_on t) = map as_config_string (td_depends_on t') \<and>
    cache_enabled t = cache_enabled t' \<and> td_inputs t = td_inputs t' \<and> td_outputs t = td_outputs t' \<and> n = n' \<and>
    td_cache_files t = td_cache_files t' \<and> td_tool_version t = td_tool_version t'"
proof -
  have "task_spec_hash B blake3 t n = task_spec_hash B blake3 t' n' \<longleftrightarrow> spec_stream B t n = spec_stream B t' n'"
    unfolding task_spec_hash_def using assms(4) by (auto dest: inj_onD)
  also have "\<dots> \<longleftrightarrow> spec_hash_input t n = spec_hash_input t' n' \<and> td_cache_files t = td_cache_files t' \<and>
      td_tool_version t = td_tool_version t'"
    by (rule bincode_laws.spec_stream_eq_iff[OF assms(1-3)])
  finally show ?thesis by (simp add: spec_hash_input_def conj_assoc)
qed

theorem task_spec_identity_witness:
  "task_spec_hash fixed_bincode (\<lambda>s. s) (task_definition_new [] 1) None \<noteq>
   task_spec_hash fixed_bincode (\<lambda>s. s) (task_definition_new [] 2) None"
proof -
  have "task_fits fixed_bincode (task_definition_new [] w) None" for w
    by (simp add: task_fits_def spec_fits_def strs_fit_def spec_hash_input_def task_definition_new_def enc_spec_def
        enc_opt_def enc_seq_def fixed_bincode_def cache_enabled_def)
  from task_spec_identity[OF fixed.bincode_laws_axioms this this, of "\<lambda>s. s"] show ?thesis
    by (simp add: task_definition_new_def)
qed

text \<open>The hash of external packages depends on the set of name and version pairs and on nothing else, and
  the hash of the environment exactly on the significant variables, in order, with their resolved values.\<close>

lemma env_and_packages_identity:
  assumes laws: "bincode_laws B"
    and pairs: "fits ps" "fits qs" "\<forall>p \<in> set ps \<union> set qs. fits (fst p) \<and> fits (snd p)"
    and vars: "fits (significant_env env r)" "fits (significant_env env' r')"
      "\<forall>e \<in> set (significant_env env r) \<union> set (significant_env env' r'). fits (se_name e) \<and> (\<forall>s. se_value e = Present s \<longrightarrow> fits s)"
    and inj: "inj_on blake3 {enc_seq B (enc_pair B) (canonical_pairs ps), enc_seq B (enc_pair B) (canonical_pairs qs)}"
      "inj_on blake3 {enc_seq B (enc_env_entry B) (significant_env env r), enc_seq B (enc_env_entry B) (significant_env env' r')}"
  shows "(pkg_dep_hash B blake3 ps = pkg_dep_hash B blake3 qs \<longleftrightarrow> set ps = set qs) \<and>
    (env_hash B blake3 env r = env_hash B blake3 env' r' \<longleftrightarrow> significant_env env r = significant_env env' r')"
proof
  have c: "fits (canonical_pairs xs) \<and> set (canonical_pairs xs) \<subseteq> {p. fits (fst p) \<and> fits (snd p)}"
    if "fits xs" "\<forall>p \<in> set xs. fits (fst p) \<and> fits (snd p)" for xs
    using that remdups_adj_length[of "sort xs"] by (auto simp: canonical_pairs_def intro: le_less_trans)
  have "enc_seq B (enc_pair B) (canonical_pairs ps) = enc_seq B (enc_pair B) (canonical_pairs qs) \<longleftrightarrow> canonical_pairs ps = canonical_pairs qs"
    using readableD[OF bincode_laws.seq_readable[OF laws bincode_laws.pair_readable[OF laws]], of "canonical_pairs ps" "[]" "canonical_pairs qs" "[]"]
      c[of ps] c[of qs] pairs by auto
  then show "pkg_dep_hash B blake3 ps = pkg_dep_hash B blake3 qs \<longleftrightarrow> set ps = set qs"
    by (simp add: pkg_dep_hash_def inj_on_eq_iff[OF inj(1)] canonical_pairs_eq_iff)
  have "enc_seq B (enc_env_entry B) (significant_env env r) = enc_seq B (enc_env_entry B) (significant_env env' r') \<longleftrightarrow>
      significant_env env r = significant_env env' r'"
    using readableD[OF bincode_laws.seq_readable[OF laws bincode_laws.env_entry_readable[OF laws]],
        of "significant_env env r" "[]" "significant_env env' r'" "[]"] vars by auto
  then show "env_hash B blake3 env r = env_hash B blake3 env' r' \<longleftrightarrow> significant_env env r = significant_env env' r'"
    by (simp add: env_hash_def inj_on_eq_iff[OF inj(2)])
qed

lemma env_and_packages_identity_witness:
  "pkg_dep_hash fixed_bincode (\<lambda>s. s) [(''a'', ''1''), (''b'', ''2'')] = pkg_dep_hash fixed_bincode (\<lambda>s. s) [(''b'', ''2''), (''a'', ''1''), (''b'', ''2'')]"
  using env_and_packages_identity[OF fixed.bincode_laws_axioms, of "[(''a'', ''1''), (''b'', ''2'')]"
      "[(''b'', ''2''), (''a'', ''1''), (''b'', ''2'')]" "[]" "\<lambda>_. None" "[]" "\<lambda>_. None" "\<lambda>s. s"]
  by (auto simp: significant_env_def)

end
