(* ===== verification/CacheDecide.thy ===== *)
theory CacheDecide
  imports CacheHash
begin

text \<open>
  The decision whether a task runs, is skipped, or may be restored from the shared cache:
  \<open>crates/luchta-cache/src/decide.rs\<close>. The state of the files is read through a \<open>FileStateResolver\<close>, a
  trait object of the code and a record of functions here. A \<open>BTreeMap\<close> is its list of entries in
  key order.
\<close>

datatype Decision = Skip | SharedHit | Run

record DecisionResult =
  dr_action :: Decision
  dr_reason :: RunReason

definition DECIDE_FILES_DIFF_LIMIT :: nat where
  "DECIDE_FILES_DIFF_LIMIT = 50"

record FileStateResolver =
  fr_resolve_inputs :: "string list \<Rightarrow> FileEntry list \<Rightarrow> CacheError + FileEntry list"
  fr_resolve_outputs :: "string list \<Rightarrow> FileEntry list \<Rightarrow> CacheError + FileEntry list"
  fr_blake3_file :: "string \<Rightarrow> CacheError + hash32"

record CurrentState =
  cs_task_spec_hash :: hash32
  cs_env_hash :: hash32
  cs_pkg_dep_hash :: hash32
  cs_dep_outputs :: "(string, hash32) hmap"
  cs_cache_nonce :: "string option"
  cs_declared_input_patterns :: "string list"
  cs_declared_output_patterns :: "string list"
  cs_resolver :: FileStateResolver

datatype FileEntryKind = Inputs | Outputs

definition effective_input_patterns :: "TaskRunRecord \<Rightarrow> CurrentState \<Rightarrow> string list" where
  "effective_input_patterns prior current =
     (if rr_detected_input_patterns prior then rr_input_patterns prior else cs_declared_input_patterns current)"

definition effective_output_patterns :: "TaskRunRecord \<Rightarrow> CurrentState \<Rightarrow> string list" where
  "effective_output_patterns prior current =
     (if rr_detected_output_patterns prior then rr_output_patterns prior else cs_declared_output_patterns current)"

definition dependency_outputs_unchanged :: "TaskRunRecord \<Rightarrow> CurrentState \<Rightarrow> bool" where
  "dependency_outputs_unchanged prior current \<longleftrightarrow> rr_dep_outputs prior = cs_dep_outputs current"

definition changed_dep_tasks :: "TaskRunRecord \<Rightarrow> CurrentState \<Rightarrow> string list" where
  "changed_dep_tasks prior current =
     (let prior_outputs = rr_dep_outputs prior; current_outputs = cs_dep_outputs current
      in map fst (filter (\<lambda>(task, prior_hash). map_of current_outputs task \<noteq> Some prior_hash) prior_outputs) @
         filter (\<lambda>task. map_of prior_outputs task = None) (map fst current_outputs))"

definition file_identity_changed :: "FileEntry \<Rightarrow> FileEntry \<Rightarrow> bool" where
  "file_identity_changed prior current \<longleftrightarrow> fe_path prior \<noteq> fe_path current \<or> fe_absent prior \<noteq> fe_absent current"

definition file_entry_changed :: "FileEntry \<Rightarrow> FileEntry \<Rightarrow> bool" where
  "file_entry_changed prior current =
     (if file_identity_changed prior current then True
      else if fe_absent prior then False
      else fe_hash prior \<noteq> fe_hash current)"

fun path_changed :: "FileEntry option \<Rightarrow> FileEntry option \<Rightarrow> bool" where
  "path_changed (Some prior) (Some current) = file_entry_changed prior current"
| "path_changed (Some _) None = True"
| "path_changed None (Some _) = True"
| "path_changed None None = False"

definition by_path :: "FileEntry list \<Rightarrow> (string, FileEntry) hmap" where
  "by_path entries = sort_key fst (collect_map (map (\<lambda>e. (fe_path e, e)) entries))"

definition saturating_succ :: "u32 \<Rightarrow> u32" where
  "saturating_succ n = (if n = - 1 then n else n + 1)"

definition file_delta :: "string \<Rightarrow> FileEntry option \<Rightarrow> FileEntry option \<Rightarrow> FileDelta" where
  "file_delta path prior current =
     \<lparr>fd_path = path,
      fd_prior_hash = (case prior of None \<Rightarrow> zero_hash | Some e \<Rightarrow> fe_hash e),
      fd_current_hash = (case current of None \<Rightarrow> zero_hash | Some e \<Rightarrow> fe_hash e),
      fd_prior_absent = (case prior of None \<Rightarrow> True | Some e \<Rightarrow> fe_absent e),
      fd_current_absent = (case current of None \<Rightarrow> True | Some e \<Rightarrow> fe_absent e)\<rparr>"

fun diff_loop ::
  "(string, FileEntry) hmap \<Rightarrow> (string, FileEntry) hmap \<Rightarrow> nat \<Rightarrow> string list \<Rightarrow> string list \<Rightarrow>
   FileDelta list \<Rightarrow> u32 \<Rightarrow> FileDelta list \<times> u32" where
  "diff_loop pm cm limit [] seen changed n = (changed, n)"
| "diff_loop pm cm limit (path # paths) seen changed n =
     (if path \<in> set seen then diff_loop pm cm limit paths seen changed n
      else if \<not> path_changed (map_of pm path) (map_of cm path) then diff_loop pm cm limit paths (path # seen) changed n
      else diff_loop pm cm limit paths (path # seen)
             (if length changed < limit then changed @ [file_delta path (map_of pm path) (map_of cm path)] else changed)
             (saturating_succ n))"

definition files_diff :: "FileEntry list \<Rightarrow> FileEntry list \<Rightarrow> nat \<Rightarrow> FileDelta list \<times> bool \<times> u32" where
  "files_diff prior_entries current_entries limit =
     (let pm = by_path prior_entries; cm = by_path current_entries;
          (changed, n) = diff_loop pm cm limit (map fst pm @ map fst cm) [] [] 0
      in (changed, unat n > limit, n))"

definition files_changed :: "FileEntry list \<Rightarrow> FileEntry list \<Rightarrow> bool" where
  "files_changed prior_entries current_entries \<longleftrightarrow> snd (snd (files_diff prior_entries current_entries 0)) > 0"

fun reason_of_kind :: "FileEntryKind \<Rightarrow> FileDelta list \<Rightarrow> bool \<Rightarrow> u32 \<Rightarrow> RunReason" where
  "reason_of_kind Inputs changed truncated n = InputChanged changed truncated n"
| "reason_of_kind Outputs changed truncated n = OutputChanged changed truncated n"

definition resolve_kind :: "FileStateResolver \<Rightarrow> FileEntryKind \<Rightarrow> string list \<Rightarrow> FileEntry list \<Rightarrow> CacheError + FileEntry list" where
  "resolve_kind resolver kind patterns prior_entries =
     (case kind of
        Inputs \<Rightarrow> fr_resolve_inputs resolver patterns prior_entries
      | Outputs \<Rightarrow> fr_resolve_outputs resolver patterns prior_entries)"

definition change_reason :: "FileStateResolver \<Rightarrow> string list \<Rightarrow> FileEntry list \<Rightarrow> FileEntryKind \<Rightarrow> RunReason option" where
  "change_reason resolver patterns prior_entries kind =
     (case resolve_kind resolver kind patterns prior_entries of
        Inl _ \<Rightarrow> Some (reason_of_kind kind [] False 0)
      | Inr resolved_entries \<Rightarrow>
          if \<not> files_changed prior_entries resolved_entries then None
          else case files_diff prior_entries resolved_entries DECIDE_FILES_DIFF_LIMIT of
                 (changed, truncated, n) \<Rightarrow> Some (reason_of_kind kind changed truncated n))"

definition check_patterns_unchanged :: "TaskRunRecord \<Rightarrow> CurrentState \<Rightarrow> DecisionResult" where
  "check_patterns_unchanged prior current =
     (let input_patterns = effective_input_patterns prior current;
          output_patterns = effective_output_patterns prior current
      in case change_reason (cs_resolver current) output_patterns (rr_outputs prior) Outputs of
           Some reason \<Rightarrow> \<lparr>dr_action = Run, dr_reason = reason\<rparr>
         | None \<Rightarrow>
             (case change_reason (cs_resolver current) input_patterns (rr_inputs prior) Inputs of
                Some reason \<Rightarrow> \<lparr>dr_action = Run, dr_reason = reason\<rparr>
              | None \<Rightarrow> \<lparr>dr_action = Skip, dr_reason = CacheHit\<rparr>))"

definition decide :: "TaskRunRecord option \<Rightarrow> CurrentState \<Rightarrow> DecisionResult" where
  "decide prior current =
     (case prior of
        None \<Rightarrow> \<lparr>dr_action = Run, dr_reason = NoPriorRecord\<rparr>
      | Some p \<Rightarrow>
          if \<not> rr_succeeded p then \<lparr>dr_action = Run, dr_reason = PriorFailed\<rparr>
          else if rr_cache_nonce p \<noteq> cs_cache_nonce current then \<lparr>dr_action = Run, dr_reason = NonceChanged\<rparr>
          else if rr_task_spec_hash p \<noteq> cs_task_spec_hash current then \<lparr>dr_action = Run, dr_reason = TaskSpecMismatch\<rparr>
          else let changed = changed_dep_tasks p current in
          if changed \<noteq> [] then \<lparr>dr_action = Run, dr_reason = DepOutputMismatch changed\<rparr>
          else if rr_pkg_dep_hash p \<noteq> cs_pkg_dep_hash current then \<lparr>dr_action = Run, dr_reason = PkgDepMismatch\<rparr>
          else if rr_env_hash p \<noteq> cs_env_hash current then \<lparr>dr_action = Run, dr_reason = EnvMismatch\<rparr>
          else check_patterns_unchanged p current)"

definition cacheable_prior :: "TaskRunRecord \<Rightarrow> CurrentState \<Rightarrow> bool" where
  "cacheable_prior prior current \<longleftrightarrow>
     rr_succeeded prior \<and> rr_cache_nonce prior = cs_cache_nonce current \<and>
     rr_task_spec_hash prior = cs_task_spec_hash current \<and> rr_env_hash prior = cs_env_hash current \<and>
     rr_pkg_dep_hash prior = cs_pkg_dep_hash current \<and> dependency_outputs_unchanged prior current"

definition decide_shared_restore :: "(string \<Rightarrow> hash32) \<Rightarrow> TaskRunRecord \<Rightarrow> CurrentState \<Rightarrow> hash32 \<Rightarrow> bool" where
  "decide_shared_restore blake3 record current inputs_hash =
     (if \<not> cacheable_prior record current then False
      else combined_inputs_hash blake3 (rr_inputs record) = inputs_hash)"

section \<open>What the comparison of files means\<close>

text \<open>What a list of entries says of a path: nothing, that it is absent, or its content hash.\<close>

definition file_view :: "FileEntry list \<Rightarrow> string \<Rightarrow> hash32 option option" where
  "file_view es path =
     map_option (\<lambda>e. if fe_absent e then None else Some (fe_hash e)) (map_of (rev (map (\<lambda>e. (fe_path e, e)) es)) path)"

definition changed_paths :: "FileEntry list \<Rightarrow> FileEntry list \<Rightarrow> string set" where
  "changed_paths es es' = {path. file_view es path \<noteq> file_view es' path}"

lemma mset_map_of: "mset xs = mset ys \<Longrightarrow> distinct (map fst xs) \<Longrightarrow> map_of xs = map_of ys"
  by (metis distinct_map map_of_inject_set mset_eq_imp_distinct_iff mset_eq_setD mset_map)

lemma map_of_by_path: "map_of (by_path es) = map_of (rev (map (\<lambda>e. (fe_path e, e)) es))"
proof -
  have "map_of (by_path es) = map_of (collect_map (map (\<lambda>e. (fe_path e, e)) es))"
    unfolding by_path_def by (rule sym, rule mset_map_of) simp_all
  then show ?thesis by (simp add: hmap_simps)
qed

lemma by_path_key: "map_of (by_path es) p = Some e \<Longrightarrow> fe_path e = p"
  unfolding map_of_by_path by (auto dest!: map_of_SomeD)

lemma file_view_by_path:
  "file_view es p = map_option (\<lambda>e. if fe_absent e then None else Some (fe_hash e)) (map_of (by_path es) p)"
  by (simp add: file_view_def map_of_by_path)

lemma path_changed_iff:
  "path_changed (map_of (by_path es) p) (map_of (by_path es') p) \<longleftrightarrow> p \<in> changed_paths es es'"
  unfolding changed_paths_def mem_Collect_eq file_view_by_path
  by (cases "map_of (by_path es) p"; cases "map_of (by_path es') p")
     (auto simp: file_entry_changed_def file_identity_changed_def dest!: by_path_key)

lemma changed_paths_keys: "changed_paths es es' \<subseteq> set (map fst (by_path es) @ map fst (by_path es'))"
proof
  fix p assume "p \<in> changed_paths es es'"
  then have "path_changed (map_of (by_path es) p) (map_of (by_path es') p)" by (simp add: path_changed_iff)
  then show "p \<in> set (map fst (by_path es) @ map fst (by_path es'))"
    by (cases "map_of (by_path es) p"; cases "map_of (by_path es') p") (force dest: map_of_SomeD)+
qed

definition sat32 :: "nat \<Rightarrow> u32" where
  "sat32 n = word_of_nat (min n (2 ^ 32 - 1))"

lemma unat_sat32: "unat (sat32 n) = min n (2 ^ 32 - 1)"
  by (simp add: sat32_def unat_of_nat)

lemma saturating_succ_sat32: "saturating_succ (sat32 n) = sat32 (Suc n)"
proof (cases "n < 2 ^ 32 - 1")
  case True
  have "unat (- 1 :: u32) = 2 ^ 32 - 1" by (simp add: unsigned_minus_1_eq_mask mask_eq_exp_minus_1)
  then have "sat32 n \<noteq> - 1" using True unat_sat32[of n] by auto
  then show ?thesis using True by (simp add: saturating_succ_def sat32_def min_def)
next
  case False
  then have "sat32 n = - 1" "sat32 (Suc n) = - 1" by (simp_all add: sat32_def min_def)
  then show ?thesis by (simp add: saturating_succ_def)
qed

fun fresh :: "'a list \<Rightarrow> 'a list \<Rightarrow> 'a list" where
  "fresh seen [] = []"
| "fresh seen (x # xs) = (if x \<in> set seen then fresh seen xs else x # fresh (x # seen) xs)"

lemma set_fresh: "set (fresh seen xs) = set xs - set seen"
  by (induction seen xs rule: fresh.induct) auto

lemma distinct_fresh: "distinct (fresh seen xs)"
  by (induction seen xs rule: fresh.induct) (auto simp: set_fresh)

lemma diff_loop_result:
  "diff_loop pm cm limit paths seen (take limit ds) (sat32 (length ds)) =
     (let new = map (\<lambda>p. file_delta p (map_of pm p) (map_of cm p))
                  (filter (\<lambda>p. path_changed (map_of pm p) (map_of cm p)) (fresh seen paths))
      in (take limit (ds @ new), sat32 (length ds + length new)))"
proof (induction paths arbitrary: seen ds)
  case (Cons p ps)
  let ?d = "file_delta p (map_of pm p) (map_of cm p)"
  have "(if length (take limit ds) < limit then take limit ds @ [?d] else take limit ds) = take limit (ds @ [?d])"
    by (simp add: min_def)
  then show ?case
    using Cons[of "p # seen" ds] Cons[of seen ds] Cons[of "p # seen" "ds @ [?d]"] by (simp add: saturating_succ_sat32 Let_def)
qed simp

definition change_list :: "FileEntry list \<Rightarrow> FileEntry list \<Rightarrow> string list" where
  "change_list es es' = filter (\<lambda>p. p \<in> changed_paths es es') (fresh [] (map fst (by_path es) @ map fst (by_path es')))"

lemma set_change_list: "set (change_list es es') = changed_paths es es'" "distinct (change_list es es')"
  using changed_paths_keys[of es es'] by (auto simp: change_list_def set_fresh distinct_fresh)

lemma length_change_list: "length (change_list es es') = card (changed_paths es es')"
  using set_change_list[of es es'] by (metis distinct_card)

lemma files_diff_list:
  "files_diff es es' limit =
     (let n = sat32 (card (changed_paths es es'))
      in (take limit (map (\<lambda>p. file_delta p (map_of (by_path es) p) (map_of (by_path es') p)) (change_list es es')),
          unat n > limit, n))"
proof -
  have "sat32 0 = 0" by (simp add: sat32_def)
  with diff_loop_result[of "by_path es" "by_path es'" limit "map fst (by_path es) @ map fst (by_path es')" "[]" "[]"]
  show ?thesis by (simp add: files_diff_def path_changed_iff Let_def flip: change_list_def length_change_list)
qed

lemma finite_changed_paths: "finite (changed_paths es es')"
  by (metis List.finite_set set_change_list(1))

lemma files_changed_iff: "files_changed es es' \<longleftrightarrow> changed_paths es es' \<noteq> {}"
proof -
  have "files_changed es es' \<longleftrightarrow> 0 < unat (sat32 (card (changed_paths es es')))"
    by (simp add: files_changed_def files_diff_list Let_def unat_gt_0 word_neq_0_conv)
  then show ?thesis by (simp add: unat_sat32 card_gt_0_iff finite_changed_paths)
qed

lemma no_changed_dep_tasks:
  assumes "sorted (map fst (rr_dep_outputs p))" "distinct (map fst (rr_dep_outputs p))"
    "sorted (map fst (cs_dep_outputs c))" "distinct (map fst (cs_dep_outputs c))"
  shows "changed_dep_tasks p c = [] \<longleftrightarrow> rr_dep_outputs p = cs_dep_outputs c"
proof
  assume none: "changed_dep_tasks p c = []"
  have "map_of (rr_dep_outputs p) t = map_of (cs_dep_outputs c) t" for t
  proof (cases "map_of (rr_dep_outputs p) t")
    case None
    have "t \<notin> fst ` set (cs_dep_outputs c)" using none None by (auto simp: changed_dep_tasks_def Let_def filter_empty_conv)
    then show ?thesis using None by (metis map_of_eq_None_iff)
  next
    case (Some h)
    then have "(t, h) \<in> set (rr_dep_outputs p)" by (rule map_of_SomeD)
    then show ?thesis using none Some by (auto simp: changed_dep_tasks_def Let_def filter_empty_conv)
  qed
  then have "map_of (rr_dep_outputs p) = map_of (cs_dep_outputs c)" by blast
  then have "set (rr_dep_outputs p) = set (cs_dep_outputs c)" using assms by (metis map_of_inject_set)
  then show "rr_dep_outputs p = cs_dep_outputs c" using assms sort_key_distinct_unique[of "rr_dep_outputs p" "cs_dep_outputs c" fst]
    by (metis distinct_map set_eq_iff_mset_eq_distinct sort_key_id_if_sorted)
next
  assume "rr_dep_outputs p = cs_dep_outputs c"
  then show "changed_dep_tasks p c = []"
    using assms by (auto simp: changed_dep_tasks_def Let_def filter_empty_conv map_of_eq_None_iff)
qed

lemma file_view_entries:
  assumes "distinct (map fe_path es)"
  shows "file_view es p = Some v \<longleftrightarrow> (\<exists>e \<in> set es. fe_path e = p \<and> v = (if fe_absent e then None else Some (fe_hash e)))"
proof -
  have "distinct (map fst (rev (map (\<lambda>e. (fe_path e, e)) es)))" using assms by (simp add: rev_map comp_def flip: rev_map)
  then have "map_of (rev (map (\<lambda>e. (fe_path e, e)) es)) p = Some e \<longleftrightarrow> e \<in> set es \<and> fe_path e = p" for e
    by (auto simp: map_of_eq_Some_iff)
  then show ?thesis unfolding file_view_def by auto
qed

lemma entry_view_file_view:
  assumes "wf_entries es"
  shows "(p, a, h) \<in> entry_view ` set es \<longleftrightarrow>
    file_view es p = Some (if a then None else Some h) \<and> (a \<longrightarrow> h = zero_hash)"
proof -
  have d: "distinct (map fe_path es)" and z: "\<And>e. e \<in> set es \<Longrightarrow> fe_absent e \<Longrightarrow> fe_hash e = zero_hash"
    using assms by (auto simp: wf_entries_def)
  show ?thesis unfolding file_view_entries[OF d] image_iff entry_view_def using z by (auto split: if_splits)
qed

lemma same_views_iff:
  assumes "wf_entries es" "wf_entries es'"
  shows "entry_view ` set es = entry_view ` set es' \<longleftrightarrow> changed_paths es es' = {}"
proof
  assume "changed_paths es es' = {}"
  then have "file_view es p = file_view es' p" for p by (auto simp: changed_paths_def)
  then show "entry_view ` set es = entry_view ` set es'"
    by (intro set_eqI) (simp add: entry_view_file_view[OF assms(1)] entry_view_file_view[OF assms(2)] split_paired_all)
next
  assume eq: "entry_view ` set es = entry_view ` set es'"
  have half: "file_view ys p = Some v"
    if "entry_view ` set xs = entry_view ` set ys" "wf_entries xs" "wf_entries ys" "file_view xs p = Some v" for xs ys p v
  proof -
    have "(p, v = None, case v of None \<Rightarrow> zero_hash | Some h \<Rightarrow> h) \<in> entry_view ` set xs"
      using that(2,4) by (auto simp: entry_view_file_view split: option.splits)
    then show ?thesis using that(1,3) by (auto simp: entry_view_file_view split: option.splits)
  qed
  have "file_view es p = file_view es' p" for p
  proof (cases "file_view es p")
    case None
    then show ?thesis using half[OF eq[symmetric] assms(2,1), of p] by (cases "file_view es' p") auto
  next
    case (Some v)
    then show ?thesis using half[OF eq assms, of p v] by simp
  qed
  then show "changed_paths es es' = {}" by (simp add: changed_paths_def)
qed

text \<open>The files are as the record says.\<close>

definition files_match :: "FileStateResolver \<Rightarrow> FileEntryKind \<Rightarrow> string list \<Rightarrow> FileEntry list \<Rightarrow> bool" where
  "files_match resolver kind patterns prior \<longleftrightarrow>
     (\<exists>es. resolve_kind resolver kind patterns prior = Inr es \<and> changed_paths prior es = {})"

lemma change_reason_None: "change_reason resolver patterns prior kind = None \<longleftrightarrow> files_match resolver kind patterns prior"
  by (auto simp: change_reason_def files_match_def files_changed_iff split: sum.splits prod.splits)

text \<open>What a reported change of files says.\<close>

definition change_report :: "FileStateResolver \<Rightarrow> FileEntryKind \<Rightarrow> string list \<Rightarrow> FileEntry list \<Rightarrow> FileDelta list \<Rightarrow> bool \<Rightarrow> u32 \<Rightarrow> bool" where
  "change_report resolver kind patterns prior changed truncated n \<longleftrightarrow>
     (case resolve_kind resolver kind patterns prior of
        Inl _ \<Rightarrow> changed = [] \<and> \<not> truncated \<and> n = 0
      | Inr es \<Rightarrow>
          changed_paths prior es \<noteq> {} \<and> unat n = min (card (changed_paths prior es)) (2 ^ 32 - 1) \<and>
          (truncated \<longleftrightarrow> 50 < card (changed_paths prior es)) \<and>
          length changed = min 50 (card (changed_paths prior es)) \<and>
          distinct (map fd_path changed) \<and> fd_path ` set changed \<subseteq> changed_paths prior es)"

lemma change_list_deltas:
  "map fd_path (map (\<lambda>p. file_delta p (f p) (g p)) ps) = ps"
  by (simp add: file_delta_def comp_def)

lemma change_reason_Some:
  assumes "change_reason resolver patterns prior kind = Some reason"
  shows "\<exists>changed truncated n. reason = reason_of_kind kind changed truncated n \<and>
    change_report resolver kind patterns prior changed truncated n"
proof (cases "resolve_kind resolver kind patterns prior")
  case (Inl e)
  then show ?thesis using assms by (auto simp: change_reason_def change_report_def)
next
  case (Inr es)
  let ?ds = "map (\<lambda>p. file_delta p (map_of (by_path prior) p) (map_of (by_path es) p)) (change_list prior es)"
  have p: "map fd_path (take 50 ?ds) = take 50 (change_list prior es)"
    by (simp only: take_map[symmetric] change_list_deltas)
  have "distinct (map fd_path (take 50 ?ds))" "fd_path ` set (take 50 ?ds) \<subseteq> changed_paths prior es"
    using set_change_list[of prior es] p set_take_subset[of 50 "change_list prior es"]
    by (simp_all del: set_map add: set_map[symmetric])
  moreover have some: "changed_paths prior es \<noteq> {}" using assms Inr by (auto simp: change_reason_def files_changed_iff split: if_splits)
  moreover have "50 < unat (sat32 (card (changed_paths prior es))) \<longleftrightarrow> 50 < card (changed_paths prior es)"
    by (simp add: unat_sat32 min_def)
  ultimately have "change_report resolver kind patterns prior (take 50 ?ds) (50 < unat (sat32 (card (changed_paths prior es))))
      (sat32 (card (changed_paths prior es)))"
    unfolding change_report_def Inr sum.case unat_sat32 length_take length_map length_change_list
    by (simp del: take_map)
  moreover have "reason = reason_of_kind kind (take 50 ?ds) (50 < unat (sat32 (card (changed_paths prior es))))
      (sat32 (card (changed_paths prior es)))"
    using assms Inr some by (simp add: change_reason_def files_changed_iff files_diff_list Let_def DECIDE_FILES_DIFF_LIMIT_def)
  ultimately show ?thesis by blast
qed

definition sorted_map :: "(string, 'a) hmap \<Rightarrow> bool" where
  "sorted_map m \<longleftrightarrow> sorted (map fst m) \<and> distinct (map fst m)"

lemma cacheable_prior_iff:
  assumes "sorted_map (rr_dep_outputs p)" "sorted_map (cs_dep_outputs c)"
  shows "cacheable_prior p c \<longleftrightarrow> rr_succeeded p \<and> rr_cache_nonce p = cs_cache_nonce c \<and>
     rr_task_spec_hash p = cs_task_spec_hash c \<and> changed_dep_tasks p c = [] \<and>
     rr_pkg_dep_hash p = cs_pkg_dep_hash c \<and> rr_env_hash p = cs_env_hash c"
  using no_changed_dep_tasks[of p c] assms
  by (auto simp: cacheable_prior_def dependency_outputs_unchanged_def sorted_map_def)

lemma decide_cases:
  assumes "sorted_map (rr_dep_outputs p)" "sorted_map (cs_dep_outputs c)"
  shows "if cacheable_prior p c then decide (Some p) c = check_patterns_unchanged p c
    else dr_action (decide (Some p) c) = Run \<and> (\<forall>k ch t n. dr_reason (decide (Some p) c) \<noteq> reason_of_kind k ch t n)"
proof -
  have "a \<noteq> reason_of_kind k ch t n" if "a \<in> {PriorFailed, NonceChanged, TaskSpecMismatch, PkgDepMismatch, EnvMismatch} \<union> range DepOutputMismatch"
    for a k ch t n using that by (cases k) auto
  then show ?thesis unfolding cacheable_prior_iff[OF assms] by (simp add: decide_def Let_def)
qed

lemma in_changed_dep_tasks:
  "t \<in> set (changed_dep_tasks p c) \<longleftrightarrow>
     (\<exists>h. (t, h) \<in> set (rr_dep_outputs p) \<and> map_of (cs_dep_outputs c) t \<noteq> Some h) \<or>
     map_of (rr_dep_outputs p) t = None \<and> map_of (cs_dep_outputs c) t \<noteq> None"
proof -
  have "t \<in> fst ` set (filter (\<lambda>(task, h). map_of (cs_dep_outputs c) task \<noteq> Some h) (rr_dep_outputs p)) \<longleftrightarrow>
      (\<exists>h. (t, h) \<in> set (rr_dep_outputs p) \<and> map_of (cs_dep_outputs c) t \<noteq> Some h)" by force
  moreover have "t \<in> fst ` set (cs_dep_outputs c) \<longleftrightarrow> map_of (cs_dep_outputs c) t \<noteq> None" by (metis map_of_eq_None_iff)
  ultimately show ?thesis unfolding changed_dep_tasks_def Let_def set_append set_map set_filter[of _ "map fst _"] by blast
qed

lemma changed_tasks_set:
  assumes "sorted_map (rr_dep_outputs p)" "sorted_map (cs_dep_outputs c)"
  shows "set (changed_dep_tasks p c) = {t. map_of (rr_dep_outputs p) t \<noteq> map_of (cs_dep_outputs c) t}"
proof -
  have "distinct (map fst (rr_dep_outputs p))" using assms by (simp add: sorted_map_def)
  then have "(t, h) \<in> set (rr_dep_outputs p) \<longleftrightarrow> map_of (rr_dep_outputs p) t = Some h" for t h
    by (rule map_of_eq_Some_iff[symmetric])
  then show ?thesis unfolding set_eq_iff in_changed_dep_tasks mem_Collect_eq by (metis option.exhaust)
qed

lemma decide_dep_mismatch:
  assumes "dr_reason (decide (Some p) c) = DepOutputMismatch tasks"
  shows "tasks = changed_dep_tasks p c \<and> tasks \<noteq> [] \<and> rr_succeeded p \<and> rr_cache_nonce p = cs_cache_nonce c \<and>
    rr_task_spec_hash p = cs_task_spec_hash c"
proof -
  have "reason_of_kind k ch t n \<noteq> DepOutputMismatch tasks" for k ch t n by (cases k) auto
  then have "dr_reason (check_patterns_unchanged p c) \<noteq> DepOutputMismatch tasks"
    by (auto simp: check_patterns_unchanged_def Let_def split: option.splits dest!: change_reason_Some)
  then show ?thesis using assms by (auto simp: decide_def Let_def split: if_splits)
qed

lemma decide_file_reasons:
  assumes s: "sorted_map (rr_dep_outputs p)" "sorted_map (cs_dep_outputs c)"
  shows "dr_reason (decide (Some p) c) = InputChanged ch t n \<Longrightarrow>
      cacheable_prior p c \<and> files_match (cs_resolver c) Outputs (effective_output_patterns p c) (rr_outputs p) \<and>
      change_report (cs_resolver c) Inputs (effective_input_patterns p c) (rr_inputs p) ch t n"
    and "dr_reason (decide (Some p) c) = OutputChanged ch t n \<Longrightarrow>
      cacheable_prior p c \<and> change_report (cs_resolver c) Outputs (effective_output_patterns p c) (rr_outputs p) ch t n"
    and "cacheable_prior p c \<Longrightarrow> files_match (cs_resolver c) Outputs (effective_output_patterns p c) (rr_outputs p) \<Longrightarrow>
      \<not> files_match (cs_resolver c) Inputs (effective_input_patterns p c) (rr_inputs p) \<Longrightarrow>
      \<exists>ch t n. dr_reason (decide (Some p) c) = InputChanged ch t n"
proof -
  note d = decide_cases[OF s]
  let ?o = "change_reason (cs_resolver c) (effective_output_patterns p c) (rr_outputs p) Outputs"
  let ?i = "change_reason (cs_resolver c) (effective_input_patterns p c) (rr_inputs p) Inputs"
  have file_reason: "cacheable_prior p c \<and> decide (Some p) c = check_patterns_unchanged p c"
    if "dr_reason (decide (Some p) c) = reason_of_kind k ch t n" for k
    using d that by (auto split: if_splits)
  { assume r: "dr_reason (decide (Some p) c) = InputChanged ch t n"
    then have f: "cacheable_prior p c" "dr_reason (check_patterns_unchanged p c) = InputChanged ch t n"
      using file_reason[of Inputs] by auto
    then have o: "?o = None"
      by (auto simp: check_patterns_unchanged_def Let_def split: option.splits dest!: change_reason_Some)
    then have "?i = Some (InputChanged ch t n)"
      using f(2) by (auto simp: check_patterns_unchanged_def Let_def split: option.splits)
    from change_reason_Some[OF this] f(1) o show "cacheable_prior p c \<and>
      files_match (cs_resolver c) Outputs (effective_output_patterns p c) (rr_outputs p) \<and>
      change_report (cs_resolver c) Inputs (effective_input_patterns p c) (rr_inputs p) ch t n"
      by (simp add: change_reason_None) }
  { assume r: "dr_reason (decide (Some p) c) = OutputChanged ch t n"
    then have f: "cacheable_prior p c" "dr_reason (check_patterns_unchanged p c) = OutputChanged ch t n"
      using file_reason[of Outputs] by auto
    then have "?o = Some (OutputChanged ch t n)"
      by (auto simp: check_patterns_unchanged_def Let_def split: option.splits dest!: change_reason_Some)
    from change_reason_Some[OF this] f(1) show "cacheable_prior p c \<and>
      change_report (cs_resolver c) Outputs (effective_output_patterns p c) (rr_outputs p) ch t n" by simp }
  { assume a: "cacheable_prior p c" "files_match (cs_resolver c) Outputs (effective_output_patterns p c) (rr_outputs p)"
      "\<not> files_match (cs_resolver c) Inputs (effective_input_patterns p c) (rr_inputs p)"
    then obtain reason where "?o = None" "?i = Some reason" by (auto simp flip: change_reason_None)
    with change_reason_Some[OF this(2)] a(1) d show "\<exists>ch t n. dr_reason (decide (Some p) c) = InputChanged ch t n"
      by (auto simp: check_patterns_unchanged_def Let_def) }
qed

section \<open>Properties\<close>

text \<open>C5: A task is skipped exactly when its recorded run succeeded, nonce, task definition, dependency
  outputs, packages and environment are unchanged, and its outputs and inputs resolve to the recorded
  files: the same paths, present or absent as recorded, with the recorded content. Otherwise it runs.\<close>

theorem decide_skips_exactly:
  assumes "\<forall>p. prior = Some p \<longrightarrow> sorted_map (rr_dep_outputs p)" "sorted_map (cs_dep_outputs c)"
  shows "dr_action (decide prior c) =
    (if \<exists>p. prior = Some p \<and> cacheable_prior p c \<and>
          files_match (cs_resolver c) Outputs (effective_output_patterns p c) (rr_outputs p) \<and>
          files_match (cs_resolver c) Inputs (effective_input_patterns p c) (rr_inputs p)
     then Skip else Run)"
proof (cases prior)
  case None
  then show ?thesis by (simp add: decide_def)
next
  case (Some p)
  with assms have "sorted_map (rr_dep_outputs p)" by simp
  note d = decide_cases[OF this assms(2)]
  show ?thesis
  proof (cases "cacheable_prior p c")
    case True
    then show ?thesis using d Some
      by (auto simp: check_patterns_unchanged_def Let_def change_reason_None split: option.splits)
         (simp_all flip: change_reason_None)
  next
    case False
    then show ?thesis using d Some by simp
  qed
qed


definition example_record :: TaskRunRecord where
  "example_record =
     \<lparr>rr_schema_version = 5, rr_task_spec_hash = zero_hash, rr_input_patterns = [], rr_inputs = [file_entry_absent ''a''],
      rr_output_patterns = [], rr_outputs = [], rr_detected_input_patterns = False,
      rr_detected_output_patterns = False, rr_outputs_hash = zero_hash, rr_env_hash = zero_hash,
      rr_pkg_dep_hash = zero_hash, rr_dep_outputs = [(''x#build'', zero_hash)], rr_exit_status = 0, rr_succeeded = True,
      rr_start_unix_ms = 0, rr_end_unix_ms = 0, rr_reports = [], rr_cache_nonce = None, rr_run_reason = None\<rparr>"

text \<open>A state in which nothing changed but the inputs, which are now \<open>es\<close>.\<close>

definition example_current :: "FileEntry list \<Rightarrow> CurrentState" where
  "example_current es =
     \<lparr>cs_task_spec_hash = zero_hash, cs_env_hash = zero_hash, cs_pkg_dep_hash = zero_hash,
      cs_dep_outputs = [(''x#build'', zero_hash)], cs_cache_nonce = None,
      cs_declared_input_patterns = [''a''], cs_declared_output_patterns = [],
      cs_resolver = \<lparr>fr_resolve_inputs = (\<lambda>_ _. Inr es), fr_resolve_outputs = (\<lambda>_ _. Inr []),
        fr_blake3_file = (\<lambda>_. Inr zero_hash)\<rparr>\<rparr>"

lemma example_sorted_maps: "sorted_map (rr_dep_outputs example_record)" "sorted_map (cs_dep_outputs (example_current es))"
  by (simp_all add: sorted_map_def example_record_def example_current_def)

lemma example_cacheable: "cacheable_prior example_record (example_current es)"
  by (simp add: cacheable_prior_def dependency_outputs_unchanged_def example_record_def example_current_def)

theorem decide_skips_exactly_witness:
  "dr_action (decide (Some example_record) (example_current [file_entry_absent ''a''])) = Skip"
proof -
  have "files_match (cs_resolver (example_current [file_entry_absent ''a''])) k ps (if k = Inputs then [file_entry_absent ''a''] else [])" for k ps
    by (cases k) (simp_all add: files_match_def resolve_kind_def example_current_def changed_paths_def)
  from this[of Inputs] this[of Outputs] show ?thesis
    using decide_skips_exactly[of "Some example_record" "example_current [file_entry_absent ''a'']"]
      example_sorted_maps example_cacheable by (simp add: example_record_def)
qed

text \<open>The reason given for a run is true. A dependency mismatch names exactly the tasks whose
  outputs differ, and comes only after nonce and definition agreed. A change of inputs is reported only when
  everything else including the outputs matches, with the number of changed paths and up to fifty of
  them; an unreadable state counts as a change without paths. The same holds for outputs.\<close>

lemma decide_explains:
  assumes "sorted_map (rr_dep_outputs p)" "sorted_map (cs_dep_outputs c)"
  shows "(\<forall>tasks. dr_reason (decide (Some p) c) = DepOutputMismatch tasks \<longrightarrow>
       tasks \<noteq> [] \<and> set tasks = {t. map_of (rr_dep_outputs p) t \<noteq> map_of (cs_dep_outputs c) t} \<and>
       rr_succeeded p \<and> rr_cache_nonce p = cs_cache_nonce c \<and> rr_task_spec_hash p = cs_task_spec_hash c) \<and>
    (\<forall>changed truncated n. dr_reason (decide (Some p) c) = InputChanged changed truncated n \<longrightarrow>
       cacheable_prior p c \<and> files_match (cs_resolver c) Outputs (effective_output_patterns p c) (rr_outputs p) \<and>
       change_report (cs_resolver c) Inputs (effective_input_patterns p c) (rr_inputs p) changed truncated n) \<and>
    (\<forall>changed truncated n. dr_reason (decide (Some p) c) = OutputChanged changed truncated n \<longrightarrow>
       cacheable_prior p c \<and>
       change_report (cs_resolver c) Outputs (effective_output_patterns p c) (rr_outputs p) changed truncated n)"
proof (intro conjI allI impI, goal_cases)
  case (1 tasks)
  then show ?case using changed_tasks_set[OF assms] decide_dep_mismatch by blast
next
  case (2 tasks)
  then show ?case using changed_tasks_set[OF assms] decide_dep_mismatch by blast
qed (use decide_file_reasons[OF assms] decide_dep_mismatch in blast)+

lemma decide_explains_witness:
  "\<exists>changed truncated n. dr_reason (decide (Some example_record) (example_current [])) = InputChanged changed truncated n \<and>
     change_report (cs_resolver (example_current [])) Inputs [''a''] [file_entry_absent ''a''] changed truncated n"
proof -
  have "file_view [file_entry_absent ''a''] ''a'' \<noteq> file_view [] ''a''"
    by (simp add: file_view_def file_entry_absent_def)
  then have "changed_paths [file_entry_absent ''a''] [] \<noteq> {}" by (auto simp: changed_paths_def)
  then have "\<not> files_match (cs_resolver (example_current [])) Inputs [''a''] [file_entry_absent ''a'']"
    by (simp add: files_match_def resolve_kind_def example_current_def)
  moreover have "files_match (cs_resolver (example_current [])) Outputs [] []"
    by (simp add: files_match_def resolve_kind_def example_current_def changed_paths_def)
  moreover have "effective_input_patterns example_record (example_current []) = [''a'']"
      "effective_output_patterns example_record (example_current []) = []"
      "rr_inputs example_record = [file_entry_absent ''a'']" "rr_outputs example_record = []"
    by (simp_all add: effective_input_patterns_def effective_output_patterns_def example_record_def example_current_def)
  ultimately obtain changed truncated n where
    "dr_reason (decide (Some example_record) (example_current [])) = InputChanged changed truncated n"
    using decide_file_reasons(3)[OF example_sorted_maps example_cacheable] by metis
  then show ?thesis
    using decide_explains[OF example_sorted_maps, of "[]"] \<open>effective_input_patterns _ _ = _\<close> \<open>rr_inputs _ = _\<close> by metis
qed

text \<open>A record of the shared cache is restored exactly when all facts but the files match and its
  inputs are those in the tree, provided BLAKE3 does not collide on the two input streams. Hence a record
  that would be skipped locally can also be restored.\<close>

lemma shared_restore_exactly:
  assumes "wf_entries (rr_inputs r)" "wf_entries es"
    and "inj_on blake3 {entries_stream COMBINED_INPUTS_HASH_DOMAIN (rr_inputs r), entries_stream COMBINED_INPUTS_HASH_DOMAIN es}"
  shows "decide_shared_restore blake3 r c (combined_inputs_hash blake3 es) \<longleftrightarrow>
    cacheable_prior r c \<and> changed_paths (rr_inputs r) es = {}"
proof -
  have "combined_inputs_hash blake3 (rr_inputs r) = combined_inputs_hash blake3 es \<longleftrightarrow> changed_paths (rr_inputs r) es = {}"
    unfolding combined_inputs_hash_def combined_entries_hash_def same_views_iff[OF assms(1,2), symmetric]
    using inj_on_eq_iff[OF assms(3)] entries_stream_eq_iff[OF assms(1,2)] by auto
  then show ?thesis by (simp add: decide_shared_restore_def)
qed

lemma shared_restore_exactly_witness:
  "decide_shared_restore (\<lambda>s. s) example_record (example_current []) (combined_inputs_hash (\<lambda>s. s) [file_entry_absent ''a''])"
proof -
  have "rr_inputs example_record = [file_entry_absent ''a'']" "wf_entries [file_entry_absent ''a'']"
    by (simp_all add: example_record_def wf_entries_def file_entry_absent_def)
  then show ?thesis
    using shared_restore_exactly[of example_record "[file_entry_absent ''a'']" "\<lambda>s. s" "example_current []"] example_cacheable
    by (simp add: changed_paths_def)
qed

end
