(* ===== verification/Messages.thy ===== *)
theory Messages
  imports Protocol
begin

text \<open>
  The execution half of the worker protocol, \<open>crates/luchta-worker/src/lib.rs\<close>, and the progress
  counters of \<open>crates/luchta-worker/src/progress.rs\<close>. A progress tracker is shared by the threads
  of a worker; the relation \<open>item_step\<close> interleaves their starts and completions in any order.
\<close>

type_synonym i32 = "32 word"

record TaskProgress =
  tp_completed :: u64
  tp_skipped :: u64
  tp_running :: u64
  tp_pending :: u64

definition progress_is_empty :: "TaskProgress \<Rightarrow> bool" where
  "progress_is_empty p \<longleftrightarrow> tp_completed p = 0 \<and> tp_skipped p = 0 \<and> tp_running p = 0 \<and> tp_pending p = 0"

datatype LogStream = Stdout | Stderr

record CapturedLogLine =
  cl_stream :: LogStream
  cl_line :: string

record WorkerRequest =
  wr_id :: string
  wr_command :: string
  wr_cwd :: "string option"
  wr_inputs :: "string list option"
  wr_outputs :: "string list option"
  wr_workspace :: "string option"
  wr_env :: "(string, string) hmap"
  wr_progress :: bool

definition worker_request_new :: "string \<Rightarrow> string \<Rightarrow> WorkerRequest" where
  "worker_request_new request_id command =
     \<lparr>wr_id = request_id, wr_command = command, wr_cwd = None, wr_inputs = None, wr_outputs = None,
      wr_workspace = None, wr_env = [], wr_progress = False\<rparr>"

datatype WorkerResponse =
    Log string LogStream string
  | Report string string string string
  | Progress string TaskProgress
  | Done string i32 "string list option"
  | Resolved string ResolveResult

record WorkerDonePayload =
  dp_exit_code :: i32
  dp_detected_outputs :: "string list option"
  dp_logs :: "CapturedLogLine list"

fun response_id :: "WorkerResponse \<Rightarrow> string" where
  "response_id (Log i _ _) = i"
| "response_id (Report i _ _ _) = i"
| "response_id (Progress i _) = i"
| "response_id (Done i _ _) = i"
| "response_id (Resolved i _) = i"

fun response_kind :: "WorkerResponse \<Rightarrow> string" where
  "response_kind (Log _ _ _) = ''log''"
| "response_kind (Report _ _ _ _) = ''report''"
| "response_kind (Progress _ _) = ''progress''"
| "response_kind (Done _ _ _) = ''done''"
| "response_kind (Resolved _ _) = ''resolved''"

fun into_exit_code :: "WorkerResponse \<Rightarrow> i32 option" where
  "into_exit_code (Done _ exit_code _) = Some exit_code"
| "into_exit_code _ = None"

fun into_done :: "WorkerResponse \<Rightarrow> WorkerDonePayload option" where
  "into_done (Done _ exit_code outputs) =
     Some \<lparr>dp_exit_code = exit_code, dp_detected_outputs = outputs, dp_logs = []\<rparr>"
| "into_done _ = None"

fun into_resolve_result :: "WorkerResponse \<Rightarrow> ResolveResult option" where
  "into_resolve_result (Resolved _ result) = Some result"
| "into_resolve_result _ = None"

datatype WorkerMessage = RunMessage WorkerRequest | ResolveMessage ResolveTask

fun message_id :: "WorkerMessage \<Rightarrow> string" where
  "message_id (RunMessage request) = wr_id request"
| "message_id (ResolveMessage resolve) = rt_id resolve"

fun str_contains :: "string \<Rightarrow> string \<Rightarrow> bool" where
  "str_contains pat [] = (pat = [])"
| "str_contains pat (c # cs) = (strip_prefix pat (c # cs) \<noteq> None \<or> str_contains pat cs)"

definition is_valid_report_filename :: "string \<Rightarrow> bool" where
  "is_valid_report_filename name =
     (if name = [] \<or> name = ''.'' \<or> name = ''..'' \<or> str_contains ''..'' name then False
      else if CHR ''/'' \<in> set name \<or> CHR 0x5C \<in> set name then False
      else if path_is_absolute name then False
      else if strip_prefix [CHR 0x5C] name \<noteq> None then False
      else name \<notin> {''stdout.log'', ''stderr.log'', ''meta.bincode''})"

section \<open>Progress of items\<close>

definition item_progress_new :: "nat \<Rightarrow> TaskProgress" where
  "item_progress_new n_items =
     \<lparr>tp_completed = 0, tp_skipped = 0, tp_running = 0,
      tp_pending = (if n_items < 2 ^ 64 then word_of_nat n_items else - 1)\<rparr>"

record ItemProgressGuard =
  ig_active :: bool
  ig_skipped :: bool

definition start_item :: "TaskProgress \<Rightarrow> TaskProgress \<times> ItemProgressGuard" where
  "start_item p =
     (let had_pending = tp_pending p > 0 in
      (if had_pending then p\<lparr>tp_pending := tp_pending p - 1, tp_running := tp_running p + 1\<rparr> else p,
       \<lparr>ig_active = had_pending, ig_skipped = False\<rparr>))"

definition guard_skip :: "ItemProgressGuard \<Rightarrow> ItemProgressGuard" where
  "guard_skip g = g\<lparr>ig_skipped := True\<rparr>"

definition guard_drop :: "ItemProgressGuard \<Rightarrow> TaskProgress \<Rightarrow> TaskProgress" where
  "guard_drop g p =
     (if \<not> ig_active g then p
      else let p1 = (if ig_skipped g then p\<lparr>tp_skipped := tp_skipped p + 1\<rparr> else p)
           in p1\<lparr>tp_completed := tp_completed p1 + 1, tp_running := tp_running p1 - 1\<rparr>)"

text \<open>The threads: any of them starts an item, or drops the guard of an item it has started, after
  marking it skipped or not. The second component is the guards in existence.\<close>

inductive item_step :: "TaskProgress \<times> ItemProgressGuard list \<Rightarrow> TaskProgress \<times> ItemProgressGuard list \<Rightarrow> bool" where
  item_start: "start_item p = (p', g) \<Longrightarrow> item_step (p, gs) (p', gs @ [g])"
| item_finish: "item_step (p, gs @ g # gs') (guard_drop g p, gs @ gs')"
| item_skip: "item_step (p, gs @ g # gs') (guard_drop (guard_skip g) p, gs @ gs')"

inductive_cases item_stepE: "item_step (p, gs) (p', gs')"

definition item_inv :: "nat \<Rightarrow> TaskProgress \<times> ItemProgressGuard list \<Rightarrow> bool" where
  "item_inv n_items s \<longleftrightarrow>
     unat (tp_pending (fst s)) + unat (tp_running (fst s)) + unat (tp_completed (fst s)) = n_items \<and>
     unat (tp_running (fst s)) = length (filter ig_active (snd s)) \<and>
     unat (tp_skipped (fst s)) \<le> unat (tp_completed (fst s))"

lemma unat_plus_one: "unat (x :: 'a::len word) < 2 ^ LENGTH('a) - 1 \<Longrightarrow> unat (x + 1) = unat x + 1"
  by (simp add: unat_word_ariths mod_less)

lemma unat_minus_one_pos: "0 < unat (x :: 'a::len word) \<Longrightarrow> unat (x - 1) = unat x - 1"
  by (metis unat_0 unat_minus_one less_numeral_extra(3))

lemma item_inv_start:
  assumes inv: "item_inv n_items (p, gs)" and small: "n_items < 2 ^ 64" and s: "start_item p = (p', g)"
  shows "item_inv n_items (p', gs @ [g])"
proof (cases "tp_pending p = 0")
  case True
  then show ?thesis using inv s by (auto simp: start_item_def item_inv_def)
next
  case False
  then have pos: "0 < unat (tp_pending p)" by (simp add: unat_gt_0)
  then have "unat (tp_running p) < 2 ^ LENGTH(64) - 1" using inv small by (simp add: item_inv_def)
  then have "unat (tp_running p + 1) = unat (tp_running p) + 1" by (rule unat_plus_one)
  moreover have "unat (tp_pending p - 1) = unat (tp_pending p) - 1" using pos by (rule unat_minus_one_pos)
  moreover have "tp_pending p > 0" using False by (simp add: word_neq_0_conv)
  ultimately show ?thesis using inv s pos by (auto simp: start_item_def item_inv_def Let_def)
qed

lemma item_inv_drop:
  assumes inv: "item_inv n_items (p, gs @ g # gs')" and small: "n_items < 2 ^ 64"
    and h: "ig_active h = ig_active g"
  shows "item_inv n_items (guard_drop h p, gs @ gs')"
proof (cases "ig_active g")
  case False
  then show ?thesis using inv h by (simp add: guard_drop_def item_inv_def)
next
  case True
  then have pos: "0 < unat (tp_running p)" using inv by (simp add: item_inv_def)
  then have "unat (tp_completed p) < 2 ^ 64 - 1" "unat (tp_skipped p) < 2 ^ 64 - 1"
    using inv small unfolding item_inv_def fst_conv by linarith+
  then have lt: "unat (tp_completed p) < 2 ^ LENGTH(64) - 1" "unat (tp_skipped p) < 2 ^ LENGTH(64) - 1"
    by simp_all
  note unat_plus_one[OF lt(1)] unat_plus_one[OF lt(2)] unat_minus_one_pos[OF pos]
  then show ?thesis using inv True h pos by (auto simp: guard_drop_def item_inv_def Let_def)
qed

lemma item_reachable_inv:
  assumes "item_step\<^sup>*\<^sup>* (item_progress_new n_items, []) s" "n_items < 2 ^ 64"
  shows "item_inv n_items s"
  using assms
proof (induction rule: rtranclp_induct)
  case base
  then show ?case by (simp add: item_inv_def item_progress_new_def unat_of_nat)
next
  case (step s s')
  from step(2) step.IH[OF step.prems] step.prems show ?case
    by cases (auto intro: item_inv_start item_inv_drop simp: guard_skip_def)
qed

lemma str_contains_iff: "str_contains pat s \<longleftrightarrow> (\<exists>xs ys. s = xs @ pat @ ys)"
proof (induction s)
  case (Cons c cs)
  have "strip_prefix pat (c # cs) \<noteq> None \<longleftrightarrow> (\<exists>ys. c # cs = pat @ ys)"
    by (auto simp: str_simps)
  then show ?case using Cons by (auto simp: Cons_eq_append_conv)
qed simp

lemma split_on_absent: "c \<notin> set s \<Longrightarrow> split_on c s = [s]"
  by (induction s) auto

section \<open>Properties\<close>

text \<open>However the starts and completions of items interleave between threads, the counters
  never lose an item: pending, running and completed add up to the n_items, running is the number
  of items being worked on, and the skipped ones are among the completed.\<close>

lemma progress_conserved:
  assumes "item_step\<^sup>*\<^sup>* (item_progress_new n_items, []) (p, guards)" and "n_items < 2 ^ 64"
  shows "unat (tp_pending p) + unat (tp_running p) + unat (tp_completed p) = n_items \<and>
    unat (tp_running p) = length (filter ig_active guards) \<and>
    unat (tp_skipped p) \<le> unat (tp_completed p)"
  using item_reachable_inv[OF assms] by (simp add: item_inv_def)

lemma progress_conserved_witness:
  "\<exists>p g. item_step\<^sup>*\<^sup>* (item_progress_new 2, []) (p, [g]) \<and>
     unat (tp_pending p) + unat (tp_running p) + unat (tp_completed p) = 2"
proof -
  obtain p g where s: "start_item (item_progress_new 2) = (p, g)" by fastforce
  have "item_step (item_progress_new 2, []) (p, [g])" using item_start[OF s, of "[]"] by simp
  then have r: "item_step\<^sup>*\<^sup>* (item_progress_new 2, []) (p, [g])" by blast
  with progress_conserved[OF r] show ?thesis by auto
qed

text \<open>A report name that passes the check names a file directly inside the report directory:
  it is a single plain path component, and never one of the names the log store uses.\<close>

lemma report_filename_safe:
  assumes "is_valid_report_filename name"
  shows "path_components name = [Normal name] \<and> name \<notin> {''stdout.log'', ''stderr.log'', ''meta.bincode''}"
proof -
  have "CHR ''/'' \<notin> set name" "name \<noteq> []" "name \<noteq> ''.''" "name \<noteq> ''..''" "\<not> path_is_absolute name"
    using assms by (auto simp: is_valid_report_filename_def split: if_splits)
  then show ?thesis
    using assms split_on_absent[of "CHR ''/''" name]
    by (auto simp: path_components_def path_is_absolute_def component_of_def is_valid_report_filename_def
        split: if_splits)
qed

lemma report_filename_safe_witness:
  "is_valid_report_filename ''lint.sarif'' \<and> path_components ''lint.sarif'' = [Normal ''lint.sarif'']"
proof -
  have "is_valid_report_filename ''lint.sarif''"
    by (simp add: is_valid_report_filename_def path_is_absolute_def)
  with report_filename_safe show ?thesis by blast
qed

end
