(* ===== verification/WorkerRouter.thy ===== *)
theory WorkerRouter
  imports Messages "HOL-Library.Multiset"
begin

text \<open>
  The router of the worker watcher, \<open>crates/luchta-worker-watcher/src/router.rs\<close> and \<open>generation.rs\<close>: it forwards
  messages to one worker process, replaces that process when a watched file changes, and answers for it when it
  dies. The handlers take one event each, in any order; what the operating system does during an event is its
  \<open>RouterEnv\<close>. \<open>mr_stdout\<close> is what was written to the engine, \<open>mr_children\<close> the worker processes that were started and
  not shut down, \<open>mr_timers\<close> the events that were scheduled. The lines for standard error are left out; an error that
  a handler returns ends the router, so its result is the error alone. Times are in milliseconds.
\<close>

section \<open>Generations\<close>

datatype ProxyError =
    MissingDelegateCommand | MissingPipe string | MissingChildId | DuplicateInflightId string
  | DelegateClosed string | ResponseTimeout string | StdinClosed | StdinChannelPoisoned
  | ProxyIo string | ProxyJson string | ProxyJoin string

datatype InFlightKind = RunKind | ResolveKind

record Generation =
  gn_id :: nat
  gn_command :: "string list"
  gn_stdin_open :: bool
  gn_in_flight :: "(string, InFlightKind) hmap"

record RouterEnv =
  rv_spawn :: "nat \<Rightarrow> ProxyError option"
  rv_encode :: "WorkerMessage \<Rightarrow> ProxyError option"
  rv_send :: "nat \<Rightarrow> WorkerMessage \<Rightarrow> ProxyError option"
  rv_shutdown :: "nat \<Rightarrow> ProxyError option"
  rv_write :: "WorkerResponse \<Rightarrow> ProxyError option"
  rv_now :: nat
  rv_delay :: nat

definition unless_err :: "'e option \<Rightarrow> 'a \<Rightarrow> 'e + 'a" where
  "unless_err err x = (case err of Some e \<Rightarrow> Inl e | None \<Rightarrow> Inr x)"

lemma unless_err_Inr [simp]: "unless_err err x = Inr y \<longleftrightarrow> err = None \<and> x = y"
  by (auto simp: unless_err_def split: option.splits)

lemma unless_err_None [simp]: "unless_err None x = Inr x"
  by (simp add: unless_err_def)

definition generation_new :: "RouterEnv \<Rightarrow> nat \<Rightarrow> string list \<Rightarrow> ProxyError + Generation" where
  "generation_new env gen_id command =
     unless_err (rv_spawn env gen_id)
       \<lparr>gn_id = gen_id, gn_command = command, gn_stdin_open = True, gn_in_flight = []\<rparr>"

fun in_flight_kind :: "WorkerMessage \<Rightarrow> InFlightKind" where
  "in_flight_kind (RunMessage _) = RunKind"
| "in_flight_kind (ResolveMessage _) = ResolveKind"

fun is_terminal :: "WorkerResponse \<Rightarrow> bool" where
  "is_terminal (Done _ _ _) = True"
| "is_terminal (Resolved _ _) = True"
| "is_terminal _ = False"

definition send_line :: "RouterEnv \<Rightarrow> WorkerMessage \<Rightarrow> Generation \<Rightarrow> ProxyError + unit" where
  "send_line env msg g =
     (if gn_stdin_open g then unless_err (rv_send env (gn_id g) msg) () else Inl StdinClosed)"

definition generation_send :: "RouterEnv \<Rightarrow> WorkerMessage \<Rightarrow> Generation \<Rightarrow> ProxyError + Generation" where
  "generation_send env msg g =
     bind_result (unless_err (rv_encode env msg) ()) (\<lambda>_.
     bind_result (send_line env msg g) (\<lambda>_.
       Inr (g\<lparr>gn_in_flight := AList.update (message_id msg) (in_flight_kind msg) (gn_in_flight g)\<rparr>)))"

definition on_response :: "WorkerResponse \<Rightarrow> Generation \<Rightarrow> Generation" where
  "on_response resp g =
     (if is_terminal resp then g\<lparr>gn_in_flight := AList.delete (response_id resp) (gn_in_flight g)\<rparr> else g)"

definition in_flight_len :: "Generation \<Rightarrow> nat" where
  "in_flight_len g = length (gn_in_flight g)"

definition drain_in_flight :: "Generation \<Rightarrow> (string \<times> InFlightKind) list" where
  "drain_in_flight g = gn_in_flight g"

definition close_stdin :: "Generation \<Rightarrow> Generation" where
  "close_stdin g = g\<lparr>gn_stdin_open := False\<rparr>"

section \<open>The router\<close>

datatype RouterEvent =
    Inbound WorkerMessage
  | Response nat WorkerResponse
  | StdoutClosed nat
  | FileChanged
  | DrainTimeout nat
  | ShutdownAll
  | ShutdownTimeout

definition RESTART_WINDOW :: nat where "RESTART_WINDOW = 10000"
definition RESTART_BURST :: nat where "RESTART_BURST = 8"
definition RESTART_BACKOFF :: nat where "RESTART_BACKOFF = 1000"

record MessageRouter =
  mr_current :: "Generation option"
  mr_draining :: "Generation option"
  mr_pending :: "WorkerMessage list"
  mr_next_gen_id :: nat
  mr_command :: "string list"
  mr_stdout :: "WorkerResponse list"
  mr_shutting_down :: bool
  mr_restarts :: "nat list"
  mr_children :: "nat list"
  mr_timers :: "RouterEvent list"

type_synonym routed = "ProxyError + MessageRouter"

definition router_new :: "RouterEnv \<Rightarrow> string list \<Rightarrow> routed" where
  "router_new env command =
     bind_result (generation_new env 0 command) (\<lambda>current.
       Inr \<lparr>mr_current = Some current, mr_draining = None, mr_pending = [], mr_next_gen_id = 1, mr_command = command,
         mr_stdout = [], mr_shutting_down = False, mr_restarts = [], mr_children = [0], mr_timers = []\<rparr>)"

definition write_response :: "RouterEnv \<Rightarrow> WorkerResponse \<Rightarrow> MessageRouter \<Rightarrow> routed" where
  "write_response env response s =
     unless_err (rv_write env response) (s\<lparr>mr_stdout := mr_stdout s @ [response]\<rparr>)"

fun failed_send_response :: "string \<Rightarrow> InFlightKind \<Rightarrow> WorkerResponse" where
  "failed_send_response i RunKind = Done i 1 None"
| "failed_send_response i ResolveKind =
     Resolved i \<lparr>rr_decision = Reject ''worker restarted before resolve completed''\<rparr>"

definition synthesize_terminal_for_failed_send :: "RouterEnv \<Rightarrow> string \<Rightarrow> InFlightKind \<Rightarrow> MessageRouter \<Rightarrow> routed" where
  "synthesize_terminal_for_failed_send env i kind s = write_response env (failed_send_response i kind) s"

fun synthesize_loop :: "RouterEnv \<Rightarrow> (string \<times> InFlightKind) list \<Rightarrow> MessageRouter \<Rightarrow> routed" where
  "synthesize_loop env [] s = Inr s"
| "synthesize_loop env ((i, kind) # rest) s =
     bind_result (synthesize_terminal_for_failed_send env i kind s) (synthesize_loop env rest)"

definition synthesize_terminals_for :: "RouterEnv \<Rightarrow> Generation \<Rightarrow> MessageRouter \<Rightarrow> routed" where
  "synthesize_terminals_for env generation s = synthesize_loop env (drain_in_flight generation) s"

definition shutdown_generation :: "RouterEnv \<Rightarrow> Generation \<Rightarrow> MessageRouter \<Rightarrow> routed" where
  "shutdown_generation env g s =
     unless_err (rv_shutdown env (gn_id g)) (s\<lparr>mr_children := removeAll (gn_id g) (mr_children s)\<rparr>)"

definition send_to_current :: "RouterEnv \<Rightarrow> WorkerMessage \<Rightarrow> MessageRouter \<Rightarrow> routed" where
  "send_to_current env message s =
     (case mr_current s of
        Some current \<Rightarrow>
          (case generation_send env message current of
             Inl _ \<Rightarrow> synthesize_terminal_for_failed_send env (message_id message) (in_flight_kind message) s
           | Inr current' \<Rightarrow> Inr (s\<lparr>mr_current := Some current'\<rparr>))
      | None \<Rightarrow> synthesize_terminal_for_failed_send env (message_id message) (in_flight_kind message) s)"

definition handle_inbound :: "RouterEnv \<Rightarrow> WorkerMessage \<Rightarrow> MessageRouter \<Rightarrow> routed" where
  "handle_inbound env message s =
     (if mr_shutting_down s then Inr s
      else if mr_current s \<noteq> None then send_to_current env message s
      else Inr (s\<lparr>mr_pending := mr_pending s @ [message]\<rparr>))"

definition throttle_restart :: "RouterEnv \<Rightarrow> MessageRouter \<Rightarrow> MessageRouter" where
  "throttle_restart env s =
     (let kept = dropWhile (\<lambda>t. rv_now env - t > RESTART_WINDOW) (mr_restarts s);
          slept = (if length kept \<ge> RESTART_BURST then RESTART_BACKOFF else 0)
      in s\<lparr>mr_restarts := kept @ [rv_now env + slept + rv_delay env]\<rparr>)"

definition spawn_current :: "RouterEnv \<Rightarrow> MessageRouter \<Rightarrow> routed" where
  "spawn_current env s =
     bind_result (generation_new env (mr_next_gen_id s) (mr_command s)) (\<lambda>next.
       Inr (s\<lparr>mr_current := Some next, mr_next_gen_id := mr_next_gen_id s + 1,
              mr_children := mr_children s @ [mr_next_gen_id s]\<rparr>))"

fun send_all :: "RouterEnv \<Rightarrow> WorkerMessage list \<Rightarrow> MessageRouter \<Rightarrow> routed" where
  "send_all env [] s = Inr s"
| "send_all env (message # rest) s = bind_result (send_to_current env message s) (send_all env rest)"

definition complete_drain :: "RouterEnv \<Rightarrow> MessageRouter \<Rightarrow> routed" where
  "complete_drain env s =
     (if mr_shutting_down s \<and> mr_pending s = [] then Inr s
      else
        bind_result (spawn_current env (throttle_restart env s)) (\<lambda>s1.
        bind_result (send_all env (mr_pending s1) (s1\<lparr>mr_pending := []\<rparr>)) (\<lambda>s2.
          Inr (if mr_shutting_down s2 then s2\<lparr>mr_current := map_option close_stdin (mr_current s2)\<rparr> else s2))))"

definition is_generation :: "nat \<Rightarrow> Generation option \<Rightarrow> bool" where
  "is_generation gen_id slot \<longleftrightarrow> (case slot of Some g \<Rightarrow> gn_id g = gen_id | None \<Rightarrow> False)"

definition handle_response :: "RouterEnv \<Rightarrow> nat \<Rightarrow> WorkerResponse \<Rightarrow> MessageRouter \<Rightarrow> routed" where
  "handle_response env gen_id response s =
     (if is_generation gen_id (mr_current s) then
        write_response env response (s\<lparr>mr_current := map_option (on_response response) (mr_current s)\<rparr>)
      else if is_generation gen_id (mr_draining s) then
        bind_result (write_response env response (s\<lparr>mr_draining := map_option (on_response response) (mr_draining s)\<rparr>)) (\<lambda>s1.
          case mr_draining s1 of
            Some drained \<Rightarrow>
              if in_flight_len drained = 0 then
                bind_result (shutdown_generation env drained (s1\<lparr>mr_draining := None\<rparr>)) (complete_drain env)
              else Inr s1
          | None \<Rightarrow> Inr s1)
      else Inr s)"

definition handle_stdout_closed :: "RouterEnv \<Rightarrow> nat \<Rightarrow> MessageRouter \<Rightarrow> routed" where
  "handle_stdout_closed env gen_id s =
     (if is_generation gen_id (mr_current s) then
        let current = the (mr_current s); s0 = s\<lparr>mr_current := None\<rparr> in
        bind_result (synthesize_terminals_for env current s0) (\<lambda>s1.
        bind_result (shutdown_generation env current s1) (\<lambda>s2.
          if mr_shutting_down s then Inr s2 else spawn_current env (throttle_restart env s2)))
      else if is_generation gen_id (mr_draining s) then
        let drained = the (mr_draining s); s0 = s\<lparr>mr_draining := None\<rparr> in
        bind_result (synthesize_terminals_for env drained s0) (\<lambda>s1.
        bind_result (shutdown_generation env drained s1) (complete_drain env))
      else Inr s)"

definition schedule :: "RouterEvent \<Rightarrow> MessageRouter \<Rightarrow> MessageRouter" where
  "schedule ev s = s\<lparr>mr_timers := mr_timers s @ [ev]\<rparr>"

definition restart :: "RouterEnv \<Rightarrow> MessageRouter \<Rightarrow> routed" where
  "restart env s =
     (if mr_shutting_down s then Inr s
      else if mr_draining s \<noteq> None then Inr s
      else case mr_current s of
        None \<Rightarrow> Inr s
      | Some old \<Rightarrow>
          if in_flight_len old = 0 then
            bind_result (shutdown_generation env old (s\<lparr>mr_current := None\<rparr>)) (complete_drain env)
          else Inr (schedule (DrainTimeout (gn_id old)) (s\<lparr>mr_current := None, mr_draining := Some old\<rparr>)))"

definition handle_drain_timeout :: "RouterEnv \<Rightarrow> nat \<Rightarrow> MessageRouter \<Rightarrow> routed" where
  "handle_drain_timeout env gen_id s =
     (if \<not> is_generation gen_id (mr_draining s) then Inr s
      else let drained = the (mr_draining s); s0 = s\<lparr>mr_draining := None\<rparr> in
        bind_result (synthesize_terminals_for env drained s0) (\<lambda>s1.
        bind_result (shutdown_generation env drained s1) (complete_drain env)))"

definition handle_shutdown_all :: "MessageRouter \<Rightarrow> MessageRouter" where
  "handle_shutdown_all s =
     (if mr_shutting_down s then s
      else schedule ShutdownTimeout (s\<lparr>mr_shutting_down := True, mr_current := map_option close_stdin (mr_current s)\<rparr>))"

definition reap_slot :: "RouterEnv \<Rightarrow> Generation option \<Rightarrow> MessageRouter \<Rightarrow> routed" where
  "reap_slot env slot s =
     (case slot of None \<Rightarrow> Inr s
      | Some g \<Rightarrow> bind_result (synthesize_terminals_for env g s) (shutdown_generation env g))"

definition handle_shutdown_timeout :: "RouterEnv \<Rightarrow> MessageRouter \<Rightarrow> routed" where
  "handle_shutdown_timeout env s =
     bind_result (reap_slot env (mr_current s) (s\<lparr>mr_current := None\<rparr>)) (\<lambda>s1.
     bind_result (reap_slot env (mr_draining s1) (s1\<lparr>mr_draining := None\<rparr>)) (\<lambda>s2.
       Inr (s2\<lparr>mr_pending := []\<rparr>)))"

fun handle_event :: "RouterEnv \<Rightarrow> RouterEvent \<Rightarrow> MessageRouter \<Rightarrow> routed" where
  "handle_event env (Inbound message) s = handle_inbound env message s"
| "handle_event env (Response gen_id response) s = handle_response env gen_id response s"
| "handle_event env (StdoutClosed gen_id) s = handle_stdout_closed env gen_id s"
| "handle_event env FileChanged s = restart env s"
| "handle_event env (DrainTimeout gen_id) s = handle_drain_timeout env gen_id s"
| "handle_event env ShutdownAll s = Inr (handle_shutdown_all s)"
| "handle_event env ShutdownTimeout s = handle_shutdown_timeout env s"

definition should_stop :: "MessageRouter \<Rightarrow> bool" where
  "should_stop s \<longleftrightarrow> mr_shutting_down s \<and> mr_current s = None \<and> mr_draining s = None \<and> mr_pending s = []"

definition shutdown_slot :: "RouterEnv \<Rightarrow> Generation option \<Rightarrow> MessageRouter \<Rightarrow> routed" where
  "shutdown_slot env slot s = (case slot of None \<Rightarrow> Inr s | Some g \<Rightarrow> shutdown_generation env g s)"

definition shutdown_remaining :: "RouterEnv \<Rightarrow> MessageRouter \<Rightarrow> routed" where
  "shutdown_remaining env s =
     bind_result (shutdown_slot env (mr_current s) (s\<lparr>mr_current := None\<rparr>)) (\<lambda>s1.
       shutdown_slot env (mr_draining s1) (s1\<lparr>mr_draining := None\<rparr>))"

text \<open>\<open>run\<close> over the events it receives, each with what the operating system does meanwhile; the events end when the
  channel closes.\<close>

fun router_loop :: "(RouterEnv \<times> RouterEvent) list \<Rightarrow> MessageRouter \<Rightarrow> routed" where
  "router_loop [] s = Inr s"
| "router_loop ((env, event) # rest) s =
     bind_result (handle_event env event s) (\<lambda>s1. if should_stop s1 then Inr s1 else router_loop rest s1)"

definition router_run :: "RouterEnv \<Rightarrow> (RouterEnv \<times> RouterEvent) list \<Rightarrow> MessageRouter \<Rightarrow> routed" where
  "router_run env events s = bind_result (router_loop events s) (shutdown_remaining env)"

section \<open>Jobs and their answers\<close>

text \<open>A job is the id and the kind of a message. \<open>books\<close> counts where every accepted job is: queued, in flight in the
  current or the draining worker, or answered.\<close>

fun terminal_kind :: "WorkerResponse \<Rightarrow> InFlightKind" where
  "terminal_kind (Resolved _ _) = ResolveKind"
| "terminal_kind _ = RunKind"

definition job :: "WorkerMessage \<Rightarrow> string \<times> InFlightKind" where
  "job m = (message_id m, in_flight_kind m)"

definition answers :: "WorkerResponse list \<Rightarrow> (string \<times> InFlightKind) list" where
  "answers rs = map (\<lambda>r. (response_id r, terminal_kind r)) (filter is_terminal rs)"

definition slot_jobs :: "Generation option \<Rightarrow> (string \<times> InFlightKind) list" where
  "slot_jobs slot = (case slot of None \<Rightarrow> [] | Some g \<Rightarrow> gn_in_flight g)"

definition books :: "MessageRouter \<Rightarrow> (string \<times> InFlightKind) multiset" where
  "books s = mset (map job (mr_pending s)) + mset (slot_jobs (mr_current s)) + mset (slot_jobs (mr_draining s)) +
     mset (answers (mr_stdout s))"

definition slot_ids :: "Generation option \<Rightarrow> nat list" where
  "slot_ids slot = (case slot of None \<Rightarrow> [] | Some g \<Rightarrow> [gn_id g])"

definition accepted :: "RouterEvent \<Rightarrow> MessageRouter \<Rightarrow> WorkerMessage list" where
  "accepted ev s = (case ev of Inbound m \<Rightarrow> (if mr_shutting_down s then [] else [m]) | _ \<Rightarrow> [])"

definition discarded :: "RouterEvent \<Rightarrow> MessageRouter \<Rightarrow> WorkerMessage list" where
  "discarded ev s = (if ev = ShutdownTimeout then mr_pending s else [])"

text \<open>What the peers owe the router: the engine uses a new id for every message, a worker ends only a job that it has in
  flight, with the answer of its kind, and the timer of the shutdown fires after the shutdown.\<close>

fun event_sound :: "WorkerMessage list \<Rightarrow> MessageRouter \<Rightarrow> RouterEvent \<Rightarrow> bool" where
  "event_sound acc s (Inbound m) \<longleftrightarrow> message_id m \<notin> message_id ` set acc"
| "event_sound acc s (Response gen_id r) \<longleftrightarrow> (is_terminal r \<longrightarrow>
     (is_generation gen_id (mr_current s) \<longrightarrow> map_of (slot_jobs (mr_current s)) (response_id r) = Some (terminal_kind r)) \<and>
     (is_generation gen_id (mr_draining s) \<longrightarrow> map_of (slot_jobs (mr_draining s)) (response_id r) = Some (terminal_kind r)))"
| "event_sound acc s ShutdownTimeout \<longleftrightarrow> ShutdownTimeout \<in> set (mr_timers s)"
| "event_sound acc s _ \<longleftrightarrow> True"

text \<open>The states of a running router, with the messages accepted and those thrown away so far.\<close>

inductive router_trace :: "MessageRouter \<Rightarrow> WorkerMessage list \<Rightarrow> WorkerMessage list \<Rightarrow> bool" where
  trace_start: "router_new env command = Inr s \<Longrightarrow> router_trace s [] []"
| trace_step: "router_trace s acc dropped \<Longrightarrow> \<not> should_stop s \<Longrightarrow> event_sound acc s ev \<Longrightarrow>
    handle_event env ev s = Inr s' \<Longrightarrow> router_trace s' (acc @ accepted ev s) (dropped @ discarded ev s)"

definition book_inv :: "MessageRouter \<Rightarrow> WorkerMessage list \<Rightarrow> WorkerMessage list \<Rightarrow> bool" where
  "book_inv s acc dropped \<longleftrightarrow> distinct (map message_id acc) \<and>
     mset (map job acc) = books s + mset (map job dropped) \<and> (dropped \<noteq> [] \<longrightarrow> ShutdownTimeout \<in> set (mr_timers s)) \<and>
     (mr_shutting_down s \<longleftrightarrow> ShutdownTimeout \<in> set (mr_timers s))"

definition slot_inv :: "MessageRouter \<Rightarrow> bool" where
  "slot_inv s \<longleftrightarrow> (mr_current s = None \<or> mr_draining s = None) \<and>
     (mr_shutting_down s \<or> mr_current s \<noteq> None \<or> mr_draining s \<noteq> None) \<and>
     (mr_pending s \<noteq> [] \<longrightarrow> mr_draining s \<noteq> None) \<and>
     (\<forall>d. mr_draining s = Some d \<longrightarrow> gn_in_flight d \<noteq> [] \<and> DrainTimeout (gn_id d) \<in> set (mr_timers s)) \<and>
     mr_children s = slot_ids (mr_current s) @ slot_ids (mr_draining s) \<and>
     (\<forall>i \<in> set (mr_children s). i < mr_next_gen_id s)"

abbreviation router_inv :: "MessageRouter \<Rightarrow> WorkerMessage list \<Rightarrow> WorkerMessage list \<Rightarrow> bool" where
  "router_inv s acc dropped \<equiv> slot_inv s \<and> book_inv s acc dropped"

text \<open>Between two workers: both slots are empty and no process is left.\<close>

definition gap :: "MessageRouter \<Rightarrow> WorkerMessage list \<Rightarrow> WorkerMessage list \<Rightarrow> bool" where
  "gap s acc dropped \<longleftrightarrow> mr_current s = None \<and> mr_draining s = None \<and> mr_children s = [] \<and> book_inv s acc dropped"

section \<open>Effects\<close>

lemma slot_simps [simp]:
  "slot_jobs None = []" "slot_jobs (Some g) = gn_in_flight g" "slot_ids None = []" "slot_ids (Some g) = [gn_id g]"
  "slot_jobs (map_option close_stdin slot) = slot_jobs slot" "slot_ids (map_option close_stdin slot) = slot_ids slot"
  "slot_ids (map_option (on_response r) slot) = slot_ids slot"
  by (cases slot; simp add: slot_jobs_def slot_ids_def close_stdin_def on_response_def)+

lemma is_generation_iff: "is_generation i slot \<longleftrightarrow> (\<exists>g. slot = Some g \<and> gn_id g = i)"
  by (auto simp: is_generation_def split: option.splits)

lemma is_generation_simps [simp]: "\<not> is_generation i None" "is_generation i (Some g) \<longleftrightarrow> gn_id g = i"
  by (simp_all add: is_generation_def)

lemma answers_simps [simp]: "answers [] = []" "answers (rs @ rs') = answers rs @ answers rs'"
  "answers (r # rs) = (if is_terminal r then (response_id r, terminal_kind r) # answers rs else answers rs)"
  by (simp_all add: answers_def)

lemma failed_answer [simp]: "is_terminal (failed_send_response i k)"
  "response_id (failed_send_response i k) = i" "terminal_kind (failed_send_response i k) = k"
  by (cases k; simp)+

lemma failed_answers [simp]: "answers (map (\<lambda>(i, k). failed_send_response i k) js) = js"
  by (induction js) auto

lemma mset_delete:
  assumes "distinct (map fst al)" and "map_of al k = Some v"
  shows "mset al = add_mset (k, v) (mset (AList.delete k al))"
  using assms
proof (induction al)
  case (Cons a al)
  obtain k' v' where a: "a = (k', v')" by fastforce
  show ?case
  proof (cases "k' = k")
    case True
    then have "k \<notin> fst ` set al" using Cons.prems(1) a by simp
    then have "AList.delete k al = al" by simp
    then show ?thesis using True Cons.prems(2) a by simp
  next
    case False
    then show ?thesis using Cons a by simp
  qed
qed simp

lemma write_response_Inr [simp]: "write_response env r s = Inr s' \<longleftrightarrow>
    rv_write env r = None \<and> s' = s\<lparr>mr_stdout := mr_stdout s @ [r]\<rparr>"
  by (auto simp: write_response_def)

lemma shutdown_generation_Inr [simp]: "shutdown_generation env g s = Inr s' \<longleftrightarrow>
    rv_shutdown env (gn_id g) = None \<and> s' = s\<lparr>mr_children := removeAll (gn_id g) (mr_children s)\<rparr>"
  by (auto simp: shutdown_generation_def)

lemma synthesize_loop_Inr:
  "synthesize_loop env js s = Inr s' \<Longrightarrow> s' = s\<lparr>mr_stdout := mr_stdout s @ map (\<lambda>(i, k). failed_send_response i k) js\<rparr>"
proof (induction js arbitrary: s)
  case (Cons j js)
  obtain i k where j: "j = (i, k)" by fastforce
  have "s' = (s\<lparr>mr_stdout := mr_stdout s @ [failed_send_response i k]\<rparr>)
      \<lparr>mr_stdout := (mr_stdout s @ [failed_send_response i k]) @ map (\<lambda>(i, k). failed_send_response i k) js\<rparr>"
    using Cons.IH Cons.prems by (force simp: bind_result_Inr_iff synthesize_terminal_for_failed_send_def j)
  then show ?case by (simp add: j)
qed simp

lemma synthesize_terminals_Inr:
  "synthesize_terminals_for env g s = Inr s' \<Longrightarrow>
   s' = s\<lparr>mr_stdout := mr_stdout s @ map (\<lambda>(i, k). failed_send_response i k) (gn_in_flight g)\<rparr>"
  by (auto simp: synthesize_terminals_for_def drain_in_flight_def dest: synthesize_loop_Inr)

lemma generation_send_Inr:
  "generation_send env m g = Inr g' \<Longrightarrow>
   g' = g\<lparr>gn_in_flight := AList.update (message_id m) (in_flight_kind m) (gn_in_flight g)\<rparr>"
  by (auto simp: generation_send_def bind_result_Inr_iff)

text \<open>Sending a message with a new id adds its job to the current worker or to the answers, and nothing else.\<close>

lemma send_to_current_effect:
  assumes "send_to_current env m s = Inr s'" and "message_id m \<notin> fst ` set (slot_jobs (mr_current s))"
  shows "\<exists>cur out. s' = s\<lparr>mr_current := cur, mr_stdout := mr_stdout s @ out\<rparr> \<and> slot_ids cur = slot_ids (mr_current s) \<and>
    mset (slot_jobs cur) + mset (answers out) = add_mset (job m) (mset (slot_jobs (mr_current s)))"
proof (cases "\<exists>g g'. mr_current s = Some g \<and> generation_send env m g = Inr g'")
  case True
  then obtain g g' where g: "mr_current s = Some g" "generation_send env m g = Inr g'" by blast
  then have "s' = s\<lparr>mr_current := Some g'\<rparr>" using assms(1) by (simp add: send_to_current_def)
  moreover have "s\<lparr>mr_current := Some g'\<rparr> = s\<lparr>mr_current := Some g', mr_stdout := mr_stdout s @ []\<rparr>" by simp
  moreover have "gn_in_flight g' = gn_in_flight g @ [job m]" "gn_id g' = gn_id g"
    using generation_send_Inr[OF g(2)] assms(2) g(1) by (simp_all add: update_fresh job_def)
  ultimately show ?thesis using g(1)
    by (intro exI[of _ "Some g'"] exI[of _ "[]"]) (simp only: slot_simps, simp)
next
  case False
  then have "send_to_current env m s = synthesize_terminal_for_failed_send env (message_id m) (in_flight_kind m) s"
    by (auto simp: send_to_current_def split: option.splits sum.splits)
  with assms(1) show ?thesis
    by (intro exI[of _ "mr_current s"] exI[of _ "[failed_send_response (message_id m) (in_flight_kind m)]"])
      (simp add: synthesize_terminal_for_failed_send_def job_def)
qed

lemma send_all_effect:
  assumes "send_all env ms s = Inr s'" and "distinct (map message_id ms)"
    and "message_id ` set ms \<inter> fst ` set (slot_jobs (mr_current s)) = {}"
  shows "\<exists>cur out. s' = s\<lparr>mr_current := cur, mr_stdout := mr_stdout s @ out\<rparr> \<and> slot_ids cur = slot_ids (mr_current s) \<and>
    mset (slot_jobs cur) + mset (answers out) = mset (map job ms) + mset (slot_jobs (mr_current s))"
  using assms
proof (induction ms arbitrary: s)
  case Nil
  then show ?case by (intro exI[of _ "mr_current s"] exI[of _ "[]"]) simp
next
  case (Cons m ms)
  from Cons.prems(1) obtain s1 where s1: "send_to_current env m s = Inr s1" "send_all env ms s1 = Inr s'"
    by (auto simp: bind_result_Inr_iff)
  obtain cur out where eff: "s1 = s\<lparr>mr_current := cur, mr_stdout := mr_stdout s @ out\<rparr>" "slot_ids cur = slot_ids (mr_current s)"
      "mset (slot_jobs cur) + mset (answers out) = add_mset (job m) (mset (slot_jobs (mr_current s)))"
    using send_to_current_effect[OF s1(1)] Cons.prems(3) by auto
  have "set_mset (mset (slot_jobs cur)) \<subseteq> insert (job m) (set (slot_jobs (mr_current s)))"
    using arg_cong[OF eff(3), of set_mset] by auto
  then have "fst ` set (slot_jobs cur) \<subseteq> insert (message_id m) (fst ` set (slot_jobs (mr_current s)))"
    by (force simp: job_def)
  moreover have "message_id ` set ms \<inter> insert (message_id m) (fst ` set (slot_jobs (mr_current s))) = {}"
    using Cons.prems(2,3) by auto
  ultimately have disj: "message_id ` set ms \<inter> fst ` set (slot_jobs cur) = {}" by blast
  have "mr_current s1 = cur" using eff(1) by simp
  with disj have "message_id ` set ms \<inter> fst ` set (slot_jobs (mr_current s1)) = {}" by simp
  from Cons.IH[OF s1(2) _ this] Cons.prems(2) eff(1) obtain cur' out' where
    eff': "s' = s1\<lparr>mr_current := cur', mr_stdout := mr_stdout s1 @ out'\<rparr>" "slot_ids cur' = slot_ids cur"
      "mset (slot_jobs cur') + mset (answers out') = mset (map job ms) + mset (slot_jobs cur)"
    by auto
  have "mset (slot_jobs cur') + mset (answers (out @ out')) = mset (map job (m # ms)) + mset (slot_jobs (mr_current s))"
  proof -
    have "mset (slot_jobs cur') + mset (answers (out @ out')) =
        mset (map job ms) + (mset (slot_jobs cur) + mset (answers out))"
      using eff'(3) by (simp add: union_ac)
    then show ?thesis unfolding eff(3) by simp
  qed
  then show ?case using eff eff' by (intro exI[of _ cur'] exI[of _ "out @ out'"]) simp
qed

section \<open>The invariant\<close>

lemma job_ids [simp]: "map (fst \<circ> job) ms = map message_id ms"
  by (simp add: job_def)

lemma book_ids:
  assumes "book_inv s acc dropped"
  shows "distinct (map message_id (mr_pending s) @ map fst (slot_jobs (mr_current s)) @ map fst (slot_jobs (mr_draining s)) @
      map fst (answers (mr_stdout s)))" (is "distinct ?ids")
    and "set (map message_id (mr_pending s) @ map fst (slot_jobs (mr_current s)) @ map fst (slot_jobs (mr_draining s))) \<subseteq>
      message_id ` set acc"
proof -
  have "mset (map fst (map job acc)) = mset ?ids + mset (map fst (map job dropped))"
    using assms unfolding book_inv_def books_def mset_map by (simp add: image_mset.compositionality comp_def job_def)
  then have eq: "mset (map message_id acc) = mset (?ids @ map message_id dropped)"
    by (simp add: comp_def job_def)
  have "distinct (map message_id acc)" using assms by (simp add: book_inv_def)
  then have "distinct (?ids @ map message_id dropped)" using mset_eq_imp_distinct_iff[OF eq] by blast
  then show "distinct ?ids" by (rule distinct_append[THEN iffD1, THEN conjunct1])
  from mset_eq_setD[OF eq] show "set (map message_id (mr_pending s) @ map fst (slot_jobs (mr_current s)) @
      map fst (slot_jobs (mr_draining s))) \<subseteq> message_id ` set acc"
    by auto
qed

lemma throttle_simps [simp]:
  "mr_current (throttle_restart env s) = mr_current s" "mr_draining (throttle_restart env s) = mr_draining s"
  "mr_pending (throttle_restart env s) = mr_pending s" "mr_next_gen_id (throttle_restart env s) = mr_next_gen_id s"
  "mr_stdout (throttle_restart env s) = mr_stdout s" "mr_shutting_down (throttle_restart env s) = mr_shutting_down s"
  "mr_children (throttle_restart env s) = mr_children s" "mr_timers (throttle_restart env s) = mr_timers s"
  by (simp_all add: throttle_restart_def Let_def)

lemma spawn_current_Inr: "spawn_current env s = Inr s' \<Longrightarrow>
    s' = s\<lparr>mr_current := Some \<lparr>gn_id = mr_next_gen_id s, gn_command = mr_command s, gn_stdin_open = True, gn_in_flight = []\<rparr>,
      mr_next_gen_id := mr_next_gen_id s + 1, mr_children := mr_children s @ [mr_next_gen_id s]\<rparr>"
  by (auto simp: spawn_current_def generation_new_def bind_result_Inr_iff)

text \<open>A worker that is started in the gap restores the invariant.\<close>

lemma spawn_inv:
  assumes "gap s acc dropped" and "mr_pending s = []" and "spawn_current env (throttle_restart env s) = Inr s'"
  shows "router_inv s' acc dropped"
  using assms by (auto dest!: spawn_current_Inr simp: gap_def slot_inv_def book_inv_def books_def)

lemma complete_drain_inv:
  assumes gap: "gap s acc dropped" and run: "complete_drain env s = Inr s'"
  shows "router_inv s' acc dropped"
proof (cases "mr_shutting_down s \<and> mr_pending s = []")
  case True
  then show ?thesis using assms by (auto simp: complete_drain_def gap_def slot_inv_def)
next
  case False
  then obtain s1 s2 where s1: "spawn_current env (throttle_restart env s) = Inr s1"
    and s2: "send_all env (mr_pending s1) (s1\<lparr>mr_pending := []\<rparr>) = Inr s2"
    and s': "s' = (if mr_shutting_down s2 then s2\<lparr>mr_current := map_option close_stdin (mr_current s2)\<rparr> else s2)"
    using run by (auto simp: complete_drain_def bind_result_Inr_iff)
  have book: "book_inv s acc dropped" using gap by (simp add: gap_def)
  note s1 = spawn_current_Inr[OF s1]
  have "distinct (map message_id (mr_pending s1))" using book_ids(1)[OF book] s1 by simp
  from send_all_effect[OF s2 this] s1 obtain cur out where
    eff: "s2 = s1\<lparr>mr_pending := [], mr_current := cur, mr_stdout := mr_stdout s @ out\<rparr>" "slot_ids cur = [mr_next_gen_id s]"
      "mset (slot_jobs cur) + mset (answers out) = mset (map job (mr_pending s))"
    by auto
  have cur: "cur \<noteq> None" using eff(2) by (cases cur) auto
  have "book_inv s2 acc dropped"
    using book eff(1) s1 gap eff(3) by (simp add: book_inv_def books_def gap_def union_ac)
  moreover have "slot_inv s2" using eff(1,2) s1 gap cur by (auto simp: slot_inv_def gap_def)
  ultimately show ?thesis using s' cur by (auto simp: slot_inv_def book_inv_def books_def)
qed

text \<open>Taking a worker out of its slot, failing its jobs and shutting it down leads to the gap.\<close>

definition emptied :: "MessageRouter \<Rightarrow> Generation \<Rightarrow> MessageRouter \<Rightarrow> bool" where
  "emptied s g s0 \<longleftrightarrow> mr_current s = Some g \<and> s0 = s\<lparr>mr_current := None\<rparr> \<or> mr_draining s = Some g \<and> s0 = s\<lparr>mr_draining := None\<rparr>"

lemma emptied_facts:
  assumes inv: "slot_inv s" and s0: "emptied s g s0"
  shows "mr_current s0 = None" "mr_draining s0 = None" "mr_children s0 = [gn_id g]"
    "mr_pending s0 = mr_pending s" "mr_shutting_down s0 = mr_shutting_down s" "mr_timers s0 = mr_timers s"
    "books s = books s0 + mset (gn_in_flight g)"
proof -
  from s0 consider (current) "mr_current s = Some g" "s0 = s\<lparr>mr_current := None\<rparr>"
    | (draining) "mr_draining s = Some g" "s0 = s\<lparr>mr_draining := None\<rparr>" unfolding emptied_def by blast
  then have "mr_current s0 = None \<and> mr_draining s0 = None \<and> mr_children s0 = [gn_id g] \<and>
    mr_pending s0 = mr_pending s \<and> mr_shutting_down s0 = mr_shutting_down s \<and> mr_timers s0 = mr_timers s \<and>
    books s = books s0 + mset (gn_in_flight g)"
  proof cases
    case current
    moreover have "mr_draining s = None" using inv current by (simp add: slot_inv_def)
    ultimately show ?thesis using inv by (simp add: slot_inv_def books_def)
  next
    case draining
    moreover have "mr_current s = None" using inv draining by (simp add: slot_inv_def)
    ultimately show ?thesis using inv by (simp add: slot_inv_def books_def union_ac)
  qed
  then show "mr_current s0 = None" "mr_draining s0 = None" "mr_children s0 = [gn_id g]"
    "mr_pending s0 = mr_pending s" "mr_shutting_down s0 = mr_shutting_down s" "mr_timers s0 = mr_timers s"
    "books s = books s0 + mset (gn_in_flight g)" by blast+
qed

lemma reap_gap:
  assumes inv: "router_inv s acc dropped" and s0: "emptied s g s0"
    and s1: "synthesize_terminals_for env g s0 = Inr s1" and s2: "shutdown_generation env g s1 = Inr s2"
  shows "gap s2 acc dropped \<and> mr_pending s2 = mr_pending s \<and> mr_shutting_down s2 = mr_shutting_down s"
proof -
  note facts = emptied_facts[OF _ s0]
  have "s2 = s0\<lparr>mr_stdout := mr_stdout s0 @ map (\<lambda>(i, k). failed_send_response i k) (gn_in_flight g), mr_children := []\<rparr>"
    using s2 synthesize_terminals_Inr[OF s1] facts(3) inv by simp
  moreover from this have "books s2 = books s" using facts inv by (simp add: books_def)
  ultimately show ?thesis using inv facts by (simp add: gap_def book_inv_def)
qed

lemma idle_gap:
  assumes inv: "slot_inv s" "book_inv s acc dropped" and s0: "emptied s g s0" and idle: "gn_in_flight g = []"
    and s1: "shutdown_generation env g s0 = Inr s1"
  shows "gap s1 acc dropped"
proof -
  note facts = emptied_facts[OF inv(1) s0]
  have "s1 = s0\<lparr>mr_children := []\<rparr>" using s1 facts(3) by simp
  moreover from this have "books s1 = books s" using facts idle by (simp add: books_def)
  ultimately show ?thesis using inv(2) facts by (simp add: gap_def book_inv_def)
qed

text \<open>A response moves its job from the slot to the answers.\<close>

lemma on_response_jobs:
  assumes "distinct (map fst (gn_in_flight g))"
    and "is_terminal r \<longrightarrow> map_of (gn_in_flight g) (response_id r) = Some (terminal_kind r)"
  shows "mset (gn_in_flight (on_response r g)) + mset (answers [r]) = mset (gn_in_flight g)"
  using assms mset_delete[of "gn_in_flight g" "response_id r" "terminal_kind r"] by (auto simp: on_response_def)

lemma inbound_inv:
  assumes inv: "router_inv s acc dropped" and sound: "event_sound acc s (Inbound m)" and step: "handle_inbound env m s = Inr s'"
  shows "router_inv s' (acc @ accepted (Inbound m) s) dropped"
proof (cases "mr_shutting_down s")
  case True
  then show ?thesis using assms by (simp add: handle_inbound_def accepted_def)
next
  case False
  note up = this
  show ?thesis
  proof (cases "mr_current s")
    case None
    then have "s' = s\<lparr>mr_pending := mr_pending s @ [m]\<rparr>" "mr_draining s \<noteq> None"
      using step up inv by (auto simp: handle_inbound_def slot_inv_def)
    then show ?thesis using inv sound up by (auto simp: slot_inv_def book_inv_def books_def accepted_def)
  next
    case (Some g)
    have "message_id m \<notin> fst ` set (slot_jobs (mr_current s))" using book_ids(2)[of s acc dropped] inv sound by auto
    moreover have "send_to_current env m s = Inr s'" using step up Some by (simp add: handle_inbound_def)
    ultimately obtain cur out where
      eff: "s' = s\<lparr>mr_current := cur, mr_stdout := mr_stdout s @ out\<rparr>" "slot_ids cur = slot_ids (mr_current s)"
        "mset (slot_jobs cur) + mset (answers out) = add_mset (job m) (mset (slot_jobs (mr_current s)))"
      using send_to_current_effect by blast
    have "cur \<noteq> None" "mr_draining s = None" using eff(2) Some inv by (cases cur; simp add: slot_inv_def)+
    then have "slot_inv s'" using inv eff(1,2) Some by (simp add: slot_inv_def)
    moreover have "books s' = add_mset (job m) (books s)" using eff(1,3) Some by (simp add: books_def union_ac)
    ultimately show ?thesis using inv sound up eff(1) by (auto simp: book_inv_def accepted_def)
  qed
qed

lemma response_inv:
  assumes inv: "router_inv s acc dropped" and sound: "event_sound acc s (Response i r)"
    and step: "handle_response env i r s = Inr s'"
  shows "router_inv s' acc dropped"
proof -
  consider (current) g where "mr_current s = Some g" "gn_id g = i" | (draining) g where "\<not> is_generation i (mr_current s)"
      "mr_draining s = Some g" "gn_id g = i"
    | (stale) "\<not> is_generation i (mr_current s)" "\<not> is_generation i (mr_draining s)"
    by (auto simp: is_generation_iff)
  then show ?thesis
  proof cases
    case (current g)
    then have s': "s' = s\<lparr>mr_current := Some (on_response r g), mr_stdout := mr_stdout s @ [r]\<rparr>"
      using step by (auto simp: handle_response_def is_generation_iff)
    have "mset (gn_in_flight (on_response r g)) + mset (answers [r]) = mset (gn_in_flight g)"
      using book_ids(1)[of s acc dropped] inv sound current by (intro on_response_jobs) (auto simp: is_generation_iff)
    then have "books s' = books s" using s' current by (simp add: books_def union_ac)
    then show ?thesis using s' inv current
      by (auto simp: slot_inv_def book_inv_def on_response_def)
  next
    case (draining g)
    define s1 where "s1 = s\<lparr>mr_draining := Some (on_response r g), mr_stdout := mr_stdout s @ [r]\<rparr>"
    have "mset (gn_in_flight (on_response r g)) + mset (answers [r]) = mset (gn_in_flight g)"
      using book_ids(1)[of s acc dropped] inv sound draining by (intro on_response_jobs) (auto simp: is_generation_iff)
    then have "books s1 = books s" using draining by (simp add: s1_def books_def union_ac)
    then have book: "book_inv s1 acc dropped" using inv by (simp add: s1_def book_inv_def)
    have none: "mr_current s = None" "mr_children s = [i]" using inv draining by (auto simp: slot_inv_def)
    show ?thesis
    proof (cases "gn_in_flight (on_response r g) = []")
      case True
      then obtain s2 where s2: "shutdown_generation env (on_response r g) (s1\<lparr>mr_draining := None\<rparr>) = Inr s2"
          "complete_drain env s2 = Inr s'"
        using step draining none by (auto simp: handle_response_def s1_def bind_result_Inr_iff in_flight_len_def)
      have "gap s2 acc dropped"
        using s2(1) none book True draining(3) by (simp add: gap_def book_inv_def books_def s1_def on_response_def)
      then show ?thesis using complete_drain_inv s2(2) by blast
    next
      case False
      then have "s' = s1" using step draining none
        by (auto simp: handle_response_def s1_def bind_result_Inr_iff in_flight_len_def)
      then show ?thesis using book inv draining False by (auto simp: slot_inv_def s1_def on_response_def)
    qed
  next
    case stale
    then show ?thesis using step inv by (simp add: handle_response_def)
  qed
qed

lemma stdout_closed_inv:
  assumes inv: "router_inv s acc dropped" and step: "handle_stdout_closed env i s = Inr s'"
  shows "router_inv s' acc dropped"
proof -
  consider (current) g where "mr_current s = Some g" "gn_id g = i" | (draining) g where "\<not> is_generation i (mr_current s)"
      "mr_draining s = Some g" "gn_id g = i"
    | (stale) "\<not> is_generation i (mr_current s)" "\<not> is_generation i (mr_draining s)"
    by (auto simp: is_generation_iff)
  then show ?thesis
  proof cases
    case (current g)
    then obtain s1 s2 where s12: "synthesize_terminals_for env g (s\<lparr>mr_current := None\<rparr>) = Inr s1"
        "shutdown_generation env g s1 = Inr s2"
        and s': "(if mr_shutting_down s then Inr s2 else spawn_current env (throttle_restart env s2)) = Inr s'"
      using step by (auto simp: handle_stdout_closed_def bind_result_Inr_iff)
    have "emptied s g (s\<lparr>mr_current := None\<rparr>)" using current by (simp add: emptied_def)
    note gap = reap_gap[OF inv this s12]
    have "mr_pending s = []" using inv current by (auto simp: slot_inv_def)
    then show ?thesis using gap s' spawn_inv[of s2 acc dropped env s']
      by (auto simp: slot_inv_def gap_def split: if_splits)
  next
    case (draining g)
    then obtain s1 s2 where s12: "synthesize_terminals_for env g (s\<lparr>mr_draining := None\<rparr>) = Inr s1"
        "shutdown_generation env g s1 = Inr s2" and s': "complete_drain env s2 = Inr s'"
      using step by (auto simp: handle_stdout_closed_def bind_result_Inr_iff)
    have "emptied s g (s\<lparr>mr_draining := None\<rparr>)" using draining by (simp add: emptied_def)
    from reap_gap[OF inv this s12] s' show ?thesis using complete_drain_inv by blast
  next
    case stale
    then show ?thesis using step inv by (simp add: handle_stdout_closed_def)
  qed
qed

lemma restart_inv:
  assumes inv: "router_inv s acc dropped" and step: "restart env s = Inr s'"
  shows "router_inv s' acc dropped"
proof (cases "\<not> mr_shutting_down s \<and> mr_draining s = None \<and> mr_current s \<noteq> None")
  case False
  then have "s' = s" using step by (auto simp: restart_def split: if_splits)
  then show ?thesis using inv by simp
next
  case True
  then obtain old where old: "\<not> mr_shutting_down s" "mr_draining s = None" "mr_current s = Some old" by auto
  show ?thesis
  proof (cases "gn_in_flight old = []")
    case True
    then obtain s1 where s1: "shutdown_generation env old (s\<lparr>mr_current := None\<rparr>) = Inr s1" "complete_drain env s1 = Inr s'"
      using step old by (auto simp: restart_def in_flight_len_def bind_result_Inr_iff)
    have "emptied s old (s\<lparr>mr_current := None\<rparr>)" using old by (simp add: emptied_def)
    from idle_gap[OF _ _ this True s1(1)] inv s1(2) show ?thesis using complete_drain_inv by blast
  next
    case False
    then have "s' = schedule (DrainTimeout (gn_id old)) (s\<lparr>mr_current := None, mr_draining := Some old\<rparr>)"
      using step old by (simp add: restart_def in_flight_len_def)
    then show ?thesis using inv old False by (auto simp: slot_inv_def book_inv_def books_def schedule_def)
  qed
qed

lemma drain_timeout_inv:
  assumes inv: "router_inv s acc dropped" and step: "handle_drain_timeout env i s = Inr s'"
  shows "router_inv s' acc dropped"
proof (cases "is_generation i (mr_draining s)")
  case False
  then show ?thesis using step inv by (simp add: handle_drain_timeout_def)
next
  case True
  then obtain g where g: "mr_draining s = Some g" "gn_id g = i" by (auto simp: is_generation_iff)
  then obtain s1 s2 where s12: "synthesize_terminals_for env g (s\<lparr>mr_draining := None\<rparr>) = Inr s1"
      "shutdown_generation env g s1 = Inr s2" and s': "complete_drain env s2 = Inr s'"
    using step by (auto simp: handle_drain_timeout_def bind_result_Inr_iff)
  have "emptied s g (s\<lparr>mr_draining := None\<rparr>)" using g by (simp add: emptied_def)
  from reap_gap[OF inv this s12] s' show ?thesis using complete_drain_inv by blast
qed

lemma shutdown_all_inv:
  assumes "router_inv s acc dropped"
  shows "router_inv (handle_shutdown_all s) acc dropped"
proof (cases "mr_shutting_down s")
  case False
  then show ?thesis using assms
    by (cases "mr_current s") (auto simp: handle_shutdown_all_def slot_inv_def book_inv_def books_def schedule_def close_stdin_def)
qed (use assms in \<open>simp add: handle_shutdown_all_def\<close>)

text \<open>The forced end fails what is in flight and throws away what is queued.\<close>

lemma reap_slot_Inr:
  "reap_slot env slot s = Inr s' \<Longrightarrow>
   s' = s\<lparr>mr_stdout := mr_stdout s @ map (\<lambda>(i, k). failed_send_response i k) (slot_jobs slot),
          mr_children := filter (\<lambda>i. i \<notin> set (slot_ids slot)) (mr_children s)\<rparr>"
proof (cases slot)
  case (Some g)
  assume "reap_slot env slot s = Inr s'"
  moreover have "filter (\<lambda>i. i \<noteq> gn_id g) is = removeAll (gn_id g) is" for "is" by (induction "is") auto
  ultimately show ?thesis
    using Some by (auto simp: reap_slot_def bind_result_Inr_iff dest!: synthesize_terminals_Inr)
qed (simp add: reap_slot_def)

lemma shutdown_timeout_Inr:
  assumes "handle_shutdown_timeout env s = Inr s'"
  shows "s' = s\<lparr>mr_current := None, mr_draining := None, mr_pending := [],
      mr_stdout := mr_stdout s @ map (\<lambda>(i, k). failed_send_response i k) (slot_jobs (mr_current s)) @
        map (\<lambda>(i, k). failed_send_response i k) (slot_jobs (mr_draining s)),
      mr_children := filter (\<lambda>i. i \<notin> set (slot_ids (mr_current s)) \<and> i \<notin> set (slot_ids (mr_draining s))) (mr_children s)\<rparr>"
proof -
  from assms obtain s1 s2 where "reap_slot env (mr_current s) (s\<lparr>mr_current := None\<rparr>) = Inr s1"
      "reap_slot env (mr_draining s1) (s1\<lparr>mr_draining := None\<rparr>) = Inr s2" "s' = s2\<lparr>mr_pending := []\<rparr>"
    by (auto simp: handle_shutdown_timeout_def bind_result_Inr_iff)
  from this(3) reap_slot_Inr[OF this(1)] reap_slot_Inr[OF this(2)] show ?thesis by (simp add: conj_commute)
qed

lemma shutdown_timeout_inv:
  assumes inv: "router_inv s acc dropped" and sound: "ShutdownTimeout \<in> set (mr_timers s)"
    and step: "handle_shutdown_timeout env s = Inr s'"
  shows "router_inv s' acc (dropped @ mr_pending s) \<and> should_stop s'"
  using shutdown_timeout_Inr[OF step] inv sound
  by (auto simp: slot_inv_def book_inv_def books_def should_stop_def union_ac)

lemma handle_event_inv:
  assumes "router_inv s acc dropped" and "event_sound acc s ev" and "handle_event env ev s = Inr s'"
  shows "router_inv s' (acc @ accepted ev s) (dropped @ discarded ev s)"
  using assms inbound_inv[of s acc dropped _ env s'] response_inv[of s acc dropped _ _ env s'] stdout_closed_inv[of s acc dropped env _ s']
    restart_inv[of s acc dropped env s'] drain_timeout_inv[of s acc dropped env _ s'] shutdown_all_inv[of s acc dropped]
    shutdown_timeout_inv[of s acc dropped env s']
  by (cases ev) (auto simp: accepted_def discarded_def)

theorem router_reachable_inv: "router_trace s acc dropped \<Longrightarrow> router_inv s acc dropped"
proof (induction rule: router_trace.induct)
  case (trace_start env command s)
  then show ?case
    by (auto simp: router_new_def generation_new_def bind_result_Inr_iff slot_inv_def book_inv_def books_def)
next
  case (trace_step s acc dropped ev env s')
  then show ?case using handle_event_inv by blast
qed

section \<open>Nothing hangs\<close>

text \<open>An environment in which the operating system refuses nothing but messages to a worker.\<close>

definition calm :: "RouterEnv \<Rightarrow> bool" where
  "calm env \<longleftrightarrow> rv_spawn env = (\<lambda>_. None) \<and> rv_shutdown env = (\<lambda>_. None) \<and> rv_write env = (\<lambda>_. None)"

lemma calm_synthesize: "calm env \<Longrightarrow> \<exists>s'. synthesize_loop env js s = Inr s'"
  by (induction js arbitrary: s) (auto simp: calm_def synthesize_terminal_for_failed_send_def write_response_def)

lemma calm_send_to_current: "calm env \<Longrightarrow> \<exists>s'. send_to_current env m s = Inr s'"
  by (auto simp: calm_def send_to_current_def synthesize_terminal_for_failed_send_def write_response_def
      split: option.split sum.split)

lemma calm_send_all: "calm env \<Longrightarrow> \<exists>s'. send_all env ms s = Inr s'"
proof (induction ms arbitrary: s)
  case (Cons m ms)
  obtain s1 where "send_to_current env m s = Inr s1" using calm_send_to_current Cons.prems by blast
  then show ?case using Cons by simp
qed simp

lemma calm_complete_drain: "calm env \<Longrightarrow> \<exists>s'. complete_drain env s = Inr s'"
proof -
  assume calm: "calm env"
  then obtain s1 where "spawn_current env (throttle_restart env s) = Inr s1"
    by (simp add: spawn_current_def generation_new_def calm_def)
  moreover obtain s2 where "send_all env (mr_pending s1) (s1\<lparr>mr_pending := []\<rparr>) = Inr s2"
    using calm_send_all[OF calm] by blast
  ultimately show ?thesis by (simp add: complete_drain_def)
qed

lemma send_to_current_frame:
  "send_to_current env m s = Inr s' \<Longrightarrow> mr_pending s' = mr_pending s \<and> mr_draining s' = mr_draining s"
  by (auto simp: send_to_current_def synthesize_terminal_for_failed_send_def split: option.splits sum.splits)

lemma send_all_frame:
  "send_all env ms s = Inr s' \<Longrightarrow> mr_pending s' = mr_pending s \<and> mr_draining s' = mr_draining s"
  by (induction ms arbitrary: s) (auto simp: bind_result_Inr_iff dest!: send_to_current_frame)

lemma complete_drain_frame:
  "complete_drain env s = Inr s' \<Longrightarrow> mr_pending s' = [] \<and> mr_draining s' = mr_draining s"
  by (auto simp: complete_drain_def bind_result_Inr_iff split: if_splits dest!: spawn_current_Inr send_all_frame)

lemma calm_drain_timeout:
  assumes "calm env" and "mr_draining s = Some d"
  shows "\<exists>s'. handle_drain_timeout env (gn_id d) s = Inr s' \<and> mr_draining s' = None \<and> mr_pending s' = []"
proof -
  obtain s1 where s1: "synthesize_terminals_for env d (s\<lparr>mr_draining := None\<rparr>) = Inr s1"
    using calm_synthesize[OF assms(1)] by (auto simp: synthesize_terminals_for_def)
  let ?s2 = "s1\<lparr>mr_children := removeAll (gn_id d) (mr_children s1)\<rparr>"
  have s2: "shutdown_generation env d s1 = Inr ?s2" using assms(1) by (simp add: calm_def)
  obtain s' where s': "complete_drain env ?s2 = Inr s'" using calm_complete_drain[OF assms(1)] by blast
  have "mr_draining s1 = None" using synthesize_terminals_Inr[OF s1] by simp
  then show ?thesis using assms(2) s1 s2 s' complete_drain_frame[OF s']
    by (simp add: handle_drain_timeout_def shutdown_generation_def)
qed

lemma calm_reap_slot: "calm env \<Longrightarrow> \<exists>s'. reap_slot env slot s = Inr s'"
proof (cases slot)
  case (Some g)
  assume "calm env"
  moreover from calm_synthesize[OF this] obtain s1 where "synthesize_terminals_for env g s = Inr s1"
    by (auto simp: synthesize_terminals_for_def)
  ultimately show ?thesis using Some by (simp add: reap_slot_def calm_def shutdown_generation_def)
qed (simp add: reap_slot_def)

lemma calm_shutdown_timeout: "calm env \<Longrightarrow> \<exists>s'. handle_shutdown_timeout env s = Inr s'"
proof -
  assume calm: "calm env"
  obtain s1 where s1: "reap_slot env (mr_current s) (s\<lparr>mr_current := None\<rparr>) = Inr s1" using calm_reap_slot[OF calm] by blast
  obtain s2 where "reap_slot env (mr_draining s1) (s1\<lparr>mr_draining := None\<rparr>) = Inr s2" using calm_reap_slot[OF calm] by blast
  with s1 show ?thesis by (simp add: handle_shutdown_timeout_def)
qed

section \<open>The rate of restarts\<close>

text \<open>The times of all restarts so far. Each throttled restart begins after the one before it is done.\<close>

inductive throttled :: "MessageRouter \<Rightarrow> nat list \<Rightarrow> bool" where
  throttled_start: "mr_restarts s = [] \<Longrightarrow> throttled s []"
| throttled_step: "throttled s ts \<Longrightarrow> (\<forall>t \<in> set ts. t \<le> rv_now env) \<Longrightarrow>
    throttled (throttle_restart env s) (ts @ [last (mr_restarts (throttle_restart env s))])"

definition spaced :: "nat list \<Rightarrow> bool" where
  "spaced ts \<longleftrightarrow> (\<forall>i. RESTART_BURST \<le> i \<longrightarrow> i < length ts \<longrightarrow> ts ! i \<le> ts ! (i - RESTART_BURST) + RESTART_WINDOW \<longrightarrow>
     ts ! i \<ge> ts ! (i - 1) + RESTART_BACKOFF)"

lemma dropWhile_split: "\<exists>old. xs = old @ dropWhile P xs \<and> (\<forall>x \<in> set old. P x)"
  by (metis set_takeWhileD takeWhile_dropWhile_id)

lemma throttled_inv:
  assumes "throttled s ts"
  shows "spaced ts \<and> (\<exists>old. ts = old @ mr_restarts s \<and> (\<forall>t \<in> set old. last ts - t > RESTART_WINDOW))"
  using assms
proof (induction rule: throttled.induct)
  case (throttled_start s)
  then show ?case by (simp add: spaced_def)
next
  case (throttled_step s ts env)
  let ?now = "rv_now env" and ?kept = "dropWhile (\<lambda>t. rv_now env - t > RESTART_WINDOW) (mr_restarts s)"
  define n where "n = ?now + (if length ?kept \<ge> RESTART_BURST then RESTART_BACKOFF else 0) + rv_delay env"
  have restarts: "mr_restarts (throttle_restart env s) = ?kept @ [n]" by (simp add: throttle_restart_def n_def Let_def)
  obtain old where old: "ts = old @ mr_restarts s" "\<forall>t \<in> set old. last ts - t > RESTART_WINDOW" using throttled_step.IH by blast
  obtain gone where gone: "mr_restarts s = gone @ ?kept" "\<forall>t \<in> set gone. ?now - t > RESTART_WINDOW"
    using dropWhile_split[of "mr_restarts s" "\<lambda>t. ?now - t > RESTART_WINDOW"] by blast
  have split: "ts = (old @ gone) @ ?kept" using old(1) gone(1) by simp
  have late: "?now - t > RESTART_WINDOW" if "t \<in> set (old @ gone)" for t
  proof (cases "t \<in> set old")
    case True
    then have "last ts \<in> set ts" using old(1) by (intro last_in_set) auto
    then have "last ts \<le> ?now" using throttled_step.hyps(2) by blast
    then show ?thesis using old(2) True by fastforce
  qed (use that gone(2) in auto)
  have "n \<ge> ts ! (length ts - 1) + RESTART_BACKOFF"
    if "RESTART_BURST \<le> length ts" "n \<le> ts ! (length ts - RESTART_BURST) + RESTART_WINDOW"
  proof -
    have "length ?kept \<ge> RESTART_BURST"
    proof (rule ccontr)
      assume "\<not> length ?kept \<ge> RESTART_BURST"
      moreover have "length ts = length (old @ gone) + length ?kept" using arg_cong[OF split, of length] by simp
      ultimately have less: "length ts - RESTART_BURST < length (old @ gone)" using that(1) by linarith
      then have "ts ! (length ts - RESTART_BURST) \<in> set (old @ gone)"
        using split nth_append nth_mem by metis
      then show False using late that(2) by (fastforce simp: n_def)
    qed
    then have "n \<ge> ?now + RESTART_BACKOFF" by (simp add: n_def)
    moreover have "ts ! (length ts - 1) \<in> set ts" using that(1) by (intro nth_mem) (simp add: RESTART_BURST_def)
    ultimately show ?thesis using throttled_step.hyps(2) by fastforce
  qed
  moreover have "spaced ts" using throttled_step.IH by blast
  ultimately have "spaced (ts @ [n])"
    by (auto simp: spaced_def nth_append RESTART_BURST_def less_Suc_eq)
  moreover have "\<forall>t \<in> set (old @ gone). n - t > RESTART_WINDOW" using late by (fastforce simp: n_def)
  moreover have "ts @ [n] = (old @ gone) @ ?kept @ [n]" using split by simp
  ultimately show ?case unfolding restarts last_snoc by (intro conjI exI[of _ "old @ gone"]) assumption+
qed

text \<open>After the first burst, the restarts of one window are each a back-off apart.\<close>

lemma spaced_climb:
  assumes sp: "spaced ts" and len: "i + RESTART_BURST + k < length ts" and sorted: "sorted ts"
    and win: "ts ! (i + RESTART_BURST + k) \<le> ts ! i + RESTART_WINDOW"
  shows "ts ! (i + RESTART_BURST + k) \<ge> ts ! i + RESTART_BACKOFF * (k + 1)"
  using len win
proof (induction k)
  case 0
  have "ts ! i \<le> ts ! (i + RESTART_BURST - 1)" using 0(1) sorted by (intro sorted_nth_mono) (auto simp: RESTART_BURST_def)
  moreover have "ts ! (i + RESTART_BURST) \<ge> ts ! (i + RESTART_BURST - 1) + RESTART_BACKOFF" using sp 0 by (simp add: spaced_def)
  ultimately show ?case by simp
next
  case (Suc k)
  have mono: "ts ! a \<le> ts ! b" if "a \<le> b" "b < length ts" for a b using sorted that by (intro sorted_nth_mono)
  have "ts ! (i + RESTART_BURST + k) \<le> ts ! (i + RESTART_BURST + Suc k)" using Suc.prems(1) by (intro mono) auto
  then have "ts ! (i + RESTART_BURST + k) \<ge> ts ! i + RESTART_BACKOFF * (k + 1)" using Suc by simp
  moreover have "ts ! (i + RESTART_BURST + Suc k) \<ge> ts ! (i + RESTART_BURST + k) + RESTART_BACKOFF"
  proof -
    have "i + RESTART_BURST + Suc k - RESTART_BURST = i + Suc k" by simp
    moreover have "ts ! i \<le> ts ! (i + Suc k)" using Suc.prems(1) by (intro mono) auto
    ultimately show ?thesis
      using sp[unfolded spaced_def, rule_format, of "i + RESTART_BURST + Suc k"] Suc.prems by simp
  qed
  ultimately show ?case by simp
qed

lemma throttled_sorted: "throttled s ts \<Longrightarrow> sorted ts"
  by (induction rule: throttled.induct) (force simp: sorted_append throttle_restart_def Let_def)+

section \<open>An example\<close>

definition example_calm :: RouterEnv where
  "example_calm = \<lparr>rv_spawn = \<lambda>_. None, rv_encode = \<lambda>_. None, rv_send = \<lambda>_ _. None, rv_shutdown = \<lambda>_. None,
     rv_write = \<lambda>_. None, rv_now = 0, rv_delay = 0\<rparr>"

definition example_job :: "string \<Rightarrow> WorkerMessage" where
  "example_job i = RunMessage (worker_request_new i ''build'')"

definition example_busy :: MessageRouter where
  "example_busy = \<lparr>mr_current = None,
     mr_draining = Some \<lparr>gn_id = 0, gn_command = [''w''], gn_stdin_open = True, gn_in_flight = [(''a'', RunKind)]\<rparr>,
     mr_pending = [example_job ''b''], mr_next_gen_id = 1, mr_command = [''w''], mr_stdout = [],
     mr_shutting_down = False, mr_restarts = [], mr_children = [0], mr_timers = [DrainTimeout 0]\<rparr>"

text \<open>One job is running when the worker's files change; another arrives while the old worker drains.\<close>

lemma example_busy_trace: "router_trace example_busy [example_job ''a'', example_job ''b''] []"
proof -
  let ?s0 = "\<lparr>mr_current = Some \<lparr>gn_id = 0, gn_command = [''w''], gn_stdin_open = True, gn_in_flight = []\<rparr>, mr_draining = None,
    mr_pending = [], mr_next_gen_id = 1, mr_command = [''w''], mr_stdout = [], mr_shutting_down = False, mr_restarts = [],
    mr_children = [0], mr_timers = []\<rparr>"
  let ?s1 = "?s0\<lparr>mr_current := Some \<lparr>gn_id = 0, gn_command = [''w''], gn_stdin_open = True, gn_in_flight = [(''a'', RunKind)]\<rparr>\<rparr>"
  let ?s2 = "?s1\<lparr>mr_current := None, mr_draining := mr_current ?s1, mr_timers := [DrainTimeout 0]\<rparr>"
  have t0: "router_trace ?s0 [] []"
    by (rule trace_start[of example_calm "[''w'']"]) (simp add: router_new_def generation_new_def example_calm_def)
  have "handle_event example_calm (Inbound (example_job ''a'')) ?s0 = Inr ?s1"
    by (simp add: handle_inbound_def send_to_current_def generation_send_def send_line_def example_calm_def example_job_def
        worker_request_new_def)
  from trace_step[OF t0 _ _ this] have t1: "router_trace ?s1 [example_job ''a''] []"
    by (simp add: should_stop_def accepted_def discarded_def)
  have "handle_event example_calm FileChanged ?s1 = Inr ?s2"
    by (simp add: restart_def in_flight_len_def schedule_def)
  from trace_step[OF t1 _ _ this] have t2: "router_trace ?s2 [example_job ''a''] []"
    by (simp add: should_stop_def accepted_def discarded_def)
  have "handle_event example_calm (Inbound (example_job ''b'')) ?s2 = Inr example_busy"
    by (simp add: handle_inbound_def example_busy_def)
  from trace_step[OF t2 _ _ this] show ?thesis
    by (simp add: should_stop_def accepted_def discarded_def example_job_def worker_request_new_def)
qed

text \<open>A restart every twenty seconds.\<close>

lemma example_restarts:
  "\<exists>s. throttled s (map ((*) 20000) [0..<n]) \<and> mr_restarts s = (if n = 0 then [] else [20000 * (n - 1)])"
proof (induction n)
  case 0
  have "throttled (example_busy\<lparr>mr_restarts := []\<rparr>) []" by (rule throttled_start) simp
  then show ?case by force
next
  case (Suc n)
  then obtain s where s: "throttled s (map ((*) 20000) [0..<n])" "mr_restarts s = (if n = 0 then [] else [20000 * (n - 1)])" by blast
  let ?env = "example_calm\<lparr>rv_now := 20000 * n\<rparr>"
  have restarts: "mr_restarts (throttle_restart ?env s) = [20000 * n]"
    using s(2) by (cases n) (simp_all add: throttle_restart_def RESTART_WINDOW_def RESTART_BURST_def example_calm_def)
  have "throttled (throttle_restart ?env s) (map ((*) 20000) [0..<n] @ [last (mr_restarts (throttle_restart ?env s))])"
    by (rule throttled_step[OF s(1)]) auto
  then show ?case using restarts by (intro exI[of _ "throttle_restart ?env s"]) simp
qed

section \<open>Properties\<close>



text \<open>C29: No job is lost and none is answered twice. If the engine uses a new id per message and a worker ends only jobs it
  has in flight, then through restarts, crashes, failed sends and timeouts every accepted job is at one place: queued, in flight,
  answered by a message of its kind, or thrown away when the shutdown was forced. When the router stops, all
  the others have been answered exactly once.\<close>

theorem router_jobs_conserved:
  assumes "router_trace s acc dropped"
  shows "mset (map job acc) = mset (map job (mr_pending s)) + mset (slot_jobs (mr_current s)) + mset (slot_jobs (mr_draining s)) +
      mset (answers (mr_stdout s)) + mset (map job dropped) \<and>
    distinct (map fst (answers (mr_stdout s))) \<and>
    (should_stop s \<longrightarrow> mset (map job acc) = mset (answers (mr_stdout s)) + mset (map job dropped)) \<and>
    (dropped \<noteq> [] \<longrightarrow> mr_shutting_down s)"
  using router_reachable_inv[OF assms] book_ids(1)[of s acc dropped]
  by (auto simp: book_inv_def books_def should_stop_def)

theorem router_jobs_conserved_witness:
  "mset (map job [example_job ''a'', example_job ''b'']) =
   mset (map job (mr_pending example_busy)) + mset (slot_jobs (mr_draining example_busy))"
  using router_jobs_conserved[OF example_busy_trace] by (simp add: example_busy_def)



text \<open>C32: The restarts are limited in rate: any nineteen restarts in a row, the burst of eight and one per back-off for the rest of
  the window and one more, take longer than the window of ten seconds.\<close>

theorem restart_rate_bounded:
  assumes "throttled s ts" and "i + (RESTART_BURST + RESTART_WINDOW div RESTART_BACKOFF) < length ts"
  shows "ts ! (i + (RESTART_BURST + RESTART_WINDOW div RESTART_BACKOFF)) > ts ! i + RESTART_WINDOW"
proof (rule ccontr)
  assume "\<not> ?thesis"
  then have "ts ! (i + RESTART_BURST + RESTART_WINDOW div RESTART_BACKOFF) \<le> ts ! i + RESTART_WINDOW" by (simp add: ac_simps)
  moreover from this have "ts ! (i + RESTART_BURST + RESTART_WINDOW div RESTART_BACKOFF) \<ge>
      ts ! i + RESTART_BACKOFF * (RESTART_WINDOW div RESTART_BACKOFF + 1)"
    using assms(2) throttled_inv[OF assms(1)] throttled_sorted[OF assms(1)] by (intro spaced_climb) (simp_all add: ac_simps)
  ultimately show False by (simp add: RESTART_BACKOFF_def RESTART_WINDOW_def)
qed

theorem restart_rate_bounded_witness:
  "\<exists>s. throttled s (map ((*) 20000) [0..<19]) \<and> map ((*) 20000) [0..<19] ! 18 > map ((*) 20000) [0..<19] ! 0 + RESTART_WINDOW"
proof -
  obtain s where s: "throttled s (map ((*) 20000) [0..<19])" using example_restarts by blast
  have "RESTART_BURST + RESTART_WINDOW div RESTART_BACKOFF = 18"
    by (simp add: RESTART_BURST_def RESTART_WINDOW_def RESTART_BACKOFF_def)
  with restart_rate_bounded[OF s, of 0] s show ?thesis by auto
qed

text \<open>A job that is queued behind a drain when the shutdown is forced gets no answer, although the running one is failed.\<close>

lemma queued_job_unanswered:
  "map_sum id (\<lambda>s. (should_stop s, answers (mr_stdout s)))
     (router_loop [(example_calm, ShutdownAll), (example_calm, ShutdownTimeout)] example_busy) = Inr (True, [(''a'', RunKind)])"
  by (simp add: example_busy_def handle_shutdown_all_def schedule_def should_stop_def handle_shutdown_timeout_def reap_slot_def
      synthesize_terminals_for_def drain_in_flight_def synthesize_terminal_for_failed_send_def write_response_def
      shutdown_generation_def example_calm_def)

end
