(* ===== verification/Lockfiles.thy ===== *)
theory Lockfiles
  imports Prelude
begin

text \<open>
  Lockfiles, \<open>crates/luchta-lockfiles/src/\<close> (\<open>lib.rs\<close>, \<open>yarn_berry.rs\<close>, \<open>yarn1.rs\<close>) and their loading in
  \<open>crates/luchta-cli/src/cache_ctx.rs\<close>: the trait with its transitive closure, and the two formats. The trait object is
  the record of its two required methods; the provided method is a definition over it. The YAML and the Yarn 1 parser
  are third-party crates: the fields of \<open>lockfile_parsers\<close> give the parsed document.
\<close>

section \<open>The trait\<close>

record Package =
  pk_key :: string
  pk_version :: string
  pk_lock_identity :: string

definition package_new :: "string \<Rightarrow> string \<Rightarrow> Package" where
  "package_new key version = \<lparr>pk_key = key, pk_version = version, pk_lock_identity = version\<rparr>"

datatype LockfileError = LockParse string | InvalidPackageReference string

fun lockfile_error_to_string :: "LockfileError \<Rightarrow> string" where
  "lockfile_error_to_string (LockParse e) = ''failed to parse lockfile: '' @ e"
| "lockfile_error_to_string (InvalidPackageReference e) = ''invalid package reference: '' @ e"

record Lockfile =
  lf_resolve_package :: "string \<Rightarrow> string \<Rightarrow> string \<Rightarrow> LockfileError + Package option"
  lf_all_dependencies :: "string \<Rightarrow> LockfileError + (string \<times> string) list"

text \<open>The state of \<open>transitive_dependencies\<close>: the pairs found, the keys expanded, the queue. One iteration ends the
  loop with a result or gives the next state; nothing in the trait bounds the loop, which may also not return.\<close>

type_synonym closure_state = "(string \<times> string) set \<times> string set \<times> (string \<times> string) list"
type_synonym closure_result = "LockfileError + (string \<times> string) set"

fun closure_step :: "Lockfile \<Rightarrow> closure_state \<Rightarrow> closure_result + closure_state" where
  "closure_step lf (dependencies, visited, []) = Inl (Inr dependencies)"
| "closure_step lf (dependencies, visited, (dependency_name, dependency_range) # pending) =
     (case lf_resolve_package lf [] dependency_name dependency_range of
        Inl e \<Rightarrow> Inl (Inl e)
      | Inr None \<Rightarrow> Inr (dependencies, visited, pending)
      | Inr (Some package) \<Rightarrow>
          let dependencies' = insert (dependency_name, pk_lock_identity package) dependencies in
          if pk_key package \<in> visited then Inr (dependencies', visited, pending)
          else case lf_all_dependencies lf (pk_key package) of
                 Inl e \<Rightarrow> Inl (Inl e)
               | Inr ds \<Rightarrow> Inr (dependencies', insert (pk_key package) visited, pending @ ds))"

partial_function (option) closure_loop :: "Lockfile \<Rightarrow> closure_state \<Rightarrow> closure_result option" where
  "closure_loop lf state =
     (case closure_step lf state of Inl result \<Rightarrow> Some result | Inr state' \<Rightarrow> closure_loop lf state')"

declare closure_loop.simps [code]

definition transitive_dependencies :: "Lockfile \<Rightarrow> string \<Rightarrow> closure_result option" where
  "transitive_dependencies lf key =
     (case lf_all_dependencies lf key of Inl e \<Rightarrow> Some (Inl e) | Inr ds \<Rightarrow> closure_loop lf ({}, {}, ds))"

section \<open>Yarn Berry\<close>

record YarnBerryEntry =
  be_version :: string
  be_lock_identity :: string
  be_dependencies :: "(string \<times> string) list"

record YarnBerryRawEntry =
  br_version :: string
  br_resolution :: "string option"
  br_checksum :: "string option"
  br_dependencies :: "(string \<times> string) list"

datatype YamlKey = YamlString string | YamlOther

record Yarn1Parsed =
  y1_name :: string
  y1_version :: string
  y1_resolved :: string
  y1_integrity :: string
  y1_dependencies :: "(string \<times> string) list"
  y1_descriptors :: "(string \<times> string) list"

text \<open>A YAML mapping keeps its order; its values are read as the metadata block or as a package entry.\<close>

record 'v lockfile_parsers =
  lp_yaml :: "string \<Rightarrow> string + (YamlKey \<times> 'v) list"
  lp_metadata :: "'v \<Rightarrow> string + unit"
  lp_berry_entry :: "'v \<Rightarrow> string + YarnBerryRawEntry"
  lp_yarn1 :: "string \<Rightarrow> string + Yarn1Parsed list"

type_synonym YarnBerryLockfile = "(string, YarnBerryEntry) hmap"

fun opt_suffix :: "string \<Rightarrow> string option \<Rightarrow> string" where
  "opt_suffix label None = []"
| "opt_suffix label (Some v) = label @ v"

definition berry_entry :: "YarnBerryRawEntry \<Rightarrow> YarnBerryEntry" where
  "berry_entry raw =
     \<lparr>be_version = br_version raw,
      be_lock_identity = br_version raw @ opt_suffix '' resolution='' (br_resolution raw) @
        opt_suffix '' checksum='' (br_checksum raw),
      be_dependencies = br_dependencies raw\<rparr>"

text \<open>\<open>str::split\<close> at a non-empty separator.\<close>

function split_str :: "string \<Rightarrow> string \<Rightarrow> string \<Rightarrow> string list" where
  "split_str sep acc [] = [acc]"
| "split_str sep acc (c # cs) =
     (case strip_prefix sep (c # cs) of
        Some rest \<Rightarrow> (if length rest < length (c # cs) then acc # split_str sep [] rest else [acc @ c # cs])
      | None \<Rightarrow> split_str sep (acc @ [c]) cs)"
  by pat_completeness auto
termination
  by (relation "measure (\<lambda>(sep, acc, s). length s)") auto

fun berry_loop :: "'v lockfile_parsers \<Rightarrow> (YamlKey \<times> 'v) list \<Rightarrow> YarnBerryLockfile \<Rightarrow> LockfileError + YarnBerryLockfile" where
  "berry_loop lp [] entries = Inr entries"
| "berry_loop lp ((YamlOther, value) # document) entries =
     Inl (LockParse ''unexpected non-string key in Yarn Berry lockfile'')"
| "berry_loop lp ((YamlString key, value) # document) entries =
     (if key = ''__metadata'' then berry_loop lp document entries
      else case lp_berry_entry lp value of
        Inl e \<Rightarrow> Inl (LockParse e)
      | Inr raw \<Rightarrow>
          berry_loop lp document
            (fold (\<lambda>descriptor es. AList.update descriptor (berry_entry raw) es) (split_str '', '' [] key) entries))"

definition yarn_berry_parse :: "'v lockfile_parsers \<Rightarrow> string \<Rightarrow> LockfileError + YarnBerryLockfile" where
  "yarn_berry_parse lp content =
     (case lp_yaml lp content of
        Inl e \<Rightarrow> Inl (LockParse e)
      | Inr document \<Rightarrow>
          (case map_of document (YamlString ''__metadata'') of
             None \<Rightarrow> Inl (LockParse ''missing __metadata block'')
           | Some metadata_value \<Rightarrow>
               (case lp_metadata lp metadata_value of
                  Inl e \<Rightarrow> Inl (LockParse e)
                | Inr _ \<Rightarrow> berry_loop lp document [])))"

definition candidate_keys :: "string \<Rightarrow> string \<Rightarrow> string list" where
  "candidate_keys name version =
     (if CHR '':'' \<in> set version then [name @ ''@'' @ version] else [name @ ''@npm:'' @ version, name @ ''@'' @ version])"

fun find_map :: "('a \<Rightarrow> 'b option) \<Rightarrow> 'a list \<Rightarrow> 'b option" where
  "find_map f [] = None"
| "find_map f (x # xs) = (case f x of None \<Rightarrow> find_map f xs | Some y \<Rightarrow> Some y)"

definition berry_resolve_package :: "YarnBerryLockfile \<Rightarrow> string \<Rightarrow> string \<Rightarrow> string \<Rightarrow> LockfileError + Package option" where
  "berry_resolve_package entries workspace_path name version =
     Inr (find_map (\<lambda>key. map_option (\<lambda>entry.
        \<lparr>pk_key = key, pk_version = be_version entry, pk_lock_identity = be_lock_identity entry\<rparr>) (map_of entries key))
        (candidate_keys name version))"

definition berry_all_dependencies :: "YarnBerryLockfile \<Rightarrow> string \<Rightarrow> LockfileError + (string \<times> string) list" where
  "berry_all_dependencies entries key =
     (case map_of entries key of Some entry \<Rightarrow> Inr (be_dependencies entry) | None \<Rightarrow> Inl (InvalidPackageReference key))"

definition berry_lockfile :: "YarnBerryLockfile \<Rightarrow> Lockfile" where
  "berry_lockfile entries =
     \<lparr>lf_resolve_package = berry_resolve_package entries, lf_all_dependencies = berry_all_dependencies entries\<rparr>"

section \<open>Yarn 1\<close>

record Yarn1Entry =
  ye_name :: string
  ye_version :: string
  ye_lock_identity :: string
  ye_dependencies :: "(string \<times> string) list"

type_synonym Yarn1Lockfile = "(string, Yarn1Entry) hmap"

definition yarn1_entry :: "Yarn1Parsed \<Rightarrow> Yarn1Entry" where
  "yarn1_entry entry =
     \<lparr>ye_name = y1_name entry, ye_version = y1_version entry,
      ye_lock_identity = y1_version entry @
        (if y1_resolved entry = [] then [] else '' resolved='' @ y1_resolved entry) @
        (if y1_integrity entry = [] then [] else '' integrity='' @ y1_integrity entry),
      ye_dependencies = btree_collect (y1_dependencies entry)\<rparr>"

definition yarn1_parse :: "'v lockfile_parsers \<Rightarrow> string \<Rightarrow> LockfileError + Yarn1Lockfile" where
  "yarn1_parse lp content =
     (case lp_yarn1 lp content of
        Inl e \<Rightarrow> Inl (LockParse e)
      | Inr parsed \<Rightarrow>
          Inr (fold (\<lambda>entry es. fold (\<lambda>(name, range) es. AList.update (name @ ''@'' @ range) (yarn1_entry entry) es)
                 (y1_descriptors entry) es) parsed []))"

definition yarn1_resolve_package :: "Yarn1Lockfile \<Rightarrow> string \<Rightarrow> string \<Rightarrow> string \<Rightarrow> LockfileError + Package option" where
  "yarn1_resolve_package entries workspace_path name version =
     (let key = name @ ''@'' @ version in
      Inr (map_option (\<lambda>entry. \<lparr>pk_key = key, pk_version = ye_version entry, pk_lock_identity = ye_lock_identity entry\<rparr>)
             (map_of entries key)))"

definition yarn1_all_dependencies :: "Yarn1Lockfile \<Rightarrow> string \<Rightarrow> LockfileError + (string \<times> string) list" where
  "yarn1_all_dependencies entries key =
     (case map_of entries key of Some entry \<Rightarrow> Inr (ye_dependencies entry) | None \<Rightarrow> Inl (InvalidPackageReference key))"

definition yarn1_lockfile :: "Yarn1Lockfile \<Rightarrow> Lockfile" where
  "yarn1_lockfile entries =
     \<lparr>lf_resolve_package = yarn1_resolve_package entries, lf_all_dependencies = yarn1_all_dependencies entries\<rparr>"

section \<open>Loading\<close>

fun contains_str :: "string \<Rightarrow> string \<Rightarrow> bool" where
  "contains_str pat [] \<longleftrightarrow> pat = []"
| "contains_str pat (c # cs) \<longleftrightarrow> strip_prefix pat (c # cs) \<noteq> None \<or> contains_str pat cs"

definition parse_lockfile :: "'v lockfile_parsers \<Rightarrow> string \<Rightarrow> LockfileError + Lockfile" where
  "parse_lockfile lp content =
     (if contains_str ''__metadata:'' content then map_sum id berry_lockfile (yarn_berry_parse lp content)
      else map_sum id yarn1_lockfile (yarn1_parse lp content))"

datatype LockfileState = LockAbsent | LockParsed Lockfile | LockFailed string

definition parse_lockfile_content :: "'v lockfile_parsers \<Rightarrow> string \<Rightarrow> LockfileState" where
  "parse_lockfile_content lp content =
     (if trim content = [] then LockAbsent
      else case parse_lockfile lp content of
        Inr lf \<Rightarrow> LockParsed lf
      | Inl e \<Rightarrow> LockFailed (lockfile_error_to_string e))"

datatype FileRead = ReadOk string | ReadNotFound | ReadError string

definition load_lockfile_state :: "'v lockfile_parsers \<Rightarrow> (string \<Rightarrow> FileRead) \<Rightarrow> string \<Rightarrow> LockfileState" where
  "load_lockfile_state lp read_to_string workspace_root =
     (case read_to_string (join_path workspace_root ''yarn.lock'') of
        ReadOk text \<Rightarrow> parse_lockfile_content lp text
      | ReadNotFound \<Rightarrow> LockAbsent
      | ReadError e \<Rightarrow> LockFailed e)"

section \<open>The contract of the trait\<close>

text \<open>
  What the closure relies on: resolution never fails, a resolved package has one of finitely many keys, and
  exactly these keys have dependency lists.
\<close>

locale lockfile_contract =
  fixes lf :: Lockfile and keys :: "string set"
  assumes finite_keys: "finite keys"
    and resolve_total: "\<exists>r. lf_resolve_package lf w n v = Inr r"
    and resolve_key: "lf_resolve_package lf w n v = Inr (Some p) \<Longrightarrow> pk_key p \<in> keys"
    and dependencies_known: "k \<in> keys \<Longrightarrow> \<exists>ds. lf_all_dependencies lf k = Inr ds"
    and dependencies_unknown: "k \<notin> keys \<Longrightarrow> lf_all_dependencies lf k = Inl (InvalidPackageReference k)"

text \<open>One declared dependency of the package at a key and the package it resolves to.\<close>

definition lock_edge :: "Lockfile \<Rightarrow> string \<Rightarrow> string \<Rightarrow> Package \<Rightarrow> bool" where
  "lock_edge lf k n p \<longleftrightarrow>
     (\<exists>ds r. lf_all_dependencies lf k = Inr ds \<and> (n, r) \<in> set ds \<and> lf_resolve_package lf [] n r = Inr (Some p))"

definition lock_rel :: "Lockfile \<Rightarrow> (string \<times> string) set" where
  "lock_rel lf = {(k, pk_key p) | k n p. lock_edge lf k n p}"

definition lock_closure :: "Lockfile \<Rightarrow> string \<Rightarrow> (string \<times> string) set" where
  "lock_closure lf key = {(n, pk_lock_identity p) | n p k. (key, k) \<in> (lock_rel lf)\<^sup>* \<and> lock_edge lf k n p}"

text \<open>The state of the search from \<open>key\<close>: what is found is in the closure, and each dependency of an expanded key is
  in the queue or accounted for.\<close>

definition declares :: "Lockfile \<Rightarrow> string \<Rightarrow> string \<times> string \<Rightarrow> bool" where
  "declares lf k d \<longleftrightarrow> (\<exists>ds. lf_all_dependencies lf k = Inr ds \<and> d \<in> set ds)"

definition accounted :: "Lockfile \<Rightarrow> (string \<times> string) set \<Rightarrow> string set \<Rightarrow> string \<times> string \<Rightarrow> bool" where
  "accounted lf D V d \<longleftrightarrow>
     (\<forall>p. lf_resolve_package lf [] (fst d) (snd d) = Inr (Some p) \<longrightarrow> (fst d, pk_lock_identity p) \<in> D \<and> pk_key p \<in> V)"

fun closure_inv :: "Lockfile \<Rightarrow> string \<Rightarrow> closure_state \<Rightarrow> bool" where
  "closure_inv lf key (D, V, P) \<longleftrightarrow> D \<subseteq> lock_closure lf key \<and> V \<subseteq> (lock_rel lf)\<^sup>* `` {key} \<and>
     (\<forall>d \<in> set P. \<exists>k. (key, k) \<in> (lock_rel lf)\<^sup>* \<and> declares lf k d) \<and>
     (\<forall>k \<in> insert key V. \<forall>d. declares lf k d \<longrightarrow> d \<in> set P \<or> accounted lf D V d)"

lemma lock_edge_declares:
  "lock_edge lf k n p \<longleftrightarrow> (\<exists>r. declares lf k (n, r) \<and> lf_resolve_package lf [] n r = Inr (Some p))"
  by (auto simp: lock_edge_def declares_def)

lemma accounted_mono: "accounted lf D V d \<Longrightarrow> D \<subseteq> D' \<Longrightarrow> V \<subseteq> V' \<Longrightarrow> accounted lf D' V' d"
  by (auto simp: accounted_def)

lemma closure_inv_drop:
  assumes "closure_inv lf key (D, V, d # P)" "accounted lf D' V d" "D \<subseteq> D'" "D' \<subseteq> lock_closure lf key"
  shows "closure_inv lf key (D', V, P)"
  using assms accounted_mono[of lf D V _ D' V] by fastforce

lemma closure_inv_done:
  assumes inv: "closure_inv lf key (D, V, [])"
  shows "D = lock_closure lf key"
proof
  have reach: "k \<in> insert key V" if "(key, k) \<in> (lock_rel lf)\<^sup>*" for k
    using that by (induction rule: rtrancl_induct)
      (use inv in \<open>fastforce simp: lock_rel_def lock_edge_declares accounted_def\<close>)+
  show "lock_closure lf key \<subseteq> D"
    using inv reach by (fastforce simp: lock_closure_def lock_edge_declares accounted_def)
qed (use inv in simp)

context lockfile_contract
begin

definition closure_measure :: "(closure_state \<times> closure_state) set" where
  "closure_measure = inv_image (less_than <*lex*> less_than) (\<lambda>(D, V, P). (card (keys - V), length P))"

lemma closure_step_ok:
  assumes inv: "closure_inv lf key s"
  shows "case closure_step lf s of Inl res \<Rightarrow> res = Inr (lock_closure lf key)
         | Inr s' \<Rightarrow> closure_inv lf key s' \<and> (s', s) \<in> closure_measure"
proof -
  obtain D V P where s: "s = (D, V, P)" by (cases s)
  show ?thesis
  proof (cases P)
    case Nil
    then show ?thesis using inv closure_inv_done[of lf key D V] by (simp add: s)
  next
    case (Cons d P')
    obtain n r where d: "d = (n, r)" by (cases d)
    from inv obtain k where k: "(key, k) \<in> (lock_rel lf)\<^sup>*" "declares lf k (n, r)" by (auto simp: s Cons d)
    obtain res where res: "lf_resolve_package lf [] n r = Inr res" using resolve_total by blast
    show ?thesis
    proof (cases res)
      case None
      then have "closure_inv lf key (D, V, P')"
        using inv by (intro closure_inv_drop[of lf key D V d P' D]) (auto simp: s Cons d accounted_def res)
      then show ?thesis using None res by (simp add: s Cons d closure_measure_def)
    next
      case (Some p)
      let ?D = "insert (n, pk_lock_identity p) D"
      have edge: "lock_edge lf k n p" using k(2) res Some by (auto simp: lock_edge_declares)
      then have D: "?D \<subseteq> lock_closure lf key" using inv k(1) by (auto simp: s lock_closure_def)
      show ?thesis
      proof (cases "pk_key p \<in> V")
        case True
        then have "closure_inv lf key (?D, V, P')"
          using inv D res Some by (intro closure_inv_drop[of lf key D V d P' ?D]) (auto simp: s Cons d accounted_def)
        then show ?thesis using True Some res by (simp add: s Cons d closure_measure_def)
      next
        case False
        let ?V = "insert (pk_key p) V"
        have key: "pk_key p \<in> keys" using resolve_key res Some by blast
        then obtain ds where ds: "lf_all_dependencies lf (pk_key p) = Inr ds" using dependencies_known by blast
        have reach: "(key, pk_key p) \<in> (lock_rel lf)\<^sup>*" using k(1) edge by (auto simp: lock_rel_def intro: rtrancl_into_rtrancl)
        have acc: "accounted lf ?D ?V d" using res Some by (simp add: accounted_def d)
        have "closure_inv lf key (?D, ?V, P' @ ds)"
          unfolding closure_inv.simps
        proof (intro conjI ballI allI impI)
          show "?V \<subseteq> (lock_rel lf)\<^sup>* `` {key}" using inv reach by (auto simp: s)
          show "\<exists>k. (key, k) \<in> (lock_rel lf)\<^sup>* \<and> declares lf k e" if "e \<in> set (P' @ ds)" for e
            using that inv reach ds by (auto simp: s Cons declares_def)
          show "e \<in> set (P' @ ds) \<or> accounted lf ?D ?V e" if "x \<in> insert key ?V" "declares lf x e" for x e
          proof (cases "x = pk_key p")
            case True
            then show ?thesis using that ds by (simp add: declares_def)
          next
            case False
            then have "e = d \<or> e \<in> set P' \<or> accounted lf D V e"
              using inv that by (cases e) (fastforce simp: s Cons)
            then show ?thesis using acc accounted_mono[of lf D V e ?D ?V] by auto
          qed
        qed (rule D)
        moreover have "card (keys - ?V) < card (keys - V)"
          using False key finite_keys by (intro psubset_card_mono) auto
        ultimately show ?thesis using False Some res ds by (simp add: s Cons d closure_measure_def Let_def)
      qed
    qed
  qed
qed

lemma closure_loop_ok: "closure_inv lf key s \<Longrightarrow> closure_loop lf s = Some (Inr (lock_closure lf key))"
proof (induction s rule: wf_induct[where r = closure_measure])
  case 1
  show ?case by (simp add: closure_measure_def wf_lex_prod)
next
  case (2 s)
  show ?case
    using closure_step_ok[OF 2(2)] 2(1) by (subst closure_loop.simps) (auto split: sum.splits)
qed

lemma transitive_dependencies_ok:
  "transitive_dependencies lf key =
     Some (if key \<in> keys then Inr (lock_closure lf key) else Inl (InvalidPackageReference key))"
proof (cases "key \<in> keys")
  case True
  then obtain ds where ds: "lf_all_dependencies lf key = Inr ds" using dependencies_known by blast
  then have "closure_inv lf key ({}, {}, ds)" by (auto simp: declares_def)
  then show ?thesis using True ds closure_loop_ok by (simp add: transitive_dependencies_def)
qed (simp add: transitive_dependencies_def dependencies_unknown)

end

section \<open>Both formats keep the contract\<close>

lemma find_map_Some: "find_map f xs = Some y \<Longrightarrow> \<exists>x \<in> set xs. f x = Some y"
  by (induction xs) (auto split: option.splits)

interpretation berry: lockfile_contract "berry_lockfile entries" "dom (map_of entries)" for entries
  by unfold_locales
    (auto simp: berry_lockfile_def berry_resolve_package_def berry_all_dependencies_def finite_dom_map_of
      dest!: find_map_Some split: option.splits)

interpretation yarn1: lockfile_contract "yarn1_lockfile entries" "dom (map_of entries)" for entries
  by unfold_locales
    (auto simp: yarn1_lockfile_def yarn1_resolve_package_def yarn1_all_dependencies_def finite_dom_map_of Let_def
      split: option.splits)

text \<open>The keys of a lockfile.\<close>

definition lock_keys :: "Lockfile \<Rightarrow> string set" where
  "lock_keys lf = {k. \<exists>ds. lf_all_dependencies lf k = Inr ds}"

lemma lock_keys_berry: "lock_keys (berry_lockfile entries) = dom (map_of entries)"
  by (auto simp: lock_keys_def berry_lockfile_def berry_all_dependencies_def split: option.splits)

lemma lock_keys_yarn1: "lock_keys (yarn1_lockfile entries) = dom (map_of entries)"
  by (auto simp: lock_keys_def yarn1_lockfile_def yarn1_all_dependencies_def split: option.splits)

lemma parse_lockfile_contract: "parse_lockfile lp content = Inr lf \<Longrightarrow> lockfile_contract lf (lock_keys lf)"
  unfolding parse_lockfile_def
  by (cases "contains_str ''__metadata:'' content"; cases "yarn_berry_parse lp content"; cases "yarn1_parse lp content")
    (auto simp: lock_keys_berry lock_keys_yarn1 berry.lockfile_contract_axioms yarn1.lockfile_contract_axioms)

section \<open>What parsing gives\<close>

definition berry_bindings :: "'v lockfile_parsers \<Rightarrow> YamlKey \<times> 'v \<Rightarrow> (string \<times> YarnBerryEntry) list" where
  "berry_bindings lp block =
     (case block of
        (YamlString key, value) \<Rightarrow>
          if key = ''__metadata'' then []
          else (case lp_berry_entry lp value of
                  Inr raw \<Rightarrow> map (\<lambda>descriptor. (descriptor, berry_entry raw)) (split_str '', '' [] key)
                | Inl _ \<Rightarrow> [])
      | (YamlOther, _) \<Rightarrow> [])"

lemma fold_update_map:
  "fold (\<lambda>x m. AList.update (f x) (g x) m) xs m = fold (\<lambda>(k, v) m. AList.update k v m) (map (\<lambda>x. (f x, g x)) xs) m"
  by (induction xs arbitrary: m) auto

text \<open>Of two blocks with a common descriptor the later one counts.\<close>

lemma berry_loop_bindings:
  "berry_loop lp document entries = Inr entries' \<Longrightarrow>
   map_of entries' = map_of entries ++ map_of (rev (concat (map (berry_bindings lp) document)))"
proof (induction lp document entries rule: berry_loop.induct)
  case (3 lp key v document entries)
  show ?case
  proof (cases "key = ''__metadata''")
    case False
    then obtain raw where raw: "lp_berry_entry lp v = Inr raw" using "3.prems" by (auto split: sum.splits)
    with False "3.prems" have "berry_loop lp document
        (fold (\<lambda>descriptor es. AList.update descriptor (berry_entry raw) es) (split_str '', '' [] key) entries) = Inr entries'"
      by simp
    from "3.IH"(2)[OF False raw this] show ?thesis
      unfolding fold_update_map[of "\<lambda>d. d"] fold_update_map_of using False raw by (simp add: berry_bindings_def)
  qed (use 3 in \<open>simp add: berry_bindings_def\<close>)
qed simp_all

lemma yarn_berry_parse_bindings:
  assumes "yarn_berry_parse lp content = Inr entries" and "lp_yaml lp content = Inr document"
  shows "map_of entries = map_of (rev (concat (map (berry_bindings lp) document)))"
  using assms berry_loop_bindings[of lp document "[]" entries]
  by (auto simp: yarn_berry_parse_def split: option.splits sum.splits)

lemma fold_fold_concat: "fold (\<lambda>x m. fold f (g x) m) xs m = fold f (concat (map g xs)) m"
  by (induction xs arbitrary: m) auto

lemma yarn1_parse_bindings:
  assumes "yarn1_parse lp content = Inr entries" and "lp_yarn1 lp content = Inr parsed"
  shows "map_of entries = map_of (rev (concat (map (\<lambda>e. map (\<lambda>d. (fst d @ ''@'' @ snd d, yarn1_entry e)) (y1_descriptors e)) parsed)))"
proof -
  let ?bind = "\<lambda>e. map (\<lambda>d. (fst d @ ''@'' @ snd d, yarn1_entry e)) (y1_descriptors e)"
  have "fold (\<lambda>(name, range) es. AList.update (name @ ''@'' @ range) (yarn1_entry e) es) ds m =
      fold (\<lambda>(k, v) m. AList.update k v m) (map (\<lambda>d. (fst d @ ''@'' @ snd d, yarn1_entry e)) ds) m" for e ds m
    by (induction ds arbitrary: m) auto
  then have "entries = fold (\<lambda>(k, v) m. AList.update k v m) (concat (map ?bind parsed)) []"
    using assms by (simp only: yarn1_parse_def fold_fold_concat[symmetric] sum.case sum.inject)
  then show ?thesis by (simp add: fold_update_map_of)
qed

section \<open>Properties\<close>

text \<open>C38: The transitive closure of a parsed lockfile, of either format, is always computed: for a key of the lockfile it
  is the set of the names and lock identities of all packages reachable through resolved dependencies, whatever
  cycles the lockfile has; for any other key it is the error that names the key.\<close>

theorem lockfile_closure_correct:
  assumes "parse_lockfile lp content = Inr lf"
  shows "transitive_dependencies lf key =
    Some (if key \<in> lock_keys lf then Inr (lock_closure lf key) else Inl (InvalidPackageReference key))"
  by (rule lockfile_contract.transitive_dependencies_ok[OF parse_lockfile_contract[OF assms]])

text \<open>Two packages that depend on each other.\<close>

definition example_parsers :: "YarnBerryRawEntry lockfile_parsers" where
  "example_parsers =
     \<lparr>lp_yaml = (\<lambda>_. Inr
        [(YamlString ''__metadata'', \<lparr>br_version = ''8'', br_resolution = None, br_checksum = None, br_dependencies = []\<rparr>),
         (YamlString ''a@npm:^1, a@npm:^2'',
          \<lparr>br_version = ''1.0'', br_resolution = Some ''a@npm:1.0'', br_checksum = None, br_dependencies = [(''b'', ''^3'')]\<rparr>),
         (YamlString ''b@npm:^3'',
          \<lparr>br_version = ''3.0'', br_resolution = None, br_checksum = Some ''10/b'', br_dependencies = [(''a'', ''npm:^2'')]\<rparr>)]),
      lp_metadata = (\<lambda>_. Inr ()), lp_berry_entry = Inr, lp_yarn1 = (\<lambda>_. Inr [])\<rparr>"

definition example_entries :: YarnBerryLockfile where
  "example_entries =
     (let a = \<lparr>be_version = ''1.0'', be_lock_identity = ''1.0 resolution=a@npm:1.0'', be_dependencies = [(''b'', ''^3'')]\<rparr>;
          b = \<lparr>be_version = ''3.0'', be_lock_identity = ''3.0 checksum=10/b'', be_dependencies = [(''a'', ''npm:^2'')]\<rparr>
      in [(''a@npm:^1'', a), (''a@npm:^2'', a), (''b@npm:^3'', b)])"

lemma example_parse: "parse_lockfile example_parsers ''__metadata:'' = Inr (berry_lockfile example_entries)"
  by (simp add: parse_lockfile_def yarn_berry_parse_def example_parsers_def example_entries_def berry_entry_def Let_def)

theorem lockfile_closure_correct_witness:
  "transitive_dependencies (berry_lockfile example_entries) ''a@npm:^1'' =
     Some (Inr (lock_closure (berry_lockfile example_entries) ''a@npm:^1'')) \<and>
   (''a'', ''1.0 resolution=a@npm:1.0'') \<in> lock_closure (berry_lockfile example_entries) ''a@npm:^1'' \<and>
   transitive_dependencies (berry_lockfile example_entries) ''c'' = Some (Inl (InvalidPackageReference ''c''))"
proof -
  let ?lf = "berry_lockfile example_entries"
  let ?a = "\<lparr>pk_key = ''a@npm:^2'', pk_version = ''1.0'', pk_lock_identity = ''1.0 resolution=a@npm:1.0''\<rparr>"
  let ?b = "\<lparr>pk_key = ''b@npm:^3'', pk_version = ''3.0'', pk_lock_identity = ''3.0 checksum=10/b''\<rparr>"
  note defs = lock_edge_declares declares_def berry_lockfile_def berry_all_dependencies_def berry_resolve_package_def
    example_entries_def candidate_keys_def Let_def
  have "lock_edge ?lf ''a@npm:^1'' ''b'' ?b" "lock_edge ?lf ''b@npm:^3'' ''a'' ?a" by (simp_all add: defs)
  moreover from this have "(''a@npm:^1'', ''b@npm:^3'') \<in> lock_rel ?lf" by (force simp: lock_rel_def)
  ultimately have "(''a'', pk_lock_identity ?a) \<in> lock_closure ?lf ''a@npm:^1''"
    unfolding lock_closure_def by blast
  then have "(''a'', ''1.0 resolution=a@npm:1.0'') \<in> lock_closure ?lf ''a@npm:^1''" by simp
  moreover have "''a@npm:^1'' \<in> lock_keys ?lf" "''c'' \<notin> lock_keys ?lf"
    by (simp_all add: lock_keys_berry example_entries_def Let_def)
  ultimately show ?thesis using lockfile_closure_correct[OF example_parse] by simp
qed

end
