(* ===== verification/CacheResolve.thy ===== *)
theory CacheResolve
  imports CacheHash PathGlob
begin

text \<open>
  Resolution of patterns to file entries, \<open>crates/luchta-cache/src/resolve.rs\<close>: requests with
  global exclusions, the compiled request matcher, listing of candidates, reuse of recorded hashes,
  and the caches of a run. The file system is a parameter (\<open>FsEnv\<close>): the tree below a directory,
  the state of one file, its content hash, and the git repository with its ignore rules. Candidate paths are
  relative, with the separator \<open>/\<close>; a sorted set of paths is ordered by components.
\<close>

section \<open>Requests\<close>

record ResolveRequest =
  rq_base_dir :: string
  rq_pattern :: string
  rq_semantics :: InputSemantics
  rq_negated :: bool

definition resolve_request_new :: "string \<Rightarrow> string \<Rightarrow> ResolveRequest" where
  "resolve_request_new base_dir pattern =
     (case split_negation pattern of (negated, body) \<Rightarrow>
       \<lparr>rq_base_dir = base_dir, rq_pattern = body, rq_semantics = classify_pattern body, rq_negated = negated\<rparr>)"

type_synonym ('g, 's) globs = "('g, 's, string) globset_api"

definition map_err :: "('e \<Rightarrow> 'f) \<Rightarrow> 'e + 'a \<Rightarrow> 'f + 'a" where
  "map_err f r = (case r of Inl e \<Rightarrow> Inl (f e) | Inr a \<Rightarrow> Inr a)"

definition exclusions_compile :: "('g, 's) globs \<Rightarrow> string list \<Rightarrow> CacheError + 's option" where
  "exclusions_compile api patterns =
     (if patterns = [] then Inr None
      else bind_result (map_result (\<lambda>p. map_err InvalidGlob (build_path_glob api p)) patterns) (\<lambda>globs.
           map_err BuildGlobSet (map_sum id Some (api_build_set api globs))))"

definition excludes :: "('g, 's) globs \<Rightarrow> 's option \<Rightarrow> string \<Rightarrow> bool" where
  "excludes api exclusions relative_path =
     (case exclusions of None \<Rightarrow> False | Some gs \<Rightarrow> api_set_match api gs relative_path)"

definition negated_patterns :: "ResolveRequest list \<Rightarrow> string list" where
  "negated_patterns requests = map rq_pattern (filter rq_negated requests)"

datatype 's CompiledInclude = LiteralInclude string string | WildcardInclude string 's

fun include_base_dir :: "'s CompiledInclude \<Rightarrow> string" where
  "include_base_dir (LiteralInclude base_dir _) = base_dir"
| "include_base_dir (WildcardInclude base_dir _) = base_dir"

record 's PathRequestMatcher =
  prm_includes :: "'s CompiledInclude list"
  prm_exclusions :: "'s option"

definition compile_include :: "('g, 's) globs \<Rightarrow> ResolveRequest \<Rightarrow> CacheError + 's CompiledInclude" where
  "compile_include api request =
     (case rq_semantics request of
        Literal \<Rightarrow> Inr (LiteralInclude (rq_base_dir request) (unescape_literal (rq_pattern request)))
      | Wildcard \<Rightarrow>
          map_err InvalidGlob (map_sum id (WildcardInclude (rq_base_dir request))
            (build_path_globset api [rq_pattern request])))"

definition path_request_matcher_compile :: "('g, 's) globs \<Rightarrow> ResolveRequest list \<Rightarrow> CacheError + 's PathRequestMatcher" where
  "path_request_matcher_compile api requests =
     bind_result (exclusions_compile api (negated_patterns requests)) (\<lambda>exclusions.
     bind_result (map_result (compile_include api) (filter (\<lambda>r. \<not> rq_negated r) requests)) (\<lambda>includes.
     Inr \<lparr>prm_includes = includes, prm_exclusions = exclusions\<rparr>))"

text \<open>\<open>Path::strip_prefix\<close>, by components; the rest is written with single separators.\<close>

fun component_str :: "path_component \<Rightarrow> string" where
  "component_str RootDir = []"
| "component_str CurDir = ''.''"
| "component_str ParentDir = ''..''"
| "component_str (Normal s) = s"

fun strip_components :: "path_component list \<Rightarrow> path_component list \<Rightarrow> path_component list option" where
  "strip_components [] cs = Some cs"
| "strip_components (p # ps) [] = None"
| "strip_components (p # ps) (c # cs) = (if p = c then strip_components ps cs else None)"

definition path_strip_prefix :: "string \<Rightarrow> string \<Rightarrow> string option" where
  "path_strip_prefix base path =
     map_option (\<lambda>cs. join_with ''/'' (map component_str cs))
       (strip_components (path_components base) (path_components path))"

fun include_matches :: "('g, 's) globs \<Rightarrow> 's CompiledInclude \<Rightarrow> string \<Rightarrow> bool" where
  "include_matches api (LiteralInclude _ path) relative_path \<longleftrightarrow> path_components relative_path = path_components path"
| "include_matches api (WildcardInclude _ matcher) relative_path \<longleftrightarrow> api_set_match api matcher relative_path"

definition matches_path :: "('g, 's) globs \<Rightarrow> 's PathRequestMatcher \<Rightarrow> string \<Rightarrow> bool" where
  "matches_path api m path \<longleftrightarrow>
     list_ex (\<lambda>inc.
       case path_strip_prefix (include_base_dir inc) path of
         None \<Rightarrow> False
       | Some relative_path \<Rightarrow>
           \<not> excludes api (prm_exclusions m) relative_path \<and> include_matches api inc relative_path)
     (prm_includes m)"

definition has_includes :: "'s PathRequestMatcher \<Rightarrow> bool" where
  "has_includes m \<longleftrightarrow> prm_includes m \<noteq> []"

definition path_matches_resolve_requests :: "('g, 's) globs \<Rightarrow> string \<Rightarrow> ResolveRequest list \<Rightarrow> CacheError + bool" where
  "path_matches_resolve_requests api path requests =
     map_sum id (\<lambda>m. matches_path api m path) (path_request_matcher_compile api requests)"

section \<open>The file system\<close>

datatype FsNode = FsFile | FsOther | FsError string | FsDir "(string \<times> FsNode) list"

datatype FsStat = StatNotFound | StatError string | StatOk u64 "string + int"

text \<open>\<open>fs_discover\<close> is the lookup of the enclosing repository, \<open>fs_open\<close> its ignore stack: the git
  directory and, for a path of the working tree, whether it is ignored.\<close>

record FsEnv =
  fs_node :: "string \<Rightarrow> FsNode option"
  fs_stat :: "string \<Rightarrow> FsStat"
  fs_hash :: "string \<Rightarrow> CacheError + hash32"
  fs_canonicalize :: "string \<Rightarrow> string option"
  fs_discover :: "string \<Rightarrow> CacheError + string"
  fs_open :: "string \<Rightarrow> CacheError + string \<times> (string \<Rightarrow> CacheError + bool)"

section \<open>Entries\<close>

definition normalize_path :: "string \<Rightarrow> string" where
  "normalize_path path = map (\<lambda>c. if c = CHR 0x5C then CHR ''/'' else c) path"

definition qualify_relative_path :: "string \<Rightarrow> string \<Rightarrow> string" where
  "qualify_relative_path base_dir_prefix relative_path =
     normalize_path (if base_dir_prefix = [] then relative_path else join_path base_dir_prefix relative_path)"

record ResolvedBase =
  rb_dir :: string
  rb_prefix :: string

definition prior_entries_by_path :: "FileEntry list \<Rightarrow> (string, FileEntry) hmap" where
  "prior_entries_by_path prior_entries = collect_map (map (\<lambda>e. (fe_path e, e)) prior_entries)"

definition reusable_hash :: "(string, FileEntry) hmap \<Rightarrow> string \<Rightarrow> u64 \<Rightarrow> int \<Rightarrow> hash32 option" where
  "reusable_hash prior_by_path qualified_path len mtime_ns =
     (case map_of prior_by_path qualified_path of
        None \<Rightarrow> None
      | Some e \<Rightarrow> if \<not> fe_absent e \<and> fe_size e = len \<and> fe_mtime_ns e = mtime_ns then Some (fe_hash e) else None)"

definition file_entry_from_path ::
  "FsEnv \<Rightarrow> ResolvedBase \<Rightarrow> string \<Rightarrow> (string, FileEntry) hmap \<Rightarrow> CacheError + FileEntry" where
  "file_entry_from_path env base relative_path prior_by_path =
     (let absolute_path = join_path (rb_dir base) relative_path;
          qualified_path = qualify_relative_path (rb_prefix base) relative_path
      in case fs_stat env absolute_path of
           StatNotFound \<Rightarrow> Inr (file_entry_absent qualified_path)
         | StatError e \<Rightarrow> Inl (Io e)
         | StatOk len mtime \<Rightarrow>
             bind_result (map_err InvalidMtime mtime) (\<lambda>mtime_ns.
             bind_result (case reusable_hash prior_by_path qualified_path len mtime_ns of
                            Some h \<Rightarrow> Inr h
                          | None \<Rightarrow> fs_hash env absolute_path) (\<lambda>hash.
             Inr \<lparr>fe_path = qualified_path, fe_size = len, fe_mtime_ns = mtime_ns, fe_hash = hash, fe_absent = False\<rparr>)))"

definition resolve_file_entries ::
  "FsEnv \<Rightarrow> ResolvedBase \<Rightarrow> string list \<Rightarrow> (string, FileEntry) hmap \<Rightarrow> CacheError + FileEntry list" where
  "resolve_file_entries env base paths prior_by_path =
     map_result (\<lambda>path. file_entry_from_path env base path prior_by_path) paths"

definition build_globset :: "('g, 's) globs \<Rightarrow> string list \<Rightarrow> CacheError + 's" where
  "build_globset api patterns =
     bind_result (map_result (\<lambda>p. map_err InvalidGlob (build_path_glob api p)) patterns) (\<lambda>globs.
     map_err BuildGlobSet (api_build_set api globs))"

definition resolve_wildcard_with_candidates ::
  "('g, 's) globs \<Rightarrow> FsEnv \<Rightarrow> ResolvedBase \<Rightarrow> string \<Rightarrow> string list \<Rightarrow> (string, FileEntry) hmap \<Rightarrow> 's option \<Rightarrow>
   CacheError + FileEntry list" where
  "resolve_wildcard_with_candidates api env base pattern candidates prior_by_path exclusions =
     bind_result (build_globset api [pattern]) (\<lambda>globset.
     resolve_file_entries env base
       (filter (\<lambda>c. api_set_match api globset c \<and> \<not> excludes api exclusions c) candidates) prior_by_path)"

definition resolve_literal_request ::
  "('g, 's) globs \<Rightarrow> FsEnv \<Rightarrow> ResolveRequest \<Rightarrow> ResolvedBase \<Rightarrow> (string, FileEntry) hmap \<Rightarrow> 's option \<Rightarrow>
   CacheError + FileEntry list" where
  "resolve_literal_request api env request base prior_by_path exclusions =
     (let path = unescape_literal (rq_pattern request)
      in if excludes api exclusions path then Inr []
         else map_sum id (\<lambda>e. [e]) (file_entry_from_path env base path prior_by_path))"

definition canonical_dedupe_key :: "FsEnv \<Rightarrow> string list \<Rightarrow> string \<Rightarrow> string option" where
  "canonical_dedupe_key env worktree_roots entry_path =
     map_option normalize_path
       (case List.map_filter (\<lambda>root. fs_canonicalize env (join_path root entry_path)) worktree_roots of
          [] \<Rightarrow> None
        | p # _ \<Rightarrow> Some p)"

definition dedupe_key :: "FsEnv \<Rightarrow> string list \<Rightarrow> FileEntry \<Rightarrow> string" where
  "dedupe_key env worktree_roots e =
     (case canonical_dedupe_key env worktree_roots (fe_path e) of Some k \<Rightarrow> k | None \<Rightarrow> fe_path e)"

fun dedupe_loop :: "FsEnv \<Rightarrow> string list \<Rightarrow> string list \<Rightarrow> string list \<Rightarrow> FileEntry list \<Rightarrow> FileEntry list" where
  "dedupe_loop env roots seen_present seen_absent [] = []"
| "dedupe_loop env roots seen_present seen_absent (e # es) =
     (if fe_absent e then
        (if fe_path e \<in> set seen_absent then dedupe_loop env roots seen_present seen_absent es
         else e # dedupe_loop env roots seen_present (fe_path e # seen_absent) es)
      else
        (if dedupe_key env roots e \<in> set seen_present then dedupe_loop env roots seen_present seen_absent es
         else e # dedupe_loop env roots (dedupe_key env roots e # seen_present) seen_absent es))"

definition dedupe_and_sort_entries :: "FsEnv \<Rightarrow> FileEntry list \<Rightarrow> string list \<Rightarrow> FileEntry list" where
  "dedupe_and_sort_entries env entries worktree_roots =
     sort_key fe_path (dedupe_loop env worktree_roots [] [] entries)"


section \<open>Listing candidates\<close>

text \<open>The walk of the lister for inputs: nothing below the git directory or an ignored path is visited,
  and only regular files are kept, with their path relative to the package.\<close>

definition path_starts :: "string \<Rightarrow> string \<Rightarrow> bool" where
  "path_starts path base \<longleftrightarrow> strip_components (path_components base) (path_components path) \<noteq> None"

definition worktree_relative_path :: "string \<Rightarrow> string \<Rightarrow> CacheError + string" where
  "worktree_relative_path worktree_root path =
     (case path_strip_prefix worktree_root path of
        Some rel \<Rightarrow> Inr rel
      | None \<Rightarrow> Inl (StripBaseDir ''prefix not found''))"

definition to_package_relative_path :: "string \<Rightarrow> string \<Rightarrow> string option" where
  "to_package_relative_path base_prefix repo_relative_path =
     (if base_prefix = [] then Some repo_relative_path else path_strip_prefix base_prefix repo_relative_path)"

definition git_entry_excluded ::
  "(string \<Rightarrow> CacheError + bool) \<Rightarrow> string \<Rightarrow> string \<Rightarrow> string \<Rightarrow> CacheError + bool" where
  "git_entry_excluded ignored worktree_root base_dir path =
     (if path = base_dir then Inr False
      else bind_result (worktree_relative_path worktree_root path) (\<lambda>rel. ignored (normalize_path rel)))"

fun git_walk :: "string \<Rightarrow> (string \<Rightarrow> CacheError + bool) \<Rightarrow> string \<Rightarrow> string \<Rightarrow> string \<Rightarrow> string \<Rightarrow> FsNode \<Rightarrow> CacheError + string list"
  and git_walk_all :: "string \<Rightarrow> (string \<Rightarrow> CacheError + bool) \<Rightarrow> string \<Rightarrow> string \<Rightarrow> string \<Rightarrow> string \<Rightarrow> (string \<times> FsNode) list \<Rightarrow> CacheError + string list" where
  "git_walk git_dir ignored root base_prefix base_dir path node =
     (case node of
        FsError e \<Rightarrow> Inl (WalkDir e)
      | _ \<Rightarrow>
        if path_starts path git_dir then Inr []
        else bind_result (git_entry_excluded ignored root base_dir path) (\<lambda>excluded.
          if excluded then Inr []
          else case node of
                 FsDir children \<Rightarrow> git_walk_all git_dir ignored root base_prefix base_dir path children
               | FsFile \<Rightarrow>
                   bind_result (worktree_relative_path root path) (\<lambda>rel.
                   Inr (case to_package_relative_path base_prefix rel of Some p \<Rightarrow> [p] | None \<Rightarrow> []))
               | _ \<Rightarrow> Inr []))"
| "git_walk_all git_dir ignored root base_prefix base_dir path [] = Inr []"
| "git_walk_all git_dir ignored root base_prefix base_dir path ((name, node) # rest) =
     bind_result (git_walk git_dir ignored root base_prefix base_dir (join_path path name) node) (\<lambda>ps.
     bind_result (git_walk_all git_dir ignored root base_prefix base_dir path rest) (\<lambda>qs. Inr (ps @ qs)))"

definition path_key :: "string \<Rightarrow> string list" where
  "path_key path = split_on (CHR ''/'') path"

definition path_set :: "string list \<Rightarrow> string list" where
  "path_set paths = sort_key path_key (remdups paths)"

definition git_list :: "FsEnv \<Rightarrow> string \<Rightarrow> string \<Rightarrow> string \<Rightarrow> CacheError + string list" where
  "git_list env base_prefix worktree_root base_dir =
     bind_result (fs_open env worktree_root) (\<lambda>(git_dir, ignored).
     case fs_node env base_dir of
       None \<Rightarrow> Inl (WalkDir ''not found'')
     | Some node \<Rightarrow> map_sum id path_set (git_walk git_dir ignored worktree_root base_prefix base_dir base_dir node))"

text \<open>The walk for outputs: all regular files, as paths relative to the package.\<close>

fun walk_files :: "string \<Rightarrow> FsNode \<Rightarrow> CacheError + string list"
  and walk_files_all :: "string \<Rightarrow> (string \<times> FsNode) list \<Rightarrow> CacheError + string list" where
  "walk_files path node =
     (case node of
        FsError e \<Rightarrow> Inl (WalkDir e)
      | FsFile \<Rightarrow> Inr [path]
      | FsOther \<Rightarrow> Inr []
      | FsDir children \<Rightarrow> walk_files_all path children)"
| "walk_files_all path [] = Inr []"
| "walk_files_all path ((name, node) # rest) =
     bind_result (walk_files (join_path path name) node) (\<lambda>ps.
     bind_result (walk_files_all path rest) (\<lambda>qs. Inr (ps @ qs)))"

fun lookup_node :: "FsNode \<Rightarrow> string list \<Rightarrow> FsNode option" where
  "lookup_node node [] = Some node"
| "lookup_node node (name # names) =
     (case node of
        FsDir children \<Rightarrow> (case map_of children name of Some child \<Rightarrow> lookup_node child names | None \<Rightarrow> None)
      | _ \<Rightarrow> None)"

definition walk_output_candidates :: "FsNode \<Rightarrow> CacheError + string list" where
  "walk_output_candidates node = map_sum id (sort_key path_key) (walk_files [] node)"

fun list_prefixes :: "FsNode \<Rightarrow> string list list \<Rightarrow> CacheError + string list" where
  "list_prefixes node [] = Inr []"
| "list_prefixes node (prefix # prefixes) =
     bind_result (case lookup_node node prefix of
                    None \<Rightarrow> Inr []
                  | Some sub \<Rightarrow> walk_files (join_with ''/'' prefix) sub) (\<lambda>ps.
     bind_result (list_prefixes node prefixes) (\<lambda>qs. Inr (ps @ qs)))"

definition filesystem_list :: "FsNode \<Rightarrow> string list list option \<Rightarrow> CacheError + string list" where
  "filesystem_list node prefixes =
     (case prefixes of
        None \<Rightarrow> walk_output_candidates node
      | Some ps \<Rightarrow> if ps = [] then Inr [] else map_sum id path_set (list_prefixes node ps))"

text \<open>The directories to walk for a list of output patterns; a path is the list of its segments.\<close>

definition is_glob_metachar :: "char \<Rightarrow> bool" where
  "is_glob_metachar ch \<longleftrightarrow> ch \<in> {CHR ''*'', CHR ''?'', CHR ''['', CHR ''{'', CHR '']'', CHR ''}''}"

fun split_either :: "string \<Rightarrow> string list" where
  "split_either [] = [[]]"
| "split_either (x # xs) =
     (if x = CHR ''/'' \<or> x = CHR 0x5C then [] # split_either xs
      else (case split_either xs of [] \<Rightarrow> [[x]] | p # ps \<Rightarrow> (x # p) # ps))"

fun static_prefix_loop :: "string list \<Rightarrow> string list \<Rightarrow> string list option" where
  "static_prefix_loop prefix [] = Some prefix"
| "static_prefix_loop prefix (segment # segments) =
     (if segment = [] \<or> segment = ''.'' then static_prefix_loop prefix segments
      else if segment = ''..'' then None
      else if list_ex is_glob_metachar segment then (if prefix = [] then None else Some prefix)
      else static_prefix_loop (prefix @ [segment]) segments)"

definition static_prefix :: "string \<Rightarrow> string list option" where
  "static_prefix pattern = static_prefix_loop [] (split_either pattern)"

definition prefix_union :: "string list \<Rightarrow> string list list option" where
  "prefix_union patterns =
     (if patterns = [] then Some []
      else map_option (\<lambda>ps. remdups_adj (sort_key (join_with ''/'') ps))
             (those (map static_prefix (filter (\<lambda>p. \<not> is_negated p) patterns))))"

section \<open>The caches of a run\<close>

record ListingCache =
  lc_input_candidates :: "(string, string list) hmap"
  lc_output_candidates :: "(string \<times> string list list option, string list) hmap"
  lc_worktree_roots :: "(string, string) hmap"

definition insert_worktree_root :: "string \<Rightarrow> string \<Rightarrow> ListingCache \<Rightarrow> ListingCache" where
  "insert_worktree_root base_dir root lc =
     (case map_of (lc_worktree_roots lc) base_dir of
        Some _ \<Rightarrow> lc
      | None \<Rightarrow> lc\<lparr>lc_worktree_roots := AList.update base_dir root (lc_worktree_roots lc)\<rparr>)"

definition insert_input_candidates :: "string \<Rightarrow> string list \<Rightarrow> ListingCache \<Rightarrow> ListingCache" where
  "insert_input_candidates base_dir candidates lc =
     lc\<lparr>lc_input_candidates := AList.update base_dir candidates (lc_input_candidates lc)\<rparr>"

definition insert_output_candidates :: "string \<Rightarrow> string list list option \<Rightarrow> string list \<Rightarrow> ListingCache \<Rightarrow> ListingCache" where
  "insert_output_candidates base_dir prefixes candidates lc =
     lc\<lparr>lc_output_candidates := AList.update (base_dir, prefixes) candidates (lc_output_candidates lc)\<rparr>"

text \<open>The caches of one call, and the cache of the run where one is given.\<close>

record ResolveCaches =
  rc_candidates :: "(string, string list) hmap"
  rc_prefixes :: "(string, string) hmap"
  rc_roots :: "(string, string) hmap"
  rc_listing :: "ListingCache option"

type_synonym 'a cached = "ResolveCaches \<Rightarrow> (CacheError + 'a) \<times> ResolveCaches"

definition bind_cached :: "'a cached \<Rightarrow> ('a \<Rightarrow> 'b cached) \<Rightarrow> 'b cached" where
  "bind_cached m f s = (case m s of (Inl e, s') \<Rightarrow> (Inl e, s') | (Inr a, s') \<Rightarrow> f a s')"

definition cached_worktree_root :: "FsEnv \<Rightarrow> string \<Rightarrow> string cached" where
  "cached_worktree_root env base_dir s =
     (case map_of (rc_roots s) base_dir of
        Some root \<Rightarrow> (Inr root, s)
      | None \<Rightarrow>
          (case (case rc_listing s of None \<Rightarrow> None | Some lc \<Rightarrow> map_of (lc_worktree_roots lc) base_dir) of
             Some root \<Rightarrow> (Inr root, s\<lparr>rc_roots := AList.update base_dir root (rc_roots s)\<rparr>)
           | None \<Rightarrow>
               (case fs_discover env base_dir of
                  Inl e \<Rightarrow> (Inl e, s)
                | Inr root \<Rightarrow>
                    (Inr root, s\<lparr>rc_roots := AList.update base_dir root (rc_roots s),
                                rc_listing := map_option (insert_worktree_root base_dir root) (rc_listing s)\<rparr>))))"

definition worktree_relative_base_dir :: "FsEnv \<Rightarrow> string \<Rightarrow> string cached" where
  "worktree_relative_base_dir env base_dir =
     bind_cached (cached_worktree_root env base_dir) (\<lambda>work_dir s. (worktree_relative_path work_dir base_dir, s))"

definition qualified_base_dir_prefix :: "FsEnv \<Rightarrow> string \<Rightarrow> string cached" where
  "qualified_base_dir_prefix env base_dir s =
     (case map_of (rc_prefixes s) base_dir of
        Some prefix \<Rightarrow> (Inr prefix, s)
      | None \<Rightarrow>
          bind_cached (worktree_relative_base_dir env base_dir)
            (\<lambda>prefix s. (Inr prefix, s\<lparr>rc_prefixes := AList.update base_dir prefix (rc_prefixes s)\<rparr>)) s)"

definition git_tracked_input_list :: "FsEnv \<Rightarrow> string \<Rightarrow> string list cached" where
  "git_tracked_input_list env base_dir =
     bind_cached (worktree_relative_base_dir env base_dir) (\<lambda>base_prefix.
     bind_cached (cached_worktree_root env base_dir) (\<lambda>root s. (git_list env base_prefix root base_dir, s)))"

text \<open>The listing uses a root cache of its own.\<close>

definition cached_input_candidates :: "FsEnv \<Rightarrow> string \<Rightarrow> string list cached" where
  "cached_input_candidates env base_dir s =
     (case map_of (rc_candidates s) base_dir of
        Some candidates \<Rightarrow> (Inr candidates, s)
      | None \<Rightarrow>
          (case (case rc_listing s of None \<Rightarrow> None | Some lc \<Rightarrow> map_of (lc_input_candidates lc) base_dir) of
             Some candidates \<Rightarrow> (Inr candidates, s\<lparr>rc_candidates := AList.update base_dir candidates (rc_candidates s)\<rparr>)
           | None \<Rightarrow>
               (case git_tracked_input_list env base_dir (s\<lparr>rc_roots := []\<rparr>) of
                  (Inl e, s') \<Rightarrow> (Inl e, s'\<lparr>rc_roots := rc_roots s\<rparr>)
                | (Inr candidates, s') \<Rightarrow>
                    (Inr candidates, s'\<lparr>rc_roots := rc_roots s,
                       rc_listing := map_option (insert_input_candidates base_dir candidates) (rc_listing s'),
                       rc_candidates := AList.update base_dir candidates (rc_candidates s')\<rparr>))))"

section \<open>Inputs\<close>

definition resolve_wildcard_request ::
  "('g, 's) globs \<Rightarrow> FsEnv \<Rightarrow> ResolveRequest \<Rightarrow> ResolvedBase \<Rightarrow> (string, FileEntry) hmap \<Rightarrow> 's option \<Rightarrow> FileEntry list cached" where
  "resolve_wildcard_request api env request base prior_by_path exclusions =
     bind_cached (cached_input_candidates env (rq_base_dir request)) (\<lambda>candidates s.
     (resolve_wildcard_with_candidates api env base (rq_pattern request) candidates prior_by_path exclusions, s))"

definition resolve_single_request ::
  "('g, 's) globs \<Rightarrow> FsEnv \<Rightarrow> ResolveRequest \<Rightarrow> ResolvedBase \<Rightarrow> (string, FileEntry) hmap \<Rightarrow> 's option \<Rightarrow> FileEntry list cached" where
  "resolve_single_request api env request base prior_by_path exclusions =
     (case rq_semantics request of
        Literal \<Rightarrow> (\<lambda>s. (resolve_literal_request api env request base prior_by_path exclusions, s))
      | Wildcard \<Rightarrow> resolve_wildcard_request api env request base prior_by_path exclusions)"

definition pop_components :: "nat \<Rightarrow> path_component list \<Rightarrow> path_component list" where
  "pop_components n cs =
     (case cs of
        RootDir # rest \<Rightarrow> RootDir # take (length rest - n) rest
      | _ \<Rightarrow> take (length cs - n) cs)"

definition path_of_components :: "path_component list \<Rightarrow> string" where
  "path_of_components cs =
     (case cs of
        RootDir # rest \<Rightarrow> CHR ''/'' # join_with ''/'' (map component_str rest)
      | _ \<Rightarrow> join_with ''/'' (map component_str cs))"

definition strip_suffix_components :: "string \<Rightarrow> string \<Rightarrow> string" where
  "strip_suffix_components path suffix =
     (if path_components suffix = [] then path
      else path_of_components (pop_components (length (path_components suffix)) (path_components path)))"

fun resolve_requests_loop ::
  "('g, 's) globs \<Rightarrow> FsEnv \<Rightarrow> (string, FileEntry) hmap \<Rightarrow> 's option \<Rightarrow> ResolveRequest list \<Rightarrow>
   FileEntry list \<Rightarrow> string list \<Rightarrow> (FileEntry list \<times> string list) cached" where
  "resolve_requests_loop api env prior_by_path exclusions [] merged roots s = (Inr (merged, roots), s)"
| "resolve_requests_loop api env prior_by_path exclusions (request # requests) merged roots s =
     bind_cached (qualified_base_dir_prefix env (rq_base_dir request)) (\<lambda>prefix.
       let root = strip_suffix_components (rq_base_dir request) prefix;
           roots' = (if root \<in> set roots then roots else roots @ [root])
       in bind_cached (resolve_single_request api env request \<lparr>rb_dir = rq_base_dir request, rb_prefix = prefix\<rparr> prior_by_path exclusions)
            (\<lambda>entries. resolve_requests_loop api env prior_by_path exclusions requests (merged @ entries) roots')) s"

definition resolve_inputs_with_semantics_and_options ::
  "('g, 's) globs \<Rightarrow> FsEnv \<Rightarrow> ResolveRequest list \<Rightarrow> FileEntry list \<Rightarrow> ListingCache option \<Rightarrow>
   (CacheError + FileEntry list) \<times> ListingCache option" where
  "resolve_inputs_with_semantics_and_options api env requests prior_entries listing =
     (if requests = [] then (Inr [], listing)
      else
        let s = \<lparr>rc_candidates = [], rc_prefixes = [], rc_roots = [], rc_listing = listing\<rparr>
        in case exclusions_compile api (negated_patterns requests) of
             Inl e \<Rightarrow> (Inl e, listing)
           | Inr exclusions \<Rightarrow>
               (case resolve_requests_loop api env (prior_entries_by_path prior_entries) exclusions
                       (filter (\<lambda>r. \<not> rq_negated r) requests) [] [] s of
                  (Inl e, s') \<Rightarrow> (Inl e, rc_listing s')
                | (Inr (merged, roots), s') \<Rightarrow> (Inr (dedupe_and_sort_entries env merged roots), rc_listing s')))"

definition resolve_inputs_with_options ::
  "('g, 's) globs \<Rightarrow> FsEnv \<Rightarrow> string \<Rightarrow> string list \<Rightarrow> FileEntry list \<Rightarrow> ListingCache option \<Rightarrow>
   (CacheError + FileEntry list) \<times> ListingCache option" where
  "resolve_inputs_with_options api env base_dir patterns prior_entries listing =
     resolve_inputs_with_semantics_and_options api env (map (resolve_request_new base_dir) patterns) prior_entries listing"

definition resolve_inputs :: "('g, 's) globs \<Rightarrow> FsEnv \<Rightarrow> string \<Rightarrow> string list \<Rightarrow> CacheError + FileEntry list" where
  "resolve_inputs api env base_dir patterns = fst (resolve_inputs_with_options api env base_dir patterns [] None)"

section \<open>Outputs\<close>

definition resolve_with_candidates ::
  "('g, 's) globs \<Rightarrow> FsEnv \<Rightarrow> string \<Rightarrow> string list \<Rightarrow> string list \<Rightarrow> FileEntry list \<Rightarrow> CacheError + FileEntry list" where
  "resolve_with_candidates api env base_dir patterns candidates prior_entries =
     (if patterns = [] then Inr []
      else
        let excluded = filter is_negated patterns; included = filter (\<lambda>p. \<not> is_negated p) patterns
        in bind_result (exclusions_compile api (map (\<lambda>p. snd (split_negation p)) excluded)) (\<lambda>exclusions.
           let literal_paths = map unescape_literal (filter (\<lambda>p. classify_pattern p = Literal) included);
               glob_patterns = filter (\<lambda>p. classify_pattern p = Wildcard) included
           in bind_result (if glob_patterns = [] then Inr []
                           else map_sum id (\<lambda>gs. filter (api_set_match api gs) candidates) (build_globset api glob_patterns)) (\<lambda>matched.
              resolve_file_entries env \<lparr>rb_dir = base_dir, rb_prefix = []\<rparr>
                (filter (\<lambda>path. \<not> excludes api exclusions path) (path_set (literal_paths @ matched)))
                (prior_entries_by_path prior_entries))))"

definition output_candidates :: "FsEnv \<Rightarrow> string \<Rightarrow> string list list option \<Rightarrow> CacheError + string list" where
  "output_candidates env base_dir prefixes =
     (case fs_node env base_dir of
        Some node \<Rightarrow> filesystem_list node prefixes
      | None \<Rightarrow> (if prefixes = None then Inl (WalkDir ''not found'') else Inr []))"

definition cached_output_candidates ::
  "FsEnv \<Rightarrow> string \<Rightarrow> string list list option \<Rightarrow> ListingCache option \<Rightarrow> (CacheError + string list) \<times> ListingCache option" where
  "cached_output_candidates env base_dir prefixes listing =
     (case (case listing of None \<Rightarrow> None | Some lc \<Rightarrow> map_of (lc_output_candidates lc) (base_dir, prefixes)) of
        Some candidates \<Rightarrow> (Inr candidates, listing)
      | None \<Rightarrow>
          (case output_candidates env base_dir prefixes of
             Inl e \<Rightarrow> (Inl e, listing)
           | Inr candidates \<Rightarrow> (Inr candidates, map_option (insert_output_candidates base_dir prefixes candidates) listing)))"

definition resolve_outputs_with_options ::
  "('g, 's) globs \<Rightarrow> FsEnv \<Rightarrow> string \<Rightarrow> string list \<Rightarrow> FileEntry list \<Rightarrow> ListingCache option \<Rightarrow>
   (CacheError + FileEntry list) \<times> ListingCache option" where
  "resolve_outputs_with_options api env base_dir patterns prior_entries listing =
     (case cached_output_candidates env base_dir (prefix_union patterns) listing of
        (Inl e, listing') \<Rightarrow> (Inl e, listing')
      | (Inr candidates, listing') \<Rightarrow>
          (resolve_with_candidates api env base_dir patterns candidates prior_entries, listing'))"

definition resolve_outputs :: "('g, 's) globs \<Rightarrow> FsEnv \<Rightarrow> string \<Rightarrow> string list \<Rightarrow> CacheError + FileEntry list" where
  "resolve_outputs api env base_dir patterns = fst (resolve_outputs_with_options api env base_dir patterns [] None)"


section \<open>What the caches must not change\<close>

text \<open>Resolution without any cache.\<close>

definition ref_prefix :: "FsEnv \<Rightarrow> string \<Rightarrow> CacheError + string" where
  "ref_prefix env base_dir = bind_result (fs_discover env base_dir) (\<lambda>root. worktree_relative_path root base_dir)"

definition ref_candidates :: "FsEnv \<Rightarrow> string \<Rightarrow> CacheError + string list" where
  "ref_candidates env base_dir =
     bind_result (ref_prefix env base_dir) (\<lambda>prefix.
     bind_result (fs_discover env base_dir) (\<lambda>root. git_list env prefix root base_dir))"

definition ref_request ::
  "('g, 's) globs \<Rightarrow> FsEnv \<Rightarrow> (string, FileEntry) hmap \<Rightarrow> 's option \<Rightarrow> ResolveRequest \<Rightarrow> string \<Rightarrow> CacheError + FileEntry list" where
  "ref_request api env prior_by_path exclusions request prefix =
     (let base = \<lparr>rb_dir = rq_base_dir request, rb_prefix = prefix\<rparr>
      in case rq_semantics request of
           Literal \<Rightarrow> resolve_literal_request api env request base prior_by_path exclusions
         | Wildcard \<Rightarrow>
             bind_result (ref_candidates env (rq_base_dir request)) (\<lambda>candidates.
             resolve_wildcard_with_candidates api env base (rq_pattern request) candidates prior_by_path exclusions))"

fun ref_requests ::
  "('g, 's) globs \<Rightarrow> FsEnv \<Rightarrow> (string, FileEntry) hmap \<Rightarrow> 's option \<Rightarrow> ResolveRequest list \<Rightarrow>
   FileEntry list \<Rightarrow> string list \<Rightarrow> CacheError + FileEntry list \<times> string list" where
  "ref_requests api env prior_by_path exclusions [] merged roots = Inr (merged, roots)"
| "ref_requests api env prior_by_path exclusions (request # requests) merged roots =
     bind_result (ref_prefix env (rq_base_dir request)) (\<lambda>prefix.
     bind_result (ref_request api env prior_by_path exclusions request prefix) (\<lambda>entries.
     ref_requests api env prior_by_path exclusions requests (merged @ entries)
       (let root = strip_suffix_components (rq_base_dir request) prefix in if root \<in> set roots then roots else roots @ [root])))"

definition ref_inputs :: "('g, 's) globs \<Rightarrow> FsEnv \<Rightarrow> ResolveRequest list \<Rightarrow> FileEntry list \<Rightarrow> CacheError + FileEntry list" where
  "ref_inputs api env requests prior_entries =
     (if requests = [] then Inr []
      else bind_result (exclusions_compile api (negated_patterns requests)) (\<lambda>exclusions.
           bind_result (ref_requests api env (prior_entries_by_path prior_entries) exclusions
                          (filter (\<lambda>r. \<not> rq_negated r) requests) [] []) (\<lambda>(merged, roots).
           Inr (dedupe_and_sort_entries env merged roots))))"

definition ref_outputs :: "('g, 's) globs \<Rightarrow> FsEnv \<Rightarrow> string \<Rightarrow> string list \<Rightarrow> FileEntry list \<Rightarrow> CacheError + FileEntry list" where
  "ref_outputs api env base_dir patterns prior_entries =
     bind_result (output_candidates env base_dir (prefix_union patterns)) (\<lambda>candidates.
     resolve_with_candidates api env base_dir patterns candidates prior_entries)"

text \<open>A cache is in line with the file system if it holds what would be read now.\<close>

definition agrees :: "('k, 'v) hmap \<Rightarrow> ('k \<Rightarrow> CacheError + 'v) \<Rightarrow> bool" where
  "agrees m f \<longleftrightarrow> (\<forall>k v. map_of m k = Some v \<longrightarrow> f k = Inr v)"

definition listing_ok :: "FsEnv \<Rightarrow> ListingCache option \<Rightarrow> bool" where
  "listing_ok env listing \<longleftrightarrow>
     (case listing of
        None \<Rightarrow> True
      | Some lc \<Rightarrow> agrees (lc_input_candidates lc) (ref_candidates env) \<and> agrees (lc_worktree_roots lc) (fs_discover env) \<and>
          agrees (lc_output_candidates lc) (\<lambda>(base_dir, prefixes). output_candidates env base_dir prefixes))"

definition caches_ok :: "FsEnv \<Rightarrow> ResolveCaches \<Rightarrow> bool" where
  "caches_ok env s \<longleftrightarrow>
     agrees (rc_candidates s) (ref_candidates env) \<and> agrees (rc_prefixes s) (ref_prefix env) \<and>
     agrees (rc_roots s) (fs_discover env) \<and> listing_ok env (rc_listing s)"

definition implements :: "FsEnv \<Rightarrow> 'a cached \<Rightarrow> CacheError + 'a \<Rightarrow> bool" where
  "implements env m r \<longleftrightarrow> (\<forall>s. caches_ok env s \<longrightarrow> fst (m s) = r \<and> caches_ok env (snd (m s)))"

lemma agreesD: "agrees m f \<Longrightarrow> map_of m k = Some v \<Longrightarrow> f k = Inr v"
  by (simp add: agrees_def)

lemma agrees_update: "agrees m f \<Longrightarrow> f k = Inr v \<Longrightarrow> agrees (AList.update k v m) f"
  by (auto simp: agrees_def hmap_simps)

lemma agrees_empty [simp]: "agrees [] f"
  by (simp add: agrees_def)

lemma implementsI: "(\<And>s. caches_ok env s \<Longrightarrow> fst (m s) = r \<and> caches_ok env (snd (m s))) \<Longrightarrow> implements env m r"
  by (simp add: implements_def)

lemma implementsD: "implements env m r \<Longrightarrow> caches_ok env s \<Longrightarrow> m s = (r', s') \<Longrightarrow> r' = r \<and> caches_ok env s'"
  unfolding implements_def by (metis fst_conv snd_conv)

lemma implements_pure: "implements env (\<lambda>s. (r, s)) r"
  by (simp add: implements_def)

lemma implements_bind:
  assumes "implements env m r" "\<And>a. r = Inr a \<Longrightarrow> implements env (f a) (g a)"
  shows "implements env (bind_cached m f) (bind_result r g)"
proof (rule implementsI)
  fix s assume ok: "caches_ok env s"
  obtain r' s' where ms: "m s = (r', s')" by fastforce
  with implementsD[OF assms(1) ok] have r: "r' = r" "caches_ok env s'" by auto
  show "fst (bind_cached m f s) = bind_result r g \<and> caches_ok env (snd (bind_cached m f s))"
  proof (cases r)
    case (Inl e)
    then show ?thesis using ms r by (simp add: bind_cached_def)
  next
    case (Inr a)
    then have "implements env (f a) (g a)" by (rule assms(2))
    then show ?thesis using ms r Inr by (simp add: bind_cached_def implements_def)
  qed
qed

lemma listing_ok_None [simp]: "listing_ok env None"
  by (simp add: listing_ok_def)

lemma listing_ok_root:
  "listing_ok env (Some lc) \<Longrightarrow> fs_discover env b = Inr root \<Longrightarrow> listing_ok env (Some (insert_worktree_root b root lc))"
  by (auto simp: listing_ok_def insert_worktree_root_def agrees_update split: option.splits)

lemma listing_ok_inputs:
  "listing_ok env (Some lc) \<Longrightarrow> ref_candidates env b = Inr cs \<Longrightarrow> listing_ok env (Some (insert_input_candidates b cs lc))"
  by (auto simp: listing_ok_def insert_input_candidates_def agrees_update split: option.splits)

lemma listing_ok_inputs_option:
  "listing_ok env listing \<Longrightarrow> ref_candidates env b = Inr cs \<Longrightarrow> listing_ok env (map_option (insert_input_candidates b cs) listing)"
  by (cases listing) (simp_all add: listing_ok_inputs)

lemma listing_ok_outputs:
  "listing_ok env (Some lc) \<Longrightarrow> output_candidates env b ps = Inr cs \<Longrightarrow> listing_ok env (Some (insert_output_candidates b ps cs lc))"
  by (auto simp: listing_ok_def insert_output_candidates_def agrees_update split: option.splits)

lemma worktree_root_implements: "implements env (cached_worktree_root env b) (fs_discover env b)"
proof (rule implementsI)
  fix s assume ok: "caches_ok env s"
  have l: "\<And>lc root. rc_listing s = Some lc \<Longrightarrow> map_of (lc_worktree_roots lc) b = Some root \<Longrightarrow> fs_discover env b = Inr root"
    using ok by (auto simp: caches_ok_def listing_ok_def dest: agreesD)
  have r: "\<And>root. map_of (rc_roots s) b = Some root \<Longrightarrow> fs_discover env b = Inr root"
    using ok by (auto simp: caches_ok_def dest: agreesD)
  show "fst (cached_worktree_root env b s) = fs_discover env b \<and> caches_ok env (snd (cached_worktree_root env b s))"
    using ok l r
    by (auto simp: cached_worktree_root_def caches_ok_def agrees_update listing_ok_root split: option.splits sum.splits)
qed

lemma prefix_implements: "implements env (worktree_relative_base_dir env b) (ref_prefix env b)"
  unfolding worktree_relative_base_dir_def ref_prefix_def
  by (rule implements_bind[OF worktree_root_implements implements_pure])

lemma qualified_prefix_implements: "implements env (qualified_base_dir_prefix env b) (ref_prefix env b)"
proof (rule implementsI)
  fix s assume ok: "caches_ok env s"
  obtain r s' where w: "worktree_relative_base_dir env b s = (r, s')" by fastforce
  with implementsD[OF prefix_implements ok] have "r = ref_prefix env b" "caches_ok env s'" by auto
  moreover have "\<And>p. map_of (rc_prefixes s) b = Some p \<Longrightarrow> ref_prefix env b = Inr p"
    using ok by (auto simp: caches_ok_def dest: agreesD)
  ultimately show "fst (qualified_base_dir_prefix env b s) = ref_prefix env b \<and> caches_ok env (snd (qualified_base_dir_prefix env b s))"
    using ok w by (auto simp: qualified_base_dir_prefix_def bind_cached_def caches_ok_def agrees_update split: option.splits sum.splits)
qed

lemma git_listing_implements: "implements env (git_tracked_input_list env b) (ref_candidates env b)"
  unfolding git_tracked_input_list_def ref_candidates_def
  by (intro implements_bind prefix_implements worktree_root_implements implements_pure)

lemma candidates_implements: "implements env (cached_input_candidates env b) (ref_candidates env b)"
proof (rule implementsI)
  fix s assume ok: "caches_ok env s"
  then have ok': "caches_ok env (s\<lparr>rc_roots := []\<rparr>)" by (simp add: caches_ok_def)
  obtain r s' where w: "git_tracked_input_list env b (s\<lparr>rc_roots := []\<rparr>) = (r, s')" by fastforce
  with implementsD[OF git_listing_implements ok'] have r: "r = ref_candidates env b" "caches_ok env s'" by auto
  have l: "\<And>lc c. rc_listing s = Some lc \<Longrightarrow> map_of (lc_input_candidates lc) b = Some c \<Longrightarrow> ref_candidates env b = Inr c"
    using ok by (auto simp: caches_ok_def listing_ok_def dest: agreesD)
  have k: "\<And>c. map_of (rc_candidates s) b = Some c \<Longrightarrow> ref_candidates env b = Inr c"
    using ok by (auto simp: caches_ok_def dest: agreesD)
  show "fst (cached_input_candidates env b s) = ref_candidates env b \<and> caches_ok env (snd (cached_input_candidates env b s))"
    using ok r l k
    by (auto simp: cached_input_candidates_def w caches_ok_def agrees_update listing_ok_inputs_option split: option.splits sum.splits)
qed

lemma single_request_implements:
  "implements env (resolve_single_request api env request \<lparr>rb_dir = rq_base_dir request, rb_prefix = prefix\<rparr> prior exc)
     (ref_request api env prior exc request prefix)"
proof (cases "rq_semantics request")
  case Literal
  then show ?thesis by (simp add: resolve_single_request_def ref_request_def implements_pure)
next
  case Wildcard
  then show ?thesis
    by (simp add: resolve_single_request_def ref_request_def resolve_wildcard_request_def implements_bind
        candidates_implements implements_pure)
qed

lemma requests_loop_implements:
  "implements env (resolve_requests_loop api env prior exc requests merged roots) (ref_requests api env prior exc requests merged roots)"
proof (induction requests arbitrary: merged roots)
  case Nil
  then show ?case by (simp add: implements_def)
next
  case (Cons request requests)
  have "resolve_requests_loop api env prior exc (request # requests) merged roots =
      bind_cached (qualified_base_dir_prefix env (rq_base_dir request)) (\<lambda>prefix.
        bind_cached (resolve_single_request api env request \<lparr>rb_dir = rq_base_dir request, rb_prefix = prefix\<rparr> prior exc)
          (\<lambda>entries. resolve_requests_loop api env prior exc requests (merged @ entries)
             (let root = strip_suffix_components (rq_base_dir request) prefix in if root \<in> set roots then roots else roots @ [root])))"
    by (rule ext) (simp add: Let_def)
  then show ?case
    by (simp only: ref_requests.simps) (intro implements_bind qualified_prefix_implements single_request_implements Cons.IH)
qed

lemma resolve_inputs_ref:
  assumes ok: "listing_ok env listing"
  shows "fst (resolve_inputs_with_semantics_and_options api env requests prior listing) = ref_inputs api env requests prior \<and>
    listing_ok env (snd (resolve_inputs_with_semantics_and_options api env requests prior listing))"
proof (cases "exclusions_compile api (negated_patterns requests)")
  case (Inl e)
  then show ?thesis using ok by (simp add: resolve_inputs_with_semantics_and_options_def ref_inputs_def Let_def)
next
  case (Inr exc)
  let ?s = "\<lparr>rc_candidates = [], rc_prefixes = [], rc_roots = [], rc_listing = listing\<rparr>"
  let ?r = "ref_requests api env (prior_entries_by_path prior) exc (filter (\<lambda>r. \<not> rq_negated r) requests) [] []"
  have "caches_ok env ?s" using ok by (simp add: caches_ok_def)
  moreover obtain r s' where w: "resolve_requests_loop api env (prior_entries_by_path prior) exc
      (filter (\<lambda>r. \<not> rq_negated r) requests) [] [] ?s = (r, s')" by fastforce
  ultimately have r: "r = ?r" "caches_ok env s'"
    using implementsD[OF requests_loop_implements] by blast+
  show ?thesis
    using ok w[unfolded r(1)] r(2) Inr
    by (cases ?r) (auto simp: resolve_inputs_with_semantics_and_options_def ref_inputs_def Let_def caches_ok_def)
qed

lemma resolve_outputs_ref:
  assumes ok: "listing_ok env listing"
  shows "fst (resolve_outputs_with_options api env b patterns prior listing) = ref_outputs api env b patterns prior \<and>
    listing_ok env (snd (resolve_outputs_with_options api env b patterns prior listing))"
proof -
  have "\<And>lc c. listing = Some lc \<Longrightarrow> map_of (lc_output_candidates lc) (b, prefix_union patterns) = Some c \<Longrightarrow>
      output_candidates env b (prefix_union patterns) = Inr c"
    using ok by (auto simp: listing_ok_def dest: agreesD)
  then show ?thesis
    using ok by (auto simp: resolve_outputs_with_options_def cached_output_candidates_def ref_outputs_def listing_ok_outputs
        split: option.splits sum.splits)
qed


section \<open>Reuse of recorded hashes\<close>

text \<open>What reuse relies on: a file with the recorded size and time has the recorded content.\<close>

definition hashes_current :: "FsEnv \<Rightarrow> ResolvedBase \<Rightarrow> FileEntry list \<Rightarrow> bool" where
  "hashes_current env base prior \<longleftrightarrow>
     (\<forall>rel len mtime h. fs_stat env (join_path (rb_dir base) rel) = StatOk len (Inr mtime) \<longrightarrow>
        reusable_hash (prior_entries_by_path prior) (qualify_relative_path (rb_prefix base) rel) len mtime = Some h \<longrightarrow>
        fs_hash env (join_path (rb_dir base) rel) = Inr h)"

lemma no_prior [simp]: "prior_entries_by_path [] = []" "reusable_hash [] p len m = None"
  by (simp_all add: prior_entries_by_path_def collect_map_def reusable_hash_def)

lemma file_entry_reuse:
  assumes "hashes_current env base prior"
  shows "file_entry_from_path env base rel (prior_entries_by_path prior) = file_entry_from_path env base rel []"
proof (cases "fs_stat env (join_path (rb_dir base) rel)")
  case (StatOk len mtime)
  then show ?thesis
    using assms[unfolded hashes_current_def, rule_format, of rel len]
    by (cases mtime) (auto simp: file_entry_from_path_def map_err_def Let_def split: option.splits)
qed (simp_all add: file_entry_from_path_def Let_def)

lemma wildcard_reuse:
  assumes "hashes_current env base prior"
  shows "resolve_wildcard_with_candidates api env base p cs (prior_entries_by_path prior) exc =
    resolve_wildcard_with_candidates api env base p cs [] exc"
  by (simp add: resolve_wildcard_with_candidates_def resolve_file_entries_def file_entry_reuse[OF assms])

lemma ref_request_reuse:
  assumes "hashes_current env \<lparr>rb_dir = rq_base_dir request, rb_prefix = prefix\<rparr> prior"
  shows "ref_request api env (prior_entries_by_path prior) exc request prefix = ref_request api env [] exc request prefix"
  by (simp add: ref_request_def resolve_literal_request_def Let_def file_entry_reuse[OF assms] wildcard_reuse[OF assms]
      split: InputSemantics.split)

lemma bind_result_cong: "r = r' \<Longrightarrow> (\<And>a. r' = Inr a \<Longrightarrow> f a = g a) \<Longrightarrow> bind_result r f = bind_result r' g"
  by (cases r') auto

lemma ref_requests_reuse:
  assumes "\<forall>r \<in> set requests. \<forall>prefix. ref_prefix env (rq_base_dir r) = Inr prefix \<longrightarrow>
    hashes_current env \<lparr>rb_dir = rq_base_dir r, rb_prefix = prefix\<rparr> prior"
  shows "ref_requests api env (prior_entries_by_path prior) exc requests merged roots = ref_requests api env [] exc requests merged roots"
  using assms
proof (induction requests arbitrary: merged roots)
  case (Cons r rs)
  then show ?case by (auto intro!: bind_result_cong ref_request_reuse simp: Let_def)
qed simp

lemma ref_inputs_reuse:
  assumes "\<forall>r \<in> set requests. \<forall>prefix. ref_prefix env (rq_base_dir r) = Inr prefix \<longrightarrow>
    hashes_current env \<lparr>rb_dir = rq_base_dir r, rb_prefix = prefix\<rparr> prior"
  shows "ref_inputs api env requests prior = ref_inputs api env requests []"
proof -
  have "ref_requests api env (prior_entries_by_path prior) exc (filter (\<lambda>r. \<not> rq_negated r) requests) [] [] =
      ref_requests api env [] exc (filter (\<lambda>r. \<not> rq_negated r) requests) [] []" for exc
    using assms by (intro ref_requests_reuse) auto
  then show ?thesis by (simp add: ref_inputs_def)
qed

lemma ref_outputs_reuse:
  assumes "hashes_current env \<lparr>rb_dir = b, rb_prefix = []\<rparr> prior"
  shows "ref_outputs api env b patterns prior = ref_outputs api env b patterns []"
  by (simp add: ref_outputs_def resolve_with_candidates_def resolve_file_entries_def file_entry_reuse[OF assms] Let_def cong: if_cong)

section \<open>The request matcher\<close>

definition request_selects :: "('g, 's) globs \<Rightarrow> ResolveRequest \<Rightarrow> string \<Rightarrow> bool" where
  "request_selects api r rel \<longleftrightarrow>
     (case rq_semantics r of
        Literal \<Rightarrow> path_components rel = path_components (unescape_literal (rq_pattern r))
      | Wildcard \<Rightarrow> (\<exists>g. build_path_glob api (rq_pattern r) = Inr g \<and> api_glob_match api g rel))"

definition some_glob_matches :: "('g, 's) globs \<Rightarrow> string list \<Rightarrow> string \<Rightarrow> bool" where
  "some_glob_matches api ps rel \<longleftrightarrow> (\<exists>p \<in> set ps. \<exists>g. build_path_glob api p = Inr g \<and> api_glob_match api g rel)"

lemma map_err_Inr [simp]: "map_err f r = Inr a \<longleftrightarrow> r = Inr a"
  by (cases r) (simp_all add: map_err_def)

lemma map_sum_Inr: "map_sum id f r = Inr b \<longleftrightarrow> (\<exists>a. r = Inr a \<and> b = f a)"
  by (cases r) auto

context globset_laws begin

lemma built_set_matches:
  assumes "list_all2 (\<lambda>p g. build_path_glob api p = Inr g) ps gs" "api_build_set api gs = Inr s"
  shows "api_set_match api s rel \<longleftrightarrow> (\<exists>p \<in> set ps. \<exists>g. build_path_glob api p = Inr g \<and> api_glob_match api g rel)"
proof -
  from assms(1) have "(\<exists>g \<in> set gs. api_glob_match api g rel) \<longleftrightarrow>
      (\<exists>p \<in> set ps. \<exists>g. build_path_glob api p = Inr g \<and> api_glob_match api g rel)"
    by (induction rule: list_all2_induct) auto
  then show ?thesis using set_match[OF assms(2)] by simp
qed

end

lemma exclusions_match:
  fixes api :: "('g, 's) globs"
  assumes "globset_laws api" "exclusions_compile api ps = Inr exc"
  shows "excludes api exc rel \<longleftrightarrow> some_glob_matches api ps rel"
proof (cases "ps = []")
  case True
  then show ?thesis using assms(2) by (simp add: exclusions_compile_def excludes_def some_glob_matches_def)
next
  case False
  then obtain gs s where "list_all2 (\<lambda>p g. build_path_glob api p = Inr g) ps gs" "api_build_set api gs = Inr s" "exc = Some s"
    using assms(2) by (auto simp: exclusions_compile_def bind_result_Inr_iff map_result_Inr map_sum_Inr)
  then show ?thesis
    using globset_laws.built_set_matches[OF assms(1)] by (simp add: excludes_def some_glob_matches_def)
qed

lemma globset_match:
  fixes api :: "('g, 's) globs"
  assumes "globset_laws api" "build_globset api ps = Inr s"
  shows "api_set_match api s rel \<longleftrightarrow> some_glob_matches api ps rel"
proof -
  obtain gs where "list_all2 (\<lambda>p g. build_path_glob api p = Inr g) ps gs" "api_build_set api gs = Inr s"
    using assms(2) by (auto simp: build_globset_def bind_result_Inr_iff map_result_Inr)
  from globset_laws.built_set_matches[OF assms(1) this] show ?thesis by (simp add: some_glob_matches_def)
qed

lemma compiled_include_matches:
  fixes api :: "('g, 's) globs"
  assumes "globset_laws api" "compile_include api r = Inr inc"
  shows "include_base_dir inc = rq_base_dir r \<and> (include_matches api inc rel \<longleftrightarrow> request_selects api r rel)"
  using assms globset_laws.globset_spec[OF assms(1), of "[rq_pattern r]"]
  by (cases "rq_semantics r") (auto simp: compile_include_def request_selects_def map_sum_Inr)

lemma case_option_ex: "(case x of None \<Rightarrow> False | Some a \<Rightarrow> P a) \<longleftrightarrow> (\<exists>a. x = Some a \<and> P a)"
  by (cases x) auto

lemma matches_path_spec:
  fixes api :: "('g, 's) globs"
  assumes laws: "globset_laws api" and m: "path_request_matcher_compile api requests = Inr m"
  shows "matches_path api m path \<longleftrightarrow>
    (\<exists>r \<in> set requests. \<not> rq_negated r \<and> (\<exists>rel. path_strip_prefix (rq_base_dir r) path = Some rel \<and>
       request_selects api r rel \<and> \<not> some_glob_matches api (negated_patterns requests) rel))"
proof -
  obtain exc incs where e: "exclusions_compile api (negated_patterns requests) = Inr exc"
    and i: "list_all2 (\<lambda>r inc. compile_include api r = Inr inc) (filter (\<lambda>r. \<not> rq_negated r) requests) incs"
    and m': "m = \<lparr>prm_includes = incs, prm_exclusions = exc\<rparr>"
    using m by (auto simp: path_request_matcher_compile_def bind_result_Inr_iff map_result_Inr)
  have "(\<exists>inc \<in> set incs. \<exists>rel. path_strip_prefix (include_base_dir inc) path = Some rel \<and> P rel \<and> include_matches api inc rel) \<longleftrightarrow>
      (\<exists>r \<in> set (filter (\<lambda>r. \<not> rq_negated r) requests). \<exists>rel. path_strip_prefix (rq_base_dir r) path = Some rel \<and> P rel \<and> request_selects api r rel)" for P
    using i by (induction rule: list_all2_induct) (auto dest: compiled_include_matches[OF laws])
  then show ?thesis
    unfolding matches_path_def m' list_ex_iff case_option_ex
    by (simp add: exclusions_match[OF laws e]) blast
qed


section \<open>Walking only below the static prefixes\<close>

definition name_ok :: "string \<Rightarrow> bool" where
  "name_ok name \<longleftrightarrow> name \<noteq> [] \<and> CHR ''/'' \<notin> set name"

fun tree_ok :: "FsNode \<Rightarrow> bool" where
  "tree_ok FsFile = True"
| "tree_ok FsOther = True"
| "tree_ok (FsError e) = False"
| "tree_ok (FsDir children) \<longleftrightarrow>
     distinct (map fst children) \<and> (\<forall>(name, child) \<in> set children. name_ok name \<and> tree_ok child)"

lemma join_with_snoc: "xs \<noteq> [] \<Longrightarrow> join_with sep (xs @ [x]) = join_with sep xs @ sep @ x"
  by (induction sep xs rule: join_with.induct) auto

lemma join_with_names:
  assumes "list_all name_ok xs" "xs \<noteq> []"
  shows "join_with ''/'' xs \<noteq> [] \<and> last (join_with ''/'' xs) \<noteq> CHR ''/''"
proof -
  obtain ys y where xs: "xs = ys @ [y]" using assms(2) by (cases xs rule: rev_cases) auto
  then have "y \<noteq> []" "last y \<noteq> CHR ''/''" using assms(1) by (auto simp: name_ok_def) (metis last_in_set)
  then show ?thesis unfolding xs by (cases "ys = []") (auto simp: join_with_snoc)
qed

lemma join_path_name:
  assumes "list_all name_ok xs" "name_ok x"
  shows "join_path (join_with ''/'' xs) x = join_with ''/'' (xs @ [x])"
proof -
  have "strip_prefix ''/'' x = None" using assms(2) by (cases x) (auto simp: name_ok_def)
  then show ?thesis
    using join_with_names[OF assms(1)] by (cases "xs = []") (auto simp: join_path_def join_with_snoc)
qed

text \<open>The regular files of a tree, as lists of names.\<close>

definition tree_files :: "FsNode \<Rightarrow> string list set" where
  "tree_files node = {names. lookup_node node names = Some FsFile}"

lemma tree_files_dir:
  "tree_files (FsDir children) = (\<Union>(name, child) \<in> {(n, c). map_of children n = Some c}. (#) name ` tree_files child)"
proof -
  have "names \<in> tree_files (FsDir children) \<longleftrightarrow> (\<exists>n c ns. names = n # ns \<and> map_of children n = Some c \<and> ns \<in> tree_files c)" for names
    by (cases names) (auto simp: tree_files_def split: option.splits)
  then show ?thesis by (auto simp: image_iff)
qed

lemma tree_files_leaf: "tree_files FsFile = {[]}" "tree_files FsOther = {}"
proof -
  have "lookup_node FsFile names = Some FsFile \<longleftrightarrow> names = []" "lookup_node FsOther names \<noteq> Some FsFile" for names
    by (cases names; simp)+
  then show "tree_files FsFile = {[]}" "tree_files FsOther = {}" by (auto simp: tree_files_def)
qed

lemma walk_files_spec:
  "list_all name_ok pre \<Longrightarrow> tree_ok node \<Longrightarrow> \<exists>ps. walk_files (join_with ''/'' pre) node = Inr ps \<and>
     set ps = (\<lambda>names. join_with ''/'' (pre @ names)) ` tree_files node"
proof (induction node arbitrary: pre)
  case (FsDir children)
  have "\<exists>ps. walk_files_all (join_with ''/'' pre) cs = Inr ps \<and>
      set ps = (\<Union>(n, c) \<in> set cs. (\<lambda>names. join_with ''/'' (pre @ n # names)) ` tree_files c)"
    if "set cs \<subseteq> set children" for cs
    using that
  proof (induction cs)
    case (Cons nc cs)
    obtain n c where nc: "nc = (n, c)" by fastforce
    with Cons.prems have c: "(n, c) \<in> set children" by simp
    then have n: "name_ok n" "tree_ok c" using FsDir.prems by auto
    from FsDir.IH[of nc c "pre @ [n]"] c nc n FsDir.prems obtain ps where
      "walk_files (join_with ''/'' (pre @ [n])) c = Inr ps" "set ps = (\<lambda>names. join_with ''/'' (pre @ n # names)) ` tree_files c"
      by (auto simp: snds.simps)
    moreover obtain qs where "walk_files_all (join_with ''/'' pre) cs = Inr qs"
      "set qs = (\<Union>(n, c) \<in> set cs. (\<lambda>names. join_with ''/'' (pre @ n # names)) ` tree_files c)"
      using Cons by auto
    ultimately show ?case
      using join_path_name[OF FsDir.prems(1) n(1)] by (simp add: nc)
  qed simp
  from this[of children] obtain ps where ps: "walk_files_all (join_with ''/'' pre) children = Inr ps"
    "set ps = (\<Union>(n, c) \<in> set children. (\<lambda>names. join_with ''/'' (pre @ n # names)) ` tree_files c)" by auto
  have "{(n, c). map_of children n = Some c} = set children" using FsDir.prems(2) by (auto simp: map_of_eq_Some_iff)
  then have "(\<lambda>names. join_with ''/'' (pre @ names)) ` tree_files (FsDir children) = set ps"
    unfolding tree_files_dir ps(2) by (auto simp: image_iff)
  then show ?case using ps(1) by auto
qed (simp_all add: tree_files_leaf)

lemma lookup_append: "lookup_node node (xs @ ys) = Option.bind (lookup_node node xs) (\<lambda>sub. lookup_node sub ys)"
  by (induction node xs rule: lookup_node.induct) (auto split: option.splits FsNode.splits)

lemma lookup_tree_ok: "lookup_node node xs = Some sub \<Longrightarrow> tree_ok node \<Longrightarrow> tree_ok sub \<and> list_all name_ok xs"
proof (induction node xs rule: lookup_node.induct)
  case (2 node name names)
  then obtain children child where "node = FsDir children" "map_of children name = Some child" "lookup_node child names = Some sub"
    by (auto split: FsNode.splits option.splits)
  with 2 show ?case by (auto dest: map_of_SomeD)
qed simp

definition under :: "string list \<Rightarrow> string list \<Rightarrow> bool" where
  "under prefix names \<longleftrightarrow> take (length prefix) names = prefix"

lemma tree_files_below:
  "(\<lambda>names. prefix @ names) ` (case lookup_node node prefix of None \<Rightarrow> {} | Some sub \<Rightarrow> tree_files sub) =
     {names \<in> tree_files node. under prefix names}"
proof -
  have "names \<in> tree_files node \<and> under prefix names \<longleftrightarrow>
      (\<exists>sub rest. lookup_node node prefix = Some sub \<and> names = prefix @ rest \<and> rest \<in> tree_files sub)" for names
  proof -
    have "under prefix names \<longleftrightarrow> (\<exists>rest. names = prefix @ rest)" unfolding under_def by (metis append_eq_conv_conj append_take_drop_id)
    then show ?thesis by (auto simp: tree_files_def lookup_append bind_eq_Some_conv)
  qed
  then show ?thesis by (auto split: option.splits)
qed

lemma list_prefixes_spec:
  assumes "tree_ok node" "list_all (list_all name_ok) prefixes"
  shows "\<exists>ps. list_prefixes node prefixes = Inr ps \<and>
    set ps = join_with ''/'' ` {names \<in> tree_files node. \<exists>prefix \<in> set prefixes. under prefix names}"
  using assms(2)
proof (induction prefixes)
  case (Cons prefix prefixes)
  then obtain qs where qs: "list_prefixes node prefixes = Inr qs"
    "set qs = join_with ''/'' ` {names \<in> tree_files node. \<exists>prefix \<in> set prefixes. under prefix names}" by auto
  have "\<exists>ps. (case lookup_node node prefix of None \<Rightarrow> Inr [] | Some sub \<Rightarrow> walk_files (join_with ''/'' prefix) sub) = Inr ps \<and>
      set ps = join_with ''/'' ` {names \<in> tree_files node. under prefix names}"
  proof (cases "lookup_node node prefix")
    case None
    then show ?thesis using tree_files_below[of prefix node] by simp
  next
    case (Some sub)
    then have "tree_ok sub" using lookup_tree_ok assms(1) by blast
    then obtain ps where "walk_files (join_with ''/'' prefix) sub = Inr ps"
        "set ps = (\<lambda>names. join_with ''/'' (prefix @ names)) ` tree_files sub"
      using walk_files_spec Cons.prems by fastforce
    moreover from this(2) have "set ps = join_with ''/'' ` (\<lambda>names. prefix @ names) ` tree_files sub" by (simp add: image_image)
    ultimately show ?thesis using Some tree_files_below[of prefix node] by (simp del: walk_files.simps)
  qed
  then obtain ps where ps: "(case lookup_node node prefix of None \<Rightarrow> Inr [] | Some sub \<Rightarrow> walk_files (join_with ''/'' prefix) sub) = Inr ps"
    "set ps = join_with ''/'' ` {names \<in> tree_files node. under prefix names}" by blast
  have "set (ps @ qs) = join_with ''/'' ` ({names \<in> tree_files node. under prefix names} \<union>
      {names \<in> tree_files node. \<exists>prefix \<in> set prefixes. under prefix names})"
    by (simp only: set_append ps(2) qs(2) image_Un)
  also have "{names \<in> tree_files node. under prefix names} \<union> {names \<in> tree_files node. \<exists>prefix \<in> set prefixes. under prefix names} =
      {names \<in> tree_files node. \<exists>pre \<in> set (prefix # prefixes). under pre names}" by auto
  finally show ?case using ps(1) qs(1) by (simp del: walk_files.simps)
qed simp


lemma split_either_no_slash: "seg \<in> set (split_either s) \<Longrightarrow> CHR ''/'' \<notin> set seg"
  by (induction s arbitrary: seg) (auto split: if_splits list.splits)

lemma static_prefix_loop_names:
  "static_prefix_loop pre segs = Some res \<Longrightarrow> list_all name_ok pre \<Longrightarrow> (\<forall>seg \<in> set segs. CHR ''/'' \<notin> set seg) \<Longrightarrow> list_all name_ok res"
  by (induction pre segs rule: static_prefix_loop.induct) (auto simp: name_ok_def split: if_splits)

lemma static_prefix_names: "static_prefix p = Some pre \<Longrightarrow> list_all name_ok pre"
  unfolding static_prefix_def using static_prefix_loop_names split_either_no_slash by fastforce

lemma join_split_on: "join_with ''/'' (split_on (CHR ''/'') s) = s"
proof (induction s)
  case (Cons c s)
  have "split_on (CHR ''/'') s \<noteq> []" by (cases s) (auto split: list.splits)
  then obtain p ps where "split_on (CHR ''/'') s = p # ps" by (cases "split_on (CHR ''/'') s") auto
  then show ?case using Cons by (cases ps) auto
qed simp

lemma inj_path_key: "inj path_key"
  unfolding path_key_def by (metis injI join_split_on)

lemma path_set_cong:
  assumes "set ps = set qs" shows "path_set ps = path_set qs"
  unfolding path_set_def
proof (rule sort_key_distinct_unique)
  show "mset (remdups ps) = mset (remdups qs)" using assms by (simp add: set_eq_iff_mset_eq_distinct[symmetric])
  show "distinct (map path_key (remdups ps))" using inj_on_subset[OF inj_path_key] by (simp add: distinct_map)
qed

lemma set_path_set [simp]: "set (path_set ps) = set ps"
  by (simp add: path_set_def)

lemma prefix_union_Some:
  assumes "prefix_union patterns = Some prefixes" "patterns \<noteq> []"
  shows "set prefixes = {pre. \<exists>p \<in> set patterns. \<not> is_negated p \<and> static_prefix p = Some pre}"
    and "\<forall>p \<in> set patterns. \<not> is_negated p \<longrightarrow> static_prefix p \<noteq> None"
proof -
  obtain ps where ps: "those (map static_prefix (filter (\<lambda>p. \<not> is_negated p) patterns)) = Some ps"
    and pre: "prefixes = remdups_adj (sort_key (join_with ''/'') ps)"
    using assms by (auto simp: prefix_union_def)
  have those: "those (map f xs) = Some ys \<Longrightarrow> set ys = {y. \<exists>x \<in> set xs. f x = Some y} \<and> (\<forall>x \<in> set xs. f x \<noteq> None)" for f :: "string \<Rightarrow> string list option" and xs ys
    by (induction xs arbitrary: ys) (auto split: option.splits)
  from those[OF ps] show "set prefixes = {pre. \<exists>p \<in> set patterns. \<not> is_negated p \<and> static_prefix p = Some pre}"
    "\<forall>p \<in> set patterns. \<not> is_negated p \<longrightarrow> static_prefix p \<noteq> None"
    using pre by auto
qed

text \<open>What scoping relies on: a pattern matches only paths below its literal leading directories.\<close>

definition globs_respect_prefixes :: "('g, 's) globs \<Rightarrow> FsNode \<Rightarrow> string list \<Rightarrow> bool" where
  "globs_respect_prefixes api node patterns \<longleftrightarrow>
     (\<forall>p \<in> set patterns. \<forall>names \<in> tree_files node. \<forall>g pre.
        build_path_glob api p = Inr g \<longrightarrow> api_glob_match api g (join_with ''/'' names) \<longrightarrow>
        static_prefix p = Some pre \<longrightarrow> under pre names)"

lemma filesystem_list_sets:
  assumes "tree_ok node" "prefix_union patterns = Some prefixes" "patterns \<noteq> []"
  shows "\<exists>cs. filesystem_list node (Some prefixes) = Inr cs \<and>
    set cs = join_with ''/'' ` {names \<in> tree_files node. \<exists>pre \<in> set prefixes. under pre names}"
proof -
  have "list_all (list_all name_ok) prefixes"
    using prefix_union_Some(1)[OF assms(2,3)] static_prefix_names by (auto simp: list_all_iff)
  with list_prefixes_spec[OF assms(1)] obtain ps where "list_prefixes node prefixes = Inr ps"
    "set ps = join_with ''/'' ` {names \<in> tree_files node. \<exists>pre \<in> set prefixes. under pre names}" by blast
  then show ?thesis by (cases "prefixes = []") (auto simp: filesystem_list_def)
qed

lemma full_walk_sets:
  assumes "tree_ok node"
  shows "\<exists>cs. walk_output_candidates node = Inr cs \<and> set cs = join_with ''/'' ` tree_files node"
  using walk_files_spec[of "[]" node] assms by (auto simp: walk_output_candidates_def simp del: walk_files.simps)

lemma resolve_with_candidates_cong:
  assumes "\<And>gs. build_globset api (filter (\<lambda>p. classify_pattern p = Wildcard) (filter (\<lambda>p. \<not> is_negated p) patterns)) = Inr gs \<Longrightarrow>
      {c \<in> set cs. api_set_match api gs c} = {c \<in> set ds. api_set_match api gs c}"
  shows "resolve_with_candidates api env b patterns cs prior = resolve_with_candidates api env b patterns ds prior"
proof -
  let ?ps = "filter (\<lambda>p. classify_pattern p = Wildcard) (filter (\<lambda>p. \<not> is_negated p) patterns)"
  have "path_set (ls @ filter (api_set_match api gs) cs) = path_set (ls @ filter (api_set_match api gs) ds)"
    if "build_globset api ?ps = Inr gs" for ls gs using assms[OF that] by (intro path_set_cong) auto
  then show ?thesis
    by (cases "build_globset api ?ps") (auto simp: resolve_with_candidates_def Let_def intro!: bind_result_cong)
qed

lemma scoped_outputs:
  fixes api :: "('g, 's) globs"
  assumes laws: "globset_laws api" and node: "fs_node env b = Some node" "tree_ok node"
    and respect: "globs_respect_prefixes api node patterns"
  shows "ref_outputs api env b patterns prior =
    bind_result (walk_output_candidates node) (\<lambda>cs. resolve_with_candidates api env b patterns cs prior)"
proof -
  obtain ds where ds: "walk_output_candidates node = Inr ds" "set ds = join_with ''/'' ` tree_files node"
    using full_walk_sets[OF node(2)] by blast
  consider (none) "prefix_union patterns = None" | (empty) "patterns = []"
    | (some) prefixes where "prefix_union patterns = Some prefixes" "patterns \<noteq> []" by blast
  then show ?thesis
  proof cases
    case none
    then show ?thesis using node by (simp add: ref_outputs_def output_candidates_def filesystem_list_def)
  next
    case empty
    then show ?thesis using node ds by (simp add: ref_outputs_def output_candidates_def prefix_union_def filesystem_list_def resolve_with_candidates_def)
  next
    case some
    obtain cs where cs: "filesystem_list node (Some prefixes) = Inr cs"
      "set cs = join_with ''/'' ` {names \<in> tree_files node. \<exists>pre \<in> set prefixes. under pre names}"
      using filesystem_list_sets[OF node(2) some] by blast
    have "resolve_with_candidates api env b patterns cs prior = resolve_with_candidates api env b patterns ds prior"
    proof (rule resolve_with_candidates_cong)
      fix gs assume gs: "build_globset api (filter (\<lambda>p. classify_pattern p = Wildcard) (filter (\<lambda>p. \<not> is_negated p) patterns)) = Inr gs"
      have "\<exists>pre \<in> set prefixes. under pre names" if names: "names \<in> tree_files node" and match: "api_set_match api gs (join_with ''/'' names)" for names
      proof -
        obtain p g where p: "p \<in> set patterns" "\<not> is_negated p" "build_path_glob api p = Inr g" "api_glob_match api g (join_with ''/'' names)"
          using globset_match[OF laws gs] match by (auto simp: some_glob_matches_def)
        moreover obtain pre where "static_prefix p = Some pre" using prefix_union_Some(2)[OF some] p by fastforce
        ultimately show ?thesis
          using respect names prefix_union_Some(1)[OF some] unfolding globs_respect_prefixes_def by blast
      qed
      then show "{c \<in> set cs. api_set_match api gs c} = {c \<in> set ds. api_set_match api gs c}" unfolding cs(2) ds(2) by auto
    qed
    then show ?thesis using node cs ds some by (simp add: ref_outputs_def output_candidates_def)
  qed
qed


section \<open>Examples\<close>

text \<open>A glob compiler in which a pattern stands for the paths that begin with its text up to the star.\<close>

definition star_globset :: "(string, string list) globs" where
  "star_globset =
     \<lparr>api_build_glob = (\<lambda>p. Inr (unescape_literal (takeWhile (\<lambda>c. c \<noteq> CHR ''*'') p))),
      api_glob_match = (\<lambda>g path. strip_prefix g path \<noteq> None),
      api_build_set = Inr,
      api_set_match = (\<lambda>gs path. \<exists>g \<in> set gs. strip_prefix g path \<noteq> None)\<rparr>"

interpretation star: globset_laws star_globset
  by unfold_locales (auto simp: star_globset_def)

definition example_tree :: FsNode where
  "example_tree = FsDir [(''dist'', FsDir [(''x'', FsFile)]), (''a-b'', FsDir [(''y'', FsFile)])]"

definition example_fs :: FsEnv where
  "example_fs =
     \<lparr>fs_node = (\<lambda>p. if p = ''/r/p'' then Some example_tree else None),
      fs_stat = (\<lambda>_. StatOk 1 (Inr 0)), fs_hash = (\<lambda>_. Inr zero_hash), fs_canonicalize = (\<lambda>_. None),
      fs_discover = (\<lambda>_. Inr ''/r''), fs_open = (\<lambda>_. Inr (''/r/.git'', \<lambda>_. Inr False))\<rparr>"

lemma example_tree_ok: "tree_ok example_tree" "fs_node example_fs ''/r/p'' = Some example_tree"
  by (simp_all add: example_tree_def example_fs_def name_ok_def)

lemma example_tree_files: "tree_files example_tree = {[''dist'', ''x''], [''a-b'', ''y'']}"
proof -
  have "{(n, c). map_of [(a, x), (b, y)] n = Some c} = {(a, x), (b, y)}" if "a \<noteq> b" for a b :: string and x y :: FsNode
    using that by (auto split: if_splits)
  moreover have "{(n, c). map_of [(a, x)] n = Some c} = {(a, x)}" for a :: string and x :: FsNode by (auto split: if_splits)
  ultimately show ?thesis by (simp add: example_tree_def tree_files_dir tree_files_leaf insert_commute)
qed

section \<open>Properties\<close>

text \<open>C27: The caches of a run are invisible. As long as the listing cache holds what the file system holds,
  resolving inputs and outputs gives the result of the resolution that never caches anything, on every branch
  including the errors, and leaves a listing cache that again holds what the file system holds.\<close>

theorem resolution_caches_invisible:
  assumes "listing_ok env listing"
  shows "fst (resolve_inputs_with_semantics_and_options api env requests prior listing) = ref_inputs api env requests prior \<and>
    listing_ok env (snd (resolve_inputs_with_semantics_and_options api env requests prior listing)) \<and>
    fst (resolve_outputs_with_options api env base_dir patterns prior listing) = ref_outputs api env base_dir patterns prior \<and>
    listing_ok env (snd (resolve_outputs_with_options api env base_dir patterns prior listing))"
  using resolve_inputs_ref[OF assms] resolve_outputs_ref[OF assms] by blast

theorem resolution_caches_invisible_witness:
  "fst (resolve_outputs_with_options star_globset example_fs ''/r/p'' [''dist/*''] []
      (Some \<lparr>lc_input_candidates = [], lc_output_candidates = [((''/r/p'', Some [[''dist'']]), [''dist/x''])], lc_worktree_roots = []\<rparr>)) =
   ref_outputs star_globset example_fs ''/r/p'' [''dist/*''] []"
proof -
  have "output_candidates example_fs ''/r/p'' (Some [[''dist'']]) = Inr [''dist/x'']"
    by (simp add: output_candidates_def example_fs_def example_tree_def filesystem_list_def path_set_def join_path_def)
  then have "listing_ok example_fs (Some \<lparr>lc_input_candidates = [], lc_output_candidates = [((''/r/p'', Some [[''dist'']]), [''dist/x''])],
      lc_worktree_roots = []\<rparr>)"
    by (simp add: listing_ok_def agrees_def)
  from resolution_caches_invisible[OF this] show ?thesis by blast
qed

text \<open>Reusing recorded hashes is sound: if every file that still has its recorded size and time has
  its recorded content, resolving with the recorded entries gives the same entries as hashing every file.\<close>

lemma hash_reuse_sound:
  assumes "\<forall>r \<in> set requests. \<forall>prefix. ref_prefix env (rq_base_dir r) = Inr prefix \<longrightarrow>
      hashes_current env \<lparr>rb_dir = rq_base_dir r, rb_prefix = prefix\<rparr> prior"
    and "hashes_current env \<lparr>rb_dir = base_dir, rb_prefix = []\<rparr> prior"
  shows "fst (resolve_inputs_with_semantics_and_options api env requests prior None) =
      fst (resolve_inputs_with_semantics_and_options api env requests [] None) \<and>
    fst (resolve_outputs_with_options api env base_dir patterns prior None) = resolve_outputs api env base_dir patterns"
  using resolve_inputs_ref[of env None api requests] resolve_outputs_ref[of env None api base_dir patterns]
    ref_inputs_reuse[OF assms(1), of api] ref_outputs_reuse[OF assms(2), of api patterns] by (simp add: resolve_outputs_def)

lemma hash_reuse_sound_witness:
  "fst (resolve_outputs_with_options star_globset example_fs ''/r/p'' [''dist/*'']
      [\<lparr>fe_path = ''dist/x'', fe_size = 1, fe_mtime_ns = 0, fe_hash = zero_hash, fe_absent = False\<rparr>] None) =
   resolve_outputs star_globset example_fs ''/r/p'' [''dist/*'']"
proof -
  have "hashes_current example_fs base [\<lparr>fe_path = ''dist/x'', fe_size = 1, fe_mtime_ns = 0, fe_hash = zero_hash, fe_absent = False\<rparr>]" for base
    by (simp add: hashes_current_def example_fs_def reusable_hash_def prior_entries_by_path_def collect_map_def)
  from hash_reuse_sound[OF _ this, of "[]" star_globset "''/r/p''" "[''dist/*'']"] show ?thesis by simp
qed

text \<open>The compiled matcher accepts an absolute path exactly when some including request, relative to its own
  base directory, selects it literally or by its glob, and no excluding request of the whole list
  matches that relative path.\<close>

lemma request_matcher_correct:
  assumes "globset_laws api" and "path_request_matcher_compile api requests = Inr m"
  shows "matches_path api m path \<longleftrightarrow>
    (\<exists>r \<in> set requests. \<not> rq_negated r \<and> (\<exists>rel. path_strip_prefix (rq_base_dir r) path = Some rel \<and>
       request_selects api r rel \<and> \<not> some_glob_matches api (negated_patterns requests) rel))"
  by (rule matches_path_spec[OF assms])

lemma request_matcher_correct_witness:
  "\<exists>m. path_request_matcher_compile star_globset (map (resolve_request_new ''/r/p'') [''src/*'', ''!src/gen*'']) = Inr m \<and>
     matches_path star_globset m ''/r/p/src/a'' \<and> \<not> matches_path star_globset m ''/r/p/src/gen1''"
proof -
  let ?rs = "map (resolve_request_new ''/r/p'') [''src/*'', ''!src/gen*'']"
  obtain m where m: "path_request_matcher_compile star_globset ?rs = Inr m"
    by (simp add: path_request_matcher_compile_def exclusions_compile_def negated_patterns_def resolve_request_new_def
        classify_pattern_def compile_include_def build_path_globset_def build_path_glob_def star_globset_def map_err_def)
  have "path_strip_prefix ''/r/p'' ''/r/p/src/a'' = Some ''src/a''" "path_strip_prefix ''/r/p'' ''/r/p/src/gen1'' = Some ''src/gen1''"
    by (simp_all add: path_strip_prefix_def path_components_def component_of_def)
  then show ?thesis
    using m request_matcher_correct[OF star.globset_laws_axioms m]
    by (simp add: negated_patterns_def resolve_request_new_def classify_pattern_def request_selects_def
        some_glob_matches_def build_path_glob_def star_globset_def)
qed

text \<open>Listing outputs only below the literal leading directories of the patterns finds what a walk of the
  whole package finds, if a pattern matches only paths below those directories.\<close>

lemma output_walk_scoped:
  assumes "globset_laws api" and "fs_node env base_dir = Some node" and "tree_ok node"
    and "globs_respect_prefixes api node patterns"
  shows "fst (resolve_outputs_with_options api env base_dir patterns prior None) =
    bind_result (walk_output_candidates node) (\<lambda>cs. resolve_with_candidates api env base_dir patterns cs prior)"
  using resolve_outputs_ref[of env None api base_dir patterns prior] scoped_outputs[OF assms] by simp

lemma output_walk_scoped_witness:
  "resolve_outputs star_globset example_fs ''/r/p'' [''dist/*''] =
   bind_result (walk_output_candidates example_tree) (\<lambda>cs. resolve_with_candidates star_globset example_fs ''/r/p'' [''dist/*''] cs [])"
proof -
  have "globs_respect_prefixes star_globset example_tree [''dist/*'']"
    by (simp add: globs_respect_prefixes_def example_tree_files build_path_glob_def star_globset_def static_prefix_def
        is_glob_metachar_def under_def)
  from output_walk_scoped[OF star.globset_laws_axioms example_tree_ok(2,1) this, of "[]"] show ?thesis
    by (simp add: resolve_outputs_def)
qed

text \<open>The literal leading directories are cut at backslashes although a backslash escapes the next
  character: for an output pattern with an escape in a directory name the wrong directory is walked, and a
  file that the pattern matches is not found.\<close>

lemma escaped_directory_missed:
  "resolve_outputs star_globset example_fs ''/r/p'' [''a'' @ [CHR 0x5C] @ ''-b/*''] = Inr [] \<and>
   bind_result (walk_output_candidates example_tree) (\<lambda>cs.
     resolve_with_candidates star_globset example_fs ''/r/p'' [''a'' @ [CHR 0x5C] @ ''-b/*''] cs []) =
   Inr [\<lparr>fe_path = ''a-b/y'', fe_size = 1, fe_mtime_ns = 0, fe_hash = zero_hash, fe_absent = False\<rparr>]"
  by (simp add: resolve_outputs_def resolve_outputs_with_options_def cached_output_candidates_def output_candidates_def
      prefix_union_def static_prefix_def is_glob_metachar_def is_negated_def filesystem_list_def example_fs_def example_tree_def
      path_set_def resolve_with_candidates_def exclusions_compile_def excludes_def classify_pattern_def build_globset_def
      build_path_glob_def star_globset_def resolve_file_entries_def file_entry_from_path_def qualify_relative_path_def
      normalize_path_def map_err_def walk_output_candidates_def join_path_def path_key_def reusable_hash_def
      prior_entries_by_path_def collect_map_def)

end
