(* ===== verification/InputExpansion.thy ===== *)
theory InputExpansion
  imports TaskGraph CacheResolve
begin

text \<open>
  Expansion of input patterns over the package graph, \<open>crates/luchta-engine/src/input_expansion.rs\<close>: each
  pattern becomes one request per package it refers to, based in that package's directory, and a pattern that
  leaves its base directory is refused. A normalised path is the list of its components.
\<close>

datatype InputExpansionError =
    UnknownInputPackage PackageName string
  | PathEscape PackageName string
  | InvalidPattern PackageName string string

definition display_package :: "PackageName \<Rightarrow> string" where
  "display_package package =
     (if package = ROOT_PACKAGE_NAME then ''the workspace root'' else ''package '' @ sq @ package @ sq)"

fun input_error_to_string :: "InputExpansionError \<Rightarrow> string" where
  "input_error_to_string (UnknownInputPackage package pattern) =
     ''unknown '' @ display_package package @ '' in input pattern '' @ sq @ pattern @ sq"
| "input_error_to_string (PathEscape source_pkg pattern) =
     ''path escape in input pattern '' @ sq @ pattern @ sq @ '' from '' @ display_package source_pkg @
     '': resolved path escapes base directory''"
| "input_error_to_string (InvalidPattern source_pkg pattern reason) =
     ''invalid input pattern '' @ sq @ pattern @ sq @ '' from '' @ display_package source_pkg @ '': '' @ reason"

fun input_error_pattern :: "InputExpansionError \<Rightarrow> string" where
  "input_error_pattern (UnknownInputPackage _ pattern) = pattern"
| "input_error_pattern (PathEscape _ pattern) = pattern"
| "input_error_pattern (InvalidPattern _ pattern _) = pattern"

record ExpansionCtx =
  xc_source_pkg :: PackageName
  xc_graph :: PackageGraph
  xc_repo_root :: string
  xc_direct_upstreams :: "PackageName list"
  xc_transitive_upstreams :: "PackageName list"

definition extract_literal_prefix :: "string \<Rightarrow> string" where
  "extract_literal_prefix pattern = takeWhile (\<lambda>c. c \<notin> {CHR ''*'', CHR ''?'', CHR ''['', CHR ''{''}) pattern"

fun normalize_step :: "path_component \<Rightarrow> path_component list \<Rightarrow> path_component list" where
  "normalize_step RootDir components = [RootDir]"
| "normalize_step CurDir components = components"
| "normalize_step ParentDir components =
     (if components \<noteq> [] \<and> (case last components of Normal s \<Rightarrow> True | _ \<Rightarrow> False) then butlast components else components @ [ParentDir])"
| "normalize_step (Normal s) components = components @ [Normal s]"

definition lexical_normalize :: "string \<Rightarrow> path_component list" where
  "lexical_normalize path = fold normalize_step (path_components path) []"

definition path_starts_with :: "path_component list \<Rightarrow> path_component list \<Rightarrow> bool" where
  "path_starts_with path prefix \<longleftrightarrow>
     (if length prefix > length path then False else take (length prefix) path = prefix)"

definition validate_path :: "string \<Rightarrow> string \<Rightarrow> PackageName \<Rightarrow> string \<Rightarrow> InputExpansionError + unit" where
  "validate_path base_dir pattern source_pkg original_pattern =
     (let resolved = lexical_normalize (join_path base_dir (extract_literal_prefix pattern))
      in if \<not> path_starts_with resolved (path_components base_dir) then Inl (PathEscape source_pkg original_pattern)
         else Inr ())"

definition package_dir :: "toposort \<Rightarrow> PackageGraph \<Rightarrow> PackageName \<Rightarrow> string \<Rightarrow> InputExpansionError + string" where
  "package_dir topo g pkg_name pattern =
     (if package_is_root pkg_name then Inl (UnknownInputPackage pkg_name pattern)
      else case pg_topological_order topo g of
             Inl _ \<Rightarrow> Inl (UnknownInputPackage pkg_name pattern)
           | Inr nodes \<Rightarrow>
               (case find (\<lambda>node. pn_name node = pkg_name) nodes of
                  Some node \<Rightarrow> Inr (pn_path node)
                | None \<Rightarrow> Inl (UnknownInputPackage pkg_name pattern)))"

definition direct_upstream_packages :: "PackageGraph \<Rightarrow> PackageName \<Rightarrow> InputExpansionError + PackageName list" where
  "direct_upstream_packages g pkg_name =
     (case pg_dependencies_of g pkg_name of
        Inl _ \<Rightarrow> Inl (UnknownInputPackage pkg_name [])
      | Inr deps \<Rightarrow> Inr (map pn_name deps))"

definition resolve_request ::
  "toposort \<Rightarrow> ExpansionCtx \<Rightarrow> PackageName \<Rightarrow> string \<Rightarrow> string \<Rightarrow> InputSemantics \<Rightarrow> InputExpansionError + ResolveRequest" where
  "resolve_request topo ctx package path original_pattern semantics =
     bind_result (if package_is_root package then Inr (xc_repo_root ctx)
                  else package_dir topo (xc_graph ctx) package original_pattern) (\<lambda>base_dir.
     bind_result (validate_path base_dir path (xc_source_pkg ctx) original_pattern) (\<lambda>_.
     Inr \<lparr>rq_base_dir = base_dir, rq_pattern = path, rq_semantics = semantics, rq_negated = False\<rparr>))"

definition parse_input_pattern :: "string \<Rightarrow> PackageName \<Rightarrow> InputExpansionError + InputPattern" where
  "parse_input_pattern pattern source_pkg =
     (case input_pattern_from_str pattern of
        Inl e \<Rightarrow> Inl (InvalidPattern source_pkg pattern e)
      | Inr p \<Rightarrow> Inr p)"

definition build_root_request :: "toposort \<Rightarrow> ExpansionCtx \<Rightarrow> string \<Rightarrow> string \<Rightarrow> InputExpansionError + ResolveRequest list" where
  "build_root_request topo ctx path original_pattern =
     map_sum id (\<lambda>r. [r]) (resolve_request topo ctx ROOT_PACKAGE_NAME path original_pattern (input_semantics (InRoot path)))"

definition build_specific_request ::
  "toposort \<Rightarrow> ExpansionCtx \<Rightarrow> PackageName \<Rightarrow> string \<Rightarrow> string \<Rightarrow> InputExpansionError + ResolveRequest list" where
  "build_specific_request topo ctx pkg path original_pattern =
     (let semantics = (if pkg = xc_source_pkg ctx then input_semantics (InSamePackage path)
                       else input_semantics (InSpecific pkg path))
      in map_sum id (\<lambda>r. [r]) (resolve_request topo ctx pkg path original_pattern semantics))"

definition build_same_package_request :: "toposort \<Rightarrow> ExpansionCtx \<Rightarrow> string \<Rightarrow> string \<Rightarrow> InputExpansionError + ResolveRequest list" where
  "build_same_package_request topo ctx = build_specific_request topo ctx (xc_source_pkg ctx)"

definition build_upstream_requests ::
  "toposort \<Rightarrow> ExpansionCtx \<Rightarrow> PackageName list \<Rightarrow> string \<Rightarrow> string \<Rightarrow> InputExpansionError + ResolveRequest list" where
  "build_upstream_requests topo ctx upstreams path original_pattern =
     map_result (\<lambda>upstream_pkg. resolve_request topo ctx upstream_pkg path original_pattern Wildcard) upstreams"

fun build_requests_for_pattern ::
  "toposort \<Rightarrow> ExpansionCtx \<Rightarrow> InputPattern \<Rightarrow> string \<Rightarrow> string \<Rightarrow> InputExpansionError + ResolveRequest list" where
  "build_requests_for_pattern topo ctx (InSamePackage _) path original = build_same_package_request topo ctx path original"
| "build_requests_for_pattern topo ctx (InRoot _) path original = build_root_request topo ctx path original"
| "build_requests_for_pattern topo ctx (InSpecific pkg _) path original = build_specific_request topo ctx pkg path original"
| "build_requests_for_pattern topo ctx (InDirectUpstream _) path original =
     build_upstream_requests topo ctx (xc_direct_upstreams ctx) path original"
| "build_requests_for_pattern topo ctx (InTransitiveUpstream _) path original =
     build_upstream_requests topo ctx (xc_transitive_upstreams ctx) path original"

fun expand_loop :: "toposort \<Rightarrow> ExpansionCtx \<Rightarrow> string list \<Rightarrow> ResolveRequest list \<Rightarrow> InputExpansionError + ResolveRequest list" where
  "expand_loop topo ctx [] requests = Inr requests"
| "expand_loop topo ctx (pattern # patterns) requests =
     (case split_negation pattern of
        (True, body) \<Rightarrow>
          expand_loop topo ctx patterns
            (requests @ [\<lparr>rq_base_dir = xc_repo_root ctx, rq_pattern = body, rq_semantics = Wildcard, rq_negated = True\<rparr>])
      | (False, _) \<Rightarrow>
          bind_result (parse_input_pattern pattern (xc_source_pkg ctx)) (\<lambda>parsed.
          bind_result (build_requests_for_pattern topo ctx parsed (input_path parsed) pattern) (\<lambda>rs.
          expand_loop topo ctx patterns (requests @ rs))))"

definition expansion_source :: "PackageGraph \<Rightarrow> PackageName \<Rightarrow> PackageName" where
  "expansion_source g source_pkg =
     (if package_is_root source_pkg
      then (case pg_root_package g of Some root \<Rightarrow> root | None \<Rightarrow> source_pkg)
      else source_pkg)"

definition expansion_upstreams :: "PackageGraph \<Rightarrow> PackageName \<Rightarrow> InputExpansionError + PackageName list \<times> PackageName list" where
  "expansion_upstreams g source_pkg =
     (let upstream_source = expansion_source g source_pkg
      in if package_is_root source_pkg \<and> package_is_root upstream_source then Inr ([], [])
         else bind_result (direct_upstream_packages g upstream_source) (\<lambda>direct_upstreams.
              case transitive_upstream_packages g upstream_source of
                Inl _ \<Rightarrow> Inl (UnknownInputPackage source_pkg [])
              | Inr transitive_upstreams \<Rightarrow> Inr (direct_upstreams, transitive_upstreams)))"

definition expand_input_patterns ::
  "toposort \<Rightarrow> string list \<Rightarrow> PackageName \<Rightarrow> PackageGraph \<Rightarrow> string \<Rightarrow> InputExpansionError + ResolveRequest list" where
  "expand_input_patterns topo patterns source_pkg g repo_root =
     bind_result (expansion_upstreams g source_pkg) (\<lambda>(direct_upstreams, transitive_upstreams).
       expand_loop topo \<lparr>xc_source_pkg = source_pkg, xc_graph = g, xc_repo_root = repo_root,
                         xc_direct_upstreams = direct_upstreams, xc_transitive_upstreams = transitive_upstreams\<rparr>
         patterns [])"

section \<open>What an expansion stands for\<close>

definition dir_of :: "PackageGraph \<Rightarrow> string \<Rightarrow> PackageName \<Rightarrow> string option" where
  "dir_of g repo_root n =
     (if package_is_root n then Some repo_root
      else map_option pn_path (find (\<lambda>node. pn_name node = n) (dg_nodes (pg_graph g))))"

definition stays_within :: "string \<Rightarrow> string \<Rightarrow> bool" where
  "stays_within base_dir pattern \<longleftrightarrow>
     (\<exists>rest. lexical_normalize (join_path base_dir (extract_literal_prefix pattern)) = path_components base_dir @ rest)"

definition upstreams_of :: "PackageGraph \<Rightarrow> PackageName \<Rightarrow> (PackageName \<times> PackageName) set \<Rightarrow> PackageName set" where
  "upstreams_of g source_pkg R =
     (if package_is_root source_pkg \<and> package_is_root (expansion_source g source_pkg) then {}
      else R `` {expansion_source g source_pkg})"

fun input_packages :: "PackageGraph \<Rightarrow> PackageName \<Rightarrow> InputPattern \<Rightarrow> PackageName set" where
  "input_packages g source_pkg (InSamePackage _) = {source_pkg}"
| "input_packages g source_pkg (InRoot _) = {ROOT_PACKAGE_NAME}"
| "input_packages g source_pkg (InSpecific pkg _) = {pkg}"
| "input_packages g source_pkg (InDirectUpstream _) = upstreams_of g source_pkg (pg_rel g Outgoing)"
| "input_packages g source_pkg (InTransitiveUpstream _) = upstreams_of g source_pkg ((pg_rel g Outgoing)\<^sup>+)"

text \<open>The request for one package; none if the package is unknown or the pattern escapes.\<close>

definition request_for :: "PackageGraph \<Rightarrow> string \<Rightarrow> InputPattern \<Rightarrow> PackageName \<Rightarrow> ResolveRequest option" where
  "request_for g repo_root ip n =
     (case dir_of g repo_root n of
        None \<Rightarrow> None
      | Some d \<Rightarrow>
          if stays_within d (input_path ip)
          then Some \<lparr>rq_base_dir = d, rq_pattern = input_path ip, rq_semantics = input_semantics ip, rq_negated = False\<rparr>
          else None)"

definition pattern_expands :: "PackageGraph \<Rightarrow> string \<Rightarrow> PackageName \<Rightarrow> string \<Rightarrow> bool" where
  "pattern_expands g repo_root source_pkg p \<longleftrightarrow>
     (\<exists>ip. input_pattern_from_str p = Inr ip \<and> (\<forall>n \<in> input_packages g source_pkg ip. request_for g repo_root ip n \<noteq> None))"

definition pattern_requests :: "PackageGraph \<Rightarrow> string \<Rightarrow> PackageName \<Rightarrow> string \<Rightarrow> ResolveRequest set" where
  "pattern_requests g repo_root source_pkg p =
     (if is_negated p
      then {\<lparr>rq_base_dir = repo_root, rq_pattern = snd (split_negation p), rq_semantics = Wildcard, rq_negated = True\<rparr>}
      else {rq. \<exists>ip n. input_pattern_from_str p = Inr ip \<and> n \<in> input_packages g source_pkg ip \<and> request_for g repo_root ip n = Some rq})"


lemma path_starts_with_iff: "path_starts_with path prefix \<longleftrightarrow> (\<exists>rest. path = prefix @ rest)"
  unfolding path_starts_with_def by (auto simp: append_eq_conv_conj) (metis append_take_drop_id)

lemma validate_path_iff: "validate_path base_dir pattern src orig = Inr u \<longleftrightarrow> stays_within base_dir pattern"
  by (simp add: validate_path_def stays_within_def path_starts_with_iff Let_def)

lemma find_distinct_unique:
  assumes "set xs = set ys" "distinct (map f xs)" "distinct (map f ys)"
  shows "find (\<lambda>x. f x = k) xs = find (\<lambda>x. f x = k) ys"
proof -
  have find_Some: "find (\<lambda>x. f x = k) zs = Some x \<longleftrightarrow> x \<in> set zs \<and> f x = k" if "distinct (map f zs)" for zs x
    using that by (induction zs) (auto simp: image_iff)
  have "find (\<lambda>x. f x = k) xs = Some x \<longleftrightarrow> find (\<lambda>x. f x = k) ys = Some x" for x
    using find_Some[OF assms(2)] find_Some[OF assms(3)] assms(1) by simp
  then show ?thesis by (metis option.exhaust)
qed

lemma map_result_set: "map_result f xs = Inr ys \<Longrightarrow> set ys = {y. \<exists>x \<in> set xs. f x = Inr y}"
  unfolding map_result_Inr by (induction rule: list_all2_induct) auto

lemma map_result_ex: "(\<exists>ys. map_result f xs = Inr ys) \<longleftrightarrow> (\<forall>x \<in> set xs. \<exists>y. f x = Inr y)"
  by (induction xs) (auto split: sum.splits)

locale expansion_setting =
  fixes topo :: toposort and g :: PackageGraph
  assumes topo: "toposort_laws topo" and wf: "wf_package_graph g" and acyc: "acyclic (pg_rel g Outgoing)"
begin

lemma package_dir_of:
  assumes "\<not> package_is_root n"
  shows "package_dir topo g n p = (case dir_of g repo_root n of Some d \<Rightarrow> Inr d | None \<Rightarrow> Inl (UnknownInputPackage n p))"
proof -
  obtain ns where ns: "pg_topological_order topo g = Inr ns"
    using pg_topological_order_fails_iff[OF topo wf] acyc by (cases "pg_topological_order topo g") auto
  have "distinct (map pn_name (dg_nodes (pg_graph g)))"
    using named_distinct[OF wf_package_named[OF wf]] by simp
  then have "find (\<lambda>x. pn_name x = n) ns = find (\<lambda>x. pn_name x = n) (dg_nodes (pg_graph g))"
    by (intro find_distinct_unique) (simp_all add: pg_topological_order_Inr[OF topo wf ns])
  then show ?thesis using assms ns by (simp add: package_dir_def dir_of_def split: option.splits)
qed

lemma resolve_request_iff:
  assumes "xc_graph ctx = g" "input_path ip = path" "input_semantics ip = sem"
  shows "resolve_request topo ctx n path orig sem = Inr rq \<longleftrightarrow> request_for g (xc_repo_root ctx) ip n = Some rq"
proof (cases "package_is_root n")
  case True
  then show ?thesis
    using assms by (auto simp: resolve_request_def request_for_def dir_of_def bind_result_Inr_iff validate_path_iff)
next
  case False
  then show ?thesis
    using assms package_dir_of[OF False, of orig "xc_repo_root ctx"]
    by (auto simp: resolve_request_def request_for_def bind_result_Inr_iff validate_path_iff split: option.splits)
qed

lemma upstreams_spec:
  "expansion_upstreams g src = Inr (ds, ts) \<Longrightarrow>
     set ds = upstreams_of g src (pg_rel g Outgoing) \<and> set ts = upstreams_of g src ((pg_rel g Outgoing)\<^sup>+)"
  "(\<exists>r. expansion_upstreams g src = Inr r) \<longleftrightarrow>
     package_is_root src \<and> package_is_root (expansion_source g src) \<or> expansion_source g src \<in> pg_names g"
proof -
  let ?u = "expansion_source g src"
  have direct: "direct_upstream_packages g ?u = Inr xs \<Longrightarrow> set xs = pg_rel g Outgoing `` {?u}" for xs
    using pg_dependencies_of_names[OF wf] by (auto simp: direct_upstream_packages_def split: sum.splits)
  have known: "(\<exists>xs. direct_upstream_packages g ?u = Inr xs) \<longleftrightarrow> ?u \<in> pg_names g"
    using pg_node_index_Inl[OF wf, of ?u]
    by (cases "pg_node_index g ?u") (auto simp: direct_upstream_packages_def pg_dependencies_of_def)
  show "expansion_upstreams g src = Inr (ds, ts) \<Longrightarrow>
     set ds = upstreams_of g src (pg_rel g Outgoing) \<and> set ts = upstreams_of g src ((pg_rel g Outgoing)\<^sup>+)"
    using direct known transitive_upstream_spec[OF wf, of ?u]
    by (auto simp: expansion_upstreams_def upstreams_of_def Let_def bind_result_Inr_iff split: if_splits sum.splits)
  show "(\<exists>r. expansion_upstreams g src = Inr r) \<longleftrightarrow> package_is_root src \<and> package_is_root ?u \<or> ?u \<in> pg_names g"
    using known transitive_upstream_spec[OF wf, of ?u]
    by (auto simp: expansion_upstreams_def Let_def bind_result_Inr_iff split: sum.splits)
qed

definition setting :: "PackageName \<Rightarrow> string \<Rightarrow> ExpansionCtx \<Rightarrow> bool" where
  "setting src repo_root ctx \<longleftrightarrow>
     xc_graph ctx = g \<and> xc_source_pkg ctx = src \<and> xc_repo_root ctx = repo_root \<and>
     set (xc_direct_upstreams ctx) = upstreams_of g src (pg_rel g Outgoing) \<and>
     set (xc_transitive_upstreams ctx) = upstreams_of g src ((pg_rel g Outgoing)\<^sup>+)"

lemma upstream_requests:
  assumes "xc_graph ctx = g" "input_semantics ip = Wildcard"
  shows "build_upstream_requests topo ctx ups (input_path ip) orig = Inr rs \<Longrightarrow>
      set rs = {rq. \<exists>n \<in> set ups. request_for g (xc_repo_root ctx) ip n = Some rq}"
    and "(\<exists>rs. build_upstream_requests topo ctx ups (input_path ip) orig = Inr rs) \<longleftrightarrow>
      (\<forall>n \<in> set ups. request_for g (xc_repo_root ctx) ip n \<noteq> None)"
proof -
  note r = resolve_request_iff[OF assms(1) refl assms(2)]
  show "build_upstream_requests topo ctx ups (input_path ip) orig = Inr rs \<Longrightarrow>
      set rs = {rq. \<exists>n \<in> set ups. request_for g (xc_repo_root ctx) ip n = Some rq}"
    unfolding build_upstream_requests_def by (drule map_result_set) (simp add: r)
  show "(\<exists>rs. build_upstream_requests topo ctx ups (input_path ip) orig = Inr rs) \<longleftrightarrow>
      (\<forall>n \<in> set ups. request_for g (xc_repo_root ctx) ip n \<noteq> None)"
    unfolding build_upstream_requests_def map_result_ex by (simp add: r)
qed

lemma single_request:
  assumes "xc_graph ctx = g" "input_path ip = path" "input_semantics ip = sem"
  shows "map_sum id (\<lambda>r. [r]) (resolve_request topo ctx n path orig sem) = Inr rs \<longleftrightarrow>
      (\<exists>rq. request_for g (xc_repo_root ctx) ip n = Some rq \<and> rs = [rq])"
  by (simp add: map_sum_Inr resolve_request_iff[OF assms])

lemma pattern_built:
  assumes ctx: "setting src repo_root ctx"
  shows "build_requests_for_pattern topo ctx ip (input_path ip) orig = Inr rs \<Longrightarrow>
      set rs = {rq. \<exists>n \<in> input_packages g src ip. request_for g repo_root ip n = Some rq}"
    and "(\<exists>rs. build_requests_for_pattern topo ctx ip (input_path ip) orig = Inr rs) \<longleftrightarrow>
      (\<forall>n \<in> input_packages g src ip. request_for g repo_root ip n \<noteq> None)"
proof -
  note c = ctx[unfolded setting_def]
  have same: "build_specific_request topo ctx pkg (input_path ip) orig = Inr rs' \<longleftrightarrow>
      (\<exists>rq. request_for g repo_root ip pkg = Some rq \<and> rs' = [rq])"
    if "input_semantics ip = classify_pattern (input_path ip)" for pkg rs'
    using single_request[of ctx ip "input_path ip" "classify_pattern (input_path ip)" pkg orig rs'] c that
    by (cases "pkg = src") (simp_all add: build_specific_request_def)
  show "build_requests_for_pattern topo ctx ip (input_path ip) orig = Inr rs \<Longrightarrow>
      set rs = {rq. \<exists>n \<in> input_packages g src ip. request_for g repo_root ip n = Some rq}"
    using c same single_request[of ctx ip] upstream_requests(1)[of ctx ip]
    by (cases ip) (auto simp: build_same_package_request_def build_root_request_def)
  show "(\<exists>rs. build_requests_for_pattern topo ctx ip (input_path ip) orig = Inr rs) \<longleftrightarrow>
      (\<forall>n \<in> input_packages g src ip. request_for g repo_root ip n \<noteq> None)"
    using c same single_request[of ctx ip] upstream_requests(2)[of ctx ip]
    by (cases ip) (auto simp: build_same_package_request_def build_root_request_def)
qed

lemma expand_loop_spec:
  assumes ctx: "setting src repo_root ctx"
  shows "expand_loop topo ctx ps acc = Inr rs \<Longrightarrow> set rs = set acc \<union> (\<Union>p \<in> set ps. pattern_requests g repo_root src p)"
    and "(\<exists>rs. expand_loop topo ctx ps acc = Inr rs) \<longleftrightarrow> (\<forall>p \<in> set ps. is_negated p \<or> pattern_expands g repo_root src p)"
proof -
  have parse: "parse_input_pattern p (xc_source_pkg ctx) = Inr ip \<longleftrightarrow> input_pattern_from_str p = Inr ip" for p ip
    by (simp add: parse_input_pattern_def split: sum.splits)
  have neg: "is_negated p \<longleftrightarrow> fst (split_negation p)" for p by (simp add: is_negated_def)
  have repo: "xc_repo_root ctx = repo_root" using ctx by (simp add: setting_def)
  show "expand_loop topo ctx ps acc = Inr rs \<Longrightarrow> set rs = set acc \<union> (\<Union>p \<in> set ps. pattern_requests g repo_root src p)"
  proof (induction ps arbitrary: acc)
    case (Cons p ps)
    show ?case
    proof (cases "is_negated p")
      case True
      then show ?thesis
        using Cons by (cases "split_negation p") (auto simp: neg pattern_requests_def repo)
    next
      case False
      then obtain ip new where ip: "input_pattern_from_str p = Inr ip"
        "build_requests_for_pattern topo ctx ip (input_path ip) p = Inr new" "expand_loop topo ctx ps (acc @ new) = Inr rs"
        using Cons.prems by (cases "split_negation p") (auto simp: neg bind_result_Inr_iff parse)
      then show ?thesis using Cons.IH[OF ip(3)] pattern_built(1)[OF ctx ip(2)] False by (auto simp: pattern_requests_def)
    qed
  qed simp
  show "(\<exists>rs. expand_loop topo ctx ps acc = Inr rs) \<longleftrightarrow> (\<forall>p \<in> set ps. is_negated p \<or> pattern_expands g repo_root src p)"
  proof (induction ps arbitrary: acc)
    case (Cons p ps)
    show ?case
    proof (cases "is_negated p")
      case True
      then show ?thesis using Cons by (cases "split_negation p") (auto simp: neg)
    next
      case False
      then have "(\<exists>rs. expand_loop topo ctx (p # ps) acc = Inr rs) \<longleftrightarrow>
          (\<exists>ip. input_pattern_from_str p = Inr ip \<and> (\<exists>new. build_requests_for_pattern topo ctx ip (input_path ip) p = Inr new \<and>
            (\<exists>rs. expand_loop topo ctx ps (acc @ new) = Inr rs)))"
        by (cases "split_negation p") (auto simp: neg bind_result_Inr_iff parse)
      then show ?thesis using False pattern_built(2)[OF ctx, of _ p] Cons.IH by (auto simp: pattern_expands_def)
    qed
  qed simp
qed

lemma expansion_spec:
  "expand_input_patterns topo ps src g repo_root = Inr rs \<Longrightarrow> set rs = (\<Union>p \<in> set ps. pattern_requests g repo_root src p)"
  "(\<exists>rs. expand_input_patterns topo ps src g repo_root = Inr rs) \<longleftrightarrow>
     (package_is_root src \<and> package_is_root (expansion_source g src) \<or> expansion_source g src \<in> pg_names g) \<and>
     (\<forall>p \<in> set ps. is_negated p \<or> pattern_expands g repo_root src p)"
proof -
  have ctx: "setting src repo_root \<lparr>xc_source_pkg = src, xc_graph = g, xc_repo_root = repo_root,
      xc_direct_upstreams = ds, xc_transitive_upstreams = ts\<rparr>" if "expansion_upstreams g src = Inr (ds, ts)" for ds ts
    using upstreams_spec(1)[OF that] by (simp add: setting_def)
  show "expand_input_patterns topo ps src g repo_root = Inr rs \<Longrightarrow> set rs = (\<Union>p \<in> set ps. pattern_requests g repo_root src p)"
    by (auto simp: expand_input_patterns_def bind_result_Inr_iff dest: expand_loop_spec(1)[OF ctx])
  show "(\<exists>rs. expand_input_patterns topo ps src g repo_root = Inr rs) \<longleftrightarrow>
     (package_is_root src \<and> package_is_root (expansion_source g src) \<or> expansion_source g src \<in> pg_names g) \<and>
     (\<forall>p \<in> set ps. is_negated p \<or> pattern_expands g repo_root src p)"
    unfolding upstreams_spec(2)[symmetric] expand_input_patterns_def bind_result_Inr_iff
    using expand_loop_spec(2)[OF ctx] by (auto split: prod.splits) fastforce+
qed

end

lemma example_order_exists: "pg_topological_order ref_toposort example_graph = Inr (rev example_packages)"
  by (simp add: pg_topological_order_def ref_toposort_def ref_sort.simps no_pred_def upt_rec
      example_graph_def example_packages_def)

lemma example_acyclic: "acyclic (pg_rel example_graph Outgoing)"
  using pg_topological_order_fails_iff[OF ref.toposort_laws_axioms example_wf] example_order_exists by auto

interpretation example: expansion_setting ref_toposort example_graph
  by unfold_locales (simp_all add: ref.toposort_laws_axioms example_wf example_acyclic)

section \<open>Properties\<close>



text \<open>The check against escaping paths looks at the pattern as written, while a literal pattern is used with
  its escapes removed: with the dots escaped, a pattern that leaves the package is accepted, and the
  path that is then looked up is outside.\<close>

lemma escaped_dots_leave_package:
  "\<exists>rq. expand_input_patterns ref_toposort [[CHR 0x5C] @ ''.'' @ [CHR 0x5C] @ ''./secret''] ''ui'' example_graph ''/repo'' = Inr [rq] \<and>
     rq_semantics rq = Literal \<and> unescape_literal (rq_pattern rq) = ''../secret'' \<and>
     \<not> stays_within (rq_base_dir rq) (unescape_literal (rq_pattern rq))"
proof -
  let ?p = "[CHR 0x5C] @ ''.'' @ [CHR 0x5C] @ ''./secret''"
  let ?rq = "\<lparr>rq_base_dir = ''ui'', rq_pattern = ?p, rq_semantics = Literal, rq_negated = False\<rparr>"
  have "\<not> package_is_root ''ui''" "expansion_source example_graph ''ui'' \<in> pg_names example_graph"
    by (simp_all add: package_is_root_def ROOT_PACKAGE_NAME_def expansion_source_def pg_names_def example_graph_def example_packages_def)
  then obtain r where ups: "expansion_upstreams example_graph ''ui'' = Inr r"
    using example.upstreams_spec(2)[of "''ui''"] by blast
  have parse: "input_pattern_from_str ?p = Inr (InSamePackage ?p)"
    by (simp add: input_pattern_from_str_cases)
  have dir: "package_dir ref_toposort example_graph ''ui'' ?p = Inr ''ui''"
    by (simp add: package_dir_def package_is_root_def ROOT_PACKAGE_NAME_def example_order_exists example_packages_def)
  have "stays_within ''ui'' ?p" "\<not> stays_within ''ui'' ''../secret''"
    by (simp_all add: stays_within_def extract_literal_prefix_def join_path_def lexical_normalize_def path_components_def
        component_of_def)
  then have "validate_path ''ui'' ?p ''ui'' ?p = Inr ()" by (simp add: validate_path_iff)
  then have "expand_input_patterns ref_toposort [?p] ''ui'' example_graph ''/repo'' = Inr [?rq]"
    using ups parse dir
    by (cases r) (simp add: expand_input_patterns_def parse_input_pattern_def build_same_package_request_def
        build_specific_request_def resolve_request_def package_is_root_def ROOT_PACKAGE_NAME_def classify_pattern_def)
  then show ?thesis using \<open>\<not> stays_within ''ui'' ''../secret''\<close> by (intro exI[of _ ?rq]) simp
qed

end
