(* ===== verification/DepPairs.thy ===== *)
theory DepPairs
  imports Lockfiles InputExpansion
begin

text \<open>
  The external dependencies of a package, \<open>crates/luchta-cli/src/cache_ctx.rs\<close>: the roots that a task's
  \<open>dependencies\<close> patterns select from the manifests, the packages they resolve to in the lockfile, and the changes of
  these between two lockfiles (\<open>dep_closure_diff.rs\<close>, \<open>watch/lockfile_watch.rs\<close>). Reading and parsing a
  \<open>package.json\<close> are the fields of \<open>deps_io\<close>; the globs are the default ones of the globset crate, an argument.
\<close>

record PackageJsonExternalDeps =
  pe_dependencies :: "(string, string) hmap"
  pe_dev_dependencies :: "(string, string) hmap"
  pe_optional_dependencies :: "(string, string) hmap"

record deps_io =
  dio_read_to_string :: "string \<Rightarrow> string + string"
  dio_parse :: "string \<Rightarrow> string + PackageJsonExternalDeps"

text \<open>The derived order compares the fields in turn; the origin, a path, by its components.\<close>

datatype SelectedDependencyRoot = SelectedDependencyRoot (sd_name: string) (sd_version: string) (sd_origin: string)

definition sd_key :: "SelectedDependencyRoot \<Rightarrow> string \<times> string \<times> string list" where
  "sd_key r = (sd_name r, sd_version r, path_key (sd_origin r))"

lemma sd_key_inj: "sd_key r = sd_key r' \<longleftrightarrow> r = r'"
  using inj_path_key by (cases r; cases r') (auto simp: sd_key_def dest: injD)

instantiation SelectedDependencyRoot :: linorder
begin

definition less_eq_SelectedDependencyRoot :: "SelectedDependencyRoot \<Rightarrow> SelectedDependencyRoot \<Rightarrow> bool" where
  "less_eq_SelectedDependencyRoot r r' \<longleftrightarrow> sd_key r \<le> sd_key r'"

definition less_SelectedDependencyRoot :: "SelectedDependencyRoot \<Rightarrow> SelectedDependencyRoot \<Rightarrow> bool" where
  "less_SelectedDependencyRoot r r' \<longleftrightarrow> sd_key r < sd_key r'"

instance
  by intro_classes
    (auto simp: less_eq_SelectedDependencyRoot_def less_SelectedDependencyRoot_def sd_key_inj[symmetric])

end

fun workspace_error_to_string :: "WorkspaceError \<Rightarrow> string" where
  "workspace_error_to_string (Discovery e) = ''workspace discovery failed: '' @ e"
| "workspace_error_to_string (Graph e) = ''package graph error: '' @ e"

definition read_package_json_external_deps :: "deps_io \<Rightarrow> string \<Rightarrow> string + PackageJsonExternalDeps" where
  "read_package_json_external_deps io package_path =
     bind_result (dio_read_to_string io (join_path package_path ''package.json'')) (dio_parse io)"

definition collect_external_dependencies :: "PackageJsonExternalDeps \<Rightarrow> (string \<times> string) list" where
  "collect_external_dependencies pj = pe_dependencies pj @ pe_dev_dependencies pj @ pe_optional_dependencies pj"

definition dependency_roots_from_pairs :: "(string \<times> string) list \<Rightarrow> string \<Rightarrow> SelectedDependencyRoot set" where
  "dependency_roots_from_pairs deps package_path = set (map (\<lambda>(name, version). SelectedDependencyRoot name version package_path) deps)"

definition read_external_dependency_roots :: "deps_io \<Rightarrow> string \<Rightarrow> string + SelectedDependencyRoot set" where
  "read_external_dependency_roots io package_path =
     map_sum id (\<lambda>pj. dependency_roots_from_pairs (collect_external_dependencies pj) package_path)
       (read_package_json_external_deps io package_path)"

definition insert_matching_dependency_roots ::
  "('g, 's) globs \<Rightarrow> SelectedDependencyRoot set \<Rightarrow> SelectedDependencyRoot set \<Rightarrow> string \<Rightarrow> string + SelectedDependencyRoot set" where
  "insert_matching_dependency_roots api selected candidates glob =
     bind_result (api_build_glob api glob) (\<lambda>g.
     bind_result (api_build_set api [g]) (\<lambda>globset.
       Inr (selected \<union> Set.filter (\<lambda>c. api_set_match api globset (sd_name c)) candidates)))"

fun read_all_roots :: "deps_io \<Rightarrow> string list \<Rightarrow> SelectedDependencyRoot set \<Rightarrow> string + SelectedDependencyRoot set" where
  "read_all_roots io [] candidates = Inr candidates"
| "read_all_roots io (path # paths) candidates =
     bind_result (read_external_dependency_roots io path) (\<lambda>rs. read_all_roots io paths (candidates \<union> rs))"

text \<open>The transitive upstreams are looked up one by one, between the reads.\<close>

fun read_named_roots :: "deps_io \<Rightarrow> PackageGraph \<Rightarrow> PackageName list \<Rightarrow> SelectedDependencyRoot set \<Rightarrow> string + SelectedDependencyRoot set" where
  "read_named_roots io g [] candidates = Inr candidates"
| "read_named_roots io g (name # names) candidates =
     bind_result (map_err workspace_error_to_string (pg_node g name)) (\<lambda>upstream.
     bind_result (read_external_dependency_roots io (pn_path upstream)) (\<lambda>rs.
       read_named_roots io g names (candidates \<union> rs)))"

definition specific_package_path :: "PackageGraph option \<Rightarrow> string \<Rightarrow> PackageName \<Rightarrow> string \<Rightarrow> string + string" where
  "specific_package_path package_graph repo_root package_name pattern =
     (let unknown = ''unknown package '' @ sq @ package_name @ sq @ '' in dependency pattern '' @ sq @ pattern @ sq in
      if package_is_root package_name then Inr repo_root
      else case package_graph of
        None \<Rightarrow> Inl unknown
      | Some g \<Rightarrow> map_err (\<lambda>_. unknown) (map_sum id pn_path (pg_node g package_name)))"

definition candidate_roots ::
  "deps_io \<Rightarrow> PackageNode \<Rightarrow> PackageGraph option \<Rightarrow> string \<Rightarrow> (string \<times> string) list \<Rightarrow> string \<Rightarrow> InputPattern \<Rightarrow>
   string + SelectedDependencyRoot set" where
  "candidate_roots io package package_graph repo_root external raw_pattern pattern =
     (case pattern of
        InSamePackage _ \<Rightarrow> Inr (dependency_roots_from_pairs external (pn_path package))
      | InDirectUpstream glob \<Rightarrow>
          (case package_graph of
             None \<Rightarrow> Inl (''dependency pattern '' @ sq @ ''^'' @ glob @ sq @ '' requires package graph'')
           | Some g \<Rightarrow>
               bind_result (map_err workspace_error_to_string (pg_dependencies_of g (pn_name package))) (\<lambda>upstreams.
                 read_all_roots io (map pn_path upstreams) {}))
      | InTransitiveUpstream glob \<Rightarrow>
          (case package_graph of
             None \<Rightarrow> Inl (''dependency pattern '' @ sq @ ''^^'' @ glob @ sq @ '' requires package graph'')
           | Some g \<Rightarrow>
               bind_result (map_err workspace_error_to_string (transitive_dependencies_of g (pn_name package))) (\<lambda>names.
                 read_named_roots io g (filter (\<lambda>n. n \<noteq> pn_name package) names) {}))
      | InSpecific package_name _ \<Rightarrow>
          bind_result (specific_package_path package_graph repo_root package_name raw_pattern) (read_external_dependency_roots io)
      | InRoot _ \<Rightarrow> read_external_dependency_roots io repo_root)"

fun select_loop ::
  "('g, 's) globs \<Rightarrow> deps_io \<Rightarrow> PackageNode \<Rightarrow> PackageGraph option \<Rightarrow> string \<Rightarrow> (string \<times> string) list \<Rightarrow> string list \<Rightarrow>
   SelectedDependencyRoot set \<Rightarrow> string + SelectedDependencyRoot set" where
  "select_loop api io package package_graph repo_root external [] selected = Inr selected"
| "select_loop api io package package_graph repo_root external (raw_pattern # patterns) selected =
     bind_result (input_pattern_from_str raw_pattern) (\<lambda>pattern.
     bind_result (candidate_roots io package package_graph repo_root external raw_pattern pattern) (\<lambda>candidates.
     bind_result (insert_matching_dependency_roots api selected candidates (input_path pattern)) (\<lambda>selected'.
       select_loop api io package package_graph repo_root external patterns selected')))"

definition select_dependency_roots ::
  "('g, 's) globs \<Rightarrow> deps_io \<Rightarrow> PackageNode \<Rightarrow> PackageGraph option \<Rightarrow> string \<Rightarrow> string list \<Rightarrow> (string \<times> string) list \<Rightarrow>
   string + SelectedDependencyRoot set" where
  "select_dependency_roots api io package package_graph repo_root dependency_patterns external =
     select_loop api io package package_graph repo_root external dependency_patterns {}"

definition should_skip_dependency_spec :: "string \<Rightarrow> string \<Rightarrow> string set \<Rightarrow> string list \<Rightarrow> bool" where
  "should_skip_dependency_spec name version workspace_names workspace_paths \<longleftrightarrow>
     strip_prefix ''workspace:'' version \<noteq> None \<or> strip_prefix ''link:'' version \<noteq> None \<or>
     strip_prefix ''portal:'' version \<noteq> None \<or> strip_prefix ''file:'' version \<noteq> None \<or>
     name \<in> workspace_names \<or> (\<exists>path \<in> set workspace_paths. contains_str path version)"

text \<open>A computation that may not return, or return an error.\<close>

definition bind_run :: "('e + 'a) option \<Rightarrow> ('a \<Rightarrow> ('e + 'b) option) \<Rightarrow> ('e + 'b) option" where
  "bind_run r f = (case r of None \<Rightarrow> None | Some (Inl e) \<Rightarrow> Some (Inl e) | Some (Inr x) \<Rightarrow> f x)"

definition collect_dep_pairs_for_package ::
  "Lockfile \<Rightarrow> string \<Rightarrow> string set \<Rightarrow> string list \<Rightarrow> string \<Rightarrow> string \<Rightarrow> (string \<times> string) set \<Rightarrow> (string + (string \<times> string) set) option" where
  "collect_dep_pairs_for_package lf package_path workspace_names workspace_paths name version pairs =
     (if should_skip_dependency_spec name version workspace_names workspace_paths then Some (Inr pairs)
      else case lf_resolve_package lf package_path name version of
        Inl e \<Rightarrow> Some (Inl (lockfile_error_to_string e))
      | Inr None \<Rightarrow> Some (Inr pairs)
      | Inr (Some resolved) \<Rightarrow>
          bind_run (map_option (map_err lockfile_error_to_string) (transitive_dependencies lf (pk_key resolved))) (\<lambda>closure.
            Some (Inr (insert (name, pk_lock_identity resolved) pairs \<union> closure))))"

fun collect_dep_pairs ::
  "Lockfile \<Rightarrow> string set \<Rightarrow> string list \<Rightarrow> SelectedDependencyRoot list \<Rightarrow> (string \<times> string) set \<Rightarrow> (string + (string \<times> string) set) option" where
  "collect_dep_pairs lf workspace_names workspace_paths [] pairs = Some (Inr pairs)"
| "collect_dep_pairs lf workspace_names workspace_paths (root # roots) pairs =
     bind_run (collect_dep_pairs_for_package lf (sd_origin root) workspace_names workspace_paths (sd_name root) (sd_version root) pairs)
       (collect_dep_pairs lf workspace_names workspace_paths roots)"

definition direct_closure :: "PackageNode \<Rightarrow> PackageGraph option \<Rightarrow> string + PackageNode list" where
  "direct_closure package package_graph =
     (case package_graph of
        None \<Rightarrow> Inr [package]
      | Some g \<Rightarrow> map_sum workspace_error_to_string (\<lambda>ds. ds @ [package]) (pg_dependencies_of g (pn_name package)))"

definition gather_pkg_dep_pairs_filtered ::
  "('g, 's) globs \<Rightarrow> deps_io \<Rightarrow> PackageNode \<Rightarrow> PackageGraph option \<Rightarrow> string \<Rightarrow> LockfileState \<Rightarrow> string list \<Rightarrow>
   (string + (string \<times> string) list) option" where
  "gather_pkg_dep_pairs_filtered api io package package_graph repo_root lockfile dependency_patterns =
     (case lockfile of
        LockAbsent \<Rightarrow> Some (Inr [])
      | LockFailed msg \<Rightarrow> Some (Inl msg)
      | LockParsed lf \<Rightarrow>
          bind_run (Some (read_package_json_external_deps io (pn_path package))) (\<lambda>package_json.
          bind_run (Some (direct_closure package package_graph)) (\<lambda>closure.
          bind_run (Some (select_dependency_roots api io package package_graph repo_root dependency_patterns
                            (collect_external_dependencies package_json))) (\<lambda>selected_roots.
          bind_run (collect_dep_pairs lf (set (map pn_name closure)) (map pn_path closure) (sorted_list_of_set selected_roots) {})
            (\<lambda>pairs. Some (Inr (sorted_list_of_set pairs)))))))"

definition gather_pkg_dep_pairs ::
  "('g, 's) globs \<Rightarrow> deps_io \<Rightarrow> PackageNode \<Rightarrow> PackageGraph option \<Rightarrow> LockfileState \<Rightarrow> (string + (string \<times> string) list) option" where
  "gather_pkg_dep_pairs api io package package_graph lockfile =
     gather_pkg_dep_pairs_filtered api io package package_graph (pn_path package) lockfile [''**/*'']"

section \<open>Changes between two lockfiles\<close>

definition sort_dedup :: "(string \<times> string) list \<Rightarrow> (string \<times> string) list" where
  "sort_dedup pairs = remdups_adj (sort pairs)"

definition dep_closure_changed ::
  "('g, 's) globs \<Rightarrow> deps_io \<Rightarrow> PackageGraph \<Rightarrow> LockfileState \<Rightarrow> LockfileState \<Rightarrow> PackageNode \<Rightarrow> bool option" where
  "dep_closure_changed api io g base head package =
     (case (gather_pkg_dep_pairs api io package (Some g) base, gather_pkg_dep_pairs api io package (Some g) head) of
        (Some (Inr base_pairs), Some (Inr head_pairs)) \<Rightarrow> Some (sort_dedup base_pairs \<noteq> sort_dedup head_pairs)
      | (Some _, Some _) \<Rightarrow> Some True
      | _ \<Rightarrow> None)"

fun filter_run :: "('a \<Rightarrow> bool option) \<Rightarrow> 'a list \<Rightarrow> 'a list option" where
  "filter_run P [] = Some []"
| "filter_run P (x # xs) =
     (case P x of None \<Rightarrow> None
      | Some keep \<Rightarrow> (case filter_run P xs of None \<Rightarrow> None | Some ys \<Rightarrow> Some (if keep then x # ys else ys)))"

definition packages_with_changed_dep_closures ::
  "('g, 's) globs \<Rightarrow> deps_io \<Rightarrow> PackageNode list \<Rightarrow> PackageGraph \<Rightarrow> LockfileState \<Rightarrow> LockfileState \<Rightarrow> PackageName list option" where
  "packages_with_changed_dep_closures api io packages g base head =
     (case (base, head) of
        (LockFailed _, _) \<Rightarrow> Some (remdups (map pn_name packages))
      | (_, LockFailed _) \<Rightarrow> Some (remdups (map pn_name packages))
      | (LockAbsent, LockAbsent) \<Rightarrow> Some []
      | _ \<Rightarrow> map_option (\<lambda>ps. remdups (map pn_name ps)) (filter_run (dep_closure_changed api io g base head) packages))"

section \<open>The lockfile in watch mode\<close>

record LockfileWatchState =
  lw_lockfile_path :: string
  lw_baseline :: "(PackageName, (string \<times> string) list) hmap"

definition lockfile_watch_new :: "(string \<Rightarrow> string option) \<Rightarrow> string \<Rightarrow> LockfileWatchState" where
  "lockfile_watch_new canonicalize workspace_root =
     (let canonical_root = (case canonicalize workspace_root of Some p \<Rightarrow> p | None \<Rightarrow> workspace_root) in
      \<lparr>lw_lockfile_path = join_path canonical_root ''yarn.lock'', lw_baseline = []\<rparr>)"

fun baseline_loop ::
  "('g, 's) globs \<Rightarrow> deps_io \<Rightarrow> PackageGraph option \<Rightarrow> LockfileState \<Rightarrow> PackageNode list \<Rightarrow>
   (PackageName, (string \<times> string) list) hmap \<Rightarrow> (PackageName, (string \<times> string) list) hmap option" where
  "baseline_loop api io g lockfile [] baseline = Some baseline"
| "baseline_loop api io g lockfile (package # packages) baseline =
     (case gather_pkg_dep_pairs api io package g lockfile of
        None \<Rightarrow> None
      | Some (Inr dep_pairs) \<Rightarrow> baseline_loop api io g lockfile packages (AList.update (pn_name package) dep_pairs baseline)
      | Some (Inl _) \<Rightarrow> baseline_loop api io g lockfile packages baseline)"

text \<open>The lockfile as \<open>load_lockfile_state\<close> reads it is the argument \<open>lockfile\<close>.\<close>

definition rebuild_baseline ::
  "('g, 's) globs \<Rightarrow> deps_io \<Rightarrow> LockfileState \<Rightarrow> PackageNode list \<Rightarrow> PackageGraph option \<Rightarrow> LockfileWatchState \<Rightarrow>
   LockfileWatchState option" where
  "rebuild_baseline api io lockfile packages g st =
     (case lockfile of
        LockParsed _ \<Rightarrow> map_option (\<lambda>b. st\<lparr>lw_baseline := b\<rparr>) (baseline_loop api io g lockfile packages [])
      | _ \<Rightarrow> Some (st\<lparr>lw_baseline := []\<rparr>))"

definition package_affected ::
  "('g, 's) globs \<Rightarrow> deps_io \<Rightarrow> LockfileState \<Rightarrow> PackageGraph option \<Rightarrow> LockfileWatchState \<Rightarrow> PackageNode \<Rightarrow> bool option" where
  "package_affected api io lockfile g st package =
     (case gather_pkg_dep_pairs api io package g lockfile of
        None \<Rightarrow> None
      | Some (Inr dep_pairs) \<Rightarrow> Some (map_of (lw_baseline st) (pn_name package) \<noteq> Some dep_pairs)
      | Some (Inl _) \<Rightarrow> Some True)"

definition affected_packages ::
  "('g, 's) globs \<Rightarrow> deps_io \<Rightarrow> LockfileState \<Rightarrow> PackageNode list \<Rightarrow> PackageGraph option \<Rightarrow> LockfileWatchState \<Rightarrow>
   PackageName list option" where
  "affected_packages api io lockfile packages g st =
     (case lockfile of
        LockParsed _ \<Rightarrow> map_option (\<lambda>ps. remdups (map pn_name ps)) (filter_run (package_affected api io lockfile g st) packages)
      | _ \<Rightarrow> Some (remdups (map pn_name packages)))"

section \<open>Specification\<close>

text \<open>The lockfile states that reading a lockfile gives, and a glob that matches every name.\<close>

definition lockfile_state_ok :: "LockfileState \<Rightarrow> bool" where
  "lockfile_state_ok st \<longleftrightarrow> (\<forall>lf. st = LockParsed lf \<longrightarrow> lockfile_contract lf (lock_keys lf))"

definition matches_everything :: "('g, 's) globs \<Rightarrow> string \<Rightarrow> bool" where
  "matches_everything api pattern \<longleftrightarrow>
     (\<exists>g s. api_build_glob api pattern = Inr g \<and> api_build_set api [g] = Inr s \<and> (\<forall>name. api_set_match api s name))"

lemma parse_lockfile_content_ok: "lockfile_state_ok (parse_lockfile_content lp content)"
  using parse_lockfile_contract[of lp content] by (auto simp: lockfile_state_ok_def parse_lockfile_content_def split: sum.splits if_splits)

lemma load_lockfile_state_ok: "lockfile_state_ok (load_lockfile_state lp read root)"
  by (auto simp: load_lockfile_state_def parse_lockfile_content_ok lockfile_state_ok_def split: FileRead.split)
    (use parse_lockfile_content_ok in \<open>auto simp: lockfile_state_ok_def\<close>)

text \<open>What one root contributes, and the external closure of a package.\<close>

definition root_pairs :: "Lockfile \<Rightarrow> string set \<Rightarrow> string list \<Rightarrow> SelectedDependencyRoot \<Rightarrow> (string \<times> string) set" where
  "root_pairs lf names paths root =
     (if should_skip_dependency_spec (sd_name root) (sd_version root) names paths then {}
      else case lf_resolve_package lf (sd_origin root) (sd_name root) (sd_version root) of
        Inr (Some p) \<Rightarrow> insert (sd_name root, pk_lock_identity p) (lock_closure lf (pk_key p))
      | _ \<Rightarrow> {})"

definition package_closure :: "deps_io \<Rightarrow> PackageNode \<Rightarrow> PackageGraph option \<Rightarrow> LockfileState \<Rightarrow> (string \<times> string) set option" where
  "package_closure io package g state =
     (case state of
        LockAbsent \<Rightarrow> Some {}
      | LockFailed _ \<Rightarrow> None
      | LockParsed lf \<Rightarrow>
          (case (read_package_json_external_deps io (pn_path package), direct_closure package g) of
             (Inr pj, Inr closure) \<Rightarrow>
               Some (\<Union>root \<in> dependency_roots_from_pairs (collect_external_dependencies pj) (pn_path package).
                       root_pairs lf (set (map pn_name closure)) (map pn_path closure) root)
           | _ \<Rightarrow> None))"

lemma bind_run_simps [simp]:
  "bind_run None f = None" "bind_run (Some (Inl e)) f = Some (Inl e)" "bind_run (Some (Inr x)) f = f x"
  by (simp_all add: bind_run_def)

lemma collect_dep_pairs_ok:
  assumes "lockfile_contract lf keys"
  shows "collect_dep_pairs lf names paths rs pairs = Some (Inr (pairs \<union> (\<Union>r \<in> set rs. root_pairs lf names paths r)))"
proof (induction rs arbitrary: pairs)
  case (Cons r rs)
  obtain res where res: "lf_resolve_package lf (sd_origin r) (sd_name r) (sd_version r) = Inr res"
    using lockfile_contract.resolve_total[OF assms] by blast
  have "collect_dep_pairs_for_package lf (sd_origin r) names paths (sd_name r) (sd_version r) pairs =
      Some (Inr (pairs \<union> root_pairs lf names paths r))"
    using res lockfile_contract.resolve_key[OF assms, of "sd_origin r" "sd_name r" "sd_version r"]
    by (cases res)
      (auto simp: collect_dep_pairs_for_package_def root_pairs_def lockfile_contract.transitive_dependencies_ok[OF assms] map_err_def)
  then show ?case using Cons by (simp add: Un_assoc)
qed simp

lemma select_everything:
  assumes "matches_everything api ''**/*''"
  shows "select_dependency_roots api io package g repo_root [''**/*''] external =
    Inr (dependency_roots_from_pairs external (pn_path package))"
proof -
  have "input_pattern_from_str ''**/*'' = Inr (InSamePackage ''**/*'')" by (simp add: input_pattern_from_str_cases)
  then show ?thesis using assms
    by (auto simp: select_dependency_roots_def candidate_roots_def insert_matching_dependency_roots_def matches_everything_def)
qed

lemma finite_dependency_roots [simp]: "finite (dependency_roots_from_pairs ps path)"
  by (simp add: dependency_roots_from_pairs_def)

lemma gather_ok:
  assumes "matches_everything api ''**/*''" and "lockfile_state_ok state"
  shows "\<exists>r. gather_pkg_dep_pairs api io package g state = Some r \<and>
    (case package_closure io package g state of
       None \<Rightarrow> \<exists>e. r = Inl e
     | Some closure \<Rightarrow> r = Inr (sorted_list_of_set closure))"
proof (cases state)
  case (LockParsed lf)
  then have "lockfile_contract lf (lock_keys lf)" using assms(2) by (simp add: lockfile_state_ok_def)
  note collect = collect_dep_pairs_ok[OF this]
  show ?thesis
    by (cases "read_package_json_external_deps io (pn_path package)"; cases "direct_closure package g")
      (simp_all add: LockParsed gather_pkg_dep_pairs_def gather_pkg_dep_pairs_filtered_def package_closure_def
        select_everything[OF assms(1)] collect)
qed (simp_all add: gather_pkg_dep_pairs_def gather_pkg_dep_pairs_filtered_def package_closure_def)

lemma finite_lock_closure:
  assumes "lockfile_contract lf keys" "key \<in> keys"
  shows "finite (lock_closure lf key)"
proof -
  have keys: "k \<in> keys" if "(key, k) \<in> (lock_rel lf)\<^sup>*" for k
    using that assms(2) by (induction rule: rtrancl_induct)
      (auto simp: lock_rel_def lock_edge_def dest: lockfile_contract.resolve_key[OF assms(1)])
  let ?found = "\<lambda>k. (\<lambda>(n, r). case lf_resolve_package lf [] n r of Inr (Some p) \<Rightarrow> (n, pk_lock_identity p) | _ \<Rightarrow> (n, []))
                  ` set (projr (lf_all_dependencies lf k))"
  have "lock_closure lf key \<subseteq> (\<Union>k \<in> keys. ?found k)"
  proof
    fix x assume "x \<in> lock_closure lf key"
    then obtain n p k ds r where x: "x = (n, pk_lock_identity p)" "(key, k) \<in> (lock_rel lf)\<^sup>*"
      "lf_all_dependencies lf k = Inr ds" "(n, r) \<in> set ds" "lf_resolve_package lf [] n r = Inr (Some p)"
      by (auto simp: lock_closure_def lock_edge_def)
    then have "x \<in> ?found k" by (auto simp: image_iff intro!: bexI[of _ "(n, r)"])
    then show "x \<in> (\<Union>k \<in> keys. ?found k)" using keys x(2) by blast
  qed
  then show ?thesis by (rule finite_subset) (simp add: lockfile_contract.finite_keys[OF assms(1)])
qed

lemma finite_package_closure:
  assumes "lockfile_state_ok state" "package_closure io package g state = Some closure"
  shows "finite closure"
proof (cases state)
  case (LockParsed lf)
  then have contract: "lockfile_contract lf (lock_keys lf)" using assms(1) by (simp add: lockfile_state_ok_def)
  have "finite (root_pairs lf names paths root)" for names paths root
    using finite_lock_closure[OF contract] lockfile_contract.resolve_key[OF contract]
    by (auto simp: root_pairs_def split: sum.split option.split)
  then show ?thesis using assms(2) by (auto simp: LockParsed package_closure_def split: sum.splits)
qed (use assms in \<open>auto simp: package_closure_def\<close>)

lemma remdups_adj_distinct: "distinct xs \<Longrightarrow> remdups_adj xs = xs"
  by (induction xs rule: remdups_adj.induct) auto

lemma sort_dedup_sorted [simp]: "sort_dedup (sorted_list_of_set A) = sorted_list_of_set A"
  by (simp add: sort_dedup_def sorted_sort_id remdups_adj_distinct)

lemma sorted_list_of_set_eq: "finite A \<Longrightarrow> finite B \<Longrightarrow> sorted_list_of_set A = sorted_list_of_set B \<longleftrightarrow> A = B"
  by (metis set_sorted_list_of_set)

text \<open>Whether a package's external closure may differ between two states.\<close>

definition closure_differs :: "deps_io \<Rightarrow> PackageGraph option \<Rightarrow> LockfileState \<Rightarrow> LockfileState \<Rightarrow> PackageNode \<Rightarrow> bool" where
  "closure_differs io g base head package \<longleftrightarrow>
     package_closure io package g base = None \<or> package_closure io package g base \<noteq> package_closure io package g head"

lemma closure_differs_failed [simp]:
  "closure_differs io g (LockFailed e) head p" "closure_differs io g base (LockFailed e) p"
  by (auto simp: closure_differs_def package_closure_def)

lemma dep_closure_changed_ok:
  assumes "matches_everything api ''**/*''" and "lockfile_state_ok base" "lockfile_state_ok head"
  shows "dep_closure_changed api io g base head package = Some (closure_differs io (Some g) base head package)"
proof -
  obtain r r' where r: "gather_pkg_dep_pairs api io package (Some g) base = Some r"
    "gather_pkg_dep_pairs api io package (Some g) head = Some r'"
    "case package_closure io package (Some g) base of None \<Rightarrow> \<exists>e. r = Inl e | Some c \<Rightarrow> r = Inr (sorted_list_of_set c)"
    "case package_closure io package (Some g) head of None \<Rightarrow> \<exists>e. r' = Inl e | Some c \<Rightarrow> r' = Inr (sorted_list_of_set c)"
    using gather_ok[OF assms(1,2), of io package "Some g"] gather_ok[OF assms(1,3), of io package "Some g"] by auto
  have "sorted_list_of_set c = sorted_list_of_set c' \<longleftrightarrow> c = c'"
    if "package_closure io package (Some g) base = Some c" "package_closure io package (Some g) head = Some c'" for c c'
    using finite_package_closure[OF assms(2) that(1)] finite_package_closure[OF assms(3) that(2)]
    by (metis set_sorted_list_of_set)
  then show ?thesis
    using r by (cases "package_closure io package (Some g) base"; cases "package_closure io package (Some g) head")
      (auto simp: dep_closure_changed_def closure_differs_def)
qed

lemma filter_run_total: "(\<And>x. x \<in> set xs \<Longrightarrow> P x = Some (Q x)) \<Longrightarrow> filter_run P xs = Some (filter Q xs)"
  by (induction xs) auto

lemma changed_dep_closures:
  assumes "matches_everything api ''**/*''" and "lockfile_state_ok base" "lockfile_state_ok head"
  shows "\<exists>ns. packages_with_changed_dep_closures api io packages g base head = Some ns \<and>
    set ns = pn_name ` {p \<in> set packages. closure_differs io (Some g) base head p}"
proof (cases "(\<exists>e. base = LockFailed e) \<or> (\<exists>e. head = LockFailed e) \<or> base = LockAbsent \<and> head = LockAbsent")
  case True
  then show ?thesis
    by (cases base; cases head) (auto simp: packages_with_changed_dep_closures_def closure_differs_def package_closure_def)
next
  case False
  have "filter_run (dep_closure_changed api io g base head) packages = Some (filter (closure_differs io (Some g) base head) packages)"
    by (rule filter_run_total) (rule dep_closure_changed_ok[OF assms])
  then show ?thesis using False by (cases base; cases head) (auto simp: packages_with_changed_dep_closures_def)
qed

lemma baseline_ok:
  assumes "matches_everything api ''**/*''" and "lockfile_state_ok lockfile" and "distinct (map pn_name packages)"
    and "\<forall>p \<in> set packages. map_of baseline (pn_name p) = None"
  shows "\<exists>b. baseline_loop api io g lockfile packages baseline = Some b \<and>
    (\<forall>n. n \<notin> pn_name ` set packages \<longrightarrow> map_of b n = map_of baseline n) \<and>
    (\<forall>p \<in> set packages. map_of b (pn_name p) = map_option sorted_list_of_set (package_closure io p g lockfile))"
  using assms(3,4)
proof (induction packages arbitrary: baseline)
  case (Cons p ps)
  obtain r where r: "gather_pkg_dep_pairs api io p g lockfile = Some r"
    "case package_closure io p g lockfile of None \<Rightarrow> \<exists>e. r = Inl e | Some c \<Rightarrow> r = Inr (sorted_list_of_set c)"
    using gather_ok[OF assms(1,2)] by blast
  let ?b = "case package_closure io p g lockfile of None \<Rightarrow> baseline
    | Some c \<Rightarrow> AList.update (pn_name p) (sorted_list_of_set c) baseline"
  have "\<forall>q \<in> set ps. map_of ?b (pn_name q) = None"
    using Cons.prems by (auto simp: hmap_simps image_iff split: option.split)
  moreover have "distinct (map pn_name ps)" using Cons.prems(1) by simp
  ultimately obtain b where b: "baseline_loop api io g lockfile ps ?b = Some b"
    "\<forall>n. n \<notin> pn_name ` set ps \<longrightarrow> map_of b n = map_of ?b n"
    "\<forall>q \<in> set ps. map_of b (pn_name q) = map_option sorted_list_of_set (package_closure io q g lockfile)"
    using Cons.IH[of ?b] by blast
  have "baseline_loop api io g lockfile (p # ps) baseline = Some b"
    using r b(1) by (auto split: option.splits)
  moreover have "map_of b (pn_name p) = map_option sorted_list_of_set (package_closure io p g lockfile)"
    using b(2) Cons.prems by (simp add: hmap_simps split: option.splits)
  ultimately show ?case using b(2,3) by (auto simp: hmap_simps split: option.splits)
qed simp

section \<open>Properties\<close>

text \<open>The external dependencies of a package that enter its cache key are computed for every lockfile state that loading can
  give. They are the sorted names and lock identities of all that is reachable from the dependencies, development
  dependencies and optional dependencies of its manifest that are not workspace, link, portal or file
  references; there are none without a lockfile, and an error exactly if the lockfile or the manifest cannot be read or the package is
  unknown to the graph.\<close>

lemma dependency_pairs_correct:
  assumes "matches_everything api ''**/*''"
  shows "\<exists>r. gather_pkg_dep_pairs api io package g (load_lockfile_state lp read_to_string root) = Some r \<and>
    (case package_closure io package g (load_lockfile_state lp read_to_string root) of
       None \<Rightarrow> \<exists>e. r = Inl e
     | Some closure \<Rightarrow> r = Inr (sorted_list_of_set closure) \<and> finite closure)"
proof -
  obtain r where "gather_pkg_dep_pairs api io package g (load_lockfile_state lp read_to_string root) = Some r"
    "case package_closure io package g (load_lockfile_state lp read_to_string root) of
       None \<Rightarrow> \<exists>e. r = Inl e | Some closure \<Rightarrow> r = Inr (sorted_list_of_set closure)"
    using gather_ok[OF assms load_lockfile_state_ok] by blast
  then show ?thesis using finite_package_closure[OF load_lockfile_state_ok] by (auto split: option.splits)
qed

text \<open>Globs with a catch-all pattern.\<close>

definition any_globset :: "(string, string list) globs" where
  "any_globset =
     \<lparr>api_build_glob = Inr, api_glob_match = (\<lambda>g p. g = ''**/*'' \<or> g = p), api_build_set = Inr,
      api_set_match = (\<lambda>gs p. \<exists>g \<in> set gs. g = ''**/*'' \<or> g = p)\<rparr>"

lemma any_globset_everything: "matches_everything any_globset ''**/*''"
  by (simp add: matches_everything_def any_globset_def)

definition example_deps_io :: deps_io where
  "example_deps_io =
     \<lparr>dio_read_to_string = (\<lambda>path. if path = ''ui/package.json'' then Inr path else Inl ''not found''),
      dio_parse = (\<lambda>_. Inr \<lparr>pe_dependencies = [(''b'', ''^3''), (''core'', ''workspace:*'')], pe_dev_dependencies = [],
        pe_optional_dependencies = []\<rparr>)\<rparr>"

definition example_lock_file :: "string \<Rightarrow> FileRead" where
  "example_lock_file path = (if path = ''/r/yarn.lock'' then ReadOk ''__metadata:'' else ReadNotFound)"

lemma example_lock_state: "load_lockfile_state example_parsers example_lock_file ''/r'' = LockParsed (berry_lockfile example_entries)"
proof -
  have "trim ''__metadata:'' \<noteq> []" by code_simp
  then show ?thesis using example_parse
    by (simp add: load_lockfile_state_def example_lock_file_def join_path_def parse_lockfile_content_def)
qed

lemma dependency_pairs_correct_witness:
  "\<exists>pairs. gather_pkg_dep_pairs any_globset example_deps_io \<lparr>pn_name = ''ui'', pn_path = ''ui'', pn_scripts = []\<rparr> None
      (load_lockfile_state example_parsers example_lock_file ''/r'') = Some (Inr pairs) \<and>
    (''b'', ''3.0 checksum=10/b'') \<in> set pairs"
proof -
  let ?ui = "\<lparr>pn_name = ''ui'', pn_path = ''ui'', pn_scripts = []\<rparr>" and ?lf = "berry_lockfile example_entries"
  let ?roots = "{SelectedDependencyRoot ''b'' ''^3'' ''ui'', SelectedDependencyRoot ''core'' ''workspace:*'' ''ui''}"
  have "package_closure example_deps_io ?ui None (LockParsed ?lf) = Some (\<Union>root \<in> ?roots. root_pairs ?lf {''ui''} [''ui''] root)"
    by (simp add: package_closure_def read_package_json_external_deps_def example_deps_io_def join_path_def direct_closure_def
        collect_external_dependencies_def dependency_roots_from_pairs_def)
  moreover have "(''b'', ''3.0 checksum=10/b'') \<in> root_pairs ?lf {''ui''} [''ui''] (SelectedDependencyRoot ''b'' ''^3'' ''ui'')"
    by (simp add: root_pairs_def should_skip_dependency_spec_def berry_lockfile_def berry_resolve_package_def candidate_keys_def
        example_entries_def Let_def)
  ultimately show ?thesis
    using dependency_pairs_correct[OF any_globset_everything, of example_deps_io ?ui None example_parsers example_lock_file "''/r''"]
    unfolding example_lock_state by auto
qed



text \<open>In watch mode, a package is reported unaffected by a change of the lockfile only if its external closure is exactly the one
  recorded when the baseline was built. A lockfile that is missing or broken after the change reports every package, and
  one that was missing or broken at the baseline reports every package the next time.\<close>

lemma lockfile_watch_exact:
  assumes "matches_everything api ''**/*''" and "distinct (map pn_name packages)"
    and "lockfile1 = load_lockfile_state lp read1 root" and "lockfile2 = load_lockfile_state lp read2 root"
  shows "\<exists>st' ns. rebuild_baseline api io1 lockfile1 packages g st = Some st' \<and>
    affected_packages api io2 lockfile2 packages g st' = Some ns \<and>
    set ns = pn_name ` {p \<in> set packages.
      \<not> ((\<exists>lf lf'. lockfile1 = LockParsed lf \<and> lockfile2 = LockParsed lf') \<and>
         package_closure io1 p g lockfile1 \<noteq> None \<and> package_closure io2 p g lockfile2 = package_closure io1 p g lockfile1)}"
proof -
  have ok: "lockfile_state_ok lockfile1" "lockfile_state_ok lockfile2" unfolding assms(3,4) by (rule load_lockfile_state_ok)+
  define recorded where "recorded p = (if \<exists>lf. lockfile1 = LockParsed lf then package_closure io1 p g lockfile1 else None)" for p
  obtain st' where st': "rebuild_baseline api io1 lockfile1 packages g st = Some st'"
    "\<forall>p \<in> set packages. map_of (lw_baseline st') (pn_name p) = map_option sorted_list_of_set (recorded p)"
    using baseline_ok[OF assms(1) ok(1) assms(2), of "[]" io1 g]
    by (cases lockfile1) (fastforce simp: rebuild_baseline_def recorded_def)+
  show ?thesis
  proof (cases "\<exists>lf. lockfile2 = LockParsed lf")
    case False
    then show ?thesis using st' by (cases lockfile2) (auto simp: affected_packages_def)
  next
    case True
    have "package_affected api io2 lockfile2 g st' p = Some (recorded p = None \<or> package_closure io2 p g lockfile2 \<noteq> recorded p)"
      if p: "p \<in> set packages" for p
    proof -
      have "sorted_list_of_set c = sorted_list_of_set c' \<longleftrightarrow> c = c'"
        if "recorded p = Some c" "package_closure io2 p g lockfile2 = Some c'" for c c'
        using that finite_package_closure[OF ok(1)] finite_package_closure[OF ok(2)]
        by (intro sorted_list_of_set_eq) (auto simp: recorded_def split: if_splits)
      then show ?thesis
        using gather_ok[OF assms(1) ok(2), of io2 p g] st'(2) p
        by (cases "recorded p"; cases "package_closure io2 p g lockfile2") (auto simp: package_affected_def)
    qed
    then have "filter_run (package_affected api io2 lockfile2 g st') packages =
        Some (filter (\<lambda>p. recorded p = None \<or> package_closure io2 p g lockfile2 \<noteq> recorded p) packages)"
      by (rule filter_run_total)
    moreover have "(recorded p = None \<or> package_closure io2 p g lockfile2 \<noteq> recorded p) \<longleftrightarrow>
        \<not> ((\<exists>lf lf'. lockfile1 = LockParsed lf \<and> lockfile2 = LockParsed lf') \<and> package_closure io1 p g lockfile1 \<noteq> None \<and>
          package_closure io2 p g lockfile2 = package_closure io1 p g lockfile1)" for p
      using True by (auto simp: recorded_def)
    ultimately show ?thesis using True st'(1) by (auto simp: affected_packages_def)
  qed
qed

lemma lockfile_watch_exact_witness:
  "\<exists>st' ns. rebuild_baseline any_globset example_deps_io (LockParsed (berry_lockfile example_entries)) example_packages None
      (lockfile_watch_new (\<lambda>_. None) ''/r'') = Some st' \<and>
    affected_packages any_globset example_deps_io (LockParsed (berry_lockfile example_entries)) example_packages None st' = Some ns \<and>
    set ns = {''core''}"
proof -
  let ?lock = "load_lockfile_state example_parsers example_lock_file ''/r''"
  have closure: "package_closure example_deps_io p None ?lock = None \<longleftrightarrow> pn_path p = ''core''"
    if "pn_path p \<in> {''ui'', ''core''}" for p
    unfolding example_lock_state using that
    by (auto simp: package_closure_def read_package_json_external_deps_def example_deps_io_def join_path_def direct_closure_def)
  have "{p \<in> set example_packages. package_closure example_deps_io p None ?lock = None} =
      {\<lparr>pn_name = ''core'', pn_path = ''core'', pn_scripts = []\<rparr>}"
    by (auto simp: example_packages_def closure)
  then have "pn_name ` {p \<in> set example_packages. package_closure example_deps_io p None ?lock = None} = {''core''}"
    by simp
  moreover have "distinct (map pn_name example_packages)" by (simp add: example_packages_def)
  ultimately show ?thesis
    using lockfile_watch_exact[OF any_globset_everything, of example_packages ?lock example_parsers example_lock_file "''/r''" ?lock
        example_lock_file example_deps_io None "lockfile_watch_new (\<lambda>_. None) ''/r''" example_deps_io]
    by (simp add: example_lock_state)
qed

text \<open>A task may let its cache key depend on the dependencies of the workspace root or of a package it is not
  downstream of. A lockfile change that only they reach changes the key, but no package counts as changed.\<close>

definition root_deps_io :: deps_io where
  "root_deps_io =
     \<lparr>dio_read_to_string = Inr,
      dio_parse = (\<lambda>path. Inr \<lparr>pe_dependencies = (if path = ''/r/package.json'' then [(''b'', ''^3'')] else []),
        pe_dev_dependencies = [], pe_optional_dependencies = []\<rparr>)\<rparr>"

definition one_package_lock :: "string \<Rightarrow> LockfileState" where
  "one_package_lock version =
     LockParsed (berry_lockfile [(''b@npm:^3'', \<lparr>be_version = version, be_lock_identity = version, be_dependencies = []\<rparr>)])"

lemma one_package_lock_ok: "lockfile_state_ok (one_package_lock version)"
  unfolding one_package_lock_def lockfile_state_ok_def LockfileState.inject
  by (metis berry.lockfile_contract_axioms lock_keys_berry)

lemma root_dependency_pairs:
  "gather_pkg_dep_pairs_filtered any_globset root_deps_io \<lparr>pn_name = ''core'', pn_path = ''core'', pn_scripts = []\<rparr> None ''/r''
     (one_package_lock version) [''#**/*''] = Some (Inr [(''b'', version)])"
proof -
  have "input_pattern_from_str ''#**/*'' = Inr (InRoot ''**/*'')" by (simp add: input_pattern_from_str_cases)
  moreover have "transitive_dependencies
      (berry_lockfile [(''b@npm:^3'', \<lparr>be_version = version, be_lock_identity = version, be_dependencies = []\<rparr>)]) ''b@npm:^3'' = Some (Inr {})"
    by (simp add: transitive_dependencies_def closure_loop.simps berry_lockfile_def berry_all_dependencies_def)
  moreover have "lf_resolve_package
      (berry_lockfile [(''b@npm:^3'', \<lparr>be_version = version, be_lock_identity = version, be_dependencies = []\<rparr>)]) w ''b'' ''^3'' =
      Inr (Some \<lparr>pk_key = ''b@npm:^3'', pk_version = version, pk_lock_identity = version\<rparr>)" for w
    by (simp add: berry_lockfile_def berry_resolve_package_def candidate_keys_def)
  ultimately show ?thesis
    by (simp add: gather_pkg_dep_pairs_filtered_def one_package_lock_def read_package_json_external_deps_def root_deps_io_def
        direct_closure_def select_dependency_roots_def candidate_roots_def read_external_dependency_roots_def join_path_def
        dependency_roots_from_pairs_def collect_external_dependencies_def insert_matching_dependency_roots_def any_globset_def
        collect_dep_pairs_for_package_def should_skip_dependency_spec_def map_err_def)
qed

lemma root_dependency_change_missed:
  "packages_with_changed_dep_closures any_globset root_deps_io example_packages example_graph
     (one_package_lock ''3.0'') (one_package_lock ''3.1'') = Some [] \<and>
   gather_pkg_dep_pairs_filtered any_globset root_deps_io \<lparr>pn_name = ''core'', pn_path = ''core'', pn_scripts = []\<rparr> None ''/r''
     (one_package_lock ''3.0'') [''#**/*''] \<noteq>
   gather_pkg_dep_pairs_filtered any_globset root_deps_io \<lparr>pn_name = ''core'', pn_path = ''core'', pn_scripts = []\<rparr> None ''/r''
     (one_package_lock ''3.1'') [''#**/*'']"
proof -
  have "\<exists>ds. direct_closure p (Some example_graph) = Inr ds" if "p \<in> set example_packages" for p
  proof -
    have "pn_name p \<in> pg_names example_graph" using that by (auto simp: pg_names_def example_graph_def)
    then obtain ds where "pg_dependencies_of example_graph (pn_name p) = Inr ds" using pgs.deps_known[OF example_wf] by blast
    then show ?thesis by (simp add: direct_closure_def)
  qed
  then have "package_closure root_deps_io p (Some example_graph) (one_package_lock v) = Some {}" if "p \<in> set example_packages" for p v
    using that by (fastforce simp: package_closure_def one_package_lock_def read_package_json_external_deps_def root_deps_io_def
        dependency_roots_from_pairs_def collect_external_dependencies_def example_packages_def join_path_def)
  then have none: "{p \<in> set example_packages. closure_differs root_deps_io (Some example_graph) (one_package_lock ''3.0'') (one_package_lock ''3.1'') p} = {}"
    by (auto simp: closure_differs_def)
  have "packages_with_changed_dep_closures any_globset root_deps_io example_packages example_graph
      (one_package_lock ''3.0'') (one_package_lock ''3.1'') = Some []"
    using changed_dep_closures[OF any_globset_everything one_package_lock_ok one_package_lock_ok,
        of root_deps_io example_packages example_graph "''3.0''" "''3.1''"]
    unfolding none by auto
  then show ?thesis by (simp add: root_dependency_pairs)
qed

end
