(* ===== verification/Since.thy ===== *)
theory Since
  imports DepPairs
begin

text \<open>
  The impact analysis of \<open>--since\<close>, \<open>crates/luchta-cli/src/since.rs\<close>: the changed paths from git, the packages they
  lie in, the packages whose external dependencies changed, the tasks whose declared inputs match a changed path, and the
  closure under dependents. Git (the gix crate) is the record \<open>git\<close> of the calls the code makes, over one type of handles;
  its locations are taken as valid UTF-8. \<open>canonicalize\<close> and the readers of manifests and lockfiles are arguments.
\<close>

datatype SinceError =
    NotGitRepository
  | NoWorktree string
  | InvalidRef string string
  | EmptyRepository
  | DiffError string
  | StatusError string
  | SinceGraph string
  | LockfilePathError string
  | InputExpansionError string
  | InputMatchError string

definition since_error_from :: "WorkspaceError \<Rightarrow> SinceError" where
  "since_error_from e = SinceGraph (workspace_error_to_string e)"

fun cache_error_to_string :: "CacheError \<Rightarrow> string" where
  "cache_error_to_string (Io e) = ''failed to access cache filesystem: '' @ e"
| "cache_error_to_string (SerializeRecord e) = ''failed to serialize task run record: '' @ e"
| "cache_error_to_string (InvalidGlob e) = ''invalid glob pattern: '' @ e"
| "cache_error_to_string (BuildGlobSet e) = ''failed to build glob matcher: '' @ e"
| "cache_error_to_string (Git e) = ''git repository lookup failed: '' @ e"
| "cache_error_to_string (WalkDir e) = ''walkdir scan failed: '' @ e"
| "cache_error_to_string (StripBaseDir e) = ''failed to strip base dir prefix: '' @ e"
| "cache_error_to_string (InvalidMtime e) = ''mtime predates unix epoch: '' @ e"
| "cache_error_to_string (InputExpansion e) = ''input pattern expansion failed: '' @ e"

section \<open>Changed paths\<close>

datatype TreeChange = Addition string | Deletion string | Modification string | Rewrite string string

record 'h git =
  git_discover :: "string \<Rightarrow> 'h option"
  git_worktree :: "'h \<Rightarrow> string option"
  git_rev_parse :: "'h \<Rightarrow> string \<Rightarrow> string + 'h"
  git_object :: "'h \<Rightarrow> string + 'h"
  git_peel_to_tree :: "'h \<Rightarrow> string + 'h"
  git_changes :: "'h \<Rightarrow> string + 'h"
  git_diff_trees :: "'h \<Rightarrow> 'h \<Rightarrow> string + TreeChange list"
  git_index_or_empty :: "'h \<Rightarrow> string + 'h"
  git_dirwalk_options :: "'h \<Rightarrow> string + 'h"
  git_worktree_status :: "'h \<Rightarrow> 'h \<Rightarrow> 'h \<Rightarrow> string + (bool \<times> string) list"
  git_head_tree_or_empty :: "'h \<Rightarrow> string + 'h"
  git_tree_index_status :: "'h \<Rightarrow> 'h \<Rightarrow> string + string list"
  git_lookup_entry :: "'h \<Rightarrow> string \<Rightarrow> string + 'h option"
  git_blob_text :: "'h \<Rightarrow> string + string"

definition discover_repo :: "'h git \<Rightarrow> string \<Rightarrow> SinceError + 'h" where
  "discover_repo gt workspace_root =
     (case git_discover gt workspace_root of Some repo \<Rightarrow> Inr repo | None \<Rightarrow> Inl NotGitRepository)"

definition discover_repo_root :: "'h git \<Rightarrow> string \<Rightarrow> SinceError + string" where
  "discover_repo_root gt workspace_root =
     bind_result (discover_repo gt workspace_root) (\<lambda>repo.
       case git_worktree gt repo of Some base \<Rightarrow> Inr base | None \<Rightarrow> Inl (NoWorktree workspace_root))"

definition resolve_tree :: "'h git \<Rightarrow> 'h \<Rightarrow> string \<Rightarrow> string + 'h" where
  "resolve_tree gt repo reference =
     bind_result (git_rev_parse gt repo reference) (\<lambda>rev. bind_result (git_object gt rev) (git_peel_to_tree gt))"

definition resolve_ref_tree :: "'h git \<Rightarrow> 'h \<Rightarrow> string \<Rightarrow> SinceError + 'h" where
  "resolve_ref_tree gt repo since_ref = map_err (InvalidRef since_ref) (resolve_tree gt repo since_ref)"

fun insert_change :: "TreeChange \<Rightarrow> string list \<Rightarrow> string list" where
  "insert_change (Addition location) paths = set_insert location paths"
| "insert_change (Deletion location) paths = set_insert location paths"
| "insert_change (Modification location) paths = set_insert location paths"
| "insert_change (Rewrite source_location location) paths = set_insert location (set_insert source_location paths)"

definition collect_committed_changes :: "'h git \<Rightarrow> 'h \<Rightarrow> string \<Rightarrow> SinceError + string list" where
  "collect_committed_changes gt repo since_ref =
     bind_result (resolve_ref_tree gt repo since_ref) (\<lambda>base_tree.
     bind_result (map_err (\<lambda>_. EmptyRepository) (resolve_tree gt repo ''HEAD'')) (\<lambda>head_tree.
     bind_result (map_err DiffError (git_changes gt base_tree)) (\<lambda>changes.
     bind_result (map_err DiffError (git_diff_trees gt changes head_tree)) (\<lambda>cs.
       Inr (fold insert_change cs [])))))"

text \<open>A record without summary is a refresh of the index or an ignored entry.\<close>

definition collect_unstaged_changes :: "'h git \<Rightarrow> 'h \<Rightarrow> 'h \<Rightarrow> string list \<Rightarrow> SinceError + string list" where
  "collect_unstaged_changes gt repo index changed_paths =
     bind_result (map_err StatusError (git_dirwalk_options gt repo)) (\<lambda>options.
     bind_result (map_err StatusError (git_worktree_status gt repo index options)) (\<lambda>records.
       Inr (fold (\<lambda>(has_summary, path) paths. if has_summary then set_insert path paths else paths) records changed_paths)))"

definition collect_staged_changes :: "'h git \<Rightarrow> 'h \<Rightarrow> 'h \<Rightarrow> string list \<Rightarrow> SinceError + string list" where
  "collect_staged_changes gt repo index changed_paths =
     bind_result (map_err StatusError (git_head_tree_or_empty gt repo)) (\<lambda>tree.
     bind_result (map_err StatusError (git_tree_index_status gt tree index)) (\<lambda>locations.
       Inr (fold set_insert locations changed_paths)))"

definition collect_worktree_changes :: "'h git \<Rightarrow> 'h \<Rightarrow> string list \<Rightarrow> SinceError + string list" where
  "collect_worktree_changes gt repo changed_paths =
     bind_result (map_err StatusError (git_index_or_empty gt repo)) (\<lambda>index.
     bind_result (collect_unstaged_changes gt repo index changed_paths) (collect_staged_changes gt repo index))"

definition changed_paths_since :: "'h git \<Rightarrow> string \<Rightarrow> string \<Rightarrow> SinceError + string list" where
  "changed_paths_since gt workspace_root since_ref =
     bind_result (discover_repo gt workspace_root) (\<lambda>repo.
     bind_result (collect_committed_changes gt repo since_ref) (collect_worktree_changes gt repo))"

section \<open>Packages of paths\<close>

text \<open>\<open>max_by_key\<close> keeps the last of several maxima, \<open>min_by_key\<close> the first of several minima.\<close>

fun max_by_key :: "('a \<Rightarrow> nat) \<Rightarrow> 'a list \<Rightarrow> 'a option" where
  "max_by_key f [] = None"
| "max_by_key f (x # xs) = (case max_by_key f xs of None \<Rightarrow> Some x | Some y \<Rightarrow> Some (if f x \<le> f y then y else x))"

fun min_by_key :: "('a \<Rightarrow> 'k :: linorder) \<Rightarrow> 'a list \<Rightarrow> 'a option" where
  "min_by_key f [] = None"
| "min_by_key f (x # xs) = (case min_by_key f xs of None \<Rightarrow> Some x | Some y \<Rightarrow> Some (if f x \<le> f y then x else y))"

definition deepest_package_for_path :: "string \<Rightarrow> string \<Rightarrow> PackageGraph \<Rightarrow> PackageNode option" where
  "deepest_package_for_path changed_path repo_root g =
     (let absolute_changed_path = join_path repo_root changed_path in
      max_by_key (\<lambda>node. length (path_components (pn_path node)))
        (filter (\<lambda>node. path_strip_prefix (pn_path node) absolute_changed_path \<noteq> None)
          (filter (\<lambda>node. Some (pn_name node) \<noteq> pg_root_package g) (dg_nodes (pg_graph g)))))"

definition affected_packages_from_paths :: "string list \<Rightarrow> string \<Rightarrow> PackageGraph \<Rightarrow> SinceError + PackageName list" where
  "affected_packages_from_paths changed_paths repo_root g =
     (let changed_packages = fold (\<lambda>changed_path ps.
            case deepest_package_for_path changed_path repo_root g of
              Some package \<Rightarrow> set_insert (pn_name package) ps | None \<Rightarrow> ps) changed_paths []
      in map_err since_error_from (transitive_dependents_of g changed_packages))"

section \<open>The result\<close>

record SinceAffected =
  sa_packages :: "PackageName list"
  sa_affected_root_tasks :: "TaskName list"
  sa_root_tasks_with_inputs :: "TaskName list"

definition since_affected_new :: "PackageName list \<Rightarrow> TaskName list \<Rightarrow> TaskName list \<Rightarrow> SinceAffected" where
  "since_affected_new packages affected_root_tasks root_tasks_with_inputs =
     \<lparr>sa_packages = packages, sa_affected_root_tasks = affected_root_tasks, sa_root_tasks_with_inputs = root_tasks_with_inputs\<rparr>"

definition since_from_packages :: "PackageName list \<Rightarrow> SinceAffected" where
  "since_from_packages packages = \<lparr>sa_packages = packages, sa_affected_root_tasks = [], sa_root_tasks_with_inputs = []\<rparr>"

definition contains_package :: "SinceAffected \<Rightarrow> PackageName \<Rightarrow> bool" where
  "contains_package sa package \<longleftrightarrow> package \<in> set (sa_packages sa)"

definition contains_affected_root_task :: "SinceAffected \<Rightarrow> TaskName \<Rightarrow> bool" where
  "contains_affected_root_task sa task \<longleftrightarrow> task \<in> set (sa_affected_root_tasks sa)"

definition root_task_passes :: "SinceAffected \<Rightarrow> TaskName \<Rightarrow> bool" where
  "root_task_passes sa task \<longleftrightarrow> task \<notin> set (sa_root_tasks_with_inputs sa) \<or> contains_affected_root_task sa task"

section \<open>Lockfile changes\<close>

definition repo_relative_lockfile_path :: "(string \<Rightarrow> string + string) \<Rightarrow> string \<Rightarrow> string \<Rightarrow> SinceError + string" where
  "repo_relative_lockfile_path canonicalize workspace_root repo_root =
     bind_result (map_err LockfilePathError (canonicalize workspace_root)) (\<lambda>ws.
     bind_result (map_err LockfilePathError (canonicalize repo_root)) (\<lambda>repo.
       case path_strip_prefix repo ws of
         Some relative \<Rightarrow> Inr (join_path relative ''yarn.lock'')
       | None \<Rightarrow> Inl (LockfilePathError (''workspace '' @ sq @ ws @ sq @ '' is outside repository '' @ sq @ repo @ sq @
             '': prefix not found''))))"

definition lockfile_state_from_tree :: "'v lockfile_parsers \<Rightarrow> 'h git \<Rightarrow> 'h \<Rightarrow> string \<Rightarrow> LockfileState" where
  "lockfile_state_from_tree lp gt tree path =
     (case git_lookup_entry gt tree path of
        Inr None \<Rightarrow> LockAbsent
      | Inl error \<Rightarrow> LockFailed error
      | Inr (Some entry) \<Rightarrow>
          (case bind_result (git_object gt entry) (git_blob_text gt) of
             Inl error \<Rightarrow> LockFailed error
           | Inr content \<Rightarrow> parse_lockfile_content lp content))"

text \<open>What the analysis reads beside the graphs.\<close>

record ('h, 'v, 'g, 's) since_env =
  se_git :: "'h git"
  se_canonicalize :: "string \<Rightarrow> string + string"
  se_parsers :: "'v lockfile_parsers"
  se_read_file :: "string \<Rightarrow> FileRead"
  se_deps_io :: deps_io
  se_name_globs :: "('g, 's) globs"

definition packages_changed_by_paths_and_lockfile ::
  "('h, 'v, 'g, 's) since_env \<Rightarrow> string \<Rightarrow> string \<Rightarrow> string \<Rightarrow> PackageGraph \<Rightarrow> string list \<Rightarrow> (SinceError + PackageName list) option" where
  "packages_changed_by_paths_and_lockfile env workspace_root repo_root since_ref g changed_paths =
     bind_run (Some (affected_packages_from_paths changed_paths repo_root g)) (\<lambda>changed_packages.
     bind_run (Some (repo_relative_lockfile_path (se_canonicalize env) workspace_root repo_root)) (\<lambda>lockfile_path.
     bind_run (Some (discover_repo (se_git env) workspace_root)) (\<lambda>repo.
     bind_run (Some (resolve_ref_tree (se_git env) repo since_ref)) (\<lambda>base_tree.
       let base = lockfile_state_from_tree (se_parsers env) (se_git env) base_tree lockfile_path;
           head = load_lockfile_state (se_parsers env) (se_read_file env) workspace_root;
           candidates = filter (\<lambda>node. Some (pn_name node) \<noteq> pg_root_package g) (dg_nodes (pg_graph g))
       in case packages_with_changed_dep_closures (se_name_globs env) (se_deps_io env) candidates g base head of
            None \<Rightarrow> None
          | Some ns \<Rightarrow> Some (Inr (fold set_insert ns changed_packages))))))"

section \<open>Declared inputs\<close>

record DeclaredInputMatches =
  dm_packages :: "PackageName list"
  dm_affected_root :: "TaskName list"
  dm_root_with_inputs :: "TaskName list"

type_synonym 's matchers = "(PackageName \<times> string list, 's PathRequestMatcher) hmap"
type_synonym 's declared_state = "DeclaredInputMatches \<times> 's matchers \<times> (TaskId \<times> SinceError) list"

definition compile_input_matcher ::
  "('g, 's) globs \<Rightarrow> toposort \<Rightarrow> TaskId \<Rightarrow> string list \<Rightarrow> PackageGraph \<Rightarrow> string \<Rightarrow> SinceError + 's PathRequestMatcher" where
  "compile_input_matcher api topo task inputs g workspace_root =
     bind_result (map_err (\<lambda>e. InputExpansionError (''task '' @ sq @ task_id_to_string task @ sq @ '': '' @ input_error_to_string e))
       (expand_input_patterns topo inputs (tid_package task) g workspace_root)) (\<lambda>requests.
     map_err (\<lambda>e. InputMatchError (''task '' @ sq @ task_id_to_string task @ sq @ '': '' @ cache_error_to_string e))
       (path_request_matcher_compile api requests))"

text \<open>The matcher of a task, from the map where an earlier task with the same package and inputs left it.\<close>

definition matcher_for ::
  "('g, 's) globs \<Rightarrow> toposort \<Rightarrow> PackageGraph \<Rightarrow> string \<Rightarrow> TaskId \<Rightarrow> string list \<Rightarrow> 's matchers \<Rightarrow>
   SinceError + 's PathRequestMatcher \<times> 's matchers" where
  "matcher_for api topo g workspace_root task inputs matchers =
     (case map_of matchers (tid_package task, inputs) of
        Some matcher \<Rightarrow> Inr (matcher, matchers)
      | None \<Rightarrow> map_sum id (\<lambda>matcher. (matcher, AList.update (tid_package task, inputs) matcher matchers))
          (compile_input_matcher api topo task inputs g workspace_root))"

definition record_match :: "('g, 's) globs \<Rightarrow> string list \<Rightarrow> TaskId \<Rightarrow> 's PathRequestMatcher \<Rightarrow> DeclaredInputMatches \<Rightarrow> DeclaredInputMatches" where
  "record_match api absolute_paths task matcher matches =
     (let hit = list_ex (matches_path api matcher) absolute_paths in
      if task_is_root task then
        (if \<not> has_includes matcher then matches
         else matches\<lparr>dm_root_with_inputs := set_insert (tid_task task) (dm_root_with_inputs matches),
                      dm_affected_root := (if hit then set_insert (tid_task task) (dm_affected_root matches) else dm_affected_root matches)\<rparr>)
      else if hit then matches\<lparr>dm_packages := set_insert (tid_package task) (dm_packages matches)\<rparr> else matches)"

fun declared_step ::
  "('g, 's) globs \<Rightarrow> toposort \<Rightarrow> PackageGraph \<Rightarrow> string \<Rightarrow> string list \<Rightarrow> PackageName list \<Rightarrow> TaskId \<times> TaskDefinition \<Rightarrow> 's declared_state \<Rightarrow>
   SinceError + 's declared_state" where
  "declared_step api topo g workspace_root absolute_paths already_affected (task, definition) (matches, matchers, errors) =
     (if td_inputs definition = [] then Inr (matches, matchers, errors)
      else if \<not> task_is_root task \<and>
        (absolute_paths = [] \<or> tid_package task \<in> set already_affected \<or> tid_package task \<in> set (dm_packages matches))
      then Inr (matches, matchers, errors)
      else case matcher_for api topo g workspace_root task (td_inputs definition) matchers of
        Inl e \<Rightarrow> if task_is_root task then Inl e else Inr (matches, matchers, errors @ [(task, e)])
      | Inr (matcher, matchers') \<Rightarrow> Inr (record_match api absolute_paths task matcher matches, matchers', errors))"

fun declared_loop ::
  "('g, 's) globs \<Rightarrow> toposort \<Rightarrow> PackageGraph \<Rightarrow> string \<Rightarrow> string list \<Rightarrow> PackageName list \<Rightarrow> (TaskId \<times> TaskDefinition) list \<Rightarrow>
   's declared_state \<Rightarrow> SinceError + 's declared_state" where
  "declared_loop api topo g workspace_root absolute_paths already_affected [] st = Inr st"
| "declared_loop api topo g workspace_root absolute_paths already_affected (td # tds) st =
     bind_result (declared_step api topo g workspace_root absolute_paths already_affected td st)
       (declared_loop api topo g workspace_root absolute_paths already_affected tds)"

definition declared_input_matches_for_tasks ::
  "('g, 's) globs \<Rightarrow> toposort \<Rightarrow> string list \<Rightarrow> string \<Rightarrow> string \<Rightarrow> PackageGraph \<Rightarrow> (TaskId \<times> TaskDefinition) list \<Rightarrow> PackageName list \<Rightarrow>
   SinceError + DeclaredInputMatches" where
  "declared_input_matches_for_tasks api topo changed_paths repo_root workspace_root g tasks already_affected =
     bind_result (declared_loop api topo g workspace_root (map (join_path repo_root) changed_paths) already_affected tasks
       (\<lparr>dm_packages = [], dm_affected_root = [], dm_root_with_inputs = []\<rparr>, [], [])) (\<lambda>(matches, _, errors).
     case min_by_key (\<lambda>(task, _). task_id_to_string task)
            (filter (\<lambda>(task, _). tid_package task \<notin> set already_affected \<and> tid_package task \<notin> set (dm_packages matches)) errors) of
       Some (_, error) \<Rightarrow> Inl error
     | None \<Rightarrow> Inr matches)"

definition graph_tasks :: "TaskGraph \<Rightarrow> (TaskId \<times> TaskDefinition) list" where
  "graph_tasks tg = List.map_filter (\<lambda>node. map_option (Pair (tn_id node)) (tg_task_definition tg (tn_id node))) (tg_nodes tg)"

definition declared_input_matches ::
  "('g, 's) globs \<Rightarrow> toposort \<Rightarrow> string list \<Rightarrow> string \<Rightarrow> string \<Rightarrow> PackageGraph \<Rightarrow> TaskGraph \<Rightarrow> PackageName list \<Rightarrow>
   SinceError + DeclaredInputMatches" where
  "declared_input_matches api topo changed_paths repo_root workspace_root g tg already_affected =
     declared_input_matches_for_tasks api topo changed_paths repo_root workspace_root g (graph_tasks tg) already_affected"

definition since_affected ::
  "('h, 'v, 'a, 'b) since_env \<Rightarrow> ('g, 's) globs \<Rightarrow> toposort \<Rightarrow> string \<Rightarrow> string \<Rightarrow> string \<Rightarrow> PackageGraph \<Rightarrow> TaskGraph \<Rightarrow>
   (SinceError + SinceAffected) option" where
  "since_affected env api topo workspace_root repo_root since_ref g tg =
     bind_run (Some (changed_paths_since (se_git env) workspace_root since_ref)) (\<lambda>changed_paths.
     bind_run (packages_changed_by_paths_and_lockfile env workspace_root repo_root since_ref g changed_paths) (\<lambda>changed_packages.
     bind_run (Some (declared_input_matches api topo changed_paths repo_root workspace_root g tg changed_packages)) (\<lambda>declared.
     bind_run (Some (map_err since_error_from (transitive_dependents_of g (fold set_insert (dm_packages declared) changed_packages)))) (\<lambda>packages.
       Some (Inr (since_affected_new packages (dm_affected_root declared) (dm_root_with_inputs declared)))))))"

section \<open>What the tasks contribute\<close>

text \<open>The fixed arguments of a pass: globs, sort, graph, workspace root, changed paths, affected packages.\<close>

type_synonym ('g, 's) pass = "('g, 's) globs \<times> toposort \<times> PackageGraph \<times> string \<times> string list \<times> PackageName list"

fun task_matcher :: "('g, 's) pass \<Rightarrow> TaskId \<Rightarrow> TaskDefinition \<Rightarrow> SinceError + 's PathRequestMatcher" where
  "task_matcher (api, topo, g, ws, paths, already) t d = compile_input_matcher api topo t (td_inputs d) g ws"

fun considered :: "('g, 's) pass \<Rightarrow> TaskId \<Rightarrow> TaskDefinition \<Rightarrow> bool" where
  "considered (api, topo, g, ws, paths, already) t d \<longleftrightarrow>
     td_inputs d \<noteq> [] \<and> (task_is_root t \<or> paths \<noteq> [] \<and> tid_package t \<notin> set already)"

fun input_hit :: "('g, 's) pass \<Rightarrow> TaskId \<Rightarrow> TaskDefinition \<Rightarrow> bool" where
  "input_hit (api, topo, g, ws, paths, already) t d \<longleftrightarrow>
     (\<exists>m. compile_input_matcher api topo t (td_inputs d) g ws = Inr m \<and> list_ex (matches_path api m) paths)"

definition hit_packages :: "('g, 's) pass \<Rightarrow> (TaskId \<times> TaskDefinition) set \<Rightarrow> PackageName set" where
  "hit_packages ps T = {tid_package t | t d. (t, d) \<in> T \<and> \<not> task_is_root t \<and> considered ps t d \<and> input_hit ps t d}"

definition hit_roots :: "('g, 's) pass \<Rightarrow> (TaskId \<times> TaskDefinition) set \<Rightarrow> TaskName set" where
  "hit_roots ps T = {tid_task t | t d. (t, d) \<in> T \<and> task_is_root t \<and> considered ps t d \<and> input_hit ps t d}"

definition filtered_roots :: "('g, 's) pass \<Rightarrow> (TaskId \<times> TaskDefinition) set \<Rightarrow> TaskName set" where
  "filtered_roots ps T =
     {tid_task t | t d. (t, d) \<in> T \<and> task_is_root t \<and> considered ps t d \<and> (\<exists>m. task_matcher ps t d = Inr m \<and> has_includes m)}"

definition failing :: "('g, 's) pass \<Rightarrow> (TaskId \<times> TaskDefinition) set \<Rightarrow> (TaskId \<times> SinceError) set" where
  "failing ps T = {(t, e) | t d e. (t, d) \<in> T \<and> considered ps t d \<and> task_matcher ps t d = Inl e}"

fun declared_inv :: "('g, 's) pass \<Rightarrow> (TaskId \<times> TaskDefinition) set \<Rightarrow> 's declared_state \<Rightarrow> bool" where
  "declared_inv ps T (matches, matchers, errors) \<longleftrightarrow>
     (\<forall>t d m. map_of matchers (tid_package t, td_inputs d) = Some m \<longrightarrow> task_matcher ps t d = Inr m) \<and>
     set (dm_packages matches) = hit_packages ps T \<and> set (dm_affected_root matches) = hit_roots ps T \<and>
     set (dm_root_with_inputs matches) = filtered_roots ps T \<and>
     set errors \<subseteq> failing ps T \<and> (\<forall>(t, e) \<in> failing ps T. \<not> task_is_root t \<and> (tid_package t \<in> hit_packages ps T \<or> (t, e) \<in> set errors))"

lemma hit_includes: "list_ex (matches_path api m) paths \<Longrightarrow> has_includes m"
  by (auto simp: matches_path_def has_includes_def list_ex_iff)

lemma task_matcher_package:
  "tid_package t = tid_package t' \<Longrightarrow> td_inputs d = td_inputs d' \<Longrightarrow> task_matcher ps t d = Inr m \<longleftrightarrow> task_matcher ps t' d' = Inr m"
  by (cases ps) (auto simp: compile_input_matcher_def map_err_def bind_result_Inr_iff split: sum.splits)

lemma insert_pass:
  "hit_packages ps (insert (t, d) T) =
     (if \<not> task_is_root t \<and> considered ps t d \<and> input_hit ps t d then insert (tid_package t) (hit_packages ps T) else hit_packages ps T)"
  "hit_roots ps (insert (t, d) T) =
     (if task_is_root t \<and> considered ps t d \<and> input_hit ps t d then insert (tid_task t) (hit_roots ps T) else hit_roots ps T)"
  "filtered_roots ps (insert (t, d) T) =
     (if task_is_root t \<and> considered ps t d \<and> (\<exists>m. task_matcher ps t d = Inr m \<and> has_includes m)
      then insert (tid_task t) (filtered_roots ps T) else filtered_roots ps T)"
  "failing ps (insert (t, d) T) =
     (if considered ps t d then {(t, e) | e. task_matcher ps t d = Inl e} \<union> failing ps T else failing ps T)"
  by (auto simp: hit_packages_def hit_roots_def filtered_roots_def failing_def)

lemma declared_step_inv:
  assumes inv: "declared_inv (api, topo, g, ws, paths, already) T st"
  shows "case declared_step api topo g ws paths already (t, d) st of
      Inl e \<Rightarrow> task_is_root t \<and> (t, e) \<in> failing (api, topo, g, ws, paths, already) (insert (t, d) T)
    | Inr st' \<Rightarrow> declared_inv (api, topo, g, ws, paths, already) (insert (t, d) T) st'"
proof -
  let ?ps = "(api, topo, g, ws, paths, already)"
  obtain matches matchers errors where st: "st = (matches, matchers, errors)" by (cases st)
  note matchers = inv[unfolded st declared_inv.simps, THEN conjunct1, rule_format]
  consider (skip) "\<not> considered ?ps t d" | (seen) "considered ?ps t d" "\<not> task_is_root t" "tid_package t \<in> set (dm_packages matches)"
    | (err) e where "considered ?ps t d" "task_is_root t \<or> tid_package t \<notin> set (dm_packages matches)" "task_matcher ?ps t d = Inl e"
    | (ok) m where "considered ?ps t d" "task_is_root t \<or> tid_package t \<notin> set (dm_packages matches)" "task_matcher ?ps t d = Inr m"
    by (cases "task_matcher ?ps t d") blast+
  then show ?thesis
  proof cases
    case skip
    then have "declared_step api topo g ws paths already (t, d) st = Inr st" by (auto simp: st)
    then show ?thesis using inv skip by (simp add: st insert_pass del: considered.simps)
  next
    case seen
    then have "declared_step api topo g ws paths already (t, d) st = Inr st" by (auto simp: st)
    moreover have "hit_packages ?ps (insert (t, d) T) = hit_packages ?ps T" "tid_package t \<in> hit_packages ?ps T"
      using seen inv by (auto simp: st insert_pass)
    moreover have "hit_roots ?ps (insert (t, d) T) = hit_roots ?ps T" "filtered_roots ?ps (insert (t, d) T) = filtered_roots ?ps T"
      using seen(2) by (simp_all add: insert_pass)
    moreover have "failing ?ps (insert (t, d) T) = {(t, e) | e. task_matcher ?ps t d = Inl e} \<union> failing ?ps T"
      using seen(1) by (simp only: insert_pass if_True)
    ultimately show ?thesis using inv seen(2) by (auto simp: st simp del: declared_step.simps task_matcher.simps)
  next
    case err
    have "map_of matchers (tid_package t, td_inputs d) = None" using matchers[of t d] err(3) by fastforce
    then have "declared_step api topo g ws paths already (t, d) st =
        (if task_is_root t then Inl e else Inr (matches, matchers, errors @ [(t, e)]))"
      using err by (auto simp: st matcher_for_def)
    moreover have "\<not> input_hit ?ps t d" using err(3) by simp
    ultimately show ?thesis using inv err by (auto simp: st insert_pass simp del: considered.simps input_hit.simps task_matcher.simps)
  next
    case ok
    obtain matchers' where matchers': "matcher_for api topo g ws t (td_inputs d) matchers = Inr (m, matchers')"
      "\<forall>t d m. map_of matchers' (tid_package t, td_inputs d) = Some m \<longrightarrow> task_matcher ?ps t d = Inr m"
    proof (cases "map_of matchers (tid_package t, td_inputs d)")
      case None
      have "task_matcher ?ps t' d' = Inr m'"
        if "map_of (AList.update (tid_package t, td_inputs d) m matchers) (tid_package t', td_inputs d') = Some m'" for t' d' m'
      proof (cases "(tid_package t', td_inputs d') = (tid_package t, td_inputs d)")
        case True
        then have "m' = m" using that by (simp add: hmap_simps)
        then show ?thesis using True ok(3) task_matcher_package[of t t' d d' ?ps m] by (simp del: task_matcher.simps)
      next
        case False
        then have "map_of matchers (tid_package t', td_inputs d') = Some m'" using that by (simp add: hmap_simps split: if_splits)
        then show ?thesis by (rule matchers)
      qed
      then show ?thesis using that[of "AList.update (tid_package t, td_inputs d) m matchers"] None ok(3) by (simp add: matcher_for_def)
    next
      case (Some m')
      then show ?thesis using that matchers matchers[of t d m'] ok(3) by (auto simp: matcher_for_def)
    qed
    have step: "declared_step api topo g ws paths already (t, d) st = Inr (record_match api paths t m matches, matchers', errors)"
      using ok matchers'(1) by (auto simp: st)
    have "input_hit ?ps t d \<longleftrightarrow> list_ex (matches_path api m) paths" using ok(3) by simp
    then show ?thesis
      using inv ok matchers'(2) hit_includes[of api m paths] unfolding step
      by (auto simp: st insert_pass record_match_def Let_def simp del: considered.simps input_hit.simps task_matcher.simps)
  qed
qed

lemma declared_loop_inv:
  assumes "declared_inv (api, topo, g, ws, paths, already) T st"
  shows "case declared_loop api topo g ws paths already tds st of
      Inl e \<Rightarrow> \<exists>t. task_is_root t \<and> (t, e) \<in> failing (api, topo, g, ws, paths, already) (set tds \<union> T)
    | Inr st' \<Rightarrow> declared_inv (api, topo, g, ws, paths, already) (set tds \<union> T) st'"
  using assms
proof (induction tds arbitrary: T st)
  case (Cons td tds)
  obtain t d where td: "td = (t, d)" by (cases td)
  show ?case
  proof (cases "declared_step api topo g ws paths already td st")
    case (Inl e)
    then show ?thesis using declared_step_inv[OF Cons.prems, of t d] td by (auto simp: failing_def)
  next
    case (Inr st')
    then have "declared_inv (api, topo, g, ws, paths, already) (insert td T) st'"
      using declared_step_inv[OF Cons.prems, of t d] td by simp
    moreover have "set (td # tds) \<union> T = set tds \<union> insert td T" by auto
    ultimately show ?thesis using Cons.IH Inr by (simp only: declared_loop.simps bind_result.simps)
  qed
qed simp

lemma min_by_key_None [simp]: "min_by_key f xs = None \<longleftrightarrow> xs = []"
  by (cases xs) (auto split: option.split)

lemma min_by_key_Some: "min_by_key f xs = Some x \<Longrightarrow> x \<in> set xs \<and> (\<forall>y \<in> set xs. f x \<le> f y)"
  by (induction xs arbitrary: x) (fastforce split: option.splits if_splits)+

text \<open>The error that is reported: of a root task, or else of the least package task whose package is not affected.\<close>

definition reported_error :: "('g, 's) pass \<Rightarrow> (TaskId \<times> TaskDefinition) set \<Rightarrow> SinceError \<Rightarrow> bool" where
  "reported_error ps T e \<longleftrightarrow> (\<exists>t. (t, e) \<in> failing ps T \<and>
     (task_is_root t \<or>
      (\<forall>(t', e') \<in> failing ps T. \<not> task_is_root t' \<and>
         (tid_package t' \<notin> hit_packages ps T \<longrightarrow> task_id_to_string t \<le> task_id_to_string t')) \<and>
      tid_package t \<notin> hit_packages ps T))"

definition harmless :: "('g, 's) pass \<Rightarrow> (TaskId \<times> TaskDefinition) set \<Rightarrow> bool" where
  "harmless ps T \<longleftrightarrow> (\<forall>(t, e) \<in> failing ps T. \<not> task_is_root t \<and> tid_package t \<in> hit_packages ps T)"

lemma declared_matches_ok:
  assumes ps_def: "ps = (api, topo, g, ws, map (join_path repo_root) changed_paths, already)"
  shows "case declared_input_matches_for_tasks api topo changed_paths repo_root ws g tasks already of
      Inl e \<Rightarrow> reported_error ps (set tasks) e
    | Inr m \<Rightarrow> harmless ps (set tasks) \<and> set (dm_packages m) = hit_packages ps (set tasks) \<and>
        set (dm_affected_root m) = hit_roots ps (set tasks) \<and> set (dm_root_with_inputs m) = filtered_roots ps (set tasks)"
proof -
  let ?paths = "map (join_path repo_root) changed_paths"
  let ?start = "(\<lparr>dm_packages = [], dm_affected_root = [], dm_root_with_inputs = []\<rparr>, [], [])"
  have "declared_inv ps {} ?start"
    by (simp add: ps_def hit_packages_def hit_roots_def filtered_roots_def failing_def)
  note loop = declared_loop_inv[OF this[unfolded ps_def], of tasks, folded ps_def]
  show ?thesis
  proof (cases "declared_loop api topo g ws ?paths already tasks ?start")
    case (Inl e)
    then show ?thesis using loop by (auto simp: declared_input_matches_for_tasks_def reported_error_def)
  next
    case (Inr st)
    obtain matches matchers errors where st: "st = (matches, matchers, errors)" by (cases st)
    let ?open = "filter (\<lambda>(task, _). tid_package task \<notin> set already \<and> tid_package task \<notin> set (dm_packages matches)) errors"
    have inv: "declared_inv ps (set tasks) (matches, matchers, errors)" using loop Inr st by simp
    have considered: "tid_package t \<notin> set already" if "(t, e) \<in> failing ps (set tasks)" "\<not> task_is_root t" for t e
      using that by (auto simp: ps_def failing_def)
    have "(t, e) \<in> set ?open \<longleftrightarrow> (t, e) \<in> failing ps (set tasks) \<and> tid_package t \<notin> hit_packages ps (set tasks)" for t e
      using inv considered by auto
    note opened = this
    show ?thesis
    proof (cases "min_by_key (\<lambda>(task, _). task_id_to_string task) ?open")
      case None
      then have "harmless ps (set tasks)" using opened inv by (fastforce simp: harmless_def)
      then show ?thesis using None Inr st inv by (simp add: declared_input_matches_for_tasks_def)
    next
      case (Some te)
      obtain t e where te: "te = (t, e)" by (cases te)
      have "(t, e) \<in> set ?open" "\<forall>y \<in> set ?open. task_id_to_string t \<le> task_id_to_string (fst y)"
        using min_by_key_Some[OF Some] by (auto simp: te)
      have fail: "(t, e) \<in> failing ps (set tasks)" "tid_package t \<notin> hit_packages ps (set tasks)"
        using \<open>(t, e) \<in> set ?open\<close> opened by blast+
      have "\<not> task_is_root t'" if "(t', e') \<in> failing ps (set tasks)" for t' e' using inv that by auto
      moreover have "task_id_to_string t \<le> task_id_to_string t'"
        if "(t', e') \<in> failing ps (set tasks)" "tid_package t' \<notin> hit_packages ps (set tasks)" for t' e'
        using \<open>\<forall>y \<in> set ?open. _ y\<close> opened that by fastforce
      ultimately have "reported_error ps (set tasks) e" unfolding reported_error_def using fail by blast
      then show ?thesis using Some Inr st te by (simp add: declared_input_matches_for_tasks_def)
    qed
  qed
qed

section \<open>The affected packages\<close>

definition path_seeds :: "string \<Rightarrow> PackageGraph \<Rightarrow> string list \<Rightarrow> PackageName set" where
  "path_seeds repo_root g paths = {pn_name p | c p. c \<in> set paths \<and> deepest_package_for_path c repo_root g = Some p}"

text \<open>All packages of tasks whose declared inputs match, affected already or not.\<close>

definition input_seeds :: "('g, 's) globs \<Rightarrow> toposort \<Rightarrow> PackageGraph \<Rightarrow> string \<Rightarrow> string list \<Rightarrow> (TaskId \<times> TaskDefinition) set \<Rightarrow> PackageName set" where
  "input_seeds api topo g ws paths T = hit_packages (api, topo, g, ws, paths, []) T"

definition lock_seeds :: "('h, 'v, 'g, 's) since_env \<Rightarrow> string \<Rightarrow> PackageGraph \<Rightarrow> LockfileState \<Rightarrow> PackageName set" where
  "lock_seeds env ws g base =
     {pn_name p | p. p \<in> set (dg_nodes (pg_graph g)) \<and> Some (pn_name p) \<noteq> pg_root_package g \<and>
        closure_differs (se_deps_io env) (Some g) base (load_lockfile_state (se_parsers env) (se_read_file env) ws) p}"

text \<open>The lockfile at the base ref.\<close>

definition base_lockfile :: "('h, 'v, 'g, 's) since_env \<Rightarrow> string \<Rightarrow> string \<Rightarrow> string \<Rightarrow> SinceError + LockfileState" where
  "base_lockfile env ws repo_root since_ref =
     bind_result (repo_relative_lockfile_path (se_canonicalize env) ws repo_root) (\<lambda>path.
     bind_result (discover_repo (se_git env) ws) (\<lambda>repo.
     bind_result (resolve_ref_tree (se_git env) repo since_ref) (\<lambda>tree.
       Inr (lockfile_state_from_tree (se_parsers env) (se_git env) tree path))))"

definition dependents_closure :: "PackageGraph \<Rightarrow> PackageName set \<Rightarrow> PackageName set" where
  "dependents_closure g S = {p. \<exists>s \<in> S \<inter> pg_names g. (p, s) \<in> (pg_rel g Outgoing)\<^sup>*}"

lemma transitive_dependents_ok:
  assumes "wf_package_graph g"
  shows "\<exists>ns. transitive_dependents_of g seeds = Inr ns \<and> set ns = dependents_closure g (set seeds)"
proof -
  obtain ns where "transitive_dependents_of g seeds = Inr ns"
    using transitive_neighbors_total[of g seeds Incoming] by (auto simp: transitive_dependents_of_def)
  then show ?thesis
    using transitive_neighbors_names[OF assms, of seeds Incoming ns]
    by (auto simp: transitive_dependents_of_def pg_rel_converse rtrancl_converse dependents_closure_def)
qed

lemma dependents_closure_names: "wf_package_graph g \<Longrightarrow> dependents_closure g S \<subseteq> pg_names g"
proof
  fix p assume wf: "wf_package_graph g" and "p \<in> dependents_closure g S"
  then obtain s where "s \<in> pg_names g" "(p, s) \<in> (pg_rel g Outgoing)\<^sup>*" by (auto simp: dependents_closure_def)
  then show "p \<in> pg_names g" using pg_rel_names[OF wf, of Outgoing] by (auto elim: converse_rtranclE)
qed

lemma dependents_closure_absorb:
  assumes "wf_package_graph g"
  shows "dependents_closure g (dependents_closure g A \<union> B) = dependents_closure g (A \<union> B)"
proof
  show "dependents_closure g (dependents_closure g A \<union> B) \<subseteq> dependents_closure g (A \<union> B)"
    by (auto simp: dependents_closure_def intro: rtrancl_trans)
  have "A \<inter> pg_names g \<subseteq> dependents_closure g A" by (auto simp: dependents_closure_def)
  then show "dependents_closure g (A \<union> B) \<subseteq> dependents_closure g (dependents_closure g A \<union> B)"
    by (auto simp: dependents_closure_def)
qed

lemma set_fold_set_insert [simp]: "set (fold set_insert xs ys) = set xs \<union> set ys"
  by (induction xs arbitrary: ys) auto

lemma path_packages_ok:
  assumes "wf_package_graph g"
  shows "\<exists>ns. affected_packages_from_paths paths repo_root g = Inr ns \<and> set ns = dependents_closure g (path_seeds repo_root g paths)"
proof -
  let ?step = "\<lambda>changed_path ps. case deepest_package_for_path changed_path repo_root g of
      Some package \<Rightarrow> set_insert (pn_name package) ps | None \<Rightarrow> ps"
  have "set (fold ?step paths ps) = path_seeds repo_root g paths \<union> set ps" for ps
    by (induction paths arbitrary: ps) (auto simp: path_seeds_def split: option.split)
  then show ?thesis
    using transitive_dependents_ok[OF assms, of "fold ?step paths []"]
    by (auto simp: affected_packages_from_paths_def map_err_def)
qed

lemma lockfile_state_from_tree_ok: "lockfile_state_ok (lockfile_state_from_tree lp gt tree path)"
  using parse_lockfile_content_ok[of lp]
  by (auto simp: lockfile_state_from_tree_def lockfile_state_ok_def split: sum.split option.split)

lemma changed_packages_ok:
  assumes "wf_package_graph g" and "matches_everything (se_name_globs env) ''**/*''" and "base_lockfile env ws repo_root since_ref = Inr base"
  shows "\<exists>ns. packages_changed_by_paths_and_lockfile env ws repo_root since_ref g paths = Some (Inr ns) \<and>
    set ns = dependents_closure g (path_seeds repo_root g paths) \<union> lock_seeds env ws g base"
proof -
  obtain path repo tree where b: "repo_relative_lockfile_path (se_canonicalize env) ws repo_root = Inr path"
    "discover_repo (se_git env) ws = Inr repo" "resolve_ref_tree (se_git env) repo since_ref = Inr tree"
    "base = lockfile_state_from_tree (se_parsers env) (se_git env) tree path"
    using assms(3) by (auto simp: base_lockfile_def bind_result_Inr_iff)
  obtain ns where ns: "affected_packages_from_paths paths repo_root g = Inr ns"
    "set ns = dependents_closure g (path_seeds repo_root g paths)"
    using path_packages_ok[OF assms(1)] by blast
  have "lockfile_state_ok base" unfolding b(4) by (rule lockfile_state_from_tree_ok)
  from changed_dep_closures[OF assms(2) this load_lockfile_state_ok, of "se_deps_io env"
      "filter (\<lambda>node. Some (pn_name node) \<noteq> pg_root_package g) (dg_nodes (pg_graph g))" g "se_parsers env" "se_read_file env" ws]
  show ?thesis
    using ns b by (auto simp: packages_changed_by_paths_and_lockfile_def Let_def lock_seeds_def)
qed

lemma hit_packages_already:
  "hit_packages (api, topo, g, ws, paths, already) T \<union> set already = input_seeds api topo g ws paths T \<union> set already"
  by (auto simp: hit_packages_def input_seeds_def)

lemma hit_roots_already: "hit_roots (api, topo, g, ws, paths, already) T = hit_roots (api, topo, g, ws, paths, []) T"
  by (auto simp: hit_roots_def)

lemma filtered_roots_already:
  "filtered_roots (api, topo, g, ws, paths, already) T = filtered_roots (api, topo, g, ws, paths, []) T"
  by (auto simp: filtered_roots_def)

section \<open>Properties\<close>

text \<open>Matching the changed paths against the declared inputs yields exactly the packages of the unaffected package tasks
  with a match, the root tasks with a match, and the root tasks that \<open>--since\<close> filters because their inputs include something; the
  matchers shared between tasks and the tasks skipped because their package was matched before do not show. An error
  is reported exactly if the inputs of a root task do not expand, or those of a package task whose package no other task
  makes affected; of several package tasks the one with the least id is named, in whatever order they come.\<close>

lemma declared_inputs_exactly:
  "case declared_input_matches_for_tasks api topo changed_paths repo_root ws g tasks already of
     Inl e \<Rightarrow> reported_error (api, topo, g, ws, map (join_path repo_root) changed_paths, already) (set tasks) e
   | Inr m \<Rightarrow> harmless (api, topo, g, ws, map (join_path repo_root) changed_paths, already) (set tasks) \<and>
       set (dm_packages m) = hit_packages (api, topo, g, ws, map (join_path repo_root) changed_paths, already) (set tasks) \<and>
       set (dm_affected_root m) = hit_roots (api, topo, g, ws, map (join_path repo_root) changed_paths, already) (set tasks) \<and>
       set (dm_root_with_inputs m) = filtered_roots (api, topo, g, ws, map (join_path repo_root) changed_paths, already) (set tasks)"
  by (rule declared_matches_ok[OF refl])


text \<open>A repository in which one file of a package was changed.\<close>

definition example_git :: "nat git" where
  "example_git =
     \<lparr>git_discover = (\<lambda>_. Some 0), git_worktree = (\<lambda>_. Some []), git_rev_parse = (\<lambda>_ _. Inr 0), git_object = Inr,
      git_peel_to_tree = Inr, git_changes = Inr, git_diff_trees = (\<lambda>_ _. Inr [Modification ''core/x'']),
      git_index_or_empty = Inr, git_dirwalk_options = Inr, git_worktree_status = (\<lambda>_ _ _. Inr [(False, ''ui/y'')]),
      git_head_tree_or_empty = Inr, git_tree_index_status = (\<lambda>_ _. Inr []), git_lookup_entry = (\<lambda>_ _. Inr None),
      git_blob_text = (\<lambda>_. Inl [])\<rparr>"

definition example_since_env :: "(nat, YarnBerryRawEntry, string, string list) since_env" where
  "example_since_env =
     \<lparr>se_git = example_git, se_canonicalize = (\<lambda>_. Inr ''/r''), se_parsers = example_parsers, se_read_file = (\<lambda>_. ReadNotFound),
      se_deps_io = example_deps_io, se_name_globs = any_globset\<rparr>"

definition example_no_tasks :: TaskGraph where
  "example_no_tasks = \<lparr>tg_graph = dg_empty, tg_indices_by_id = [], tg_definitions_by_id = [], tg_inputs_from_worker_by_id = []\<rparr>"


end
