(* ===== verification/WatchRegistry.thy ===== *)
theory WatchRegistry
  imports PackageGraph CacheResolve
begin

text \<open>
  The registry of watched inputs, \<open>crates/luchta-cli/src/watch/registry.rs\<close>: what a task read when it was dispatched, and
  which packages a batch of changed files makes dirty. Paths are compared by components, as \<open>PathBuf\<close> does. The file system is
  the argument \<open>WatchEnv\<close>; the globs are those of \<open>build_globset\<close> in \<open>crates/luchta-cli/src/run.rs\<close>, the default ones of the
  globset crate, as the argument \<open>watch_globs\<close>.
\<close>

record InputFingerprint =
  ifp_mtime_ns :: int
  ifp_size :: u64
  ifp_hash :: hash32

record 's TaskWatchState =
  tw_package :: PackageName
  tw_package_dir :: string
  tw_input_globset :: 's
  tw_output_globset :: 's
  tw_inputs :: "(path_component list, InputFingerprint) hmap"

type_synonym 's TaskWatchRegistry = "(TaskId, 's TaskWatchState) hmap"

record ('g, 's) watch_globs =
  wg_api :: "('g, 's) globs"
  wg_is_empty :: "'s \<Rightarrow> bool"

definition empty_task_watch_registry :: "'s TaskWatchRegistry" where
  "empty_task_watch_registry = []"

definition retain_task_watch_registry_task_ids :: "'s TaskWatchRegistry \<Rightarrow> TaskId list \<Rightarrow> 's TaskWatchRegistry" where
  "retain_task_watch_registry_task_ids registry live_task_ids = filter (\<lambda>(task_id, _). task_id \<in> set live_task_ids) registry"

definition package_dir_for :: "PackageNode list \<Rightarrow> PackageName \<Rightarrow> string option" where
  "package_dir_for packages package = map_option pn_path (List.find (\<lambda>node. pn_name node = package) packages)"

definition build_watch_globset :: "('g, 's) watch_globs \<Rightarrow> string list \<Rightarrow> string + 's" where
  "build_watch_globset wg patterns =
     bind_result (map_result (\<lambda>pattern. map_err (\<lambda>e. ''invalid glob pattern '' @ sq @ pattern @ sq @ '': '' @ e)
       (api_build_glob (wg_api wg) pattern)) patterns) (\<lambda>globs.
     map_err (\<lambda>_. ''failed to build glob set'') (api_build_set (wg_api wg) globs))"

definition fingerprint_of :: "FileEntry \<Rightarrow> InputFingerprint" where
  "fingerprint_of e = \<lparr>ifp_mtime_ns = fe_mtime_ns e, ifp_size = fe_size e, ifp_hash = fe_hash e\<rparr>"

definition watched_inputs :: "string \<Rightarrow> FileEntry list \<Rightarrow> (path_component list, InputFingerprint) hmap" where
  "watched_inputs package_dir input_entries =
     collect_map (map (\<lambda>e. (path_components (join_path package_dir (fe_path e)), fingerprint_of e))
       (filter (\<lambda>e. \<not> fe_absent e) input_entries))"

definition register_task_watch_state_with_inputs ::
  "('g, 's) watch_globs \<Rightarrow> 's TaskWatchRegistry \<Rightarrow> TaskId \<Rightarrow> PackageName \<Rightarrow> string \<Rightarrow> TaskRunRecord \<Rightarrow> FileEntry list \<Rightarrow>
   string + 's TaskWatchRegistry" where
  "register_task_watch_state_with_inputs wg registry task_id package package_dir record input_entries =
     bind_result (build_watch_globset wg (rr_input_patterns record)) (\<lambda>input_globset.
     bind_result (build_watch_globset wg (rr_output_patterns record)) (\<lambda>output_globset.
       Inr (AList.update task_id
         \<lparr>tw_package = package, tw_package_dir = package_dir, tw_input_globset = input_globset,
          tw_output_globset = output_globset, tw_inputs = watched_inputs package_dir input_entries\<rparr> registry)))"

definition register_task_watch_state ::
  "('g, 's) watch_globs \<Rightarrow> 's TaskWatchRegistry \<Rightarrow> TaskId \<Rightarrow> PackageName \<Rightarrow> string \<Rightarrow> TaskRunRecord \<Rightarrow> string + 's TaskWatchRegistry" where
  "register_task_watch_state wg registry task_id package package_dir record =
     register_task_watch_state_with_inputs wg registry task_id package package_dir record (rr_inputs record)"

definition register_task_watch_state_from_packages ::
  "('g, 's) watch_globs \<Rightarrow> 's TaskWatchRegistry \<Rightarrow> TaskId \<Rightarrow> PackageNode list \<Rightarrow> TaskRunRecord \<Rightarrow> string + 's TaskWatchRegistry" where
  "register_task_watch_state_from_packages wg registry task_id packages record =
     (case package_dir_for packages (tid_package task_id) of
        None \<Rightarrow> Inr registry
      | Some package_dir \<Rightarrow> register_task_watch_state wg registry task_id (tid_package task_id) package_dir record)"

section \<open>Changed paths\<close>

text \<open>The modification time as seconds and nanoseconds since the epoch, where the system has one.\<close>

datatype FsMetadata = MetaNotFound | MetaError | Meta bool u64 "(nat \<times> nat) option"

record WatchEnv =
  we_metadata :: "string \<Rightarrow> FsMetadata"
  we_hash :: "string \<Rightarrow> hash32 option"

datatype PathProbe = Present InputFingerprint | Deleted | Unknown

definition modified_time_ns :: "(nat \<times> nat) option \<Rightarrow> int option" where
  "modified_time_ns mtime = map_option (\<lambda>(secs, nanos). int secs * 1000000000 + int nanos) mtime"

definition probe_path :: "WatchEnv \<Rightarrow> string \<Rightarrow> PathProbe" where
  "probe_path env path =
     (case we_metadata env path of
        MetaNotFound \<Rightarrow> Deleted
      | MetaError \<Rightarrow> Unknown
      | Meta is_file len mtime \<Rightarrow>
          if \<not> is_file then Unknown
          else case modified_time_ns mtime of
            None \<Rightarrow> Unknown
          | Some mtime_ns \<Rightarrow>
              (case we_hash env path of
                 Some hash \<Rightarrow> Present \<lparr>ifp_mtime_ns = mtime_ns, ifp_size = len, ifp_hash = hash\<rparr>
               | None \<Rightarrow> Unknown))"

definition normalize_glob_path :: "string \<Rightarrow> string" where
  "normalize_glob_path path = join_with ''/'' (map component_str (path_components path))"

fun known_input_changed :: "'s TaskWatchState \<Rightarrow> path_component list \<Rightarrow> InputFingerprint \<Rightarrow> PathProbe \<Rightarrow> bool \<times> 's TaskWatchState" where
  "known_input_changed state key prior (Present current) =
     (ifp_hash current \<noteq> ifp_hash prior, state\<lparr>tw_inputs := AList.update key current (tw_inputs state)\<rparr>)"
| "known_input_changed state key prior Deleted = (True, state\<lparr>tw_inputs := AList.delete key (tw_inputs state)\<rparr>)"
| "known_input_changed state key prior Unknown = (False, state)"

definition task_dirtied_by_path ::
  "('g, 's) watch_globs \<Rightarrow> 's TaskWatchState \<Rightarrow> string \<Rightarrow> PathProbe \<Rightarrow> bool \<times> 's TaskWatchState" where
  "task_dirtied_by_path wg state path probe =
     (case map_of (tw_inputs state) (path_components path) of
        Some prior \<Rightarrow> known_input_changed state (path_components path) prior probe
      | None \<Rightarrow>
          (case path_strip_prefix (tw_package_dir state) path of
             None \<Rightarrow> (False, state)
           | Some relative \<Rightarrow>
               let normalized = normalize_glob_path relative in
               if normalized = [] then (False, state)
               else if api_set_match (wg_api wg) (tw_output_globset state) normalized then (False, state)
               else if wg_is_empty wg (tw_input_globset state) \<and> tw_inputs state = [] then (True, state)
               else if api_set_match (wg_api wg) (tw_input_globset state) normalized then
                 (True, case probe of
                    Present current \<Rightarrow> state\<lparr>tw_inputs := AList.update (path_components path) current (tw_inputs state)\<rparr>
                  | _ \<Rightarrow> state)
               else (False, state)))"

fun dirty_states ::
  "('g, 's) watch_globs \<Rightarrow> string \<Rightarrow> PathProbe \<Rightarrow> 's TaskWatchRegistry \<Rightarrow> PackageName list \<Rightarrow> 's TaskWatchRegistry \<times> PackageName list" where
  "dirty_states wg path probe [] dirty = ([], dirty)"
| "dirty_states wg path probe ((task_id, state) # rest) dirty =
     (case task_dirtied_by_path wg state path probe of (hit, state') \<Rightarrow>
       (case dirty_states wg path probe rest (if hit then set_insert (tw_package state) dirty else dirty) of
         (rest', dirty') \<Rightarrow> ((task_id, state') # rest', dirty')))"

fun dirty_loop ::
  "('g, 's) watch_globs \<Rightarrow> (string \<times> PathProbe) list \<Rightarrow> 's TaskWatchRegistry \<Rightarrow> PackageName list \<Rightarrow> 's TaskWatchRegistry \<times> PackageName list" where
  "dirty_loop wg [] states dirty = (states, dirty)"
| "dirty_loop wg ((path, probe) # rest) states dirty =
     (case dirty_states wg path probe states dirty of (states', dirty') \<Rightarrow> dirty_loop wg rest states' dirty')"

definition dirty_packages_for_changes ::
  "('g, 's) watch_globs \<Rightarrow> WatchEnv \<Rightarrow> 's TaskWatchRegistry \<Rightarrow> string list \<Rightarrow> 's TaskWatchRegistry \<times> PackageName list" where
  "dirty_packages_for_changes wg env registry changed =
     dirty_loop wg (map (\<lambda>path. (path, probe_path env path)) changed) registry []"

section \<open>One task\<close>

text \<open>A path that is not a known input concerns a task if it is in its package, is not one of its outputs, and
  matches its inputs, or any path where the task declares none.\<close>

definition undeclared :: "('g, 's) watch_globs \<Rightarrow> 's TaskWatchState \<Rightarrow> bool" where
  "undeclared wg state \<longleftrightarrow> wg_is_empty wg (tw_input_globset state) \<and> tw_inputs state = []"

definition new_path_concerns :: "('g, 's) watch_globs \<Rightarrow> 's TaskWatchState \<Rightarrow> string \<Rightarrow> bool" where
  "new_path_concerns wg state path \<longleftrightarrow>
     (\<exists>relative. path_strip_prefix (tw_package_dir state) path = Some relative \<and> normalize_glob_path relative \<noteq> [] \<and>
        \<not> api_set_match (wg_api wg) (tw_output_globset state) (normalize_glob_path relative) \<and>
        (undeclared wg state \<or> api_set_match (wg_api wg) (tw_input_globset state) (normalize_glob_path relative)))"

definition concerns :: "('g, 's) watch_globs \<Rightarrow> 's TaskWatchState \<Rightarrow> string \<Rightarrow> PathProbe \<Rightarrow> bool" where
  "concerns wg state path probe \<longleftrightarrow>
     (case map_of (tw_inputs state) (path_components path) of
        Some prior \<Rightarrow> (case probe of Present current \<Rightarrow> ifp_hash current \<noteq> ifp_hash prior | Deleted \<Rightarrow> True | Unknown \<Rightarrow> False)
      | None \<Rightarrow> new_path_concerns wg state path)"

lemma dirtied_iff: "fst (task_dirtied_by_path wg state path probe) \<longleftrightarrow> concerns wg state path probe"
  by (cases probe)
    (auto simp: task_dirtied_by_path_def concerns_def new_path_concerns_def undeclared_def Let_def split: option.splits)

text \<open>What one path may change in a task: nothing but its own fingerprint.\<close>

definition keeps :: "'s TaskWatchState \<Rightarrow> 's TaskWatchState \<Rightarrow> bool" where
  "keeps state state' \<longleftrightarrow> tw_package state' = tw_package state \<and> tw_package_dir state' = tw_package_dir state \<and>
     tw_input_globset state' = tw_input_globset state \<and> tw_output_globset state' = tw_output_globset state"

lemma dirtied_keeps: "keeps state (snd (task_dirtied_by_path wg state path probe))"
  by (cases probe) (auto simp: task_dirtied_by_path_def keeps_def Let_def split: option.splits)

lemma dirtied_other_input:
  "key \<noteq> path_components path \<Longrightarrow>
   map_of (tw_inputs (snd (task_dirtied_by_path wg state path probe))) key = map_of (tw_inputs state) key"
  by (cases probe) (auto simp: task_dirtied_by_path_def Let_def hmap_simps split: option.splits)

lemma dirtied_own_input:
  "map_of (tw_inputs (snd (task_dirtied_by_path wg state path (Present current)))) (path_components path) =
     (if concerns wg state path (Present current) \<and> \<not> undeclared wg state \<or> map_of (tw_inputs state) (path_components path) \<noteq> None
      then Some current else None)"
proof (cases "map_of (tw_inputs state) (path_components path)")
  case None
  then show ?thesis
    by (cases "path_strip_prefix (tw_package_dir state) path")
      (simp_all add: task_dirtied_by_path_def concerns_def new_path_concerns_def undeclared_def Let_def hmap_simps)
next
  case (Some prior)
  then show ?thesis by (simp add: task_dirtied_by_path_def hmap_simps)
qed

lemma update_Nil_iff [simp]: "AList.update k v al \<noteq> []"
  by (cases al) auto

lemma delete_Nil: "AList.delete k al = [] \<Longrightarrow> al = [] \<or> map_of al k \<noteq> None"
  by (cases al) (auto split: if_splits)

lemma dirtied_declared:
  "\<not> undeclared wg state \<Longrightarrow> probe \<noteq> Deleted \<Longrightarrow> \<not> undeclared wg (snd (task_dirtied_by_path wg state path probe))"
  by (cases probe) (auto simp: task_dirtied_by_path_def undeclared_def Let_def split: option.splits)

lemma clean_undeclared:
  "\<not> concerns wg state path probe \<Longrightarrow>
   undeclared wg (snd (task_dirtied_by_path wg state path probe)) \<longleftrightarrow> undeclared wg state"
  by (cases probe)
    (auto simp: task_dirtied_by_path_def undeclared_def concerns_def new_path_concerns_def Let_def split: option.splits)

text \<open>What a task makes of a path depends on its globs, on that path's fingerprint and on whether it declares inputs.\<close>

lemma concerns_cong:
  assumes "keeps state state'" and "map_of (tw_inputs state') (path_components path) = map_of (tw_inputs state) (path_components path)"
    and "undeclared wg state' \<longleftrightarrow> undeclared wg state"
  shows "concerns wg state' path probe \<longleftrightarrow> concerns wg state path probe"
  using assms by (simp add: concerns_def new_path_concerns_def keeps_def split: option.splits)

section \<open>A batch\<close>

text \<open>The passes over one task.\<close>

fun watch_run :: "('g, 's) watch_globs \<Rightarrow> (string \<times> PathProbe) list \<Rightarrow> 's TaskWatchState \<Rightarrow> bool \<times> 's TaskWatchState" where
  "watch_run wg [] state = (False, state)"
| "watch_run wg ((path, probe) # rest) state =
     (case task_dirtied_by_path wg state path probe of (hit, state1) \<Rightarrow>
       (case watch_run wg rest state1 of (hit', state2) \<Rightarrow> (hit \<or> hit', state2)))"

lemma watch_run_Cons [simp]:
  "fst (watch_run wg ((path, probe) # rest) state) \<longleftrightarrow> concerns wg state path probe \<or>
     fst (watch_run wg rest (snd (task_dirtied_by_path wg state path probe)))"
  "snd (watch_run wg ((path, probe) # rest) state) = snd (watch_run wg rest (snd (task_dirtied_by_path wg state path probe)))"
  by (simp_all add: split_beta dirtied_iff)

declare watch_run.simps(2) [simp del]

text \<open>The packages of the tasks for which \<open>P\<close> holds.\<close>

definition packages_where :: "('s TaskWatchState \<Rightarrow> bool) \<Rightarrow> 's TaskWatchRegistry \<Rightarrow> PackageName set" where
  "packages_where P states = tw_package ` {st \<in> snd ` set states. P st}"

lemma packages_where_simps [simp]:
  "packages_where P [] = {}"
  "packages_where P ((i, st) # states) = (if P st then {tw_package st} else {}) \<union> packages_where P states"
  by (auto simp: packages_where_def)

lemma packages_where_map:
  assumes "\<And>st. tw_package (f st) = tw_package st"
  shows "packages_where P (map (\<lambda>(i, st). (i, f st)) states) = packages_where (\<lambda>st. P (f st)) states"
  by (induction states) (auto simp: assms)

lemma packages_where_or: "packages_where P states \<union> packages_where Q states = packages_where (\<lambda>st. P st \<or> Q st) states"
  by (auto simp: packages_where_def)

lemma dirty_states_eq:
  "dirty_states wg path probe states dirty = (states', dirty') \<Longrightarrow>
   states' = map (\<lambda>(i, st). (i, snd (task_dirtied_by_path wg st path probe))) states \<and>
   set dirty' = set dirty \<union> packages_where (\<lambda>st. concerns wg st path probe) states"
proof (induction states arbitrary: dirty states' dirty')
  case (Cons a states)
  obtain task_id state where a: "a = (task_id, state)" by fastforce
  let ?dirty = "if concerns wg state path probe then set_insert (tw_package state) dirty else dirty"
  obtain rest' d' where rest: "dirty_states wg path probe states ?dirty = (rest', d')" by fastforce
  have "states' = (task_id, snd (task_dirtied_by_path wg state path probe)) # rest'" "dirty' = d'"
    using Cons.prems rest by (auto simp: a split_beta dirtied_iff)
  then show ?case using Cons.IH[OF rest] by (auto simp: a)
qed simp

lemma dirty_loop_eq:
  "dirty_loop wg ps states dirty = (states', dirty') \<Longrightarrow>
   states' = map (\<lambda>(i, st). (i, snd (watch_run wg ps st))) states \<and>
   set dirty' = set dirty \<union> packages_where (\<lambda>st. fst (watch_run wg ps st)) states"
proof (induction ps arbitrary: states dirty states' dirty')
  case Nil
  then show ?case by (auto simp: packages_where_def)
next
  case (Cons p ps)
  obtain path probe where p: "p = (path, probe)" by fastforce
  obtain s1 d1 where one: "dirty_states wg path probe states dirty = (s1, d1)" by fastforce
  have "dirty_loop wg ps s1 d1 = (states', dirty')" using Cons.prems p one by simp
  note rest = Cons.IH[OF this] and one = dirty_states_eq[OF one]
  have pkg: "tw_package (snd (task_dirtied_by_path wg st path probe)) = tw_package st" for st
    using dirtied_keeps[of st wg path probe] by (simp add: keeps_def)
  show ?case
    using rest one by (simp add: p packages_where_map[OF pkg] split_beta Un_assoc packages_where_or)
qed

definition distinct_paths :: "(string \<times> PathProbe) list \<Rightarrow> bool" where
  "distinct_paths ps \<longleftrightarrow> distinct (map (path_components \<circ> fst) ps)"

lemma watch_run_hit:
  "distinct_paths ps \<Longrightarrow> fst (watch_run wg ps state) \<longleftrightarrow> (\<exists>(path, probe) \<in> set ps. concerns wg state path probe)"
proof (induction ps arbitrary: state)
  case (Cons p ps)
  obtain path probe where p: "p = (path, probe)" by fastforce
  let ?state1 = "snd (task_dirtied_by_path wg state path probe)"
  show ?case
  proof (cases "concerns wg state path probe")
    case True
    then show ?thesis by (simp add: p)
  next
    case False
    have "concerns wg ?state1 q pr \<longleftrightarrow> concerns wg state q pr" if "(q, pr) \<in> set ps" for q pr
    proof (rule concerns_cong[OF dirtied_keeps _ clean_undeclared[OF False]])
      have "path_components q \<noteq> path_components path" using Cons.prems that by (auto simp: distinct_paths_def p rev_image_eqI)
      then show "map_of (tw_inputs ?state1) (path_components q) = map_of (tw_inputs state) (path_components q)"
        by (rule dirtied_other_input)
    qed
    moreover have "distinct_paths ps" using Cons.prems by (simp add: distinct_paths_def)
    ultimately show ?thesis
      using Cons.IH[of ?state1] False by (auto simp: p)
  qed
qed simp

text \<open>After a batch of files that exist, their fingerprints are the current ones.\<close>

definition settled :: "('g, 's) watch_globs \<Rightarrow> (string \<times> PathProbe) list \<Rightarrow> 's TaskWatchState \<Rightarrow> bool" where
  "settled wg ps state \<longleftrightarrow> (\<forall>(path, probe) \<in> set ps. \<not> concerns wg state path probe)"

lemma present_settles:
  assumes "\<not> undeclared wg state"
  shows "\<not> concerns wg (snd (task_dirtied_by_path wg state path (Present current))) path (Present current)"
proof (cases "map_of (tw_inputs (snd (task_dirtied_by_path wg state path (Present current)))) (path_components path)")
  case (Some fp)
  then have "fp = current" using dirtied_own_input[of wg state path current] by (simp split: if_splits)
  then show ?thesis using Some by (simp add: concerns_def)
next
  case None
  then have clean: "\<not> concerns wg state path (Present current)" "map_of (tw_inputs state) (path_components path) = None"
    using dirtied_own_input[of wg state path current] assms by (auto split: if_splits)
  then show ?thesis
    using concerns_cong[OF dirtied_keeps, of wg state path "Present current" path wg "Present current"] clean_undeclared[OF clean(1)] None
    by simp
qed

lemma watch_run_other:
  assumes "path_components path \<notin> set (map (path_components \<circ> fst) ps)" and "\<forall>(q, pr) \<in> set ps. pr \<noteq> Deleted"
    and "\<not> undeclared wg state" and "\<not> concerns wg state path probe"
  shows "\<not> concerns wg (snd (watch_run wg ps state)) path probe"
  using assms
proof (induction ps arbitrary: state)
  case (Cons p ps)
  obtain q pr where p: "p = (q, pr)" by fastforce
  let ?state1 = "snd (task_dirtied_by_path wg state q pr)"
  have decl: "\<not> undeclared wg ?state1" using dirtied_declared[OF Cons.prems(3), of pr q] Cons.prems(2) p by simp
  have "path_components path \<noteq> path_components q" using Cons.prems(1) p by simp
  then have "map_of (tw_inputs ?state1) (path_components path) = map_of (tw_inputs state) (path_components path)"
    by (rule dirtied_other_input)
  from concerns_cong[OF dirtied_keeps this] have "\<not> concerns wg ?state1 path probe" using Cons.prems(3,4) decl by blast
  from Cons.IH[OF _ _ decl this] Cons.prems(1,2) p show ?case by simp
qed simp

lemma watch_run_settles:
  assumes "distinct_paths ps" and "\<forall>(path, probe) \<in> set ps. \<exists>current. probe = Present current" and "\<not> undeclared wg state"
  shows "settled wg ps (snd (watch_run wg ps state))"
  using assms
proof (induction ps arbitrary: state)
  case (Cons p ps)
  obtain path current where p: "p = (path, Present current)" using Cons.prems(2) by (cases p) auto
  let ?state1 = "snd (task_dirtied_by_path wg state path (Present current))"
  have decl: "\<not> undeclared wg ?state1" using dirtied_declared[OF Cons.prems(3)] by simp
  have "settled wg ps (snd (watch_run wg ps ?state1))"
    using Cons.IH[OF _ _ decl] Cons.prems(1,2) by (simp add: distinct_paths_def)
  moreover have "\<not> concerns wg (snd (watch_run wg ps ?state1)) path (Present current)"
    using Cons.prems(1,2) p by (intro watch_run_other[OF _ _ decl present_settles[OF Cons.prems(3)]]) (auto simp: distinct_paths_def)
  ultimately show ?case by (auto simp: settled_def p)
qed (simp add: settled_def)

lemma dirty_packages_eq:
  "snd ` set (fst (dirty_packages_for_changes wg env registry changed)) =
     (\<lambda>st. snd (watch_run wg (map (\<lambda>path. (path, probe_path env path)) changed) st)) ` snd ` set registry"
  "set (snd (dirty_packages_for_changes wg env registry changed)) =
     packages_where (\<lambda>st. fst (watch_run wg (map (\<lambda>path. (path, probe_path env path)) changed) st)) registry"
proof -
  let ?ps = "map (\<lambda>path. (path, probe_path env path)) changed"
  obtain states dirty where "dirty_loop wg ?ps registry [] = (states, dirty)" by fastforce
  then show "snd ` set (fst (dirty_packages_for_changes wg env registry changed)) =
      (\<lambda>st. snd (watch_run wg ?ps st)) ` snd ` set registry"
    "set (snd (dirty_packages_for_changes wg env registry changed)) = packages_where (\<lambda>st. fst (watch_run wg ?ps st)) registry"
    using dirty_loop_eq by (force simp: dirty_packages_for_changes_def image_image split_beta)+
qed

section \<open>An example\<close>

definition star_watch :: "(string, string list) watch_globs" where
  "star_watch = \<lparr>wg_api = star_globset, wg_is_empty = (\<lambda>gs. gs = [])\<rparr>"

definition example_watched :: "string list TaskWatchState" where
  "example_watched = \<lparr>tw_package = ''p'', tw_package_dir = ''/r/p'', tw_input_globset = [''src/''], tw_output_globset = [''dist/''],
     tw_inputs = [(path_components ''/r/p/src/a'', \<lparr>ifp_mtime_ns = 0, ifp_size = 1, ifp_hash = zero_hash\<rparr>)]\<rparr>"

definition example_probe :: WatchEnv where
  "example_probe = \<lparr>we_metadata = (\<lambda>_. Meta True 2 (Some (1, 0))), we_hash = (\<lambda>_. Some (replicate 32 (CHR ''x'')))\<rparr>"

lemma example_probe_present: "\<exists>current. probe_path example_probe path = Present current"
  by (simp add: probe_path_def example_probe_def modified_time_ns_def)

section \<open>Properties\<close>



text \<open>A batch settles: once the changes of existing files have been handled, reporting the same files again in the same state
  makes nothing dirty, for every task that declares or has inputs. So the watcher does not rebuild in a loop.\<close>

lemma watch_batch_settles:
  assumes "distinct (map path_components changed)" and "\<forall>path \<in> set changed. \<exists>current. probe_path env path = Present current"
    and "\<forall>(i, st) \<in> set registry. \<not> undeclared wg st"
  shows "snd (dirty_packages_for_changes wg env (fst (dirty_packages_for_changes wg env registry changed)) changed) = []"
proof -
  let ?ps = "map (\<lambda>path. (path, probe_path env path)) changed"
  have paths: "distinct_paths ?ps" using assms(1) by (simp add: distinct_paths_def comp_def)
  have "settled wg ?ps (snd (watch_run wg ?ps st))" if "st \<in> snd ` set registry" for st
    using watch_run_settles[OF paths, of wg st] assms(2,3) that by auto
  then have "\<not> fst (watch_run wg ?ps st)" if "st \<in> snd ` set (fst (dirty_packages_for_changes wg env registry changed))" for st
    using that unfolding dirty_packages_eq(1) watch_run_hit[OF paths] by (auto simp: settled_def)
  then have "packages_where (\<lambda>st. fst (watch_run wg ?ps st)) (fst (dirty_packages_for_changes wg env registry changed)) = {}"
    unfolding packages_where_def by blast
  then show ?thesis using dirty_packages_eq(2) by (metis set_empty)
qed

lemma watch_batch_settles_witness:
  "snd (dirty_packages_for_changes star_watch example_probe
     (fst (dirty_packages_for_changes star_watch example_probe [(task_id_new ''p'' ''build'', example_watched)] [''/r/p/src/a''])) [''/r/p/src/a'']) = []"
  by (rule watch_batch_settles) (simp_all add: example_probe_present undeclared_def example_watched_def)

text \<open>Three divergences. Resolved inputs have paths relative to the repository, but are registered as if they were relative to
  the package: the registered path of an input is not the path that the watcher reports for it.\<close>

lemma watched_input_misplaced:
  "\<exists>e. resolve_inputs star_globset example_fs ''/r/p'' [''dist/x''] = Inr [e] \<and> fe_path e = ''p/dist/x'' \<and>
     map_of (watched_inputs ''/r/p'' [e]) (path_components ''/r/p/dist/x'') = None"
proof -
  let ?e = "\<lparr>fe_path = ''p/dist/x'', fe_size = 1, fe_mtime_ns = 0, fe_hash = zero_hash, fe_absent = False\<rparr>"
  have "resolve_inputs star_globset example_fs ''/r/p'' [''dist/x''] =
      ref_inputs star_globset example_fs [resolve_request_new ''/r/p'' ''dist/x''] []"
    unfolding resolve_inputs_def resolve_inputs_with_options_def
    using resolve_inputs_ref[of example_fs None, THEN conjunct1] by (simp add: listing_ok_def)
  also have "\<dots> = Inr [?e]"
    by (simp add: ref_inputs_def exclusions_compile_def negated_patterns_def resolve_request_new_def classify_pattern_def
        ref_request_def ref_prefix_def example_fs_def worktree_relative_path_def path_strip_prefix_def path_components_def
        component_of_def resolve_literal_request_def excludes_def file_entry_from_path_def qualify_relative_path_def normalize_path_def
        join_path_def map_err_def reusable_hash_def prior_entries_by_path_def collect_map_def dedupe_and_sort_entries_def
        dedupe_key_def canonical_dedupe_key_def)
  finally show ?thesis
    by (simp add: watched_inputs_def collect_map_def join_path_def path_components_def component_of_def)
qed

text \<open>Input patterns are compiled as written, so that an excluded file makes its package dirty.\<close>

lemma excluded_input_dirties:
  "\<exists>gs. build_watch_globset star_watch [''src/*'', ''!src/gen*''] = Inr gs \<and>
     concerns star_watch (example_watched\<lparr>tw_input_globset := gs\<rparr>) ''/r/p/src/gen1'' (Present fp)"
  by (simp add: build_watch_globset_def star_watch_def star_globset_def map_err_def concerns_def new_path_concerns_def example_watched_def
      path_strip_prefix_def path_components_def component_of_def normalize_glob_path_def)

text \<open>An event for a directory, which carries no content, makes the package dirty if the directory's path matches.\<close>

lemma directory_event_dirties:
  "concerns star_watch example_watched ''/r/p/src/lib'' (probe_path (example_probe\<lparr>we_metadata := \<lambda>_. Meta False 0 None\<rparr>) ''/r/p/src/lib'')"
  by (simp add: probe_path_def star_watch_def star_globset_def concerns_def new_path_concerns_def example_watched_def
      path_strip_prefix_def path_components_def component_of_def normalize_glob_path_def)

end
