(* ===== verification/DepOutputs.thy ===== *)
theory DepOutputs
  imports TaskGraph CacheHash
begin

text \<open>
  The output hashes of a task's dependencies that enter its cache key, \<open>crates/luchta-cli/src/dep_outputs.rs\<close>. A task without
  command and worker is a connector: it never runs, and stands for a digest over the hashes of its own
  dependencies. The hash of a task that runs is the argument \<open>lookup\<close>, and BLAKE3 the argument \<open>blake3\<close>. The recursion follows the
  edges of the task graph; its fuel is the number of nodes, which is enough for every graph without cycles.
  A \<open>BTreeMap\<close> is its list of entries in key order.
\<close>

definition CONNECTOR_DIGEST_DOMAIN :: string where
  "CONNECTOR_DIGEST_DOMAIN = ''luchta.connector.dep-outputs.v1''"

definition CONNECTOR_DIGEST_SEPARATOR :: char where
  "CONNECTOR_DIGEST_SEPARATOR = CHR 0x1F"

definition connector_stream :: "(string \<times> hash32) list \<Rightarrow> string" where
  "connector_stream dep_outputs = CONNECTOR_DIGEST_DOMAIN @
     concat (map (\<lambda>(task_id, outputs_hash).
       task_id @ [CONNECTOR_DIGEST_SEPARATOR] @ outputs_hash @ [CONNECTOR_DIGEST_SEPARATOR]) dep_outputs)"

definition connector_digest :: "(string \<Rightarrow> hash32) \<Rightarrow> (string \<times> hash32) list \<Rightarrow> hash32" where
  "connector_digest blake3 dep_outputs = blake3 (connector_stream dep_outputs)"

definition is_connector :: "TaskGraph \<Rightarrow> TaskId \<Rightarrow> bool" where
  "is_connector tg task_id \<longleftrightarrow>
     (case tg_task_definition tg task_id of Some definition \<Rightarrow> \<not> counts_in_progress definition | None \<Rightarrow> False)"

type_synonym digests = "(TaskId, hash32) hmap"

text \<open>The pass over the dependencies of a task; the argument is the recursive call.\<close>

fun filter_dependencies ::
  "(TaskId \<Rightarrow> digests \<Rightarrow> (hash32 option \<times> digests) option) \<Rightarrow> TaskId list \<Rightarrow> digests \<Rightarrow> ((string \<times> hash32) list \<times> digests) option" where
  "filter_dependencies hash_of [] memo = Some ([], memo)"
| "filter_dependencies hash_of (d # ds) memo =
     (case hash_of d memo of None \<Rightarrow> None
      | Some (h, memo1) \<Rightarrow>
          (case filter_dependencies hash_of ds memo1 of None \<Rightarrow> None
           | Some (rest, memo2) \<Rightarrow>
               Some ((case h of None \<Rightarrow> rest | Some hash \<Rightarrow> (task_id_to_string d, hash) # rest), memo2)))"

definition dep_resolve ::
  "(TaskId \<Rightarrow> digests \<Rightarrow> (hash32 option \<times> digests) option) \<Rightarrow> TaskGraph \<Rightarrow> TaskId \<Rightarrow> digests \<Rightarrow> ((string \<times> hash32) list \<times> digests) option" where
  "dep_resolve hash_of tg task_id memo =
     map_option (\<lambda>(ps, memo'). (btree_collect ps, memo')) (filter_dependencies hash_of (map tn_id (tg_dependencies_of tg task_id)) memo)"

fun dependency_hash ::
  "(string \<Rightarrow> hash32) \<Rightarrow> TaskGraph \<Rightarrow> (TaskId \<Rightarrow> hash32 option) \<Rightarrow> nat \<Rightarrow> TaskId \<Rightarrow> digests \<Rightarrow> (hash32 option \<times> digests) option" where
  "dependency_hash blake3 tg lookup fuel dependency_id memo =
     (if \<not> is_connector tg dependency_id then Some (lookup dependency_id, memo)
      else case map_of memo dependency_id of
        Some digest \<Rightarrow> Some (Some digest, memo)
      | None \<Rightarrow>
          (case fuel of 0 \<Rightarrow> None
           | Suc fuel' \<Rightarrow>
               (case dep_resolve (dependency_hash blake3 tg lookup fuel') tg dependency_id memo of None \<Rightarrow> None
                | Some (nested, memo1) \<Rightarrow>
                    let digest = connector_digest blake3 nested in
                    Some (Some digest, AList.update dependency_id digest memo1))))"

declare dependency_hash.simps [simp del]

definition resolve_dependency_outputs ::
  "(string \<Rightarrow> hash32) \<Rightarrow> TaskGraph \<Rightarrow> (TaskId \<Rightarrow> hash32 option) \<Rightarrow> TaskId \<Rightarrow> (string \<times> hash32) list option" where
  "resolve_dependency_outputs blake3 tg lookup task_id =
     map_option fst (dep_resolve (dependency_hash blake3 tg lookup (tg_node_count tg)) tg task_id [])"

section \<open>Specification\<close>

text \<open>The same value without the memo.\<close>

definition dep_entries :: "TaskGraph \<Rightarrow> (TaskId \<Rightarrow> hash32 option) \<Rightarrow> TaskId \<Rightarrow> (string \<times> hash32) list" where
  "dep_entries tg val t =
     btree_collect (List.map_filter (\<lambda>d. map_option (Pair (task_id_to_string d)) (val d)) (map tn_id (tg_dependencies_of tg t)))"

fun ref_hash :: "(string \<Rightarrow> hash32) \<Rightarrow> TaskGraph \<Rightarrow> (TaskId \<Rightarrow> hash32 option) \<Rightarrow> nat \<Rightarrow> TaskId \<Rightarrow> hash32 option" where
  "ref_hash blake3 tg lookup 0 d = lookup d"
| "ref_hash blake3 tg lookup (Suc n) d =
     (if is_connector tg d then Some (connector_digest blake3 (dep_entries tg (ref_hash blake3 tg lookup n) d)) else lookup d)"

text \<open>The value of a dependency, and the counted tasks a task reaches through connectors.\<close>

definition dep_value :: "(string \<Rightarrow> hash32) \<Rightarrow> TaskGraph \<Rightarrow> (TaskId \<Rightarrow> hash32 option) \<Rightarrow> TaskId \<Rightarrow> hash32 option" where
  "dep_value blake3 tg lookup = ref_hash blake3 tg lookup (Suc (tg_node_count tg))"

inductive reaches :: "TaskGraph \<Rightarrow> TaskId \<Rightarrow> TaskId \<Rightarrow> bool" for tg where
  reaches_direct: "(t, d) \<in> tg_rel tg \<Longrightarrow> \<not> is_connector tg d \<Longrightarrow> reaches tg t d"
| reaches_through: "(t, k) \<in> tg_rel tg \<Longrightarrow> is_connector tg k \<Longrightarrow> reaches tg k d \<Longrightarrow> reaches tg t d"

section \<open>Depth\<close>

definition depth :: "TaskGraph \<Rightarrow> TaskId \<Rightarrow> nat" where
  "depth tg t = card ((tg_rel tg)\<^sup>+ `` {t})"

lemma tg_rel_ids: "wf_task_graph tg \<Longrightarrow> tg_rel tg \<subseteq> tg_ids tg \<times> tg_ids tg"
  by (force simp: tg_rel_def named_rel_def tg_ids_def wf_task_graph_def wf_named_def wf_digraph_def)

lemma depth_bound:
  assumes "wf_task_graph tg"
  shows "depth tg t \<le> tg_node_count tg" "finite ((tg_rel tg)\<^sup>+ `` {t})"
proof -
  have "(tg_rel tg)\<^sup>+ \<subseteq> tg_ids tg \<times> tg_ids tg" by (rule trancl_subset_Sigma[OF tg_rel_ids[OF assms]])
  then have sub: "(tg_rel tg)\<^sup>+ `` {t} \<subseteq> tg_ids tg" by blast
  then show "finite ((tg_rel tg)\<^sup>+ `` {t})" by (rule finite_subset) (simp add: tg_ids_def)
  have "card ((tg_rel tg)\<^sup>+ `` {t}) \<le> card (tg_ids tg)" by (rule card_mono[OF _ sub]) (simp add: tg_ids_def)
  also have "\<dots> \<le> length (dg_nodes (tg_graph tg))" unfolding tg_ids_def by (metis card_image_le card_length finite_set le_trans)
  finally show "depth tg t \<le> tg_node_count tg" by (simp add: depth_def tg_node_count_def)
qed

lemma depth_less:
  assumes "wf_task_graph tg" "acyclic (tg_rel tg)" "(t, d) \<in> tg_rel tg"
  shows "depth tg d < depth tg t"
  unfolding depth_def
proof (rule psubset_card_mono[OF depth_bound(2)[OF assms(1)]])
  have "d \<notin> (tg_rel tg)\<^sup>+ `` {d}" using assms(2) by (auto simp: acyclic_def)
  moreover have "d \<in> (tg_rel tg)\<^sup>+ `` {t}" using assms(3) by blast
  moreover have "(tg_rel tg)\<^sup>+ `` {d} \<subseteq> (tg_rel tg)\<^sup>+ `` {t}" using assms(3) by (auto intro: trancl_into_trancl2)
  ultimately show "(tg_rel tg)\<^sup>+ `` {d} \<subset> (tg_rel tg)\<^sup>+ `` {t}" by blast
qed

lemma dep_entries_cong:
  assumes "wf_task_graph tg" and "\<And>d. (t, d) \<in> tg_rel tg \<Longrightarrow> val d = val' d"
  shows "dep_entries tg val t = dep_entries tg val' t"
proof -
  have "val d = val' d" if "d \<in> set (map tn_id (tg_dependencies_of tg t))" for d
    using assms(2) tg_dependencies_of_ids[OF assms(1), of t] that by auto
  then show ?thesis unfolding dep_entries_def map_filter_def by (auto intro!: arg_cong[of _ _ btree_collect] map_cong filter_cong)
qed

text \<open>More fuel than the depth changes nothing, so the value satisfies its own equation.\<close>

lemma ref_hash_stable:
  assumes "wf_task_graph tg" "acyclic (tg_rel tg)"
  shows "depth tg d < m \<Longrightarrow> depth tg d < n \<Longrightarrow> ref_hash blake3 tg lookup m d = ref_hash blake3 tg lookup n d"
proof (induction m arbitrary: n d)
  case (Suc m)
  obtain n' where n: "n = Suc n'" using Suc.prems(2) by (cases n) auto
  have "ref_hash blake3 tg lookup m e = ref_hash blake3 tg lookup n' e" if "(d, e) \<in> tg_rel tg" for e
    using Suc.IH[of e n'] depth_less[OF assms that] Suc.prems n by simp
  from dep_entries_cong[OF assms(1) this] show ?case by (simp add: n)
qed simp

lemma dep_value_eq:
  assumes "wf_task_graph tg" "acyclic (tg_rel tg)"
  shows "dep_value blake3 tg lookup d =
    (if is_connector tg d then Some (connector_digest blake3 (dep_entries tg (dep_value blake3 tg lookup) d)) else lookup d)"
proof -
  have "ref_hash blake3 tg lookup (tg_node_count tg) e = dep_value blake3 tg lookup e" if "(d, e) \<in> tg_rel tg" for e
    unfolding dep_value_def using depth_less[OF assms that] depth_bound(1)[OF assms(1), of d]
    by (intro ref_hash_stable[OF assms]) auto
  then have "dep_entries tg (ref_hash blake3 tg lookup (tg_node_count tg)) d = dep_entries tg (dep_value blake3 tg lookup) d"
    by (rule dep_entries_cong[OF assms(1)])
  moreover have "dep_value blake3 tg lookup d = (if is_connector tg d
      then Some (connector_digest blake3 (dep_entries tg (ref_hash blake3 tg lookup (tg_node_count tg)) d)) else lookup d)"
    by (simp add: dep_value_def)
  ultimately show ?thesis by (simp only:)
qed

section \<open>The memo is invisible\<close>

definition memo_ok :: "(string \<Rightarrow> hash32) \<Rightarrow> TaskGraph \<Rightarrow> (TaskId \<Rightarrow> hash32 option) \<Rightarrow> digests \<Rightarrow> bool" where
  "memo_ok blake3 tg lookup memo \<longleftrightarrow> (\<forall>k digest. map_of memo k = Some digest \<longrightarrow> dep_value blake3 tg lookup k = Some digest)"

text \<open>A recursive call gives the right value and keeps the memo right.\<close>

definition memo_right :: "('k \<Rightarrow> 'v) \<Rightarrow> ('m \<Rightarrow> bool) \<Rightarrow> ('k \<Rightarrow> 'm \<Rightarrow> ('v \<times> 'm) option) \<Rightarrow> 'k \<Rightarrow> bool" where
  "memo_right val ok hash_of d \<longleftrightarrow> (\<forall>memo. ok memo \<longrightarrow> (\<exists>memo'. hash_of d memo = Some (val d, memo') \<and> ok memo'))"

lemma filter_dependencies_value:
  assumes "\<forall>d \<in> set ds. memo_right val ok hash_of d" and "ok memo"
  shows "\<exists>memo'. filter_dependencies hash_of ds memo =
    Some (List.map_filter (\<lambda>d. map_option (Pair (task_id_to_string d)) (val d)) ds, memo') \<and> ok memo'"
  using assms
proof (induction ds arbitrary: memo)
  case Nil
  then show ?case by (simp add: map_filter_simps)
next
  case (Cons d ds)
  obtain memo1 where m1: "hash_of d memo = Some (val d, memo1)" "ok memo1" using Cons.prems by (auto simp: memo_right_def)
  then obtain memo2 where
    "filter_dependencies hash_of ds memo1 = Some (List.map_filter (\<lambda>d. map_option (Pair (task_id_to_string d)) (val d)) ds, memo2)" "ok memo2"
    using Cons.IH[of memo1] Cons.prems(1) by auto
  then show ?case using m1 by (simp add: map_filter_simps split: option.split)
qed

lemma dep_resolve_value:
  assumes "\<And>d. (t, d) \<in> tg_rel tg \<Longrightarrow> memo_right val ok hash_of d" and "ok memo" and "wf_task_graph tg"
  shows "\<exists>memo'. dep_resolve hash_of tg t memo = Some (dep_entries tg val t, memo') \<and> ok memo'"
proof -
  have "\<forall>d \<in> set (map tn_id (tg_dependencies_of tg t)). memo_right val ok hash_of d"
    using assms(1) tg_dependencies_of_ids[OF assms(3), of t] by auto
  from filter_dependencies_value[OF this assms(2)] show ?thesis by (auto simp: dep_resolve_def dep_entries_def)
qed

lemma dependency_hash_value:
  assumes "wf_task_graph tg" "acyclic (tg_rel tg)"
  shows "depth tg d < fuel \<Longrightarrow>
    memo_right (dep_value blake3 tg lookup) (memo_ok blake3 tg lookup) (dependency_hash blake3 tg lookup fuel) d"
proof (induction fuel arbitrary: d)
  case (Suc fuel)
  let ?val = "dep_value blake3 tg lookup" and ?ok = "memo_ok blake3 tg lookup"
  note val = dep_value_eq[OF assms, of blake3 lookup d]
  note step = dependency_hash.simps[of blake3 tg lookup "Suc fuel" d]
  have "\<exists>memo'. dependency_hash blake3 tg lookup (Suc fuel) d memo = Some (?val d, memo') \<and> ?ok memo'" if ok: "?ok memo" for memo
  proof (cases "is_connector tg d \<and> map_of memo d = None")
    case False
    then show ?thesis using ok val unfolding step by (auto simp: memo_ok_def split: option.splits)
  next
    case True
    have "memo_right ?val ?ok (dependency_hash blake3 tg lookup fuel) e" if "(d, e) \<in> tg_rel tg" for e
      using Suc.IH[of e] depth_less[OF assms that] Suc.prems by simp
    from dep_resolve_value[OF this ok assms(1)] obtain memo1 where
      m1: "dep_resolve (dependency_hash blake3 tg lookup fuel) tg d memo = Some (dep_entries tg ?val d, memo1)" "?ok memo1" by blast
    have "?val d = Some (connector_digest blake3 (dep_entries tg ?val d))" using val True by simp
    moreover from this have "?ok (AList.update d (connector_digest blake3 (dep_entries tg ?val d)) memo1)"
      using m1(2) by (simp add: memo_ok_def hmap_simps)
    ultimately show ?thesis using True m1(1) unfolding step by (simp add: Let_def)
  qed
  then show ?case by (simp add: memo_right_def)
qed simp

lemma resolve_dependency_outputs_value:
  assumes "wf_task_graph tg" "acyclic (tg_rel tg)"
  shows "resolve_dependency_outputs blake3 tg lookup t = Some (dep_entries tg (dep_value blake3 tg lookup) t)"
proof -
  have "memo_right (dep_value blake3 tg lookup) (memo_ok blake3 tg lookup) (dependency_hash blake3 tg lookup (tg_node_count tg)) d"
    if "(t, d) \<in> tg_rel tg" for d
    using dependency_hash_value[OF assms] depth_less[OF assms that] depth_bound(1)[OF assms(1), of t] by simp
  moreover have "memo_ok blake3 tg lookup []" by (simp add: memo_ok_def)
  ultimately show ?thesis
    using dep_resolve_value[OF _ _ assms(1)] by (force simp: resolve_dependency_outputs_def)
qed

section \<open>What the hash sees\<close>

lemma map_of_map_filter:
  assumes "inj_on f (set ds)" and "d \<in> set ds"
  shows "map_of (List.map_filter (\<lambda>d. map_option (Pair (f d)) (v d)) ds) (f d) = v d"
  using assms
proof (induction ds)
  case (Cons e ds)
  have other: "f d \<noteq> f e" if "d \<noteq> e" using inj_onD[OF Cons.prems(1), of d e] Cons.prems(2) that by auto
  show ?case
  proof (cases "d = e")
    case True
    have "map_of (List.map_filter (\<lambda>d. map_option (Pair (f d)) (v d)) ds) (f e) = None" if "v e = None"
    proof (cases "e \<in> set ds")
      case True
      then show ?thesis using Cons.IH Cons.prems(1) \<open>d = e\<close> that by simp
    next
      case False
      then have "f e \<notin> f ` set ds" using Cons.prems(1) by (auto dest: inj_onD)
      then have "f y \<noteq> f e" if "y \<in> set ds" for y using that by (metis imageI)
      then show ?thesis by (auto simp: map_of_eq_None_iff)
    qed
    then show ?thesis using True by (cases "v e") (simp_all add: map_filter_simps)
  next
    case False
    then show ?thesis using other Cons by (cases "v e") (auto simp: map_filter_simps)
  qed
qed simp

lemma rev_map_filter: "rev (List.map_filter f xs) = List.map_filter f (rev xs)"
  by (simp add: map_filter_def rev_map rev_filter)

lemma dep_entries_lookup:
  assumes "wf_task_graph tg" "inj_on task_id_to_string (tg_ids tg)" "(t, d) \<in> tg_rel tg"
  shows "map_of (dep_entries tg v t) (task_id_to_string d) = v d"
proof -
  let ?ds = "map tn_id (tg_dependencies_of tg t)"
  have ds: "set ?ds = tg_rel tg `` {t}" using tg_dependencies_of_ids[OF assms(1)] by simp
  then have "inj_on task_id_to_string (set (rev ?ds))"
    using tg_rel_ids[OF assms(1)] by (auto intro: inj_on_subset[OF assms(2)])
  moreover have "d \<in> set (rev ?ds)" using assms(3) ds by auto
  ultimately show ?thesis
    unfolding dep_entries_def btree_collect_map rev_map_filter by (rule map_of_map_filter)
qed

lemma dep_entries_eq_iff:
  assumes "wf_task_graph tg" "inj_on task_id_to_string (tg_ids tg)"
  shows "dep_entries tg v t = dep_entries tg v' t \<longleftrightarrow> (\<forall>d. (t, d) \<in> tg_rel tg \<longrightarrow> v d = v' d)"
  using dep_entries_cong[OF assms(1), of t v v'] dep_entries_lookup[OF assms, of t] by metis

text \<open>The digest stream can be read back: ids have no separator, hashes have 32 bytes.\<close>

definition frames_ok :: "(string \<times> hash32) list \<Rightarrow> bool" where
  "frames_ok m \<longleftrightarrow> (\<forall>(i, h) \<in> set m. CONNECTOR_DIGEST_SEPARATOR \<notin> set i \<and> length h = 32)"

lemma append_sep_eq: "(c :: char) \<notin> set x \<Longrightarrow> c \<notin> set x' \<Longrightarrow> x @ c # y = x' @ c # y' \<longleftrightarrow> x = x' \<and> y = y'"
  by (metis option.inject prod.inject split_once_append)

lemma connector_stream_inj:
  assumes "frames_ok m" "frames_ok m'"
  shows "connector_stream m = connector_stream m' \<longleftrightarrow> m = m'"
  using assms
proof (induction m arbitrary: m')
  case Nil
  then show ?case by (cases m') (auto simp: connector_stream_def)
next
  case (Cons a m)
  obtain i h where a: "a = (i, h)" by fastforce
  show ?case
  proof (cases m')
    case Nil
    then show ?thesis by (simp add: connector_stream_def a)
  next
    case (Cons b ms)
    obtain j g where b: "b = (j, g)" by fastforce
    have "frames_ok m" "frames_ok ms" "CONNECTOR_DIGEST_SEPARATOR \<notin> set i" "CONNECTOR_DIGEST_SEPARATOR \<notin> set j" "length h = length g"
      using Cons.prems Cons a b by (auto simp: frames_ok_def)
    then show ?thesis using Cons.IH[of ms] Cons a b by (auto simp: connector_stream_def append_sep_eq)
  qed
qed

lemma dep_entries_mem:
  assumes "wf_task_graph tg" and "(i, h) \<in> set (dep_entries tg v t)"
  shows "\<exists>d. (t, d) \<in> tg_rel tg \<and> i = task_id_to_string d \<and> v d = Some h"
proof -
  let ?ps = "List.map_filter (\<lambda>d. map_option (Pair (task_id_to_string d)) (v d)) (map tn_id (tg_dependencies_of tg t))"
  have "(i, h) \<in> set (collect_map ?ps)" using assms(2) by (simp add: dep_entries_def btree_collect_def)
  then have "map_of (rev ?ps) i = Some h" by (simp add: in_set_map_of hmap_simps)
  then have "(i, h) \<in> set ?ps" using map_of_SomeD set_rev by metis
  then obtain d where "d \<in> set (map tn_id (tg_dependencies_of tg t))" "map_option (Pair (task_id_to_string d)) (v d) = Some (i, h)"
    unfolding in_set_map_filter by blast
  then show ?thesis using tg_dependencies_of_ids[OF assms(1), of t] by auto
qed

section \<open>Two states of the outputs\<close>

inductive_simps reaches_iff: "reaches tg t c"

locale connector_setting =
  fixes blake3 :: "string \<Rightarrow> hash32" and tg :: TaskGraph and l1 l2 :: "TaskId \<Rightarrow> hash32 option"
  assumes wf: "wf_task_graph tg" and acyclic: "acyclic (tg_rel tg)"
    and ids_inj: "inj_on task_id_to_string (tg_ids tg)"
    and ids_clean: "t \<in> tg_ids tg \<Longrightarrow> CONNECTOR_DIGEST_SEPARATOR \<notin> set (task_id_to_string t)"
    and hash_length: "length (blake3 s) = 32" "l1 d = Some h \<Longrightarrow> length h = 32" "l2 d = Some h \<Longrightarrow> length h = 32"
    and no_collision: "inj_on blake3 {connector_stream (dep_entries tg (dep_value blake3 tg l) k) |k l. k \<in> tg_ids tg \<and> l \<in> {l1, l2}}"
begin

lemma value_length: "l \<in> {l1, l2} \<Longrightarrow> dep_value blake3 tg l d = Some h \<Longrightarrow> length h = 32"
  using hash_length dep_value_eq[OF wf acyclic, of blake3 l d] by (auto simp: connector_digest_def split: if_splits)

lemma entries_ok: "l \<in> {l1, l2} \<Longrightarrow> frames_ok (dep_entries tg (dep_value blake3 tg l) t)"
  unfolding frames_ok_def
proof clarify
  fix i h
  assume l: "l \<in> {l1, l2}" and "(i, h) \<in> set (dep_entries tg (dep_value blake3 tg l) t)"
  then obtain d where d: "(t, d) \<in> tg_rel tg" "i = task_id_to_string d" "dep_value blake3 tg l d = Some h"
    using dep_entries_mem[OF wf] by blast
  then have "d \<in> tg_ids tg" using tg_rel_ids[OF wf] by blast
  then show "CONNECTOR_DIGEST_SEPARATOR \<notin> set i \<and> length h = 32"
    using d ids_clean value_length[OF l] by blast
qed

lemma connector_value_eq:
  assumes "k \<in> tg_ids tg" "is_connector tg k"
  shows "dep_value blake3 tg l1 k = dep_value blake3 tg l2 k \<longleftrightarrow>
    dep_entries tg (dep_value blake3 tg l1) k = dep_entries tg (dep_value blake3 tg l2) k"
proof -
  let ?s = "\<lambda>l. connector_stream (dep_entries tg (dep_value blake3 tg l) k)"
  have "dep_value blake3 tg l k = Some (blake3 (?s l))" for l
    using dep_value_eq[OF wf acyclic, of blake3 l k] assms(2) by (simp add: connector_digest_def)
  moreover have "blake3 (?s l1) = blake3 (?s l2) \<longleftrightarrow> ?s l1 = ?s l2"
    using assms(1) by (intro inj_on_eq_iff[OF no_collision]) blast+
  ultimately show ?thesis using connector_stream_inj[OF entries_ok entries_ok, of l1 l2 k k] by simp
qed

lemma entries_see_all:
  "dep_entries tg (dep_value blake3 tg l1) t = dep_entries tg (dep_value blake3 tg l2) t \<longleftrightarrow> (\<forall>c. reaches tg t c \<longrightarrow> l1 c = l2 c)"
proof (induction t rule: measure_induct_rule[of "depth tg"])
  case (less t)
  have "dep_value blake3 tg l1 d = dep_value blake3 tg l2 d \<longleftrightarrow>
      (if is_connector tg d then \<forall>c. reaches tg d c \<longrightarrow> l1 c = l2 c else l1 d = l2 d)" if "(t, d) \<in> tg_rel tg" for d
  proof (cases "is_connector tg d")
    case True
    then show ?thesis
      using connector_value_eq[of d] less[OF depth_less[OF wf acyclic that]] tg_rel_ids[OF wf] that by auto
  next
    case False
    then show ?thesis using dep_value_eq[OF wf acyclic, of blake3 _ d] by simp
  qed
  then show ?case
    using dep_entries_eq_iff[OF wf ids_inj, of "dep_value blake3 tg l1" t "dep_value blake3 tg l2"] reaches_iff[of tg t] by metis
qed

end

section \<open>An example\<close>

text \<open>An application that depends on a connector, which gathers one generated library.\<close>

abbreviation "ex_app \<equiv> task_id_new ''app'' ''build''"
abbreviation "ex_all \<equiv> task_id_new ''lib'' ''all''"
abbreviation "ex_gen \<equiv> task_id_new ''lib'' ''gen''"

definition ex_runs :: TaskDefinition where
  "ex_runs = (task_definition_new [] 1)\<lparr>td_command := Some ''make''\<rparr>"

definition ex_connected :: TaskGraph where
  "ex_connected = \<lparr>tg_graph = \<lparr>dg_nodes = [\<lparr>tn_id = ex_app, tn_weight = 1\<rparr>, \<lparr>tn_id = ex_all, tn_weight = 1\<rparr>,
       \<lparr>tn_id = ex_gen, tn_weight = 1\<rparr>], dg_edges = [(0, 1), (1, 2)]\<rparr>,
     tg_indices_by_id = [(ex_app, 0), (ex_all, 1), (ex_gen, 2)],
     tg_definitions_by_id = [(ex_app, ex_runs), (ex_all, task_definition_new [] 1), (ex_gen, ex_runs)],
     tg_inputs_from_worker_by_id = []\<rparr>"

definition ex_lookup :: "char \<Rightarrow> TaskId \<Rightarrow> hash32 option" where
  "ex_lookup c t = (if t = ex_gen then Some (replicate 32 c) else None)"

definition ex_blake3 :: "string \<Rightarrow> hash32" where
  "ex_blake3 s = take 32 (drop 31 s @ zero_hash)"

lemma ex_connected_indexes: "indexes tn_id (dg_nodes (tg_graph ex_connected)) (tg_indices_by_id ex_connected)"
proof -
  let ?n = "\<lambda>t. \<lparr>tn_id = t, tn_weight = 1\<rparr>"
  have "indexes tn_id [?n ex_app] [(ex_app, 0)]" using indexes_snoc[of tn_id "[]" "[]" "?n ex_app"] by simp
  from indexes_snoc[OF this, of "?n ex_all"] have "indexes tn_id [?n ex_app, ?n ex_all] [(ex_app, 0), (ex_all, 1)]" by simp
  from indexes_snoc[OF this, of "?n ex_gen"] show ?thesis by (simp add: ex_connected_def numeral_2_eq_2)
qed

lemma ex_connected_wf: "wf_task_graph ex_connected"
  unfolding wf_task_graph_def wf_named_def using ex_connected_indexes
  by (simp add: wf_digraph_def ex_connected_def ex_runs_def task_definition_new_def)

lemma ex_connected_rel: "tg_rel ex_connected = {(ex_app, ex_all), (ex_all, ex_gen)}"
  by (auto simp: tg_rel_def named_rel_def ex_connected_def numeral_2_eq_2)

lemma ex_connected_acyclic: "acyclic (tg_rel ex_connected)"
  unfolding ex_connected_rel by (auto simp: acyclic_insert rtrancl_insert acyclic_def[of "{}"] dest: rtranclD)

lemma ex_connector: "is_connector ex_connected t \<longleftrightarrow> t = ex_all"
  by (auto simp: is_connector_def tg_task_definition_def ex_connected_def ex_runs_def task_definition_new_def
      counts_in_progress_def trim_def trim_with.simps ws_seqs_def)

lemma ex_dependencies:
  "map tn_id (tg_dependencies_of ex_connected ex_app) = [ex_all]" "map tn_id (tg_dependencies_of ex_connected ex_all) = [ex_gen]"
  "map tn_id (tg_dependencies_of ex_connected ex_gen) = []"
  by (simp_all add: tg_dependencies_of_def tg_node_index_def ex_connected_def)

lemma ex_ids: "tg_ids ex_connected = {ex_app, ex_all, ex_gen}"
  by (auto simp: tg_ids_def ex_connected_def)

lemmas ex_value = dep_value_eq[OF ex_connected_wf ex_connected_acyclic]

lemma ex_entries:
  "dep_entries ex_connected (dep_value b ex_connected (ex_lookup c)) ex_gen = []"
  "dep_entries ex_connected (dep_value b ex_connected (ex_lookup c)) ex_all = [(''lib#gen'', replicate 32 c)]"
  "dep_entries ex_connected (dep_value b ex_connected (ex_lookup c)) ex_app =
     [(''lib#all'', connector_digest b [(''lib#gen'', replicate 32 c)])]"
proof -
  have gen: "dep_value b ex_connected (ex_lookup c) ex_gen = Some (replicate 32 c)"
    using ex_value[of b "ex_lookup c" ex_gen] by (simp add: ex_connector ex_lookup_def)
  note entries = dep_entries_def ex_dependencies map_filter_simps btree_collect_def collect_map_def task_id_to_string_def
    task_is_root_def package_is_root_def ROOT_PACKAGE_NAME_def
  show "dep_entries ex_connected (dep_value b ex_connected (ex_lookup c)) ex_gen = []" by (simp add: entries)
  show all: "dep_entries ex_connected (dep_value b ex_connected (ex_lookup c)) ex_all = [(''lib#gen'', replicate 32 c)]"
    by (simp add: entries gen)
  have "dep_value b ex_connected (ex_lookup c) ex_all = Some (connector_digest b [(''lib#gen'', replicate 32 c)])"
    using ex_value[of b "ex_lookup c" ex_all] all by (simp add: ex_connector)
  then show "dep_entries ex_connected (dep_value b ex_connected (ex_lookup c)) ex_app =
     [(''lib#all'', connector_digest b [(''lib#gen'', replicate 32 c)])]"
    by (simp add: entries)
qed

definition ex_entry :: "char \<Rightarrow> (string \<times> hash32) list" where
  "ex_entry c = [(''lib#gen'', replicate 32 c)]"

definition ex_streams :: "string list" where
  "ex_streams = map connector_stream [[], ex_entry (CHR ''a''), ex_entry (CHR ''b''),
     [(''lib#all'', connector_digest ex_blake3 (ex_entry (CHR ''a'')))], [(''lib#all'', connector_digest ex_blake3 (ex_entry (CHR ''b'')))]]"

lemma ex_no_collision: "inj_on ex_blake3 (set ex_streams)"
proof -
  have "distinct (map ex_blake3 ex_streams)" by code_simp
  then show ?thesis by (simp add: distinct_map)
qed

interpretation example_hashes: connector_setting ex_blake3 ex_connected "ex_lookup (CHR ''a'')" "ex_lookup (CHR ''b'')"
proof (unfold_locales, goal_cases)
  case 8
  have "connector_stream (dep_entries ex_connected (dep_value ex_blake3 ex_connected l) k) \<in> set ex_streams"
    if "k \<in> tg_ids ex_connected" "l \<in> {ex_lookup (CHR ''a''), ex_lookup (CHR ''b'')}" for k l
    using that by (auto simp: ex_ids ex_entries ex_streams_def ex_entry_def)
  then show ?case by (intro inj_on_subset[OF ex_no_collision]) blast
qed (auto simp: ex_connected_wf ex_connected_acyclic ex_ids task_id_to_string_def task_is_root_def package_is_root_def
    ROOT_PACKAGE_NAME_def CONNECTOR_DIGEST_SEPARATOR_def ex_blake3_def ex_lookup_def inj_on_def split: if_splits)

section \<open>Properties\<close>

text \<open>Resolving the dependency outputs of a task terminates on every task graph without cycles, with the number of nodes as
  bound on the depth of the recursion, and the digests remembered on the way do not show: the result has for each dependency
  its own output hash if it runs, and for a connector the digest over its own dependencies.\<close>

lemma dependency_outputs_resolved:
  assumes "wf_task_graph tg" and "acyclic (tg_rel tg)"
  shows "\<exists>val. resolve_dependency_outputs blake3 tg lookup t = Some (dep_entries tg val t) \<and>
    (\<forall>d. val d = (if is_connector tg d then Some (connector_digest blake3 (dep_entries tg val d)) else lookup d))"
  using resolve_dependency_outputs_value[OF assms] dep_value_eq[OF assms] by blast

lemma dependency_outputs_resolved_witness:
  "\<exists>m. resolve_dependency_outputs ex_blake3 ex_connected (ex_lookup (CHR ''a'')) ex_app = Some m"
  using dependency_outputs_resolved[OF ex_connected_wf ex_connected_acyclic] by blast

text \<open>C33: No change of an output is hidden behind connectors: where BLAKE3 does not collide on the digests at hand, the resolved
  dependency outputs of a task are the same for two states exactly when every running task that it reaches directly or
  through any chain of connectors has the same output hash in both.\<close>

theorem dependency_outputs_see_all:
  assumes "connector_setting blake3 tg l1 l2"
  shows "resolve_dependency_outputs blake3 tg l1 t = resolve_dependency_outputs blake3 tg l2 t \<longleftrightarrow>
    (\<forall>c. reaches tg t c \<longrightarrow> l1 c = l2 c)"
  using connector_setting.entries_see_all[OF assms, of t] connector_setting.wf[OF assms] connector_setting.acyclic[OF assms]
  by (simp add: resolve_dependency_outputs_value)

theorem dependency_outputs_see_all_witness:
  "resolve_dependency_outputs ex_blake3 ex_connected (ex_lookup (CHR ''a'')) ex_app \<noteq>
   resolve_dependency_outputs ex_blake3 ex_connected (ex_lookup (CHR ''b'')) ex_app"
proof -
  have "reaches ex_connected ex_app ex_gen"
    by (rule reaches_through[of _ ex_all], simp_all add: ex_connected_rel ex_connector)
      (rule reaches_direct, simp_all add: ex_connected_rel ex_connector)
  moreover have "ex_lookup (CHR ''a'') ex_gen \<noteq> ex_lookup (CHR ''b'') ex_gen" by (simp add: ex_lookup_def)
  ultimately show ?thesis
    using dependency_outputs_see_all[OF example_hashes.connector_setting_axioms, of ex_app] by blast
qed

end
