(* ===== verification/Executor.thy ===== *)
theory Executor
  imports Messages TaskGraph "HOL-Library.Multiset"
begin

text \<open>
  The weighted executor, \<open>crates/luchta-engine/src/executor.rs\<close>: the requests, the log sink, the
  dispatch of a request to a worker or to a shell, and the weight limit over concurrent runs.
  A log sink is a shared handle, so requests hold its address and the sinks live in a store
  (\<open>World\<close>), beside what is printed. The tokio semaphore is a parameter with the laws of the locale
  \<open>semaphore_laws\<close>; the worker manager and the child process of a shell command are an environment
  (\<open>ExecEnv\<close>) that answers a request in any way.
\<close>

unbundle bit_operations_syntax

section \<open>Requests and sinks\<close>

record CollectedReport =
  cr_filename :: string
  cr_mime_type :: string
  cr_content :: string

text \<open>\<open>ls_diagnostics\<close> is \<open>None\<close> while no diagnostic writer is installed, and otherwise the messages
  handed to it.\<close>

record ExecutionLogSink =
  ls_lines :: "CapturedLogLine list"
  ls_reports :: "CollectedReport list"
  ls_progress :: "TaskProgress option"
  ls_diagnostics :: "string list option"

record ExecutionRequest =
  er_task :: TaskNode
  er_command :: string
  er_cwd :: "string option"
  er_env :: "(string, string) hmap"
  er_worker :: "string option"
  er_workspace :: "string option"
  er_inputs :: "string list option"
  er_outputs :: "string list option"
  er_log_sink :: "nat option"

definition execution_request_new :: "TaskNode \<Rightarrow> string \<Rightarrow> ExecutionRequest" where
  "execution_request_new task command =
     \<lparr>er_task = task, er_command = command, er_cwd = None, er_env = [], er_worker = None,
      er_workspace = None, er_inputs = None, er_outputs = None, er_log_sink = None\<rparr>"

definition with_cwd :: "string \<Rightarrow> ExecutionRequest \<Rightarrow> ExecutionRequest" where
  "with_cwd cwd r = r\<lparr>er_cwd := Some cwd\<rparr>"

definition with_env :: "string \<Rightarrow> string \<Rightarrow> ExecutionRequest \<Rightarrow> ExecutionRequest" where
  "with_env key value r = r\<lparr>er_env := AList.update key value (er_env r)\<rparr>"

definition with_worker :: "string \<Rightarrow> ExecutionRequest \<Rightarrow> ExecutionRequest" where
  "with_worker name r = r\<lparr>er_worker := Some name\<rparr>"

definition with_inputs :: "string list \<Rightarrow> ExecutionRequest \<Rightarrow> ExecutionRequest" where
  "with_inputs inputs r = r\<lparr>er_inputs := Some inputs\<rparr>"

definition with_outputs :: "string list \<Rightarrow> ExecutionRequest \<Rightarrow> ExecutionRequest" where
  "with_outputs outputs r = r\<lparr>er_outputs := Some outputs\<rparr>"

definition with_log_sink :: "nat \<Rightarrow> ExecutionRequest \<Rightarrow> ExecutionRequest" where
  "with_log_sink sink r = r\<lparr>er_log_sink := Some sink\<rparr>"

definition log_sink_new :: ExecutionLogSink where
  "log_sink_new = \<lparr>ls_lines = [], ls_reports = [], ls_progress = None, ls_diagnostics = None\<rparr>"

definition sink_push :: "LogStream \<Rightarrow> string \<Rightarrow> ExecutionLogSink \<Rightarrow> ExecutionLogSink" where
  "sink_push stream line sink = sink\<lparr>ls_lines := ls_lines sink @ [\<lparr>cl_stream = stream, cl_line = line\<rparr>]\<rparr>"

definition push_report :: "CollectedReport \<Rightarrow> ExecutionLogSink \<Rightarrow> ExecutionLogSink" where
  "push_report report sink =
     sink\<lparr>ls_reports := filter (\<lambda>existing. cr_filename existing \<noteq> cr_filename report) (ls_reports sink) @ [report]\<rparr>"

definition set_diagnostic_writer :: "ExecutionLogSink \<Rightarrow> ExecutionLogSink" where
  "set_diagnostic_writer sink = sink\<lparr>ls_diagnostics := Some []\<rparr>"

definition write_diagnostic :: "string \<Rightarrow> ExecutionLogSink \<Rightarrow> bool \<times> ExecutionLogSink" where
  "write_diagnostic message sink =
     (case ls_diagnostics sink of
        None \<Rightarrow> (False, sink)
      | Some written \<Rightarrow> (True, sink\<lparr>ls_diagnostics := Some (written @ [message])\<rparr>))"

definition set_progress :: "TaskProgress \<Rightarrow> ExecutionLogSink \<Rightarrow> ExecutionLogSink" where
  "set_progress p sink = sink\<lparr>ls_progress := (if progress_is_empty p then None else Some p)\<rparr>"

definition clear_progress :: "ExecutionLogSink \<Rightarrow> ExecutionLogSink" where
  "clear_progress sink = sink\<lparr>ls_progress := None\<rparr>"

section \<open>Running one request\<close>

text \<open>An exit status is the raw wait status of unix: the low seven bits are the signal, the next byte
  but one the exit code.\<close>

type_synonym ExitStatus = i32

definition status_code :: "ExitStatus \<Rightarrow> i32 option" where
  "status_code raw = (if raw AND 0x7f = 0 then Some (drop_bit 8 raw AND 0xff) else None)"

definition status_success :: "ExitStatus \<Rightarrow> bool" where
  "status_success raw \<longleftrightarrow> raw = 0"

definition synthesize_exit_status :: "i32 \<Rightarrow> ExitStatus" where
  "synthesize_exit_status code = push_bit 8 (code AND 0xff)"

record TaskRunOutcome =
  ro_status :: ExitStatus
  ro_detected_outputs :: "string list option"

definition outcome_shell :: "ExitStatus \<Rightarrow> TaskRunOutcome" where
  "outcome_shell status = \<lparr>ro_status = status, ro_detected_outputs = None\<rparr>"

definition outcome_worker :: "ExitStatus \<Rightarrow> string list option \<Rightarrow> TaskRunOutcome" where
  "outcome_worker status detected = \<lparr>ro_status = status, ro_detected_outputs = detected\<rparr>"

record WeightedExecutor =
  we_max_weight :: u32
  we_commands :: "(TaskId, ExecutionRequest) hmap"
  we_worker_manager :: bool
  we_prefix_width :: nat

definition weighted_executor_new :: "u32 \<Rightarrow> WeightedExecutor" where
  "weighted_executor_new limit =
     \<lparr>we_max_weight = limit, we_commands = [], we_worker_manager = False, we_prefix_width = 0\<rparr>"

definition executor_register :: "ExecutionRequest \<Rightarrow> WeightedExecutor \<Rightarrow> WeightedExecutor" where
  "executor_register r ex = ex\<lparr>we_commands := AList.update (tn_id (er_task r)) r (we_commands ex)\<rparr>"

definition with_command_map :: "(TaskId, ExecutionRequest) hmap \<Rightarrow> WeightedExecutor \<Rightarrow> WeightedExecutor" where
  "with_command_map commands ex = ex\<lparr>we_commands := commands\<rparr>"

definition with_worker_manager :: "WeightedExecutor \<Rightarrow> WeightedExecutor" where
  "with_worker_manager ex = ex\<lparr>we_worker_manager := True\<rparr>"

definition with_prefix_width :: "nat \<Rightarrow> WeightedExecutor \<Rightarrow> WeightedExecutor" where
  "with_prefix_width width ex = ex\<lparr>we_prefix_width := width\<rparr>"

definition effective_weight :: "WeightedExecutor \<Rightarrow> TaskNode \<Rightarrow> u32" where
  "effective_weight ex task = min (tn_weight task) (we_max_weight ex)"

definition task_prefix :: "string \<Rightarrow> nat \<Rightarrow> string" where
  "task_prefix task_name prefix_width =
     (let width = (if prefix_width > 0 then prefix_width else length task_name)
      in task_name @ replicate (width - length task_name) CHR '' '' @ '' |'')"

text \<open>What is shared: the sinks by address, and the two output streams of the process.\<close>

record World =
  w_sinks :: "nat \<Rightarrow> ExecutionLogSink"
  w_stdout :: "string list"
  w_stderr :: "string list"

text \<open>What a child process does: it may not start; it writes lines, whose arrival at the two reader
  tasks is one interleaved list; reading may fail; waiting for it gives a status or an error.\<close>

record ShellRun =
  sr_spawn_error :: "string option"
  sr_lines :: "(LogStream \<times> string) list"
  sr_stdout_error :: "string option"
  sr_stderr_error :: "string option"
  sr_wait :: "string + ExitStatus"

text \<open>How the child is launched: the program and its arguments, the directory, the environment it
  inherits (none) and the one it is given.\<close>

record ShellCommand =
  sc_argv :: "string list"
  sc_current_dir :: "string option"
  sc_envs :: "(string, string) hmap"

record ExecEnv =
  ee_run_job :: "string \<Rightarrow> WorkerRequest \<Rightarrow> nat option \<Rightarrow> World \<Rightarrow> (WorkerError + WorkerDonePayload) \<times> World"
  ee_spawn :: "ShellCommand \<Rightarrow> ShellRun"

definition spawn_shell_child :: "ExecEnv \<Rightarrow> ExecutionRequest \<Rightarrow> string \<Rightarrow> ExecutorError + ShellRun" where
  "spawn_shell_child env r task_name =
     (let child = ee_spawn env \<lparr>sc_argv = [''sh'', ''-c'', er_command r], sc_current_dir = er_cwd r, sc_envs = er_env r\<rparr>
      in case sr_spawn_error child of
           Some source \<Rightarrow> Inl (Spawn task_name source)
         | None \<Rightarrow> Inr child)"

fun stream_read_error :: "LogStream \<Rightarrow> string \<Rightarrow> string \<Rightarrow> ExecutorError" where
  "stream_read_error Stdout task_name source = StdoutRead task_name source"
| "stream_read_error Stderr task_name source = StderrRead task_name source"

definition emit_log_line :: "string \<Rightarrow> nat option \<Rightarrow> LogStream \<Rightarrow> string \<Rightarrow> World \<Rightarrow> World" where
  "emit_log_line prefix sink stream line w =
     (case sink of
        Some a \<Rightarrow> w\<lparr>w_sinks := (w_sinks w)(a := sink_push stream line (w_sinks w a))\<rparr>
      | None \<Rightarrow>
          (case stream of
             Stdout \<Rightarrow> w\<lparr>w_stdout := w_stdout w @ [prefix @ '' '' @ line]\<rparr>
           | Stderr \<Rightarrow> w\<lparr>w_stderr := w_stderr w @ [prefix @ '' '' @ line]\<rparr>))"

definition emit_log_lines :: "string \<Rightarrow> nat option \<Rightarrow> (LogStream \<times> string) list \<Rightarrow> World \<Rightarrow> World" where
  "emit_log_lines prefix sink = fold (\<lambda>(stream, line). emit_log_line prefix sink stream line)"

definition stream_logger_result :: "LogStream \<Rightarrow> string \<Rightarrow> string option \<Rightarrow> ExecutorError + unit" where
  "stream_logger_result stream task_name read_error =
     (case read_error of Some source \<Rightarrow> Inl (stream_read_error stream task_name source) | None \<Rightarrow> Inr ())"

definition run_shell_command ::
  "ExecEnv \<Rightarrow> WeightedExecutor \<Rightarrow> ExecutionRequest \<Rightarrow> string \<Rightarrow> World \<Rightarrow> (ExecutorError + ExitStatus) \<times> World" where
  "run_shell_command env ex r task_name w =
     (case spawn_shell_child env r task_name of
        Inl e \<Rightarrow> (Inl e, w)
      | Inr child \<Rightarrow>
          let w' = emit_log_lines (task_prefix task_name (we_prefix_width ex)) (er_log_sink r) (sr_lines child) w
          in (case sr_wait child of
                Inl source \<Rightarrow> Inl (Wait task_name source)
              | Inr status \<Rightarrow>
                  bind_result (stream_logger_result Stdout task_name (sr_stdout_error child)) (\<lambda>_.
                  bind_result (stream_logger_result Stderr task_name (sr_stderr_error child)) (\<lambda>_.
                  Inr status)), w'))"

definition worker_request_of :: "ExecutionRequest \<Rightarrow> WorkerRequest" where
  "worker_request_of r =
     \<lparr>wr_id = task_id_to_string (tn_id (er_task r)), wr_command = er_command r, wr_cwd = er_cwd r,
      wr_inputs = er_inputs r, wr_outputs = er_outputs r, wr_workspace = er_workspace r,
      wr_env = er_env r, wr_progress = False\<rparr>"

text \<open>The part of \<open>run_with_on_start\<close> between the acquisition of the permit and its release.\<close>

definition run_started ::
  "ExecEnv \<Rightarrow> WeightedExecutor \<Rightarrow> ExecutionRequest \<Rightarrow> World \<Rightarrow> (ExecutorError + TaskRunOutcome) \<times> World" where
  "run_started env ex r w =
     (let task_name = task_id_to_string (tn_id (er_task r)) in
      case er_worker r of
        Some worker_name \<Rightarrow>
          if we_worker_manager ex then
            (case ee_run_job env worker_name (worker_request_of r) (er_log_sink r) w of
               (Inl source, w') \<Rightarrow> (Inl (Worker task_name source), w')
             | (Inr payload, w') \<Rightarrow>
                 (Inr (outcome_worker (synthesize_exit_status (dp_exit_code payload)) (dp_detected_outputs payload)), w'))
          else (Inl (MissingWorkerManager task_name worker_name), w)
      | None \<Rightarrow>
          (case run_shell_command env ex r task_name w of
             (Inl e, w') \<Rightarrow> (Inl e, w')
           | (Inr status, w') \<Rightarrow> (Inr (outcome_shell status), w')))"


definition executor_execute ::
  "ExecEnv \<Rightarrow> WeightedExecutor \<Rightarrow> TaskNode \<Rightarrow> World \<Rightarrow> (ExecutorError + ExitStatus) \<times> World" where
  "executor_execute env ex task w =
     (case map_of (we_commands ex) (tn_id task) of
        Some r \<Rightarrow>
          (case run_started env ex r w of
             (Inl e, w') \<Rightarrow> (Inl e, w')
           | (Inr outcome, w') \<Rightarrow> (Inr (ro_status outcome), w'))
      | None \<Rightarrow> (Inl (MissingCommand (task_id_to_string (tn_id task))), w))"

section \<open>The weight limit\<close>

text \<open>The operations of the semaphore that the executor uses, over its state: a request for permits
  carries a ticket that names the waiting future, and dropping the permit returns what it holds.\<close>

record 's semaphore =
  sem_new :: "nat \<Rightarrow> 's"
  sem_acquire :: "nat \<Rightarrow> nat \<Rightarrow> 's \<Rightarrow> 's"
  sem_release :: "nat \<Rightarrow> 's \<Rightarrow> 's"
  sem_held :: "'s \<Rightarrow> (nat \<times> nat) list"
  sem_waiting :: "'s \<Rightarrow> (nat \<times> nat) list"

abbreviation permits :: "(nat \<times> nat) list \<Rightarrow> nat" where
  "permits ps \<equiv> sum_list (map snd ps)"

record 's ExecState =
  es_sem :: 's
  es_inflight :: "(nat \<times> ExecutionRequest) list"
  es_results :: "(nat \<times> (ExecutorError + TaskRunOutcome)) list"
  es_world :: World

definition executor_start :: "'s semaphore \<Rightarrow> WeightedExecutor \<Rightarrow> World \<Rightarrow> 's ExecState" where
  "executor_start S ex w =
     \<lparr>es_sem = sem_new S (unat (we_max_weight ex)), es_inflight = [], es_results = [], es_world = w\<rparr>"

definition submit_request :: "'s semaphore \<Rightarrow> WeightedExecutor \<Rightarrow> nat \<Rightarrow> ExecutionRequest \<Rightarrow> 's ExecState \<Rightarrow> 's ExecState" where
  "submit_request S ex i r s =
     s\<lparr>es_sem := sem_acquire S i (unat (effective_weight ex (er_task r))) (es_sem s),
       es_inflight := es_inflight s @ [(i, r)]\<rparr>"

definition finish_request :: "'s semaphore \<Rightarrow> ExecEnv \<Rightarrow> WeightedExecutor \<Rightarrow> nat \<Rightarrow> ExecutionRequest \<Rightarrow> 's ExecState \<Rightarrow> 's ExecState" where
  "finish_request S env ex i r s =
     (let (result, w) = run_started env ex r (es_world s)
      in s\<lparr>es_sem := sem_release S i (es_sem s),
           es_inflight := filter (\<lambda>p. fst p \<noteq> i) (es_inflight s),
           es_results := es_results s @ [(i, result)], es_world := w\<rparr>)"

text \<open>Concurrent calls of \<open>run_with_on_start\<close>: a call joins the queue of the semaphore, and one that
  holds its permit runs to its end, on every path of which the permit is dropped. The effects of a
  run on the shared world are placed at its end.\<close>

inductive exec_step :: "'s semaphore \<Rightarrow> ExecEnv \<Rightarrow> WeightedExecutor \<Rightarrow> 's ExecState \<Rightarrow> 's ExecState \<Rightarrow> bool"
  for S :: "'s semaphore" and env :: ExecEnv and ex :: WeightedExecutor where
  exec_submit: "i \<notin> fst ` set (es_inflight s) \<Longrightarrow> i \<notin> fst ` set (es_results s) \<Longrightarrow>
     exec_step S env ex s (submit_request S ex i r s)"
| exec_finish: "(i, r) \<in> set (es_inflight s) \<Longrightarrow> i \<in> fst ` set (sem_held S (es_sem s)) \<Longrightarrow>
     exec_step S env ex s (finish_request S env ex i r s)"

inductive finish_step :: "'s semaphore \<Rightarrow> ExecEnv \<Rightarrow> WeightedExecutor \<Rightarrow> 's ExecState \<Rightarrow> 's ExecState \<Rightarrow> bool"
  for S :: "'s semaphore" and env :: ExecEnv and ex :: WeightedExecutor where
  finish_any: "(i, r) \<in> set (es_inflight s) \<Longrightarrow> i \<in> fst ` set (sem_held S (es_sem s)) \<Longrightarrow>
     finish_step S env ex s (finish_request S env ex i r s)"

section \<open>The semaphore contract\<close>

lemma same_tickets:
  assumes "mset ps = mset qs"
  shows "distinct (map fst ps) \<longleftrightarrow> distinct (map fst qs)" "set ps = set qs"
proof -
  show "set ps = set qs" using assms by (rule mset_eq_setD)
  have "mset (map fst ps) = mset (map fst qs)" using assms by simp
  then show "distinct (map fst ps) \<longleftrightarrow> distinct (map fst qs)" by (rule mset_eq_imp_distinct_iff)
qed

lemma two_permits:
  assumes "(i, k) \<in> set ps" "(j, k') \<in> set ps" "j \<noteq> i"
  shows "k + k' \<le> permits ps"
proof -
  have p: "(i, k) \<in> set ps" "(j, k') \<in> set (remove1 (i, k) ps)" using assms by auto
  have "permits ps = k + permits (remove1 (i, k) ps)"
    using sum_list_map_remove1[OF p(1), of snd] by simp
  moreover have "k' \<le> permits (remove1 (i, k) ps)" using member_le_sum_list[of k' "map snd (remove1 (i, k) ps)"] p(2) by force
  ultimately show ?thesis by simp
qed

lemma filter_tickets_image:
  assumes "set ps = (\<lambda>(i, r). (i, g r)) ` set qs"
  shows "set (filter (\<lambda>p. fst p \<noteq> i) ps) = (\<lambda>(i, r). (i, g r)) ` set (filter (\<lambda>p. fst p \<noteq> i) qs)"
  unfolding set_filter assms by force

lemma filter_tickets_id: "i \<notin> fst ` set ps \<Longrightarrow> filter (\<lambda>p. fst p \<noteq> i) ps = ps"
  by (induction ps) auto

text \<open>What the executor relies on: permits never exceed the capacity, nobody is forgotten, waiters
  keep their order and are served from the front, and a queue is only kept while its head does not fit.\<close>

locale semaphore_laws =
  fixes S :: "'s semaphore" and sem_ok :: "nat \<Rightarrow> 's \<Rightarrow> bool"
  assumes new_ok: "sem_ok n (sem_new S n)"
    and new_held: "sem_held S (sem_new S n) = []"
    and new_waiting: "sem_waiting S (sem_new S n) = []"
    and acquire_ok: "sem_ok n s \<Longrightarrow> i \<notin> fst ` set (sem_held S s @ sem_waiting S s) \<Longrightarrow> sem_ok n (sem_acquire S i k s)"
    and acquire_queues: "sem_ok n s \<Longrightarrow>
      sem_held S (sem_acquire S i k s) = sem_held S s @ [(i, k)] \<and> sem_waiting S (sem_acquire S i k s) = sem_waiting S s \<or>
      sem_held S (sem_acquire S i k s) = sem_held S s \<and> sem_waiting S (sem_acquire S i k s) = sem_waiting S s @ [(i, k)]"
    and acquire_fair: "sem_ok n s \<Longrightarrow> sem_waiting S s \<noteq> [] \<Longrightarrow> 0 < k \<Longrightarrow> sem_held S (sem_acquire S i k s) = sem_held S s"
    and release_ok: "sem_ok n s \<Longrightarrow> i \<in> fst ` set (sem_held S s) \<Longrightarrow> sem_ok n (sem_release S i s)"
    and release_serves: "sem_ok n s \<Longrightarrow> i \<in> fst ` set (sem_held S s) \<Longrightarrow>
      \<exists>m. sem_held S (sem_release S i s) = filter (\<lambda>p. fst p \<noteq> i) (sem_held S s) @ take m (sem_waiting S s) \<and>
          sem_waiting S (sem_release S i s) = drop m (sem_waiting S s)"
    and capacity: "sem_ok n s \<Longrightarrow> permits (sem_held S s) \<le> n"
    and head_blocked: "sem_ok n s \<Longrightarrow> sem_waiting S s = (j, k) # ws \<Longrightarrow> n < permits (sem_held S s) + k"
begin

definition exec_inv :: "WeightedExecutor \<Rightarrow> 's ExecState \<Rightarrow> bool" where
  "exec_inv ex s \<longleftrightarrow>
     sem_ok (unat (we_max_weight ex)) (es_sem s) \<and>
     distinct (map fst (es_inflight s)) \<and>
     fst ` set (es_inflight s) \<inter> fst ` set (es_results s) = {} \<and>
     distinct (map fst (sem_held S (es_sem s) @ sem_waiting S (es_sem s))) \<and>
     set (sem_held S (es_sem s) @ sem_waiting S (es_sem s)) =
       (\<lambda>(i, r). (i, unat (effective_weight ex (er_task r)))) ` set (es_inflight s)"

lemma exec_inv_start: "exec_inv ex (executor_start S ex w)"
  by (simp add: exec_inv_def executor_start_def new_ok new_held new_waiting)

lemma exec_inv_tickets:
  assumes "exec_inv ex s"
  shows "fst ` set (sem_held S (es_sem s) @ sem_waiting S (es_sem s)) = fst ` set (es_inflight s)"
  using assms unfolding exec_inv_def by (simp only: image_image case_prod_unfold fst_conv)

lemma exec_inv_submit:
  assumes inv: "exec_inv ex s" and i: "i \<notin> fst ` set (es_inflight s)" "i \<notin> fst ` set (es_results s)"
  shows "exec_inv ex (submit_request S ex i r s)"
proof -
  let ?k = "unat (effective_weight ex (er_task r))"
  have ok: "sem_ok (unat (we_max_weight ex)) (es_sem s)" using inv by (simp add: exec_inv_def)
  have new: "i \<notin> fst ` set (sem_held S (es_sem s) @ sem_waiting S (es_sem s))"
    using exec_inv_tickets[OF inv] i by blast
  let ?s = "sem_acquire S i ?k (es_sem s)"
  have "mset (sem_held S ?s @ sem_waiting S ?s) = mset ((i, ?k) # sem_held S (es_sem s) @ sem_waiting S (es_sem s))"
    using acquire_queues[OF ok, of i ?k] by (elim disjE) simp_all
  note same_tickets[OF this]
  moreover have "distinct (map fst ((i, ?k) # sem_held S (es_sem s) @ sem_waiting S (es_sem s)))"
    using new inv unfolding exec_inv_def by (simp only: list.map distinct.simps set_map fst_conv simp_thms)
  moreover have "set ((i, ?k) # sem_held S (es_sem s) @ sem_waiting S (es_sem s)) =
      (\<lambda>(i, r). (i, unat (effective_weight ex (er_task r)))) ` set (es_inflight s @ [(i, r)])"
    using inv unfolding exec_inv_def list.set set_append by simp
  moreover have "distinct (map fst (es_inflight s @ [(i, r)]))"
      "fst ` set (es_inflight s @ [(i, r)]) \<inter> fst ` set (es_results s) = {}"
    using inv i unfolding exec_inv_def by auto
  ultimately show ?thesis
    using acquire_ok[OF ok new, of ?k] by (simp add: exec_inv_def submit_request_def)
qed

lemma exec_inv_finish:
  assumes inv: "exec_inv ex s" and i: "(i, r) \<in> set (es_inflight s)" "i \<in> fst ` set (sem_held S (es_sem s))"
  shows "exec_inv ex (finish_request S env ex i r s)"
proof -
  let ?held = "sem_held S (es_sem s)" and ?waiting = "sem_waiting S (es_sem s)"
  have ok: "sem_ok (unat (we_max_weight ex)) (es_sem s)" using inv by (simp add: exec_inv_def)
  obtain m where m: "sem_held S (sem_release S i (es_sem s)) = filter (\<lambda>p. fst p \<noteq> i) ?held @ take m ?waiting"
      "sem_waiting S (sem_release S i (es_sem s)) = drop m ?waiting"
    using release_serves[OF ok i(2)] by blast
  have joined: "sem_held S (sem_release S i (es_sem s)) @ sem_waiting S (sem_release S i (es_sem s)) =
      filter (\<lambda>p. fst p \<noteq> i) ?held @ ?waiting" by (simp add: m)
  have "i \<notin> fst ` set ?waiting" using inv i(2) by (auto simp: exec_inv_def)
  then have all: "filter (\<lambda>p. fst p \<noteq> i) ?held @ ?waiting = filter (\<lambda>p. fst p \<noteq> i) (?held @ ?waiting)"
    by (simp add: filter_tickets_id)
  obtain res w where run: "run_started env ex r (es_world s) = (res, w)" by fastforce
  have eqs: "es_sem (finish_request S env ex i r s) = sem_release S i (es_sem s)"
      "es_inflight (finish_request S env ex i r s) = filter (\<lambda>p. fst p \<noteq> i) (es_inflight s)"
      "es_results (finish_request S env ex i r s) = es_results s @ [(i, res)]"
    by (simp_all add: finish_request_def run)
  have weights: "set (filter (\<lambda>p. fst p \<noteq> i) (?held @ ?waiting)) =
      (\<lambda>(i, r). (i, unat (effective_weight ex (er_task r)))) ` set (filter (\<lambda>p. fst p \<noteq> i) (es_inflight s))"
    using inv unfolding exec_inv_def by (intro filter_tickets_image) blast
  have "distinct (map fst (filter (\<lambda>p. fst p \<noteq> i) (?held @ ?waiting)))"
    using inv unfolding exec_inv_def by (intro distinct_map_filter) blast
  moreover have "distinct (map fst (filter (\<lambda>p. fst p \<noteq> i) (es_inflight s)))"
    using inv unfolding exec_inv_def by (intro distinct_map_filter) blast
  moreover have "fst ` set (filter (\<lambda>p. fst p \<noteq> i) (es_inflight s)) \<inter> fst ` set (es_results s @ [(i, res)]) = {}"
    using inv unfolding exec_inv_def by auto
  ultimately show ?thesis
    unfolding exec_inv_def eqs joined all using release_ok[OF ok i(2)] weights by blast
qed

lemma exec_inv_step: "exec_step S env ex s s' \<Longrightarrow> exec_inv ex s \<Longrightarrow> exec_inv ex s'"
  by (induction rule: exec_step.induct) (simp_all add: exec_inv_submit exec_inv_finish)

lemma exec_inv_reachable: "(exec_step S env ex)\<^sup>*\<^sup>* (executor_start S ex w) s \<Longrightarrow> exec_inv ex s"
  by (induction rule: rtranclp_induct) (auto intro: exec_inv_start exec_inv_step)

lemma running_tasks:
  assumes inv: "exec_inv ex s" and ik: "(i, k) \<in> set (sem_held S (es_sem s))"
  obtains r where "(i, r) \<in> set (es_inflight s)" "k = unat (effective_weight ex (er_task r))"
proof -
  have "(i, k) \<in> set (sem_held S (es_sem s) @ sem_waiting S (es_sem s))" using ik by simp
  then have "(i, k) \<in> (\<lambda>(i, r). (i, unat (effective_weight ex (er_task r)))) ` set (es_inflight s)"
    using inv unfolding exec_inv_def by blast
  then show thesis using that by auto
qed

lemma weight_bound:
  assumes "exec_inv ex s" shows "permits (sem_held S (es_sem s)) \<le> unat (we_max_weight ex)"
  using assms unfolding exec_inv_def by (blast intro: capacity)

lemma never_stuck:
  assumes inv: "exec_inv ex s" and some: "es_inflight s \<noteq> []"
  shows "sem_held S (es_sem s) \<noteq> []"
proof
  assume none: "sem_held S (es_sem s) = []"
  have sets: "set (sem_waiting S (es_sem s)) = (\<lambda>(i, r). (i, unat (effective_weight ex (er_task r)))) ` set (es_inflight s)"
    using inv none unfolding exec_inv_def by simp
  then obtain j k ws where w: "sem_waiting S (es_sem s) = (j, k) # ws"
    using some by (cases "sem_waiting S (es_sem s)") auto
  then have "(j, k) \<in> (\<lambda>(i, r). (i, unat (effective_weight ex (er_task r)))) ` set (es_inflight s)"
    using sets by auto
  then have "k \<le> unat (we_max_weight ex)"
    by (auto simp: effective_weight_def min_def word_le_nat_alt)
  moreover have "unat (we_max_weight ex) < k"
    using head_blocked[OF _ w] inv none unfolding exec_inv_def by fastforce
  ultimately show False by simp
qed

lemma finish_enabled:
  assumes inv: "exec_inv ex s" and some: "es_inflight s \<noteq> []"
  shows "\<exists>s'. finish_step S env ex s s'"
proof -
  obtain i k ps where h: "sem_held S (es_sem s) = (i, k) # ps"
    using never_stuck[OF assms] by (cases "sem_held S (es_sem s)") auto
  then obtain r where "(i, r) \<in> set (es_inflight s)"
    using running_tasks[OF inv, of i k] by auto
  then show ?thesis using h finish_any[of i r s S env ex] by auto
qed

lemma finish_inflight:
  assumes inv: "exec_inv ex s" and step: "finish_step S env ex s s'"
  shows "length (es_inflight s') < length (es_inflight s) \<and> exec_inv ex s' \<and>
    fst ` set (es_inflight s') \<union> fst ` set (es_results s') = fst ` set (es_inflight s) \<union> fst ` set (es_results s)"
  using step
proof cases
  case (finish_any i r)
  obtain res w where run: "run_started env ex r (es_world s) = (res, w)" by fastforce
  have "length (filter (\<lambda>p. fst p \<noteq> i) (es_inflight s)) < length (es_inflight s)"
    using finish_any(2) by (metis (mono_tags, lifting) fst_conv length_filter_less)
  moreover have "fst ` set (filter (\<lambda>p. fst p \<noteq> i) (es_inflight s)) = fst ` set (es_inflight s) - {i}" by auto
  moreover have "i \<in> fst ` set (es_inflight s)" using finish_any(2) by force
  ultimately show ?thesis
    using exec_inv_finish[OF inv finish_any(2,3), of env] unfolding finish_any(1)
    by (simp add: finish_request_def run) blast
qed

lemma all_complete:
  assumes "exec_inv ex s"
  shows "\<exists>s'. (finish_step S env ex)\<^sup>*\<^sup>* s s' \<and> es_inflight s' = [] \<and>
    fst ` set (es_results s') = fst ` set (es_inflight s) \<union> fst ` set (es_results s)"
  using assms
proof (induction "length (es_inflight s)" arbitrary: s rule: less_induct)
  case less
  show ?case
  proof (cases "es_inflight s = []")
    case True
    then show ?thesis by (intro exI[of _ s]) simp
  next
    case False
    then obtain t where t: "finish_step S env ex s t" using finish_enabled[OF less.prems] by blast
    note f = finish_inflight[OF less.prems t]
    obtain s' where s': "(finish_step S env ex)\<^sup>*\<^sup>* t s'" "es_inflight s' = []"
      "fst ` set (es_results s') = fst ` set (es_inflight t) \<union> fst ` set (es_results t)"
      using less.hyps[OF conjunct1[OF f] conjunct1[OF conjunct2[OF f]]] by (elim exE conjE)
    have "(finish_step S env ex)\<^sup>*\<^sup>* s s'" using t s'(1) by (rule converse_rtranclp_into_rtranclp)
    then show ?thesis using s' f by (intro exI[of _ s']) simp
  qed
qed

end

section \<open>A first-in first-out semaphore\<close>

fun fifo_grant :: "nat \<Rightarrow> (nat \<times> nat) list \<Rightarrow> (nat \<times> nat) list \<Rightarrow> (nat \<times> nat) list \<times> (nat \<times> nat) list" where
  "fifo_grant n held [] = (held, [])"
| "fifo_grant n held ((i, k) # ws) =
     (if permits held + k \<le> n then fifo_grant n (held @ [(i, k)]) ws else (held, (i, k) # ws))"

type_synonym fifo_state = "nat \<times> (nat \<times> nat) list \<times> (nat \<times> nat) list"

definition fifo_semaphore :: "fifo_state semaphore" where
  "fifo_semaphore =
     \<lparr>sem_new = (\<lambda>n. (n, [], [])),
      sem_acquire = (\<lambda>i k (n, held, ws).
        if ws = [] \<and> permits held + k \<le> n then (n, held @ [(i, k)], ws) else (n, held, ws @ [(i, k)])),
      sem_release = (\<lambda>i (n, held, ws). (n, fifo_grant n (filter (\<lambda>p. fst p \<noteq> i) held) ws)),
      sem_held = (\<lambda>(n, held, ws). held),
      sem_waiting = (\<lambda>(n, held, ws). ws)\<rparr>"

definition fifo_ok :: "nat \<Rightarrow> fifo_state \<Rightarrow> bool" where
  "fifo_ok n s \<longleftrightarrow>
     (case s of (c, held, ws) \<Rightarrow> c = n \<and> permits held \<le> n \<and> (ws \<noteq> [] \<longrightarrow> n < permits held + snd (hd ws)))"

lemma fifo_grant_splits: "\<exists>m. fifo_grant n held ws = (held @ take m ws, drop m ws)"
proof (induction n held ws rule: fifo_grant.induct)
  case (2 n held i k ws)
  show ?case
  proof (cases "permits held + k \<le> n")
    case True
    then obtain m where "fifo_grant n (held @ [(i, k)]) ws = ((held @ [(i, k)]) @ take m ws, drop m ws)"
      using 2 by blast
    then show ?thesis using True by (intro exI[of _ "Suc m"]) simp
  qed (auto intro: exI[of _ 0])
qed simp

lemma fifo_grant_ok: "permits held \<le> n \<Longrightarrow> fifo_ok n (n, fifo_grant n held ws)"
  by (induction n held ws rule: fifo_grant.induct) (auto simp: fifo_ok_def)

lemma permits_filter_le: "permits (filter P ps) \<le> permits ps"
  by (induction ps) auto

interpretation fifo: semaphore_laws fifo_semaphore fifo_ok
proof (unfold_locales, goal_cases)
  case (7 n s i)
  then obtain held ws where "s = (n, held, ws)" "permits held \<le> n" by (auto simp: fifo_ok_def)
  then show ?case
    using permits_filter_le[of "\<lambda>p. fst p \<noteq> i" held] by (simp add: fifo_semaphore_def fifo_grant_ok)
next
  case (8 n s i)
  then obtain held ws where s: "s = (n, held, ws)" by (auto simp: fifo_ok_def)
  obtain m where "fifo_grant n (filter (\<lambda>p. fst p \<noteq> i) held) ws = (filter (\<lambda>p. fst p \<noteq> i) held @ take m ws, drop m ws)"
    using fifo_grant_splits by blast
  then show ?case unfolding s by (intro exI[of _ m]) (simp add: fifo_semaphore_def)
qed (auto simp: fifo_semaphore_def fifo_ok_def hd_append split: prod.splits if_splits)

section \<open>Lemmas on sinks and statuses\<close>

lemma and_mask_take_bit: "(x :: i32) AND 0xff = take_bit 8 x" "(x :: i32) AND 0x7f = take_bit 7 x"
  by (simp_all add: take_bit_eq_mask mask_eq_exp_minus_1)

lemma synthesize_low_bits: "synthesize_exit_status code AND 0x7f = 0"
  unfolding synthesize_exit_status_def and_mask_take_bit
  by (rule bit_word_eqI) (auto simp: bit_simps)

lemma synthesize_high_bits: "drop_bit 8 (synthesize_exit_status code) AND 0xff = code AND 0xff"
  unfolding synthesize_exit_status_def and_mask_take_bit
  by (rule bit_word_eqI) (auto simp: bit_simps)

lemma synthesize_zero: "synthesize_exit_status code = 0 \<longleftrightarrow> code AND 0xff = 0"
proof
  assume "synthesize_exit_status code = 0"
  with synthesize_high_bits[of code] show "code AND 0xff = 0" by simp
qed (simp add: synthesize_exit_status_def)

lemma low_byte: "unat (code AND 0xff :: i32) = unat code mod 256"
  unfolding and_mask_take_bit by (simp add: take_bit_eq_mod unat_mod_distrib)

definition report_map :: "ExecutionLogSink \<Rightarrow> string \<Rightarrow> CollectedReport option" where
  "report_map sink = map_of (map (\<lambda>r. (cr_filename r, r)) (ls_reports sink))"

lemma map_of_filter_neq:
  "map_of (map (\<lambda>r. (f r, r)) (filter (\<lambda>r. f r \<noteq> k) rs)) = (map_of (map (\<lambda>r. (f r, r)) rs))(k := None)"
  by (induction rs) (auto simp: fun_eq_iff)

lemma push_report_map: "report_map (push_report r sink) = (report_map sink)(cr_filename r \<mapsto> r)"
  by (simp add: report_map_def push_report_def map_of_filter_neq fun_eq_iff map_add_def split: option.splits)

lemma push_report_distinct:
  "distinct (map cr_filename (ls_reports sink)) \<Longrightarrow> distinct (map cr_filename (ls_reports (push_report r sink)))"
  by (auto simp: push_report_def distinct_map_filter)

definition example_request :: ExecutionRequest where
  "example_request =
     execution_request_new \<lparr>tn_id = task_id_new ''a'' ''build'', tn_weight = 9\<rparr> ''true''"

definition example_env :: ExecEnv where
  "example_env =
     \<lparr>ee_run_job = (\<lambda>name _ _ w. (Inl (Undefined name), w)),
      ee_spawn = (\<lambda>_. \<lparr>sr_spawn_error = None, sr_lines = [(Stdout, ''hi'')], sr_stdout_error = None,
                        sr_stderr_error = None, sr_wait = Inr 0\<rparr>)\<rparr>"

definition example_world :: World where
  "example_world = \<lparr>w_sinks = (\<lambda>_. log_sink_new), w_stdout = [], w_stderr = []\<rparr>"

definition example_started :: "fifo_state ExecState" where
  "example_started =
     submit_request fifo_semaphore (weighted_executor_new 4) 0 example_request
       (executor_start fifo_semaphore (weighted_executor_new 4) example_world)"

lemma example_started_reachable:
  "(exec_step fifo_semaphore example_env (weighted_executor_new 4))\<^sup>*\<^sup>*
     (executor_start fifo_semaphore (weighted_executor_new 4) example_world) example_started"
  unfolding example_started_def by (rule r_into_rtranclp, rule exec_submit) (simp_all add: executor_start_def)

lemma example_started_state: "es_inflight example_started = [(0, example_request)]" "es_sem example_started = (4, [(0, 4)], [])"
  by (simp_all add: example_started_def submit_request_def executor_start_def fifo_semaphore_def
      weighted_executor_new_def effective_weight_def example_request_def execution_request_new_def)

section \<open>Properties\<close>

text \<open>C23: Whatever requests are submitted and in whatever order they finish, the effective weights of
  the tasks that run never add up to more than the limit, and a task whose declared weight reaches the
  limit shares the executor only with tasks of weight zero.\<close>

theorem executor_weight_limit:
  assumes laws: "semaphore_laws S ok"
    and run: "(exec_step S env ex)\<^sup>*\<^sup>* (executor_start S ex w) s"
  shows "permits (sem_held S (es_sem s)) \<le> unat (we_max_weight ex) \<and>
    (\<forall>i k. (i, k) \<in> set (sem_held S (es_sem s)) \<longrightarrow>
      (\<exists>r. (i, r) \<in> set (es_inflight s) \<and> k = unat (effective_weight ex (er_task r)) \<and>
        (we_max_weight ex \<le> tn_weight (er_task r) \<longrightarrow>
          (\<forall>j k'. (j, k') \<in> set (sem_held S (es_sem s)) \<longrightarrow> j \<noteq> i \<longrightarrow> k' = 0))))"
proof -
  note inv = semaphore_laws.exec_inv_reachable[OF laws run]
  note bound = semaphore_laws.weight_bound[OF laws inv]
  have alone: "k' = 0" if "(i, unat (we_max_weight ex)) \<in> set (sem_held S (es_sem s))"
      "(j, k') \<in> set (sem_held S (es_sem s))" "j \<noteq> i" for i j k'
    using two_permits[OF that] bound by simp
  have "\<exists>r. (i, r) \<in> set (es_inflight s) \<and> k = unat (effective_weight ex (er_task r)) \<and>
      (we_max_weight ex \<le> tn_weight (er_task r) \<longrightarrow>
        (\<forall>j k'. (j, k') \<in> set (sem_held S (es_sem s)) \<longrightarrow> j \<noteq> i \<longrightarrow> k' = 0))"
    if ik: "(i, k) \<in> set (sem_held S (es_sem s))" for i k
  proof -
    obtain r where r: "(i, r) \<in> set (es_inflight s)" "k = unat (effective_weight ex (er_task r))"
      using semaphore_laws.running_tasks[OF laws inv ik] by blast
    have "k' = 0" if "we_max_weight ex \<le> tn_weight (er_task r)" "(j, k') \<in> set (sem_held S (es_sem s))" "j \<noteq> i" for j k'
    proof (rule alone[OF _ that(2,3)])
      have "k = unat (we_max_weight ex)" using r(2) that(1) by (simp add: effective_weight_def min_absorb2)
      with ik show "(i, unat (we_max_weight ex)) \<in> set (sem_held S (es_sem s))" by simp
    qed
    then show ?thesis using r by blast
  qed
  then show ?thesis using bound by blast
qed

theorem executor_weight_limit_witness:
  "permits (sem_held fifo_semaphore (es_sem example_started)) \<le> 4 \<and> es_inflight example_started \<noteq> []"
  using executor_weight_limit[OF fifo.semaphore_laws_axioms example_started_reachable]
  by (simp add: example_started_state weighted_executor_new_def)



text \<open>The exit status made from the exit code of a worker keeps the low byte of the code, as the
  exit of a process would: it decodes to that byte, and means success exactly for multiples of 256.\<close>

lemma worker_exit_status:
  "status_code (synthesize_exit_status code) = Some (code AND 0xff) \<and>
   (status_success (synthesize_exit_status code) \<longleftrightarrow> unat code mod 256 = 0)"
  using synthesize_zero[of code] low_byte[of code]
  by (simp add: status_code_def status_success_def synthesize_low_bits synthesize_high_bits flip: unat_eq_zero)

text \<open>A sink keeps one report per file name, the last one pushed.\<close>

lemma reports_last_wins:
  "distinct (map cr_filename (ls_reports (fold push_report rs log_sink_new))) \<and>
   report_map (fold push_report rs log_sink_new) = map_of (rev (map (\<lambda>r. (cr_filename r, r)) rs))"
proof (induction rs rule: rev_induct)
  case Nil
  then show ?case by (simp add: log_sink_new_def report_map_def)
next
  case (snoc r rs)
  then show ?case by (simp add: push_report_map push_report_distinct)
qed

end
