(* ===== verification/Selection.thy ===== *)
theory Selection
  imports Since WatchRegistry DepOutputs Executor
begin

text \<open>
  Which tasks a command line selects, and the waves they run in, \<open>crates/luchta-cli/src/run.rs\<close>: the goals that match the
  requested task and package patterns within the selected scope and the \<open>--since\<close> filter, the diagnostics for requests that match
  nothing, the closure under dependencies, and the longest-path layering. Notes that the code prints are values; \<open>note_label\<close> and
  \<open>paint\<close> stand for the colouring of the terminal. The globs are those of \<open>build_globset\<close>.
\<close>

record TaskSelection =
  ts_requested_tasks :: "string list"
  ts_packages :: "string list"
  ts_top_level :: bool
  ts_since :: "string option"

record 's SelectionCriteria =
  sc_task_globs :: 's
  sc_package_globs :: 's
  sc_match_all_non_root_packages :: bool
  sc_top_level :: bool
  sc_since_affected :: "SinceAffected option"

datatype SinceSelection = SinceNoOp | SinceProceed "SinceAffected option"

definition resolve_since_selection ::
  "('h, 'v, 'a, 'b) since_env \<Rightarrow> ('g, 's) globs \<Rightarrow> toposort \<Rightarrow> TaskSelection \<Rightarrow> string \<Rightarrow> PackageGraph \<Rightarrow> TaskGraph \<Rightarrow>
   (SinceError + SinceSelection) option" where
  "resolve_since_selection env api topo selection workspace_root g tg =
     (case ts_since selection of
        None \<Rightarrow> Some (Inr (SinceProceed None))
      | Some since_ref \<Rightarrow>
          bind_run (Some (discover_repo_root (se_git env) workspace_root)) (\<lambda>repo_root.
          bind_run (since_affected env api topo workspace_root repo_root since_ref g tg) (\<lambda>affected.
            Some (Inr (if sa_packages affected = [] \<and> \<not> ts_top_level selection then SinceNoOp
                       else SinceProceed (Some affected))))))"

section \<open>Matching\<close>

definition package_matches :: "('g, 's) watch_globs \<Rightarrow> 's SelectionCriteria \<Rightarrow> TaskId \<Rightarrow> bool" where
  "package_matches wg criteria task_id \<longleftrightarrow>
     (let is_root = task_is_root task_id;
          matches_non_root_package =
            (if sc_match_all_non_root_packages criteria then \<not> is_root
             else \<not> is_root \<and> api_set_match (wg_api wg) (sc_package_globs criteria) (tid_package task_id));
          base_match =
            (if sc_top_level criteria then
               (if sc_match_all_non_root_packages criteria then is_root else matches_non_root_package \<or> is_root)
             else (if sc_match_all_non_root_packages criteria then \<not> is_root else matches_non_root_package));
          passes_since =
            (case sc_since_affected criteria of
               None \<Rightarrow> True
             | Some affected \<Rightarrow>
                 if is_root then root_task_passes affected (tid_task task_id) else contains_package affected (tid_package task_id))
      in base_match \<and> passes_since)"

definition collect_matching_task_ids :: "('g, 's) watch_globs \<Rightarrow> TaskNode list \<Rightarrow> 's SelectionCriteria \<Rightarrow> TaskId list" where
  "collect_matching_task_ids wg available_nodes criteria =
     remdups (map tn_id
       (filter (\<lambda>node. package_matches wg criteria (tn_id node))
         (filter (\<lambda>node. api_set_match (wg_api wg) (sc_task_globs criteria) (tid_task (tn_id node))) available_nodes)))"

definition collect_matched_package_names :: "('g, 's) watch_globs \<Rightarrow> TaskNode list \<Rightarrow> string list \<Rightarrow> 's \<Rightarrow> PackageName list" where
  "collect_matched_package_names wg available_nodes packages package_globs =
     (if packages = [] then []
      else remdups (filter (api_set_match (wg_api wg) package_globs)
        (map tid_package (filter (\<lambda>task_id. \<not> task_is_root task_id) (map tn_id available_nodes)))))"

definition is_literal_pattern :: "string \<Rightarrow> bool" where
  "is_literal_pattern s \<longleftrightarrow>
     \<not> (\<exists>c \<in> set s. c \<in> {CHR ''*'', CHR ''?'', CHR ''['', CHR '']'', CHR ''{'', CHR ''}'', CHR ''!'', CHR 0x5C})"

definition all_literal_task_requests :: "string list \<Rightarrow> bool" where
  "all_literal_task_requests requested_tasks \<longleftrightarrow> requested_tasks \<noteq> [] \<and> list_all is_literal_pattern requested_tasks"

section \<open>Requests that match nothing\<close>

definition filtered_by_since_note ::
  "('g, 's) watch_globs \<Rightarrow> string \<Rightarrow> string \<Rightarrow> 's SelectionCriteria \<Rightarrow> TaskNode list \<Rightarrow> string option" where
  "filtered_by_since_note wg note_label requested criteria available_nodes =
     (case sc_since_affected criteria of
        None \<Rightarrow> None
      | Some _ \<Rightarrow>
          let without_since = criteria\<lparr>sc_since_affected := None\<rparr> in
          if list_ex (\<lambda>node. tid_task (tn_id node) = requested \<and> package_matches wg without_since (tn_id node) \<and>
                \<not> package_matches wg criteria (tn_id node)) available_nodes
          then Some (note_label @ '' task '' @ sq @ requested @ sq @ '' matched no task affected by --since; nothing to run'')
          else None)"

definition requests_top_level_task_without_flag :: "'s SelectionCriteria \<Rightarrow> bool \<Rightarrow> bool \<Rightarrow> bool" where
  "requests_top_level_task_without_flag criteria exists_at_root exists_as_package_task \<longleftrightarrow>
     \<not> sc_top_level criteria \<and> exists_at_root \<and> \<not> exists_as_package_task"

definition requests_package_task_with_top_level_flag :: "'s SelectionCriteria \<Rightarrow> bool \<Rightarrow> bool" where
  "requests_package_task_with_top_level_flag criteria exists_as_package_task \<longleftrightarrow>
     sc_top_level criteria \<and> sc_match_all_non_root_packages criteria \<and> exists_as_package_task"

definition wrong_scope_hint :: "string \<Rightarrow> 's SelectionCriteria \<Rightarrow> TaskNode list \<Rightarrow> string option" where
  "wrong_scope_hint requested criteria available_nodes =
     (let exists_at_root = list_ex (\<lambda>node. task_is_root (tn_id node) \<and> tid_task (tn_id node) = requested) available_nodes;
          exists_as_package_task = list_ex (\<lambda>node. \<not> task_is_root (tn_id node) \<and> tid_task (tn_id node) = requested) available_nodes
      in if requests_top_level_task_without_flag criteria exists_at_root exists_as_package_task
         then Some (''task '' @ sq @ requested @ sq @ '' is a top-level task; pass -T/--top-level to select it'')
         else if requests_package_task_with_top_level_flag criteria exists_as_package_task
         then Some (''task '' @ sq @ requested @ sq @
                '' is a package task, not a top-level task; drop -T (or pass -p <package>) to select it'')
         else None)"

definition report_unmatched_request ::
  "('g, 's) watch_globs \<Rightarrow> string \<Rightarrow> string \<Rightarrow> PrunedTask list \<Rightarrow> 's SelectionCriteria \<Rightarrow> TaskNode list \<Rightarrow> string + string" where
  "report_unmatched_request wg note_label requested pruned criteria available_nodes =
     (if list_ex (\<lambda>entry. tid_task (pt_task_id entry) = requested \<and> package_matches wg criteria (pt_task_id entry)) pruned
      then Inr (note_label @ '' task '' @ sq @ requested @ sq @ '' was pruned from every package during resolution; nothing to run'')
      else case filtered_by_since_note wg note_label requested criteria available_nodes of
        Some since_note \<Rightarrow> Inr since_note
      | None \<Rightarrow>
          (case wrong_scope_hint requested criteria available_nodes of
             Some hint \<Rightarrow> Inl hint
           | None \<Rightarrow> Inl (''task '' @ sq @ requested @ sq @ '' not found in task graph'')))"

fun validate_literals ::
  "('g, 's) watch_globs \<Rightarrow> string \<Rightarrow> TaskId list \<Rightarrow> PrunedTask list \<Rightarrow> 's SelectionCriteria \<Rightarrow> TaskNode list \<Rightarrow> string list \<Rightarrow>
   string + string list" where
  "validate_literals wg note_label requested_ids pruned criteria available_nodes [] = Inr []"
| "validate_literals wg note_label requested_ids pruned criteria available_nodes (requested # rest) =
     (if list_ex (\<lambda>task_id. tid_task task_id = requested) requested_ids
      then validate_literals wg note_label requested_ids pruned criteria available_nodes rest
      else bind_result (report_unmatched_request wg note_label requested pruned criteria available_nodes) (\<lambda>note.
           map_sum id ((#) note) (validate_literals wg note_label requested_ids pruned criteria available_nodes rest)))"

definition validate_literal_task_requests ::
  "('g, 's) watch_globs \<Rightarrow> string \<Rightarrow> TaskId list \<Rightarrow> TaskSelection \<Rightarrow> PrunedTask list \<Rightarrow> 's SelectionCriteria \<Rightarrow> TaskNode list \<Rightarrow>
   string + string list" where
  "validate_literal_task_requests wg note_label requested_ids selection pruned criteria available_nodes =
     validate_literals wg note_label requested_ids pruned criteria available_nodes
       (filter is_literal_pattern (ts_requested_tasks selection))"

section \<open>The selected subgraph\<close>

text \<open>The pending \<open>Vec\<close> is a stack.\<close>

definition dependency_ids :: "TaskGraph \<Rightarrow> TaskId \<Rightarrow> TaskId list" where
  "dependency_ids tg task_id = map tn_id (tg_dependencies_of tg task_id)"

lemma dependency_ids_in_range: "set (dependency_ids tg t) \<subseteq> (\<lambda>i. tn_id (tg_weight tg i)) ` Range (dg_rel (tg_graph tg) Outgoing)"
  by (auto simp: dependency_ids_def tg_dependencies_of_def split: option.splits)

function expand_deps_loop :: "TaskGraph \<Rightarrow> TaskId list \<Rightarrow> TaskId list \<Rightarrow> TaskId list" where
  "expand_deps_loop tg included to_visit =
     (if to_visit = [] then included
      else case push_unvisited (dependency_ids tg (last to_visit)) (included, butlast to_visit) of
        (included', to_visit') \<Rightarrow> expand_deps_loop tg included' to_visit')"
  by pat_completeness auto
termination
proof (relation "measure (\<lambda>(tg, V, P).
    2 * card ((\<lambda>i. tn_id (tg_weight tg i)) ` Range (dg_rel (tg_graph tg) Outgoing) - set V) + length P)")
  fix tg :: TaskGraph and V P V' P'
  assume P: "P \<noteq> []" and push: "(V', P') = push_unvisited (dependency_ids tg (last P)) (V, butlast P)"
  show "((tg, V', P'), tg, V, P) \<in> measure (\<lambda>(tg, V, P).
      2 * card ((\<lambda>i. tn_id (tg_weight tg i)) ` Range (dg_rel (tg_graph tg) Outgoing) - set V) + length P)"
    using search_measure_decreases[OF push[symmetric] dependency_ids_in_range finite_imageI[OF finite_Range_dg_rel], of P] P
    by (simp del: dg_rel.simps)
qed simp

declare expand_deps_loop.simps [simp del]

definition expand_with_dependencies :: "TaskGraph \<Rightarrow> TaskId list \<Rightarrow> TaskId list" where
  "expand_with_dependencies tg seed = expand_deps_loop tg seed seed"

definition selection_prunes ::
  "('g, 's) watch_globs \<Rightarrow> TaskNode list \<Rightarrow> TaskSelection \<Rightarrow> 's SelectionCriteria \<Rightarrow> TaskId list \<Rightarrow> PrunedTask list" where
  "selection_prunes wg available_nodes selection criteria requested_ids =
     map (\<lambda>node. \<lparr>pt_task_id = tn_id node, pt_outcome = Pruned (Some ''not in requested subgraph'')\<rparr>)
       (filter (\<lambda>node. tid_task (tn_id node) \<in> set (ts_requested_tasks selection) \<or> tid_task (tn_id node) \<in> tid_task ` set requested_ids)
         (filter (\<lambda>node. package_matches wg criteria (tn_id node))
           (filter (\<lambda>node. tn_id node \<notin> set requested_ids) available_nodes)))"

definition criteria_of :: "'s \<Rightarrow> 's \<Rightarrow> TaskSelection \<Rightarrow> SinceAffected option \<Rightarrow> 's SelectionCriteria" where
  "criteria_of task_globs package_globs selection affected =
     \<lparr>sc_task_globs = task_globs, sc_package_globs = package_globs,
      sc_match_all_non_root_packages = (ts_packages selection = []), sc_top_level = ts_top_level selection, sc_since_affected = affected\<rparr>"

definition collect_requested_subgraph ::
  "('g, 's) watch_globs \<Rightarrow> string \<Rightarrow> TaskGraph \<Rightarrow> TaskSelection \<Rightarrow> PrunedTask list \<Rightarrow> SinceAffected option \<Rightarrow> bool \<Rightarrow>
   string + string list \<times> TaskId list" where
  "collect_requested_subgraph wg note_label tg selection pruned affected expand_dependencies =
     bind_result (build_watch_globset wg (ts_packages selection)) (\<lambda>package_globs.
     bind_result (build_watch_globset wg (ts_requested_tasks selection)) (\<lambda>task_globs.
       let available_nodes = tg_nodes tg;
           criteria = criteria_of task_globs package_globs selection affected;
           requested_ids = collect_matching_task_ids wg available_nodes criteria
       in if ts_packages selection \<noteq> [] \<and> collect_matched_package_names wg available_nodes (ts_packages selection) package_globs = []
          then Inl (''No packages matched: ['' @ join_with '', '' (ts_packages selection) @ '']. -p matches package names, not paths.'')
          else
          bind_result (validate_literal_task_requests wg note_label requested_ids selection
              (pruned @ selection_prunes wg available_nodes selection criteria requested_ids) criteria available_nodes) (\<lambda>notes.
            if requested_ids = [] \<and> \<not> all_literal_task_requests (ts_requested_tasks selection)
            then Inl (''No tasks matched filter: packages=['' @ join_with '', '' (ts_packages selection) @ ''] tasks=['' @
                  join_with '', '' (ts_requested_tasks selection) @ '']'')
            else Inr (notes, if expand_dependencies then expand_with_dependencies tg requested_ids else requested_ids))))"

section \<open>Waves\<close>

text \<open>The pass over the dependencies of a task; the first argument is the recursive call.\<close>

fun depth_loop ::
  "(TaskId \<Rightarrow> (TaskId, nat) hmap \<Rightarrow> (nat \<times> (TaskId, nat) hmap) option) \<Rightarrow> TaskId list \<Rightarrow> TaskId list \<Rightarrow> nat \<Rightarrow> (TaskId, nat) hmap \<Rightarrow>
   (nat \<times> (TaskId, nat) hmap) option" where
  "depth_loop depth_of included [] wave wave_of = Some (wave, wave_of)"
| "depth_loop depth_of included (d # ds) wave wave_of =
     (if d \<notin> set included then depth_loop depth_of included ds wave wave_of
      else case depth_of d wave_of of None \<Rightarrow> None
         | Some (dependency_depth, wave_of') \<Rightarrow> depth_loop depth_of included ds (max wave (dependency_depth + 1)) wave_of')"

fun resolve_depth ::
  "TaskGraph \<Rightarrow> TaskId list \<Rightarrow> nat \<Rightarrow> TaskId \<Rightarrow> (TaskId, nat) hmap \<Rightarrow> (nat \<times> (TaskId, nat) hmap) option" where
  "resolve_depth tg included fuel task_id wave_of =
     (case map_of wave_of task_id of
        Some wave \<Rightarrow> Some (wave, wave_of)
      | None \<Rightarrow>
          (case fuel of 0 \<Rightarrow> None
           | Suc fuel' \<Rightarrow>
               (case depth_loop (resolve_depth tg included fuel') included (dependency_ids tg task_id) 0 wave_of of
                  None \<Rightarrow> None
                | Some (wave, wave_of') \<Rightarrow> Some (wave, AList.update task_id wave wave_of'))))"

declare resolve_depth.simps [simp del]

fun waves_loop ::
  "TaskGraph \<Rightarrow> TaskId list \<Rightarrow> TaskId list \<Rightarrow> (TaskId, nat) hmap \<Rightarrow> nat \<Rightarrow> ((TaskId, nat) hmap \<times> nat) option" where
  "waves_loop tg included [] wave_of max_depth = Some (wave_of, max_depth)"
| "waves_loop tg included (t # ts) wave_of max_depth =
     (case resolve_depth tg included (Suc (tg_node_count tg)) t wave_of of None \<Rightarrow> None
      | Some (wave, wave_of') \<Rightarrow> waves_loop tg included ts wave_of' (max max_depth wave))"

definition compute_longest_path_waves :: "TaskGraph \<Rightarrow> TaskId list \<Rightarrow> ((TaskId, nat) hmap \<times> nat) option" where
  "compute_longest_path_waves tg included =
     (if included = [] then Some ([], 0)
      else map_option (\<lambda>(wave_of, max_depth). (wave_of, max_depth + 1)) (waves_loop tg included included [] 0))"

definition compute_wave_indices :: "TaskGraph \<Rightarrow> TaskId list \<Rightarrow> ((TaskId, nat) hmap \<times> nat) option" where
  "compute_wave_indices tg tasks_to_run =
     map_option (\<lambda>(full_wave_of, total_waves).
       (filter (\<lambda>(task_id, _). case tg_task_definition tg task_id of Some d \<Rightarrow> counts_in_progress d | None \<Rightarrow> False) full_wave_of, total_waves))
       (compute_longest_path_waves tg tasks_to_run)"

definition compute_execution_waves :: "TaskGraph \<Rightarrow> TaskId list \<Rightarrow> TaskId list list option" where
  "compute_execution_waves tg tasks_to_run =
     map_option (\<lambda>(wave_of, total_waves).
       map (\<lambda>i. sort_key task_id_to_string (map fst (filter (\<lambda>(_, wave_index). wave_index = i) wave_of))) [0..<total_waves])
       (compute_longest_path_waves tg tasks_to_run)"

section \<open>The dry-run plan\<close>

datatype Paint = Red | Dimmed

definition describe_planned_action ::
  "(Paint \<Rightarrow> string \<Rightarrow> string) \<Rightarrow> (TaskId, ExecutionRequest) hmap \<Rightarrow> (TaskId, string) hmap \<Rightarrow> TaskSelection \<Rightarrow> TaskId \<Rightarrow> string option" where
  "describe_planned_action paint commands invalid selection task_id =
     (case map_of invalid task_id of
        Some message \<Rightarrow> Some (paint Red ''config error'' @ '' ('' @ message @ '')'')
      | None \<Rightarrow>
          (case map_of commands task_id of
             Some request \<Rightarrow>
               let worker = (case er_worker request of Some name \<Rightarrow> ''worker '' @ sq @ name @ sq | None \<Rightarrow> ''no worker'') in
               Some (paint Dimmed (er_command request) @ '' via '' @ paint Dimmed worker)
           | None \<Rightarrow>
               if ts_top_level selection \<and> task_is_root task_id then Some (paint Dimmed ''(ordering task)'') else None))"

definition compute_displayed_dry_run_waves ::
  "(Paint \<Rightarrow> string \<Rightarrow> string) \<Rightarrow> TaskGraph \<Rightarrow> TaskId list \<Rightarrow> (TaskId, ExecutionRequest) hmap \<Rightarrow> (TaskId, string) hmap \<Rightarrow> TaskSelection \<Rightarrow>
   (TaskId \<times> string) list list option" where
  "compute_displayed_dry_run_waves paint tg tasks_to_run commands invalid selection =
     map_option (\<lambda>waves. filter (\<lambda>wave. wave \<noteq> [])
         (map (List.map_filter (\<lambda>task_id. map_option (Pair task_id) (describe_planned_action paint commands invalid selection task_id))) waves))
       (compute_execution_waves tg tasks_to_run)"

definition compute_prefix_width :: "TaskGraph \<Rightarrow> TaskId list \<Rightarrow> nat" where
  "compute_prefix_width tg tasks_to_run =
     fold max (map (\<lambda>node. length (task_id_to_string (tn_id node))) (filter (\<lambda>node. tn_id node \<in> set tasks_to_run) (tg_nodes tg))) 0"

section \<open>What is selected\<close>

lemma dependency_ids_set: "wf_task_graph tg \<Longrightarrow> set (dependency_ids tg t) = tg_rel tg `` {t}"
  using tg_dependencies_of_ids[of tg t] by (simp add: dependency_ids_def)

lemma expand_deps_loop_reaches:
  "wf_task_graph tg \<Longrightarrow> search_inv (tg_rel tg) S V P \<Longrightarrow>
    set (expand_deps_loop tg V P) = (tg_rel tg)\<^sup>* `` S \<and> distinct (expand_deps_loop tg V P)"
proof (induction tg V P rule: expand_deps_loop.induct)
  case (1 tg V P)
  show ?case
  proof (cases "P = []")
    case True
    moreover have "distinct V" using 1(3) by (simp add: search_inv_def)
    ultimately show ?thesis using 1(3) search_inv_done[of "tg_rel tg" S V] by (simp add: expand_deps_loop.simps[of tg V "[]"])
  next
    case False
    obtain V' P' where push: "push_unvisited (dependency_ids tg (last P)) (V, butlast P) = (V', P')" by fastforce
    have "set P = insert (last P) (set (butlast P))"
      using False by (metis append_butlast_last_id list.set(1,2) set_append sup_bot_right Un_insert_right)
    then have "search_inv (tg_rel tg) S V' P'"
      by (rule search_inv_step[OF 1(3) _ _ push]) (rule dependency_ids_set[OF 1(2)])
    then show ?thesis using 1(1)[OF False push[symmetric]] 1(2) False push by (simp add: expand_deps_loop.simps[of tg V P])
  qed
qed

lemma expand_with_dependencies_set:
  assumes "wf_task_graph tg" "distinct seed"
  shows "set (expand_with_dependencies tg seed) = (tg_rel tg)\<^sup>* `` set seed \<and> distinct (expand_with_dependencies tg seed)"
  using assms expand_deps_loop_reaches[of tg "set seed" seed seed]
  by (auto simp: expand_with_dependencies_def search_inv_def)

text \<open>The scope of the command line: package tasks, or with the top-level flag the root tasks, and both if packages are named; and
  what \<open>--since\<close> leaves.\<close>

definition in_scope :: "('g, 's) globs \<Rightarrow> TaskSelection \<Rightarrow> TaskId \<Rightarrow> bool" where
  "in_scope api selection t \<longleftrightarrow>
     (if task_is_root t then ts_top_level selection
      else if ts_packages selection = [] then \<not> ts_top_level selection
      else some_glob_matches api (ts_packages selection) (tid_package t))"

definition passes_since :: "SinceAffected option \<Rightarrow> TaskId \<Rightarrow> bool" where
  "passes_since affected t \<longleftrightarrow>
     (case affected of None \<Rightarrow> True
      | Some a \<Rightarrow> if task_is_root t then root_task_passes a (tid_task t) else tid_package t \<in> set (sa_packages a))"

definition goals :: "('g, 's) globs \<Rightarrow> TaskGraph \<Rightarrow> TaskSelection \<Rightarrow> SinceAffected option \<Rightarrow> TaskId set" where
  "goals api tg selection affected =
     {t \<in> tg_ids tg. some_glob_matches api (ts_requested_tasks selection) (tid_task t) \<and> in_scope api selection t \<and> passes_since affected t}"

text \<open>A literal request without goal is explained if the task was pruned in scope, or only \<open>--since\<close> excludes it.\<close>

definition explained ::
  "('g, 's) globs \<Rightarrow> TaskGraph \<Rightarrow> TaskSelection \<Rightarrow> PrunedTask list \<Rightarrow> SinceAffected option \<Rightarrow> string \<Rightarrow> bool" where
  "explained api tg selection pruned affected name \<longleftrightarrow>
     (\<exists>p \<in> set pruned. tid_task (pt_task_id p) = name \<and> in_scope api selection (pt_task_id p) \<and> passes_since affected (pt_task_id p)) \<or>
     (\<exists>t \<in> tg_ids tg. tid_task t = name \<and> in_scope api selection t \<and> \<not> passes_since affected t)"

definition compiles :: "('g, 's) watch_globs \<Rightarrow> string list \<Rightarrow> bool" where
  "compiles wg ps \<longleftrightarrow> (\<exists>s. build_watch_globset wg ps = Inr s)"

text \<open>A literal pattern matches the name that it spells, and no other.\<close>

definition literals_exact :: "('g, 's) globs \<Rightarrow> bool" where
  "literals_exact api \<longleftrightarrow>
     (\<forall>p g name. is_literal_pattern p \<longrightarrow> api_build_glob api p = Inr g \<longrightarrow> api_glob_match api g name = (name = p))"

lemma build_watch_globset_matches:
  assumes "globset_laws (wg_api wg)" "build_watch_globset wg ps = Inr s"
  shows "api_set_match (wg_api wg) s name \<longleftrightarrow> some_glob_matches (wg_api wg) ps name"
proof -
  obtain gs where gs: "list_all2 (\<lambda>p g. api_build_glob (wg_api wg) p = Inr g) ps gs" "api_build_set (wg_api wg) gs = Inr s"
    using assms(2) by (auto simp: build_watch_globset_def bind_result_Inr_iff map_result_Inr map_err_Inr)
  have "(\<exists>g \<in> set gs. P g) \<longleftrightarrow> (\<exists>p \<in> set ps. \<exists>g. api_build_glob (wg_api wg) p = Inr g \<and> P g)" for P
    using gs(1) by (induction rule: list_all2_induct) auto
  then show ?thesis
    using globset_laws.set_match[OF assms(1) gs(2)] by (simp add: some_glob_matches_def build_path_glob_def)
qed

lemma built_pattern: "build_watch_globset wg ps = Inr s \<Longrightarrow> p \<in> set ps \<Longrightarrow> \<exists>g. api_build_glob (wg_api wg) p = Inr g"
  by (auto simp: build_watch_globset_def bind_result_Inr_iff map_result_Inr map_err_Inr list_all2_conv_all_nth in_set_conv_nth)

lemma package_matches_iff:
  assumes "globset_laws (wg_api wg)" "build_watch_globset wg (ts_packages selection) = Inr pg"
  shows "package_matches wg (criteria_of tgs pg selection affected) t \<longleftrightarrow>
    in_scope (wg_api wg) selection t \<and> passes_since affected t"
  using build_watch_globset_matches[OF assms]
  by (auto simp: package_matches_def criteria_of_def in_scope_def passes_since_def Let_def contains_package_def split: option.splits)

lemma matching_ids:
  assumes "globset_laws (wg_api wg)" "build_watch_globset wg (ts_packages selection) = Inr pg"
    "build_watch_globset wg (ts_requested_tasks selection) = Inr tgs"
  shows "set (collect_matching_task_ids wg (tg_nodes tg) (criteria_of tgs pg selection affected)) =
    goals (wg_api wg) tg selection affected"
  using package_matches_iff[OF assms(1,2)] build_watch_globset_matches[OF assms(1,3)]
  by (auto simp: collect_matching_task_ids_def goals_def tg_ids_def tg_nodes_def criteria_of_def)

lemma validate_literals_iff:
  "(\<exists>ns. validate_literals wg label ids pruned criteria nodes rs = Inr ns) \<longleftrightarrow>
     (\<forall>r \<in> set rs. r \<in> tid_task ` set ids \<or> (\<exists>n. report_unmatched_request wg label r pruned criteria nodes = Inr n))"
proof (induction rs)
  case (Cons r rs)
  have map: "(\<exists>y. map_sum id f z = Inr y) \<longleftrightarrow> (\<exists>y. z = Inr y)" for f :: "string list \<Rightarrow> string list" and z :: "string + string list"
    by (cases z) auto
  show ?case
    using Cons by (cases "report_unmatched_request wg label r pruned criteria nodes") (auto simp: list_ex_iff image_iff map)
qed simp

lemma criteria_of_since [simp]: "sc_since_affected (criteria_of tgs pg selection affected) = affected"
  by (simp add: criteria_of_def)

lemma report_unmatched_iff:
  assumes "globset_laws (wg_api wg)" "build_watch_globset wg (ts_packages selection) = Inr pg"
  shows "(\<exists>n. report_unmatched_request wg label r pruned (criteria_of tgs pg selection affected) (tg_nodes tg) = Inr n) \<longleftrightarrow>
    explained (wg_api wg) tg selection pruned affected r"
proof -
  note matches = package_matches_iff[OF assms]
  have "(criteria_of tgs pg selection affected)\<lparr>sc_since_affected := None\<rparr> = criteria_of tgs pg selection None"
    by (simp add: criteria_of_def)
  then have "filtered_by_since_note wg label r (criteria_of tgs pg selection affected) (tg_nodes tg) \<noteq> None \<longleftrightarrow>
      (\<exists>t \<in> tg_ids tg. tid_task t = r \<and> in_scope (wg_api wg) selection t \<and> \<not> passes_since affected t)"
    by (cases affected)
      (auto simp: filtered_by_since_note_def matches list_ex_iff tg_ids_def tg_nodes_def passes_since_def Let_def)
  then show ?thesis
    unfolding explained_def report_unmatched_request_def by (auto simp: matches list_ex_iff split: option.splits)
qed

text \<open>The entries that the code adds for tasks outside the selection never explain a literal request.\<close>

lemma selection_prunes_idle:
  assumes "globset_laws (wg_api wg)" "literals_exact (wg_api wg)"
    "build_watch_globset wg (ts_packages selection) = Inr pg" "build_watch_globset wg (ts_requested_tasks selection) = Inr tgs"
    and r: "r \<in> set (ts_requested_tasks selection)" "is_literal_pattern r" "r \<notin> tid_task ` goals (wg_api wg) tg selection affected"
    and ids: "set ids = goals (wg_api wg) tg selection affected"
  shows "explained (wg_api wg) tg selection
      (pruned @ selection_prunes wg (tg_nodes tg) selection (criteria_of tgs pg selection affected) ids) affected r \<longleftrightarrow>
    explained (wg_api wg) tg selection pruned affected r"
proof -
  obtain g where "api_build_glob (wg_api wg) r = Inr g" using built_pattern[OF assms(4) r(1)] by blast
  moreover from this have "api_glob_match (wg_api wg) g r" using assms(2) r(2) by (simp add: literals_exact_def)
  ultimately have some: "some_glob_matches (wg_api wg) (ts_requested_tasks selection) r"
    using r(1) by (auto simp: some_glob_matches_def build_path_glob_def)
  have "\<not> (tid_task t = r \<and> t \<in> tg_ids tg \<and> in_scope (wg_api wg) selection t \<and> passes_since affected t)" for t
    using r(3) some by (force simp: goals_def)
  then show ?thesis
    using package_matches_iff[OF assms(1,3)]
    by (fastforce simp: explained_def selection_prunes_def tg_ids_def tg_nodes_def)
qed

lemma no_matched_packages:
  assumes "globset_laws (wg_api wg)" "build_watch_globset wg ps = Inr pg" "ps \<noteq> []"
  shows "collect_matched_package_names wg (tg_nodes tg) ps pg = [] \<longleftrightarrow>
    \<not> (\<exists>t \<in> tg_ids tg. \<not> task_is_root t \<and> some_glob_matches (wg_api wg) ps (tid_package t))"
  using build_watch_globset_matches[OF assms(1,2)] assms(3)
  by (auto simp: collect_matched_package_names_def filter_empty_conv tg_ids_def tg_nodes_def)

text \<open>Why a selection is refused, over patterns that compile.\<close>

definition selection_refused ::
  "('g, 's) globs \<Rightarrow> TaskGraph \<Rightarrow> TaskSelection \<Rightarrow> PrunedTask list \<Rightarrow> SinceAffected option \<Rightarrow> bool" where
  "selection_refused api tg selection pruned affected \<longleftrightarrow>
     ts_packages selection \<noteq> [] \<and>
       \<not> (\<exists>t \<in> tg_ids tg. \<not> task_is_root t \<and> some_glob_matches api (ts_packages selection) (tid_package t)) \<or>
     (\<exists>r \<in> set (ts_requested_tasks selection). is_literal_pattern r \<and> r \<notin> tid_task ` goals api tg selection affected \<and>
        \<not> explained api tg selection pruned affected r) \<or>
     goals api tg selection affected = {} \<and> \<not> all_literal_task_requests (ts_requested_tasks selection)"

lemma collect_compiled:
  assumes "globset_laws (wg_api wg)" "literals_exact (wg_api wg)" "wf_task_graph tg"
    "build_watch_globset wg (ts_packages selection) = Inr pg" "build_watch_globset wg (ts_requested_tasks selection) = Inr tgs"
  shows "(\<exists>e. collect_requested_subgraph wg label tg selection pruned affected expand = Inl e) \<longleftrightarrow>
      selection_refused (wg_api wg) tg selection pruned affected"
    and "collect_requested_subgraph wg label tg selection pruned affected expand = Inr (notes, ids) \<Longrightarrow>
      set ids = (if expand then (tg_rel tg)\<^sup>* `` goals (wg_api wg) tg selection affected else goals (wg_api wg) tg selection affected)"
proof -
  let ?c = "criteria_of tgs pg selection affected" and ?G = "goals (wg_api wg) tg selection affected"
  let ?ids = "collect_matching_task_ids wg (tg_nodes tg) ?c"
  let ?pr = "pruned @ selection_prunes wg (tg_nodes tg) selection ?c ?ids"
  let ?v = "validate_literal_task_requests wg label ?ids selection ?pr ?c (tg_nodes tg)"
  note ids = matching_ids[OF assms(1,4,5), of tg affected]
  have "(\<exists>ns. ?v = Inr ns) \<longleftrightarrow> (\<forall>r \<in> set (ts_requested_tasks selection). is_literal_pattern r \<longrightarrow>
      r \<in> tid_task ` ?G \<or> explained (wg_api wg) tg selection pruned affected r)"
    unfolding validate_literal_task_requests_def validate_literals_iff ids report_unmatched_iff[OF assms(1,4)]
    using selection_prunes_idle[OF assms(1,2,4,5) _ _ _ ids] by auto
  moreover have "?ids = [] \<longleftrightarrow> ?G = {}" using ids by (metis set_empty)
  moreover have "\<not> (\<exists>ns. ?v = Inr ns) \<longleftrightarrow> (\<exists>e. ?v = Inl e)" by (cases ?v) auto
  ultimately show "(\<exists>e. collect_requested_subgraph wg label tg selection pruned affected expand = Inl e) \<longleftrightarrow>
      selection_refused (wg_api wg) tg selection pruned affected"
    using assms(4,5) no_matched_packages[OF assms(1,4), of tg]
    by (cases ?v) (auto simp: collect_requested_subgraph_def Let_def selection_refused_def)
  have "distinct ?ids" by (simp add: collect_matching_task_ids_def)
  then show "set ids = (if expand then (tg_rel tg)\<^sup>* `` ?G else ?G)"
    if "collect_requested_subgraph wg label tg selection pruned affected expand = Inr (notes, ids)"
    using that assms(4,5) ids expand_with_dependencies_set[OF assms(3), of ?ids]
    by (auto simp: collect_requested_subgraph_def Let_def bind_result_Inr_iff split: if_splits)
qed

section \<open>Longest paths\<close>

text \<open>The edges within the selection; the wave of a task is the length of a longest path from it.\<close>

definition selected_rel :: "TaskGraph \<Rightarrow> TaskId set \<Rightarrow> (TaskId \<times> TaskId) set" where
  "selected_rel tg S = tg_rel tg \<inter> S \<times> S"

definition longest_path :: "TaskGraph \<Rightarrow> TaskId set \<Rightarrow> TaskId \<Rightarrow> nat" where
  "longest_path tg S t = Max {n. \<exists>u. (t, u) \<in> selected_rel tg S ^^ n}"

lemma path_depth:
  assumes "wf_task_graph tg" "acyclic (tg_rel tg)"
  shows "(t, u) \<in> selected_rel tg S ^^ n \<Longrightarrow> n + depth tg u \<le> depth tg t"
proof (induction n arbitrary: u)
  case (Suc n)
  then obtain v where "(t, v) \<in> selected_rel tg S ^^ n" "(v, u) \<in> tg_rel tg" by (auto simp: selected_rel_def)
  then show ?case using Suc.IH[of v] depth_less[OF assms, of v u] by simp
qed simp

lemma longest_path_facts:
  assumes "wf_task_graph tg" "acyclic (tg_rel tg)"
  shows "(t, u) \<in> selected_rel tg S ^^ n \<Longrightarrow> n \<le> longest_path tg S t"
    and "\<exists>u. (t, u) \<in> selected_rel tg S ^^ longest_path tg S t"
proof -
  let ?N = "{n. \<exists>u. (t, u) \<in> selected_rel tg S ^^ n}"
  have "?N \<subseteq> {..depth tg t}" using path_depth[OF assms] by fastforce
  then have fin: "finite ?N" by (rule finite_subset) simp
  then show "n \<le> longest_path tg S t" if "(t, u) \<in> selected_rel tg S ^^ n" unfolding longest_path_def using that by (intro Max_ge) auto
  have "0 \<in> ?N" by simp
  then have "Max ?N \<in> ?N" using Max_in[OF fin] by blast
  then show "\<exists>u. (t, u) \<in> selected_rel tg S ^^ longest_path tg S t" by (simp add: longest_path_def)
qed

lemma longest_path_edge:
  assumes "wf_task_graph tg" "acyclic (tg_rel tg)" "(t, d) \<in> selected_rel tg S"
  shows "longest_path tg S d < longest_path tg S t"
proof -
  obtain u where "(d, u) \<in> selected_rel tg S ^^ longest_path tg S d" using longest_path_facts(2)[OF assms(1,2)] by blast
  then have "(t, u) \<in> selected_rel tg S ^^ Suc (longest_path tg S d)" using assms(3) by (meson relpow_Suc_I2)
  from longest_path_facts(1)[OF assms(1,2) this] show ?thesis by simp
qed

lemma longest_path_next:
  assumes "wf_task_graph tg" "acyclic (tg_rel tg)" "longest_path tg S t = Suc n"
  shows "\<exists>d. (t, d) \<in> selected_rel tg S \<and> longest_path tg S d = n"
proof -
  obtain u where "(t, u) \<in> selected_rel tg S ^^ Suc n" using longest_path_facts(2)[OF assms(1,2), of t S] assms(3) by auto
  then obtain d where d: "(t, d) \<in> selected_rel tg S" "(d, u) \<in> selected_rel tg S ^^ n" by (meson relpow_Suc_D2)
  then show ?thesis
    using longest_path_facts(1)[OF assms(1,2) d(2)] longest_path_edge[OF assms(1,2) d(1)] assms(3) by force
qed

text \<open>The maximum that the pass over the dependencies computes.\<close>

lemma fold_max_eq: "fold (\<lambda>d a. max a (f d)) ds a = Max (insert a (f ` set ds))" for f :: "'a \<Rightarrow> nat"
proof (induction ds arbitrary: a)
  case (Cons d ds)
  have "Max (insert (max a (f d)) (f ` set ds)) = Max (insert a (insert (f d) (f ` set ds)))"
    by (cases "set ds = {}") (simp_all add: ac_simps)
  then show ?case using Cons by simp
qed simp

lemma longest_path_step:
  assumes "wf_task_graph tg" "acyclic (tg_rel tg)" "t \<in> set included"
  shows "fold (\<lambda>d a. max a (longest_path tg (set included) d + 1)) (filter (\<lambda>d. d \<in> set included) (dependency_ids tg t)) 0 =
    longest_path tg (set included) t"
  unfolding fold_max_eq
proof (rule Max_eqI)
  let ?L = "longest_path tg (set included)"
  have deps: "d \<in> set (filter (\<lambda>d. d \<in> set included) (dependency_ids tg t)) \<longleftrightarrow> (t, d) \<in> selected_rel tg (set included)" for d
    using assms(3) by (auto simp: dependency_ids_set[OF assms(1)] selected_rel_def)
  show "n \<le> ?L t" if "n \<in> insert 0 ((\<lambda>d. ?L d + 1) ` set (filter (\<lambda>d. d \<in> set included) (dependency_ids tg t)))" for n
    using that longest_path_edge[OF assms(1,2)] by (auto simp only: deps insert_iff image_iff) (metis Suc_eq_plus1 Suc_leI)
  show "?L t \<in> insert 0 ((\<lambda>d. ?L d + 1) ` set (filter (\<lambda>d. d \<in> set included) (dependency_ids tg t)))"
  proof (cases "?L t")
    case (Suc n)
    then obtain d where "(t, d) \<in> selected_rel tg (set included)" "?L d = n" using longest_path_next[OF assms(1,2)] by blast
    then show ?thesis using Suc by (auto simp only: deps insert_iff image_iff intro!: bexI[of _ d])
  qed simp
qed simp

definition wave_memo :: "TaskGraph \<Rightarrow> TaskId list \<Rightarrow> (TaskId, nat) hmap \<Rightarrow> bool" where
  "wave_memo tg included m \<longleftrightarrow> (\<forall>k n. map_of m k = Some n \<longrightarrow> k \<in> set included \<and> longest_path tg (set included) k = n) \<and> distinct (map fst m)"

definition wave_memo_from :: "TaskGraph \<Rightarrow> TaskId list \<Rightarrow> (TaskId, nat) hmap \<Rightarrow> (TaskId, nat) hmap \<Rightarrow> bool" where
  "wave_memo_from tg included m0 m \<longleftrightarrow> wave_memo tg included m \<and> map_of m0 \<subseteq>\<^sub>m map_of m"

lemma depth_loop_value:
  assumes "\<forall>d \<in> set ds \<inter> set included. memo_right val ok depth_of d" and "ok memo"
  shows "\<exists>memo'. depth_loop depth_of included ds a memo =
      Some (fold (\<lambda>d a. max a (val d + 1)) (filter (\<lambda>d. d \<in> set included) ds) a, memo') \<and> ok memo'"
  using assms
proof (induction ds arbitrary: a memo)
  case (Cons d ds)
  show ?case
  proof (cases "d \<in> set included")
    case True
    then obtain memo1 where m1: "depth_of d memo = Some (val d, memo1)" "ok memo1" using Cons.prems by (auto simp: memo_right_def)
    then show ?thesis using Cons.IH[of memo1 "max a (val d + 1)"] Cons.prems(1) True by simp
  next
    case False
    then show ?thesis using Cons.IH[of memo a] Cons.prems by simp
  qed
qed simp

lemma resolve_depth_memo: "resolve_depth tg included fuel t memo = Some (n, memo') \<Longrightarrow> map_of memo' t = Some n"
  by (subst (asm) resolve_depth.simps) (auto simp: hmap_simps split: option.splits nat.splits)

lemma resolve_depth_value:
  assumes "wf_task_graph tg" "acyclic (tg_rel tg)"
  shows "depth tg t < fuel \<Longrightarrow> t \<in> set included \<Longrightarrow>
    memo_right (longest_path tg (set included)) (wave_memo_from tg included m0) (resolve_depth tg included fuel) t"
proof (induction fuel arbitrary: t)
  case (Suc fuel)
  let ?L = "longest_path tg (set included)" and ?ok = "wave_memo_from tg included m0"
  have "\<exists>memo'. resolve_depth tg included (Suc fuel) t memo = Some (?L t, memo') \<and> ?ok memo'" if ok: "?ok memo" for memo
  proof (cases "map_of memo t")
    case (Some n)
    then show ?thesis using ok by (subst resolve_depth.simps) (auto simp: wave_memo_from_def wave_memo_def)
  next
    case None
    have "\<forall>d \<in> set (dependency_ids tg t) \<inter> set included. memo_right ?L ?ok (resolve_depth tg included fuel) d"
      using Suc.IH Suc.prems(1) depth_less[OF assms] by (fastforce simp: dependency_ids_set[OF assms(1)])
    from depth_loop_value[OF this ok, of 0] obtain memo1 where m1:
      "depth_loop (resolve_depth tg included fuel) included (dependency_ids tg t) 0 memo = Some (?L t, memo1)" "?ok memo1"
      unfolding longest_path_step[OF assms Suc.prems(2)] by blast
    have "map_of m0 t = None" using ok None by (metis domIff map_le_def wave_memo_from_def)
    then have "?ok (AList.update t (?L t) memo1)"
      using m1(2) Suc.prems(2) by (auto simp: wave_memo_from_def wave_memo_def hmap_simps map_le_def)
    then show ?thesis using None m1(1) by (subst resolve_depth.simps) simp
  qed
  then show ?case by (simp add: memo_right_def)
qed simp

lemma waves_loop_value:
  assumes "wf_task_graph tg" "acyclic (tg_rel tg)" "set ts \<subseteq> set included" "wave_memo tg included m"
  shows "\<exists>m'. waves_loop tg included ts m k = Some (m', fold (\<lambda>t a. max a (longest_path tg (set included) t)) ts k) \<and>
    wave_memo tg included m' \<and> map_of m \<subseteq>\<^sub>m map_of m' \<and> set ts \<subseteq> dom (map_of m')"
  using assms(3,4)
proof (induction ts arbitrary: m k)
  case (Cons t ts)
  have "depth tg t < Suc (tg_node_count tg)" using depth_bound(1)[OF assms(1), of t] by simp
  from resolve_depth_value[OF assms(1,2) this, of included m] Cons.prems obtain m1 where m1:
    "resolve_depth tg included (Suc (tg_node_count tg)) t m = Some (longest_path tg (set included) t, m1)" "wave_memo_from tg included m m1"
    by (auto simp: memo_right_def wave_memo_from_def)
  moreover have "map_of m1 t \<noteq> None" using resolve_depth_memo[OF m1(1)] by simp
  ultimately show ?case
    using Cons.IH[of m1 "max k (longest_path tg (set included) t)"] Cons.prems(1)
    by (auto simp: wave_memo_from_def intro: map_le_trans) (metis domI domIff map_le_def map_le_trans not_None_eq)+
qed simp

lemma fold_max_ge: "(n :: nat) \<le> fold (\<lambda>t a. max a (f t)) ts k \<longleftrightarrow> n \<le> k \<or> (\<exists>t \<in> set ts. n \<le> f t)"
  by (induction ts arbitrary: k) (auto simp: le_max_iff_disj)

text \<open>The map of waves has the selected tasks, each with its longest path, and one more wave than the longest of them.\<close>

lemma longest_path_waves_value:
  assumes "wf_task_graph tg" "acyclic (tg_rel tg)"
  shows "\<exists>wave_of total. compute_longest_path_waves tg included = Some (wave_of, total) \<and> wave_memo tg included wave_of \<and>
    dom (map_of wave_of) = set included \<and> (\<forall>i. i < total \<longleftrightarrow> (\<exists>t \<in> set included. i \<le> longest_path tg (set included) t))"
proof (cases "included = []")
  case False
  have "wave_memo tg included []" by (simp add: wave_memo_def)
  from waves_loop_value[OF assms order_refl this, of 0] obtain m where m:
    "waves_loop tg included included [] 0 = Some (m, fold (\<lambda>t a. max a (longest_path tg (set included) t)) included 0)"
    "wave_memo tg included m" "set included \<subseteq> dom (map_of m)" by blast
  then have "dom (map_of m) = set included" by (auto simp: wave_memo_def)
  moreover have "i < fold (\<lambda>t a. max a (longest_path tg (set included) t)) included 0 + 1 \<longleftrightarrow>
      (\<exists>t \<in> set included. i \<le> longest_path tg (set included) t)" for i
    using False fold_max_ge[of i "longest_path tg (set included)" included 0]
    by (cases included) (auto simp: less_Suc_eq_le)
  ultimately show ?thesis using False m(1,2) by (simp add: compute_longest_path_waves_def)
qed (simp add: compute_longest_path_waves_def wave_memo_def)

lemma longest_path_below:
  assumes "wf_task_graph tg" "acyclic (tg_rel tg)"
  shows "t \<in> S \<Longrightarrow> i \<le> longest_path tg S t \<Longrightarrow> \<exists>u \<in> S. longest_path tg S u = i"
proof (induction "longest_path tg S t" arbitrary: t)
  case (Suc n)
  show ?case
  proof (cases "i = longest_path tg S t")
    case False
    obtain d where "(t, d) \<in> selected_rel tg S" "longest_path tg S d = n" using longest_path_next[OF assms Suc(2)[symmetric]] by blast
    then show ?thesis using Suc.hyps(1)[of d] Suc.hyps(2) Suc.prems False by (auto simp: selected_rel_def)
  qed (use Suc in blast)
qed auto

lemma distinct_concat_disjoint:
  assumes "\<And>i. distinct (f i)" "\<And>i j. i \<noteq> j \<Longrightarrow> set (f i) \<inter> set (f j) = {}"
  shows "distinct (concat (map f [0..<n]))"
proof (induction n)
  case (Suc n)
  have "set (concat (map f [0..<n])) \<inter> set (f n) = {}" using assms(2)[of _ n] by fastforce
  then show ?case using Suc assms(1) by simp
qed simp

section \<open>Properties\<close>

text \<open>C35: Selecting tasks yields exactly the tasks of the graph whose name matches a requested pattern, which are in the scope of the
  package patterns and the top-level flag, and which \<open>--since\<close> leaves, together with all they depend on. It is refused
  exactly if a pattern does not compile, the package patterns match no package with tasks, a literal request has no goal although
  it was neither pruned nor excluded by \<open>--since\<close> in that scope, or there is no goal and not only literal requests.\<close>

theorem task_selection_correct:
  assumes "globset_laws (wg_api wg)" and "literals_exact (wg_api wg)" and "wf_task_graph tg"
  shows "((\<exists>e. collect_requested_subgraph wg label tg selection pruned affected expand = Inl e) \<longleftrightarrow>
      \<not> compiles wg (ts_packages selection) \<or> \<not> compiles wg (ts_requested_tasks selection) \<or>
      selection_refused (wg_api wg) tg selection pruned affected) \<and>
    (\<forall>notes ids. collect_requested_subgraph wg label tg selection pruned affected expand = Inr (notes, ids) \<longrightarrow>
      set ids = (if expand then (tg_rel tg)\<^sup>* `` goals (wg_api wg) tg selection affected else goals (wg_api wg) tg selection affected))"
proof (cases "compiles wg (ts_packages selection) \<and> compiles wg (ts_requested_tasks selection)")
  case True
  then obtain pg tgs where "build_watch_globset wg (ts_packages selection) = Inr pg" "build_watch_globset wg (ts_requested_tasks selection) = Inr tgs"
    by (auto simp: compiles_def)
  from collect_compiled[OF assms this] show ?thesis using True by blast
next
  case False
  then have "\<exists>e. collect_requested_subgraph wg label tg selection pruned affected expand = Inl e"
    by (cases "build_watch_globset wg (ts_packages selection)"; cases "build_watch_globset wg (ts_requested_tasks selection)")
      (auto simp: collect_requested_subgraph_def compiles_def)
  then show ?thesis using False by auto
qed

text \<open>A request for one task of a package, and one for a task that does not exist.\<close>

definition any_watch :: "(string, string list) watch_globs" where
  "any_watch = \<lparr>wg_api = any_globset, wg_is_empty = (\<lambda>gs. gs = [])\<rparr>"

lemma any_globset_laws: "globset_laws any_globset" "literals_exact any_globset"
proof -
  show "globset_laws any_globset" by unfold_locales (simp add: any_globset_def)
  have "\<not> is_literal_pattern ''**/*''" by (simp add: is_literal_pattern_def)
  then show "literals_exact any_globset" unfolding literals_exact_def any_globset_def by fastforce
qed

definition request_for_tasks :: "string list \<Rightarrow> TaskSelection" where
  "request_for_tasks names = \<lparr>ts_requested_tasks = names, ts_packages = [], ts_top_level = False, ts_since = None\<rparr>"

lemma request_goals: "goals any_globset ex_connected (request_for_tasks names) None = {t \<in> {ex_app, ex_all, ex_gen}. ''**/*'' \<in> set names \<or> tid_task t \<in> set names}"
  by (auto simp: goals_def ex_ids some_glob_matches_def build_path_glob_def any_globset_def request_for_tasks_def in_scope_def
      passes_since_def task_is_root_def package_is_root_def ROOT_PACKAGE_NAME_def)

theorem task_selection_correct_witness:
  "(\<exists>notes ids. collect_requested_subgraph any_watch ''note:'' ex_connected (request_for_tasks [''build'']) [] None True = Inr (notes, ids) \<and>
      {ex_app, ex_all, ex_gen} \<subseteq> set ids) \<and>
   (\<exists>e. collect_requested_subgraph any_watch ''note:'' ex_connected (request_for_tasks [''lint'']) [] None True = Inl e)"
proof -
  have laws: "globset_laws (wg_api any_watch)" "literals_exact (wg_api any_watch)" using any_globset_laws by (simp_all add: any_watch_def)
  note selected = task_selection_correct[OF laws ex_connected_wf, of "''note:''" "request_for_tasks _" "[]" None True]
  have compiles: "compiles any_watch ps" for ps
  proof -
    have "map_result (\<lambda>p. map_err f (Inr p)) ps = Inr ps" for f :: "string \<Rightarrow> string"
      by (induction ps) (simp_all add: map_err_def)
    then show ?thesis by (simp add: compiles_def build_watch_globset_def any_watch_def any_globset_def map_err_def)
  qed
  have api: "wg_api any_watch = any_globset" by (simp add: any_watch_def)
  have build: "goals any_globset ex_connected (request_for_tasks [''build'']) None = {ex_app}"
    and lint: "goals any_globset ex_connected (request_for_tasks [''lint'']) None = {}"
    unfolding request_goals by auto
  have literal: "is_literal_pattern ''build''" "is_literal_pattern ''lint''" by (simp_all add: is_literal_pattern_def)
  have "\<not> selection_refused any_globset ex_connected (request_for_tasks [''build'']) [] None"
    unfolding selection_refused_def build by (simp add: request_for_tasks_def)
  then obtain r where r: "collect_requested_subgraph any_watch ''note:'' ex_connected (request_for_tasks [''build'']) [] None True = Inr r"
    using selected[of "[''build'']"] compiles unfolding api
    by (cases "collect_requested_subgraph any_watch ''note:'' ex_connected (request_for_tasks [''build'']) [] None True") auto
  then have "set (snd r) = (tg_rel ex_connected)\<^sup>* `` {ex_app}"
    using selected[of "[''build'']"] build unfolding api by (cases r) auto
  moreover have "(ex_app, ex_all) \<in> (tg_rel ex_connected)\<^sup>*" "(ex_app, ex_gen) \<in> (tg_rel ex_connected)\<^sup>*"
    unfolding ex_connected_rel by (rule r_into_rtrancl, simp) (rule rtrancl_trans[of _ ex_all], (rule r_into_rtrancl, simp)+)
  ultimately have "{ex_app, ex_all, ex_gen} \<subseteq> set (snd r)" by auto
  moreover have "selection_refused any_globset ex_connected (request_for_tasks [''lint'']) [] None"
    unfolding selection_refused_def lint using literal(2)
    by (simp add: request_for_tasks_def explained_def ex_ids passes_since_def)
  then have "\<exists>e. collect_requested_subgraph any_watch ''note:'' ex_connected (request_for_tasks [''lint'']) [] None True = Inl e"
    using selected[of "[''lint'']"] unfolding api by blast
  ultimately show ?thesis using r by (cases r) auto
qed

text \<open>The execution waves partition the selected tasks: each is in exactly one wave, no wave is empty, every task comes in a later
  wave than each selected task it depends on, and in the first that this allows, so the number of waves is the least
  possible. They are always computed.\<close>

lemma execution_waves_correct:
  assumes "wf_task_graph tg" and "acyclic (tg_rel tg)"
  shows "\<exists>waves. compute_execution_waves tg included = Some waves \<and> distinct (concat waves) \<and> set (concat waves) = set included \<and>
    (\<forall>i < length waves. waves ! i \<noteq> [] \<and> set (waves ! i) = {t \<in> set included. longest_path tg (set included) t = i}) \<and>
    (\<forall>i < length waves. \<forall>t \<in> set (waves ! i). \<forall>d \<in> set included. (t, d) \<in> tg_rel tg \<longrightarrow> (\<exists>j < i. d \<in> set (waves ! j))) \<and>
    (\<forall>i < length waves. \<forall>t \<in> set (waves ! i). i > 0 \<longrightarrow> (\<exists>d \<in> set (waves ! (i - 1)). (t, d) \<in> tg_rel tg))"
proof -
  let ?L = "longest_path tg (set included)"
  obtain wave_of total where w: "compute_longest_path_waves tg included = Some (wave_of, total)" "wave_memo tg included wave_of"
    "dom (map_of wave_of) = set included" "\<And>i. i < total \<longleftrightarrow> (\<exists>t \<in> set included. i \<le> ?L t)"
    using longest_path_waves_value[OF assms, of included] by blast
  define wave where "wave i = sort_key task_id_to_string (map fst (filter (\<lambda>(_, n). n = i) wave_of))" for i
  have dist: "distinct (map fst wave_of)" and val: "\<And>k n. map_of wave_of k = Some n \<Longrightarrow> k \<in> set included \<and> ?L k = n"
    using w(2) unfolding wave_memo_def by blast+
  have entry: "(t, n) \<in> set wave_of \<longleftrightarrow> t \<in> set included \<and> n = ?L t" for t n
    unfolding in_set_map_of[OF dist] using val[of t] w(3) by blast
  have waves: "set (wave i) = {t \<in> set included. ?L t = i}" for i using entry by (force simp: wave_def image_iff)
  have "distinct (wave i)" for i using dist by (simp add: wave_def distinct_map_filter)
  moreover have "set (wave i) \<inter> set (wave j) = {}" if "i \<noteq> j" for i j using that by (auto simp: waves)
  ultimately have distinct: "distinct (concat (map wave [0..<total]))" by (rule distinct_concat_disjoint)
  have all: "set (concat (map wave [0..<total])) = set included" using w(4) by (auto simp: waves)
  have nonempty: "wave i \<noteq> []" if i: "i < total" for i
  proof -
    obtain t where "t \<in> set included" "i \<le> ?L t" using w(4)[of i] i by blast
    then have "{t \<in> set included. ?L t = i} \<noteq> {}" using longest_path_below[OF assms] by blast
    then show ?thesis unfolding waves[symmetric] by (metis list.set(1))
  qed
  have later: "?L d < ?L t" if "t \<in> set included" "d \<in> set included" "(t, d) \<in> tg_rel tg" for t d
    using that by (intro longest_path_edge[OF assms]) (simp add: selected_rel_def)
  have "next": "\<exists>d \<in> set included. ?L d = i - 1 \<and> (t, d) \<in> tg_rel tg" if "t \<in> set included" "?L t = i" "0 < i" for t i
    using longest_path_next[OF assms, of "set included" t "i - 1"] that by (auto simp: selected_rel_def)
  define W where "W = map wave [0..<total]"
  have W: "length W = total" "\<And>i. i < total \<Longrightarrow> W ! i = wave i" by (simp_all add: W_def)
  show ?thesis
  proof (intro exI[of _ W] conjI allI impI ballI)
    show "compute_execution_waves tg included = Some W"
      using w(1) by (simp add: compute_execution_waves_def wave_def W_def)
    show "distinct (concat W)" "set (concat W) = set included" unfolding W_def by (rule distinct all)+
    fix i assume "i < length W"
    then have i: "i < total" by (simp add: W)
    show "W ! i \<noteq> []" "set (W ! i) = {t \<in> set included. ?L t = i}" by (simp_all add: W(2)[OF i] nonempty[OF i] waves)
    fix t assume t: "t \<in> set (W ! i)"
    then have ti: "t \<in> set included" "?L t = i" by (simp_all add: W(2)[OF i] waves)
    show "\<exists>j < i. d \<in> set (W ! j)" if "d \<in> set included" "(t, d) \<in> tg_rel tg" for d
      using later[OF ti(1) that] ti(2) i that(1) by (intro exI[of _ "?L d"]) (simp add: W waves)
    show "\<exists>d \<in> set (W ! (i - 1)). (t, d) \<in> tg_rel tg" if "0 < i"
      using "next"[OF ti that] i by (auto simp: W waves)
  qed
qed

lemma execution_waves_correct_witness:
  "\<exists>waves. compute_execution_waves ex_connected [ex_gen, ex_app, ex_all] = Some waves \<and> set (concat waves) = {ex_app, ex_all, ex_gen}"
  using execution_waves_correct[OF ex_connected_wf ex_connected_acyclic, of "[ex_gen, ex_app, ex_all]"] by fastforce

end
