(* ===== verification/MemoryPressure.thy ===== *)
theory MemoryPressure
  imports Prelude Complex_Main
begin

text \<open>
  The pause of dispatch under memory pressure: the verdict and its cache
  (\<open>crates/luchta-cli/src/memory_pressure/mod.rs\<close>), its tuning variables (\<open>tuning.rs\<close>), the readings of the three
  platforms (\<open>linux.rs\<close>, \<open>macos.rs\<close>, \<open>windows.rs\<close>), and the loop that holds a ready task until the pressure clears
  (\<open>crates/luchta-cli/src/run/pause.rs\<close>). The text of the kernel's files and the results of the system calls are arguments.
  Times are milliseconds. The timers of the tokio crate, an interval and a sleep that race with the shutdown signal, are the
  argument \<open>timers\<close> with the laws of the locale \<open>tokio_timers\<close>.

  A float is its exact value, an infinity or NaN; reading a decimal numeral yields its exact value, which the argument
  \<open>rnd\<close> rounds to the nearest float. The sign of zero is not kept.
\<close>

section \<open>Floats and text of the standard library\<close>

datatype f64 = Finite rat | Infinite bool | NaN

fun f64_is_finite :: "f64 \<Rightarrow> bool" where
  "f64_is_finite (Finite _) = True"
| "f64_is_finite _ = False"

fun f64_less :: "f64 \<Rightarrow> f64 \<Rightarrow> bool" where
  "f64_less NaN _ = False"
| "f64_less _ NaN = False"
| "f64_less (Finite a) (Finite b) = (a < b)"
| "f64_less (Finite _) (Infinite neg) = (\<not> neg)"
| "f64_less (Infinite neg) (Finite _) = neg"
| "f64_less (Infinite a) (Infinite b) = (a \<and> \<not> b)"

definition to_ascii_lowercase :: "string \<Rightarrow> string" where
  "to_ascii_lowercase = map (\<lambda>c. if CHR ''A'' \<le> c \<and> c \<le> CHR ''Z'' then char_of ((of_char c :: nat) + 32) else c)"

definition is_digit :: "char \<Rightarrow> bool" where
  "is_digit c \<longleftrightarrow> CHR ''0'' \<le> c \<and> c \<le> CHR ''9''"

definition digits_value :: "string \<Rightarrow> nat" where
  "digits_value = foldl (\<lambda>n c. 10 * n + (of_char c - 48)) 0"

definition parse_exponent :: "string \<Rightarrow> int option" where
  "parse_exponent s =
     (case s of [] \<Rightarrow> Some 0
      | c # cs \<Rightarrow>
          if c \<noteq> CHR ''e'' \<and> c \<noteq> CHR ''E'' then None
          else let neg = (cs \<noteq> [] \<and> hd cs = CHR ''-'');
                   ds = (if cs \<noteq> [] \<and> hd cs \<in> {CHR ''-'', CHR ''+''} then tl cs else cs)
               in if ds = [] \<or> \<not> list_all is_digit ds then None
                  else Some (if neg then - int (digits_value ds) else int (digits_value ds)))"

definition parse_number :: "string \<Rightarrow> rat option" where
  "parse_number s =
     (let whole = takeWhile is_digit s; rest = dropWhile is_digit s;
          dot = (rest \<noteq> [] \<and> hd rest = CHR ''.'');
          part = (if dot then takeWhile is_digit (tl rest) else []);
          rest' = (if dot then dropWhile is_digit (tl rest) else rest)
      in if whole @ part = [] then None
         else map_option (\<lambda>e. of_nat (digits_value (whole @ part)) * 10 powi (e - int (length part))) (parse_exponent rest'))"

definition parse_f64 :: "(rat \<Rightarrow> f64) \<Rightarrow> string \<Rightarrow> f64 option" where
  "parse_f64 rnd s =
     (let neg = (s \<noteq> [] \<and> hd s = CHR ''-'');
          body = (if s \<noteq> [] \<and> hd s \<in> {CHR ''-'', CHR ''+''} then tl s else s);
          low = to_ascii_lowercase body
      in if low = ''inf'' \<or> low = ''infinity'' then Some (Infinite neg)
         else if low = ''nan'' then Some NaN
         else map_option (\<lambda>q. rnd (if neg then - q else q)) (parse_number body))"

text \<open>\<open>str::lines\<close>: a final empty line is dropped, a carriage return only before a newline.\<close>

definition strip_cr :: "string \<Rightarrow> string" where
  "strip_cr line = (if line \<noteq> [] \<and> last line = CHR 0x0D then butlast line else line)"

definition str_lines :: "string \<Rightarrow> string list" where
  "str_lines s =
     (let pieces = split_on (CHR 0x0A) s
      in map strip_cr (butlast pieces) @ (if last pieces = [] then [] else [last pieces]))"

function split_ws :: "string \<Rightarrow> string \<Rightarrow> string list" where
  "split_ws word s =
     (case strip_any ws_seqs s of
        Some rest \<Rightarrow> (if word = [] then split_ws [] rest else word # split_ws [] rest)
      | None \<Rightarrow>
          (case s of [] \<Rightarrow> (if word = [] then [] else [word])
           | c # cs \<Rightarrow> split_ws (word @ [c]) cs))"
  by pat_completeness auto
termination
  by (relation "measure (\<lambda>(word, s). length s)") (auto dest: strip_any_shorter)

declare split_ws.simps [simp del]

definition split_whitespace :: "string \<Rightarrow> string list" where
  "split_whitespace s = split_ws [] s"

definition find_stripped :: "string \<Rightarrow> string list \<Rightarrow> string option" where
  "find_stripped prefix pieces =
     (case List.map_filter (strip_prefix prefix) pieces of [] \<Rightarrow> None | r # _ \<Rightarrow> Some r)"

section \<open>Verdicts\<close>

datatype PressureDetail = Stalled f64 | Warning | Critical | LowMemory

record MemoryPressure =
  mp_paused :: bool
  mp_detail :: "PressureDetail option"

definition pressure_clear :: MemoryPressure where
  "pressure_clear = \<lparr>mp_paused = False, mp_detail = None\<rparr>"

definition platform_reading_to_pressure :: "bool \<Rightarrow> PressureDetail \<Rightarrow> MemoryPressure" where
  "platform_reading_to_pressure paused detail =
     \<lparr>mp_paused = paused, mp_detail = (if paused then Some detail else None)\<rparr>"

definition platform_sample :: "(bool \<times> PressureDetail) option \<Rightarrow> MemoryPressure option" where
  "platform_sample reading = map_option (\<lambda>(paused, detail). platform_reading_to_pressure paused detail) reading"

text \<open>\<open>{:.0}\<close> of a float: the nearest integer, halves to the even one.\<close>

definition round_half_even :: "rat \<Rightarrow> int" where
  "round_half_even q =
     (let low = \<lfloor>q\<rfloor>; rest = q - of_int low
      in if rest < 1/2 then low else if rest > 1/2 then low + 1 else if even low then low else low + 1)"

fun f64_display_0 :: "f64 \<Rightarrow> string" where
  "f64_display_0 (Finite q) = (if q < 0 then ''-'' else []) @ decimal (nat (round_half_even \<bar>q\<bar>))"
| "f64_display_0 (Infinite neg) = (if neg then ''-inf'' else ''inf'')"
| "f64_display_0 NaN = ''NaN''"

fun detail_to_string :: "PressureDetail \<Rightarrow> string" where
  "detail_to_string (Stalled percent) = ''stalled '' @ f64_display_0 percent @ ''%''"
| "detail_to_string Warning = ''warning''"
| "detail_to_string Critical = ''critical''"
| "detail_to_string LowMemory = ''low memory''"

section \<open>Tuning\<close>

definition parse_psi_threshold :: "(rat \<Rightarrow> f64) \<Rightarrow> string \<Rightarrow> f64 option" where
  "parse_psi_threshold rnd raw =
     (case parse_f64 rnd (trim raw) of None \<Rightarrow> None
      | Some v \<Rightarrow> if f64_is_finite v \<and> \<not> f64_less v (Finite 0) then Some v else None)"

definition non_blank :: "string option \<Rightarrow> string option" where
  "non_blank raw = (case raw of None \<Rightarrow> None | Some s \<Rightarrow> if trim s = [] then None else Some (trim s))"

definition psi_threshold :: "(rat \<Rightarrow> f64) \<Rightarrow> string option \<Rightarrow> f64" where
  "psi_threshold rnd raw =
     (case Option.bind (non_blank raw) (parse_psi_threshold rnd) of None \<Rightarrow> Finite 60 | Some v \<Rightarrow> v)"

definition parse_macos_level :: "string \<Rightarrow> int option" where
  "parse_macos_level raw =
     (let low = to_ascii_lowercase (trim raw)
      in if low = ''critical'' then Some 4 else if low = ''warning'' then Some 2 else None)"

definition macos_min_level :: "string option \<Rightarrow> int" where
  "macos_min_level raw = (case Option.bind (non_blank raw) parse_macos_level of None \<Rightarrow> 4 | Some l \<Rightarrow> l)"

text \<open>The check of both variables at startup, in \<open>crates/luchta-cli/src/main.rs\<close>.\<close>

definition reject_unparseable_env :: "string \<Rightarrow> string option \<Rightarrow> (string \<Rightarrow> 'a option) \<Rightarrow> string \<Rightarrow> string + unit" where
  "reject_unparseable_env env_var raw parse expected =
     (case non_blank raw of None \<Rightarrow> Inr ()
      | Some v \<Rightarrow>
          if parse v \<noteq> None then Inr ()
          else Inl (''Invalid '' @ env_var @ '' value '' @ sq @ v @ sq @ '': '' @ expected))"

definition validate_mem_pressure_tuning_env :: "(rat \<Rightarrow> f64) \<Rightarrow> (string \<Rightarrow> string option) \<Rightarrow> string + unit" where
  "validate_mem_pressure_tuning_env rnd env =
     bind_result (reject_unparseable_env ''LUCHTA_MEM_PSI_THRESHOLD'' (env ''LUCHTA_MEM_PSI_THRESHOLD'')
       (parse_psi_threshold rnd) ''expected a nonnegative percentage (e.g. 60)'') (\<lambda>_.
     reject_unparseable_env ''LUCHTA_MEM_MACOS_LEVEL'' (env ''LUCHTA_MEM_MACOS_LEVEL'')
       parse_macos_level (''expected '' @ sq @ ''warning'' @ sq @ '' or '' @ sq @ ''critical'' @ sq))"

section \<open>Readings of the platforms\<close>

definition parse_psi_full_avg10 :: "(rat \<Rightarrow> f64) \<Rightarrow> string \<Rightarrow> f64 option" where
  "parse_psi_full_avg10 rnd psi =
     Option.bind (find_stripped ''full '' (str_lines psi)) (\<lambda>line.
     Option.bind (find_stripped ''avg10='' (split_whitespace line)) (\<lambda>field.
     case parse_f64 rnd field of None \<Rightarrow> None
     | Some v \<Rightarrow> if f64_is_finite v then Some v else None))"

definition first_parseable :: "(rat \<Rightarrow> f64) \<Rightarrow> string option \<Rightarrow> string option \<Rightarrow> f64 option" where
  "first_parseable rnd cgroup host =
     (case Option.bind cgroup (parse_psi_full_avg10 rnd) of
        Some v \<Rightarrow> Some v
      | None \<Rightarrow> Option.bind host (parse_psi_full_avg10 rnd))"

definition cgroup_pressure_path :: "string \<Rightarrow> string option" where
  "cgroup_pressure_path self_cgroup =
     map_option (\<lambda>line.
       let relative = dropWhile (\<lambda>c. c = CHR ''/'') (trim line);
           path = (if relative = [] then ''/sys/fs/cgroup'' else join_path ''/sys/fs/cgroup'' relative)
       in join_path path ''memory.pressure'')
     (find_stripped ''0::'' (str_lines self_cgroup))"

text \<open>\<open>read_to_string\<close> is an argument: \<open>None\<close> for a file that cannot be read or is not UTF-8.\<close>

definition cgroup_psi_path :: "(string \<Rightarrow> string option) \<Rightarrow> (string \<Rightarrow> bool) \<Rightarrow> string option" where
  "cgroup_psi_path read exists_path =
     Option.bind (read ''/proc/self/cgroup'') (\<lambda>content.
     Option.bind (cgroup_pressure_path content) (\<lambda>path.
     if exists_path path then Some path else None))"

definition read_full_avg10 :: "(rat \<Rightarrow> f64) \<Rightarrow> (string \<Rightarrow> string option) \<Rightarrow> (string \<Rightarrow> bool) \<Rightarrow> f64 option" where
  "read_full_avg10 rnd read exists_path =
     first_parseable rnd (Option.bind (cgroup_psi_path read exists_path) read) (read ''/proc/pressure/memory'')"

definition linux_sample ::
  "(rat \<Rightarrow> f64) \<Rightarrow> string option \<Rightarrow> (string \<Rightarrow> string option) \<Rightarrow> (string \<Rightarrow> bool) \<Rightarrow> (bool \<times> PressureDetail) option" where
  "linux_sample rnd threshold_env read exists_path =
     map_option (\<lambda>stalled. (f64_less (psi_threshold rnd threshold_env) stalled, Stalled stalled))
       (read_full_avg10 rnd read exists_path)"

definition macos_sample :: "string option \<Rightarrow> int option \<Rightarrow> (bool \<times> PressureDetail) option" where
  "macos_sample level_env level =
     map_option (\<lambda>l. (macos_min_level level_env \<le> l, if 4 \<le> l then Critical else Warning)) level"

definition windows_sample :: "bool option \<Rightarrow> (bool \<times> PressureDetail) option" where
  "windows_sample low = map_option (\<lambda>b. (b, LowMemory)) low"

section \<open>The monitor\<close>

record MemoryMonitor =
  mm_enabled :: bool
  mm_cache :: "(nat \<times> MemoryPressure) option"
  mm_ttl :: nat
  mm_recompute_count :: u64

definition memory_monitor_new :: "bool \<Rightarrow> MemoryMonitor" where
  "memory_monitor_new enabled = \<lparr>mm_enabled = enabled, mm_cache = None, mm_ttl = 250, mm_recompute_count = 0\<rparr>"

text \<open>\<open>now\<close> is the time of the call and \<open>sample\<close> what the platform would report then. \<open>duration_since\<close> is
  zero for a later instant, as the subtraction is.\<close>

definition check_at :: "nat \<Rightarrow> MemoryPressure option \<Rightarrow> MemoryMonitor \<Rightarrow> MemoryPressure \<times> MemoryMonitor" where
  "check_at now sample m =
     (if \<not> mm_enabled m then (pressure_clear, m)
      else case mm_cache m of
        Some (sampled_at, pressure) \<Rightarrow>
          if now - sampled_at < mm_ttl m then (pressure, m)
          else let p = (case sample of None \<Rightarrow> pressure_clear | Some p \<Rightarrow> p)
               in (p, m\<lparr>mm_cache := Some (now, p), mm_recompute_count := mm_recompute_count m + 1\<rparr>)
      | None \<Rightarrow>
          let p = (case sample of None \<Rightarrow> pressure_clear | Some p \<Rightarrow> p)
          in (p, m\<lparr>mm_cache := Some (now, p), mm_recompute_count := mm_recompute_count m + 1\<rparr>))"

section \<open>The pause loop\<close>

datatype ShutdownSignal = CtrlC | SigTerm

datatype PauseTick = ReCheck | ProgressDue | ShutdownTick ShutdownSignal

datatype PressureClearance = Dispatch | Shutdown ShutdownSignal

record 'e PressureEnv =
  pe_check :: "'e \<Rightarrow> MemoryPressure \<times> 'e"
  pe_notify_paused :: "'e \<Rightarrow> 'e"
  pe_notify_resumed :: "'e \<Rightarrow> 'e"
  pe_next_tick :: "'e \<Rightarrow> (string + PauseTick) \<times> 'e"
  pe_render_progress :: "'e \<Rightarrow> 'e"

text \<open>The loop may run forever, which is the value \<open>None\<close>.\<close>

partial_function (option) pause_loop ::
  "'e PressureEnv \<Rightarrow> 'e \<Rightarrow> ((string + PressureClearance) \<times> 'e) option" where
  "pause_loop env e =
     (case pe_next_tick env e of (tick, e1) \<Rightarrow>
        (case tick of
           Inl err \<Rightarrow> Some (Inl err, e1)
         | Inr t \<Rightarrow>
             (case t of
                ReCheck \<Rightarrow>
                  (case pe_check env e1 of (p, e2) \<Rightarrow>
                     if \<not> mp_paused p then Some (Inr Dispatch, pe_notify_resumed env e2) else pause_loop env e2)
              | ProgressDue \<Rightarrow> pause_loop env (pe_render_progress env e1)
              | ShutdownTick s \<Rightarrow> Some (Inr (Shutdown s), e1))))"

declare pause_loop.simps [code]

definition await_pressure_clearance ::
  "'e PressureEnv \<Rightarrow> 'e \<Rightarrow> ((string + PressureClearance) \<times> 'e) option" where
  "await_pressure_clearance env e =
     (case pe_check env e of (p, e1) \<Rightarrow>
        if \<not> mp_paused p then Some (Inr Dispatch, e1) else pause_loop env (pe_notify_paused env e1))"

section \<open>The environment of production\<close>

text \<open>The timers: the clock, the deadline of the progress interval, \<open>select!\<close> over a new sleep of the given length, the
  interval and the shutdown signal, and other work during which time passes.\<close>

datatype SelectOutcome = SleepElapsed | IntervalTick | SignalArrived "string + ShutdownSignal"

record 't timers =
  tm_now :: "'t \<Rightarrow> nat"
  tm_next :: "'t \<Rightarrow> nat"
  tm_select :: "nat \<Rightarrow> 't \<Rightarrow> SelectOutcome \<times> 't"
  tm_work :: "'t \<Rightarrow> 't"

datatype OutputMode = DefaultMode | PlainMode | SummaryMode

record 't ProdPressureEnv =
  pp_monitor :: MemoryMonitor
  pp_latest :: MemoryPressure
  pp_timers :: 't
  pp_mode :: OutputMode
  pp_running :: nat
  pp_stderr :: "string list"
  pp_rendered :: "PressureDetail option list"

definition pause_notice_line :: "PressureDetail option \<Rightarrow> string" where
  "pause_notice_line detail =
     (let reason = (case detail of Some d \<Rightarrow> ''memory pressure ('' @ detail_to_string d @ '')'' | None \<Rightarrow> ''memory pressure'')
      in ''New task dispatch paused: '' @ reason @ ''. Ctrl-C to stop; rerun with --no-mem-pressure to bypass.'')"

definition should_render :: "bool \<Rightarrow> nat \<Rightarrow> OutputMode \<Rightarrow> bool" where
  "should_render paused running_count mode \<longleftrightarrow> mode \<noteq> SummaryMode \<and> (paused \<or> 0 < running_count)"

definition prod_check :: "'t timers \<Rightarrow> (nat \<Rightarrow> MemoryPressure option) \<Rightarrow> 't ProdPressureEnv \<Rightarrow> MemoryPressure \<times> 't ProdPressureEnv" where
  "prod_check tm sample e =
     (let now = tm_now tm (pp_timers e)
      in case check_at now (sample now) (pp_monitor e) of
           (pressure, m) \<Rightarrow> (pressure, e\<lparr>pp_monitor := m, pp_latest := pressure\<rparr>))"

definition prod_notify_paused :: "'t ProdPressureEnv \<Rightarrow> 't ProdPressureEnv" where
  "prod_notify_paused e = e\<lparr>pp_stderr := pp_stderr e @ [pause_notice_line (mp_detail (pp_latest e))]\<rparr>"

definition prod_notify_resumed :: "'t ProdPressureEnv \<Rightarrow> 't ProdPressureEnv" where
  "prod_notify_resumed e = e\<lparr>pp_stderr := pp_stderr e @ [''Memory pressure cleared; resuming task dispatch.'']\<rparr>"

fun tick_of_outcome :: "SelectOutcome \<Rightarrow> string + PauseTick" where
  "tick_of_outcome SleepElapsed = Inr ReCheck"
| "tick_of_outcome IntervalTick = Inr ProgressDue"
| "tick_of_outcome (SignalArrived (Inl err)) = Inl err"
| "tick_of_outcome (SignalArrived (Inr s)) = Inr (ShutdownTick s)"

definition prod_next_tick :: "'t timers \<Rightarrow> 't ProdPressureEnv \<Rightarrow> (string + PauseTick) \<times> 't ProdPressureEnv" where
  "prod_next_tick tm e =
     (case tm_select tm 250 (pp_timers e) of (outcome, t) \<Rightarrow> (tick_of_outcome outcome, e\<lparr>pp_timers := t\<rparr>))"

definition render_status_line :: "'t timers \<Rightarrow> bool \<Rightarrow> 't ProdPressureEnv \<Rightarrow> 't ProdPressureEnv" where
  "render_status_line tm paused e =
     (if \<not> should_render paused (pp_running e) (pp_mode e) then e
      else e\<lparr>pp_rendered := pp_rendered e @ [mp_detail (pp_latest e)], pp_timers := tm_work tm (pp_timers e)\<rparr>)"

definition prod_env :: "'t timers \<Rightarrow> (nat \<Rightarrow> MemoryPressure option) \<Rightarrow> 't ProdPressureEnv PressureEnv" where
  "prod_env tm sample =
     \<lparr>pe_check = prod_check tm sample, pe_notify_paused = prod_notify_paused, pe_notify_resumed = prod_notify_resumed,
      pe_next_tick = prod_next_tick tm, pe_render_progress = render_status_line tm True\<rparr>"

text \<open>The interval of \<open>crates/luchta-cli/src/run.rs\<close>: one line per 100 milliseconds on a terminal, one per five seconds
  otherwise, unless the variable holds a positive number.\<close>

definition parse_u64 :: "string \<Rightarrow> nat option" where
  "parse_u64 s =
     (let ds = (if s \<noteq> [] \<and> hd s = CHR ''+'' then tl s else s)
      in if ds = [] \<or> \<not> list_all is_digit ds \<or> 2 ^ 64 \<le> digits_value ds then None else Some (digits_value ds))"

definition progress_interval_duration_from_value :: "bool \<Rightarrow> string option \<Rightarrow> nat" where
  "progress_interval_duration_from_value live_status raw =
     (case Option.bind raw (\<lambda>v. parse_u64 (trim v)) of
        Some ms \<Rightarrow> if 0 < ms then ms else if live_status then 100 else 5000
      | None \<Rightarrow> if live_status then 100 else 5000)"


section \<open>Verdicts are well-formed\<close>

text \<open>A verdict carries a detail exactly when it pauses.\<close>

definition verdict_wf :: "MemoryPressure \<Rightarrow> bool" where
  "verdict_wf p \<longleftrightarrow> (mp_detail p \<noteq> None \<longleftrightarrow> mp_paused p)"

definition monitor_wf :: "MemoryMonitor \<Rightarrow> bool" where
  "monitor_wf m \<longleftrightarrow> (\<forall>t p. mm_cache m = Some (t, p) \<longrightarrow> verdict_wf p)"

lemma verdict_wf_clear [simp]: "verdict_wf pressure_clear"
  by (simp add: verdict_wf_def pressure_clear_def)

lemma clear_not_paused [simp]: "\<not> mp_paused pressure_clear"
  by (simp add: pressure_clear_def)

lemma platform_sample_wf: "platform_sample reading = Some p \<Longrightarrow> verdict_wf p"
  by (auto simp: platform_sample_def platform_reading_to_pressure_def verdict_wf_def split: if_splits)

lemma monitor_wf_new [simp]: "monitor_wf (memory_monitor_new enabled)"
  by (simp add: monitor_wf_def memory_monitor_new_def)

lemma check_at_wf:
  assumes "check_at now sample m = (p, m')" "monitor_wf m" "\<And>q. sample = Some q \<Longrightarrow> verdict_wf q"
  shows "verdict_wf p" "monitor_wf m'"
  using assms by (auto simp: check_at_def monitor_wf_def Let_def split: if_splits option.splits prod.splits)

lemma check_at_enabled [simp]: "mm_enabled (snd (check_at now sample m)) = mm_enabled m"
  and check_at_ttl [simp]: "mm_ttl (snd (check_at now sample m)) = mm_ttl m"
  by (auto simp: check_at_def Let_def split: option.splits)

text \<open>A disabled monitor does not even sample.\<close>

lemma check_at_disabled: "\<not> mm_enabled m \<Longrightarrow> check_at now sample m = (pressure_clear, m)"
  by (simp add: check_at_def)

text \<open>A verdict is the present reading or a cached one younger than the time to live.\<close>

lemma check_at_fresh:
  assumes "mm_enabled m" "check_at now sample m = (p, m')"
  shows "mm_cache m' = Some (now, p) \<and> p = (case sample of None \<Rightarrow> pressure_clear | Some q \<Rightarrow> q) \<or>
    m' = m \<and> (\<exists>t. mm_cache m = Some (t, p) \<and> now - t < mm_ttl m)"
  using assms by (auto simp: check_at_def Let_def split: if_splits option.splits prod.splits)

text \<open>The operations of the loop and of the outer status line, in any order.\<close>

inductive prod_step :: "'t timers \<Rightarrow> (nat \<Rightarrow> MemoryPressure option) \<Rightarrow> 't ProdPressureEnv \<Rightarrow> 't ProdPressureEnv \<Rightarrow> bool"
  for tm sample where
  step_check: "prod_step tm sample e (snd (prod_check tm sample e))"
| step_notify_paused: "prod_step tm sample e (prod_notify_paused e)"
| step_notify_resumed: "prod_step tm sample e (prod_notify_resumed e)"
| step_next_tick: "prod_step tm sample e (snd (prod_next_tick tm e))"
| step_render: "prod_step tm sample e (render_status_line tm paused e)"

inductive_cases prod_stepE: "prod_step tm sample e e'"

lemmas prod_defs = prod_check_def prod_notify_paused_def prod_notify_resumed_def prod_next_tick_def render_status_line_def

definition prod_wf :: "'t ProdPressureEnv \<Rightarrow> bool" where
  "prod_wf e \<longleftrightarrow> verdict_wf (pp_latest e) \<and> monitor_wf (pp_monitor e) \<and>
     (\<not> mm_enabled (pp_monitor e) \<longrightarrow> pp_latest e = pressure_clear \<and> mm_recompute_count (pp_monitor e) = 0)"

lemma prod_check_wf:
  assumes "prod_wf e" "\<And>now q. sample now = Some q \<Longrightarrow> verdict_wf q"
  shows "prod_wf (snd (prod_check tm sample e))"
proof -
  let ?now = "tm_now tm (pp_timers e)"
  obtain p m where c: "check_at ?now (sample ?now) (pp_monitor e) = (p, m)" by fastforce
  have m: "mm_enabled m = mm_enabled (pp_monitor e)" using check_at_enabled[of ?now "sample ?now" "pp_monitor e"] c by simp
  show ?thesis
    using assms(1) check_at_wf[OF c _ assms(2)] c m check_at_disabled[of "pp_monitor e" ?now "sample ?now"]
    by (auto simp: prod_wf_def prod_check_def Let_def)
qed

lemma prod_step_wf:
  assumes "prod_step tm sample e e'" "prod_wf e" "\<And>now q. sample now = Some q \<Longrightarrow> verdict_wf q"
  shows "prod_wf e' \<and> mm_enabled (pp_monitor e') = mm_enabled (pp_monitor e)"
  using assms(1)
proof cases
  case step_check
  then show ?thesis using prod_check_wf[OF assms(2,3)] by (auto simp: prod_check_def Let_def split: prod.splits
      dest: arg_cong[where f = "\<lambda>x. mm_enabled (snd x)"])
qed (use assms(2) in \<open>auto simp: prod_defs prod_wf_def split: prod.splits\<close>)

section \<open>The loop\<close>

text \<open>One round: a result, or the state of the next round.\<close>

definition pause_round :: "'e PressureEnv \<Rightarrow> 'e \<Rightarrow> (string + PressureClearance) \<times> 'e + 'e" where
  "pause_round env e =
     (case pe_next_tick env e of
        (Inl err, e1) \<Rightarrow> Inl (Inl err, e1)
      | (Inr ReCheck, e1) \<Rightarrow>
          (case pe_check env e1 of (p, e2) \<Rightarrow>
             if \<not> mp_paused p then Inl (Inr Dispatch, pe_notify_resumed env e2) else Inr e2)
      | (Inr ProgressDue, e1) \<Rightarrow> Inr (pe_render_progress env e1)
      | (Inr (ShutdownTick s), e1) \<Rightarrow> Inl (Inr (Shutdown s), e1))"

fun pause_rounds :: "'e PressureEnv \<Rightarrow> nat \<Rightarrow> 'e \<Rightarrow> ((string + PressureClearance) \<times> 'e) option" where
  "pause_rounds env 0 e = None"
| "pause_rounds env (Suc n) e = (case pause_round env e of Inl r \<Rightarrow> Some r | Inr e' \<Rightarrow> pause_rounds env n e')"

lemma pause_round_cases:
  "(case pe_next_tick env e of (tick, e1) \<Rightarrow>
        (case tick of
           Inl err \<Rightarrow> Some (Inl err, e1)
         | Inr t \<Rightarrow>
             (case t of
                ReCheck \<Rightarrow>
                  (case pe_check env e1 of (p, e2) \<Rightarrow>
                     if \<not> mp_paused p then Some (Inr Dispatch, pe_notify_resumed env e2) else loop env e2)
              | ProgressDue \<Rightarrow> loop env (pe_render_progress env e1)
              | ShutdownTick s \<Rightarrow> Some (Inr (Shutdown s), e1)))) =
     (case pause_round env e of Inl r \<Rightarrow> Some r | Inr e' \<Rightarrow> loop env e')"
  unfolding pause_round_def by (simp split: prod.split sum.split PauseTick.split)

lemma pause_loop_round: "pause_loop env e = (case pause_round env e of Inl r \<Rightarrow> Some r | Inr e' \<Rightarrow> pause_loop env e')"
  by (subst pause_loop.simps) (rule pause_round_cases)

text \<open>The loop returns exactly when some number of rounds does.\<close>

lemma pause_loop_rounds: "pause_loop env e = Some r \<longleftrightarrow> (\<exists>n. pause_rounds env n e = Some r)"
proof
  show "\<exists>n. pause_rounds env n e = Some r" if "pause_loop env e = Some r"
  proof (rule pause_loop.raw_induct[of "\<lambda>env e r. \<exists>n. pause_rounds env n e = Some r", OF _ that])
    fix loop env e r
    assume ih: "\<And>env e r. loop env e = Some r \<Longrightarrow> \<exists>n. pause_rounds env n e = Some r"
      and res: "(case pe_next_tick env e of (tick, e1) \<Rightarrow>
        (case tick of
           Inl err \<Rightarrow> Some (Inl err, e1)
         | Inr t \<Rightarrow>
             (case t of
                ReCheck \<Rightarrow>
                  (case pe_check env e1 of (p, e2) \<Rightarrow>
                     if \<not> mp_paused p then Some (Inr Dispatch, pe_notify_resumed env e2) else loop env e2)
              | ProgressDue \<Rightarrow> loop env (pe_render_progress env e1)
              | ShutdownTick s \<Rightarrow> Some (Inr (Shutdown s), e1)))) = Some r"
    note round = res[unfolded pause_round_cases]
    show "\<exists>n. pause_rounds env n e = Some r"
    proof (cases "pause_round env e")
      case (Inl r')
      with round have "pause_rounds env (Suc 0) e = Some r" by simp
      then show ?thesis by blast
    next
      case (Inr e')
      with round ih obtain n where "pause_rounds env n e' = Some r" by fastforce
      with Inr have "pause_rounds env (Suc n) e = Some r" by simp
      then show ?thesis by blast
    qed
  qed
next
  assume "\<exists>n. pause_rounds env n e = Some r"
  then obtain n where "pause_rounds env n e = Some r" by blast
  then show "pause_loop env e = Some r"
  proof (induction n arbitrary: e)
    case (Suc n)
    then show ?case by (subst pause_loop_round) (simp split: sum.splits)
  qed simp
qed

lemma pause_rounds_mono: "pause_rounds env n e = Some r \<Longrightarrow> n \<le> m \<Longrightarrow> pause_rounds env m e = Some r"
proof (induction n arbitrary: m e)
  case (Suc n)
  then show ?case by (cases m) (auto split: sum.splits)
qed simp

text \<open>What the rounds of production print, and that only a calm verdict ends them with \<open>Dispatch\<close>.\<close>

lemmas round_defs = pause_round_def prod_env_def prod_defs Let_def

lemma prod_round_continues:
  assumes "pause_round (prod_env tm sample) e = Inr e'"
  shows "pp_stderr e' = pp_stderr e"
  using assms unfolding round_defs by (auto split: prod.splits sum.splits PauseTick.splits if_splits)

lemma prod_round_ends:
  assumes "pause_round (prod_env tm sample) e = Inl (r, e')"
  shows "if r = Inr Dispatch
    then \<not> mp_paused (pp_latest e') \<and> pp_stderr e' = pp_stderr e @ [''Memory pressure cleared; resuming task dispatch.'']
    else pp_stderr e' = pp_stderr e"
  using assms unfolding round_defs by (auto split: prod.splits sum.splits PauseTick.splits if_splits)

lemma prod_rounds_end:
  assumes "pause_rounds (prod_env tm sample) n e = Some (r, e')"
  shows "if r = Inr Dispatch
    then \<not> mp_paused (pp_latest e') \<and> pp_stderr e' = pp_stderr e @ [''Memory pressure cleared; resuming task dispatch.'']
    else pp_stderr e' = pp_stderr e"
  using assms
proof (induction n arbitrary: e)
  case (Suc n)
  show ?case
  proof (cases "pause_round (prod_env tm sample) e")
    case (Inl x)
    with Suc.prems have "pause_round (prod_env tm sample) e = Inl (r, e')" by simp
    then show ?thesis by (rule prod_round_ends)
  next
    case (Inr e1)
    with Suc.prems have "pause_rounds (prod_env tm sample) n e1 = Some (r, e')" by simp
    from Suc.IH[OF this] show ?thesis by (simp add: prod_round_continues[OF Inr])
  qed
qed simp

section \<open>The timers\<close>

text \<open>What tokio documents of \<open>select!\<close>, of \<open>sleep\<close>, and of an interval with \<open>MissedTickBehavior::Delay\<close>, on a runtime that polls
  promptly: the first deadline wins; a tick sets the next deadline one period later, where a tick up to five milliseconds
  late counts as punctual. \<open>work\<close> bounds the time spent outside.\<close>

locale tokio_timers =
  fixes tm :: "'t timers" and period work :: nat
  assumes sleep_first: "tm_select tm d t = (SleepElapsed, t') \<Longrightarrow>
      tm_now tm t + d \<le> tm_next tm t \<and> tm_now tm t + d \<le> tm_now tm t' \<and> tm_next tm t' = tm_next tm t"
    and interval_first: "tm_select tm d t = (IntervalTick, t') \<Longrightarrow>
      tm_next tm t \<le> tm_now tm t + d \<and> tm_now tm t \<le> tm_now tm t' \<and>
      tm_now tm t' + period \<le> tm_next tm t' + 5 \<and> tm_next tm t' \<le> tm_now tm t' + period"
    and work_time: "tm_now tm t \<le> tm_now tm (tm_work tm t) \<and> tm_now tm (tm_work tm t) \<le> tm_now tm t + work \<and>
      tm_next tm (tm_work tm t) = tm_next tm t"

abbreviation pp_now :: "'t timers \<Rightarrow> 't ProdPressureEnv \<Rightarrow> nat" where
  "pp_now tm e \<equiv> tm_now tm (pp_timers e)"

definition calm :: "MemoryPressure option \<Rightarrow> bool" where
  "calm reading \<longleftrightarrow> (case reading of None \<Rightarrow> True | Some p \<Rightarrow> \<not> mp_paused p)"

definition monitor_ready :: "'t timers \<Rightarrow> 't ProdPressureEnv \<Rightarrow> bool" where
  "monitor_ready tm e \<longleftrightarrow> mm_enabled (pp_monitor e) \<and> mm_ttl (pp_monitor e) \<le> 250 \<and>
     (\<forall>t p. mm_cache (pp_monitor e) = Some (t, p) \<longrightarrow> t \<le> pp_now tm e)"

lemma prod_round_cases:
  obtains (signal) r where "pause_round (prod_env tm sample) e = Inl r"
  | (tick) t' where "tm_select tm 250 (pp_timers e) = (IntervalTick, t')"
      "pause_round (prod_env tm sample) e = Inr (render_status_line tm True (e\<lparr>pp_timers := t'\<rparr>))"
  | (recheck) t' p e' where "tm_select tm 250 (pp_timers e) = (SleepElapsed, t')"
      "prod_check tm sample (e\<lparr>pp_timers := t'\<rparr>) = (p, e')" "mp_paused p"
      "pause_round (prod_env tm sample) e = Inr e'"
proof -
  obtain o1 t' where sel: "tm_select tm 250 (pp_timers e) = (o1, t')" by fastforce
  obtain p e' where chk: "prod_check tm sample (e\<lparr>pp_timers := t'\<rparr>) = (p, e')" by fastforce
  show ?thesis
  proof (cases o1)
    case SleepElapsed
    then show ?thesis
      using sel chk signal recheck by (cases "mp_paused p") (auto simp: pause_round_def prod_env_def prod_next_tick_def)
  next
    case IntervalTick
    then show ?thesis using sel tick by (auto simp: pause_round_def prod_env_def prod_next_tick_def)
  next
    case (SignalArrived s)
    then show ?thesis
      using sel signal by (cases s) (auto simp: pause_round_def prod_env_def prod_next_tick_def)
  qed
qed

context tokio_timers begin

lemma recheck_fresh:
  assumes "monitor_ready tm e" "tm_select tm 250 (pp_timers e) = (SleepElapsed, t')"
    "prod_check tm sample (e\<lparr>pp_timers := t'\<rparr>) = (p, e')"
  shows "p = (case sample (tm_now tm t') of None \<Rightarrow> pressure_clear | Some q \<Rightarrow> q)"
    "monitor_ready tm e'" "pp_timers e' = t'"
  using assms sleep_first[OF assms(2)]
  by (auto simp: prod_check_def check_at_def monitor_ready_def Let_def split: option.splits prod.splits if_splits)

lemma render_time:
  "tm_now tm (pp_timers e) \<le> pp_now tm (render_status_line tm paused e) \<and>
   pp_now tm (render_status_line tm paused e) \<le> tm_now tm (pp_timers e) + work \<and>
   tm_next tm (pp_timers (render_status_line tm paused e)) = tm_next tm (pp_timers e) \<and>
   pp_monitor (render_status_line tm paused e) = pp_monitor e"
  using work_time[of "pp_timers e"] by (simp add: render_status_line_def)

text \<open>With an interval that leaves room for the sleep, the loop ends once the pressure is gone.\<close>

lemma pause_loop_ends:
  assumes room: "work + 255 < period" and gone: "\<And>now. clears \<le> now \<Longrightarrow> calm (sample now)"
  shows "monitor_ready tm e \<Longrightarrow> \<exists>r. pause_loop (prod_env tm sample) e = Some r"
proof (induction "2 * (clears - pp_now tm e) + of_bool (tm_next tm (pp_timers e) \<le> pp_now tm e + 250)" arbitrary: e
    rule: less_induct)
  case less
  show ?case
  proof (cases rule: prod_round_cases[of tm sample e])
    case (signal r)
    then show ?thesis by (subst pause_loop_round) simp
  next
    case (tick t')
    let ?e' = "render_status_line tm True (e\<lparr>pp_timers := t'\<rparr>)"
    have t: "tm_next tm (pp_timers e) \<le> pp_now tm e + 250" "pp_now tm e \<le> tm_now tm t'"
        "tm_now tm t' + period \<le> tm_next tm t' + 5"
      using interval_first[OF tick(1)] by auto
    have e': "pp_now tm e \<le> pp_now tm ?e'" "pp_now tm ?e' + 250 < tm_next tm (pp_timers ?e')" "monitor_ready tm ?e'"
      using render_time[of "e\<lparr>pp_timers := t'\<rparr>" True] t room less.prems
      by (force simp: monitor_ready_def)+
    have "\<exists>r. pause_loop (prod_env tm sample) ?e' = Some r" by (rule less.hyps) (use t e' in auto)
    then show ?thesis by (subst pause_loop_round) (simp add: tick)
  next
    case (recheck t' p e')
    have t: "pp_now tm e + 250 \<le> tm_now tm t'" using sleep_first[OF recheck(1)] by simp
    note fresh = recheck_fresh[OF less.prems recheck(1,2)]
    have "tm_now tm t' < clears"
      using gone[of "tm_now tm t'"] recheck(3) fresh(1) by (fastforce simp: calm_def split: option.splits)
    then have "\<exists>r. pause_loop (prod_env tm sample) e' = Some r"
      by (intro less.hyps) (use t fresh in \<open>auto simp: of_bool_def\<close>)
    then show ?thesis by (subst pause_loop_round) (simp add: recheck)
  qed
qed

text \<open>With an interval shorter than the sleep the progress tick always wins: the pressure is never checked again.\<close>

lemma short_interval_never_rechecks:
  assumes short: "period < 250"
  shows "tm_next tm (pp_timers e) \<le> pp_now tm e + period \<Longrightarrow>
    pause_rounds (prod_env tm sample) n e \<noteq> Some (Inr Dispatch, e')"
proof (induction n arbitrary: e)
  case (Suc n)
  show ?case
  proof (cases "tm_select tm 250 (pp_timers e)")
    case (Pair o1 t')
    show ?thesis
    proof (cases o1)
      case SleepElapsed
      then show ?thesis using sleep_first[of 250 "pp_timers e" t'] Pair Suc.prems short by simp
    next
      case IntervalTick
      let ?e' = "render_status_line tm True (e\<lparr>pp_timers := t'\<rparr>)"
      have "tm_next tm (pp_timers ?e') \<le> pp_now tm ?e' + period"
        using render_time[of "e\<lparr>pp_timers := t'\<rparr>" True] interval_first[of 250 "pp_timers e" t'] Pair IntervalTick by auto
      from Suc.IH[OF this] show ?thesis
        using Pair IntervalTick by (simp add: pause_round_def prod_env_def prod_next_tick_def)
    next
      case (SignalArrived s)
      then show ?thesis using Pair by (cases s) (auto simp: pause_round_def prod_env_def prod_next_tick_def)
    qed
  qed
qed simp

end


text \<open>Timers that are always punctual.\<close>

record IdealTimers =
  it_now :: nat
  it_next :: nat
  it_signal :: "(nat \<times> ShutdownSignal) option"

definition ideal_select :: "nat \<Rightarrow> nat \<Rightarrow> IdealTimers \<Rightarrow> SelectOutcome \<times> IdealTimers" where
  "ideal_select period d t =
     (let sleep = it_now t + d; first = min sleep (it_next t)
      in case it_signal t of
           Some (at_ms, s) \<Rightarrow>
             if at_ms \<le> first then (SignalArrived (Inr s), t\<lparr>it_now := max at_ms (it_now t), it_signal := None\<rparr>)
             else if it_next t \<le> sleep
             then (let now = max (it_now t) (it_next t) in (IntervalTick, t\<lparr>it_now := now, it_next := now + period\<rparr>))
             else (SleepElapsed, t\<lparr>it_now := sleep\<rparr>)
         | None \<Rightarrow>
             if it_next t \<le> sleep
             then (let now = max (it_now t) (it_next t) in (IntervalTick, t\<lparr>it_now := now, it_next := now + period\<rparr>))
             else (SleepElapsed, t\<lparr>it_now := sleep\<rparr>))"

definition ideal_timers :: "nat \<Rightarrow> nat \<Rightarrow> IdealTimers timers" where
  "ideal_timers period work =
     \<lparr>tm_now = it_now, tm_next = it_next, tm_select = ideal_select period, tm_work = (\<lambda>t. t\<lparr>it_now := it_now t + work\<rparr>)\<rparr>"

interpretation ideal: tokio_timers "ideal_timers period work" period work for period work
  by unfold_locales (auto simp: ideal_timers_def ideal_select_def Let_def split: option.splits if_splits)

definition example_prod :: "bool \<Rightarrow> IdealTimers ProdPressureEnv" where
  "example_prod enabled =
     \<lparr>pp_monitor = memory_monitor_new enabled, pp_latest = pressure_clear,
      pp_timers = \<lparr>it_now = 0, it_next = 5000, it_signal = None\<rparr>, pp_mode = DefaultMode, pp_running = 1,
      pp_stderr = [], pp_rendered = []\<rparr>"

section \<open>Properties\<close>

definition reading_at :: "(nat \<Rightarrow> MemoryPressure option) \<Rightarrow> nat \<Rightarrow> MemoryPressure" where
  "reading_at sample t = (case sample t of None \<Rightarrow> pressure_clear | Some p \<Rightarrow> p)"

text \<open>What is cached was read.\<close>

definition cache_true :: "(nat \<Rightarrow> MemoryPressure option) \<Rightarrow> MemoryMonitor \<Rightarrow> bool" where
  "cache_true sample m \<longleftrightarrow> mm_ttl m = 250 \<and> (\<forall>t p. mm_cache m = Some (t, p) \<longrightarrow> p = reading_at sample t)"

lemma check_at_true:
  assumes "check_at now (sample now) m = (p, m')" "cache_true sample m"
  shows "cache_true sample m'" "mm_enabled m \<Longrightarrow> \<exists>t. now - t < 250 \<and> p = reading_at sample t"
  using assms unfolding check_at_def cache_true_def Let_def reading_at_def[symmetric]
  by (auto split: if_splits option.splits prod.splits intro: exI[of _ now])

lemma prod_step_true: "prod_step tm sample e e' \<Longrightarrow> cache_true sample (pp_monitor e) \<Longrightarrow> cache_true sample (pp_monitor e')"
  by (induction rule: prod_step.induct)
     (auto simp: prod_defs Let_def split: prod.splits dest: check_at_true(1))

lemma prod_reach:
  assumes "(prod_step tm sample)\<^sup>*\<^sup>* e0 e" "prod_wf e0" "cache_true sample (pp_monitor e0)"
    "\<And>now q. sample now = Some q \<Longrightarrow> verdict_wf q"
  shows "prod_wf e \<and> cache_true sample (pp_monitor e) \<and> mm_enabled (pp_monitor e) = mm_enabled (pp_monitor e0)"
  using assms(1)
proof (induction rule: rtranclp_induct)
  case (step y z)
  then show ?case using prod_step_wf[OF step.hyps(2) _ assms(4)] prod_step_true[OF step.hyps(2)] by simp
qed (use assms(2,3) in simp)



text \<open>C40: A task held back by memory pressure is released. When the progress interval leaves room for the 250 milliseconds between
  two checks, as the five seconds of redirected output do, and the pressure is gone from some time on,
  the wait ends, whatever the interval, the signals and the readings before do; it ends with a release only on a calm verdict, and prints one
  notice when it pauses and one when it resumes.\<close>

theorem pause_resumes_when_clear:
  assumes "tokio_timers tm period work" "work + 255 < period"
    and "\<And>now. clears \<le> now \<Longrightarrow> calm (sample now)"
    and "monitor_ready tm e"
  shows "\<exists>r e'. await_pressure_clearance (prod_env tm sample) e = Some (r, e') \<and>
    (if r = Inr Dispatch
     then \<not> mp_paused (pp_latest e') \<and>
       (pp_stderr e' = pp_stderr e \<or>
        (\<exists>detail. pp_stderr e' =
           pp_stderr e @ [pause_notice_line detail, ''Memory pressure cleared; resuming task dispatch.'']))
     else \<exists>detail. pp_stderr e' = pp_stderr e @ [pause_notice_line detail])"
proof -
  obtain p e1 where c: "prod_check tm sample e = (p, e1)" by fastforce
  have e1: "pp_latest e1 = p" "pp_stderr e1 = pp_stderr e" "pp_timers e1 = pp_timers e" "monitor_ready tm e1"
    using c assms(4) by (auto simp: prod_check_def check_at_def monitor_ready_def Let_def split: prod.splits option.splits if_splits)
  have await: "await_pressure_clearance (prod_env tm sample) e =
      (if \<not> mp_paused p then Some (Inr Dispatch, e1) else pause_loop (prod_env tm sample) (prod_notify_paused e1))"
    using c by (simp add: await_pressure_clearance_def prod_env_def)
  show ?thesis
  proof (cases "mp_paused p")
    case False
    then show ?thesis using await e1 by auto
  next
    case True
    have "monitor_ready tm (prod_notify_paused e1)" using e1(4) by (simp add: monitor_ready_def prod_notify_paused_def)
    from tokio_timers.pause_loop_ends[OF assms(1,2), of clears sample, OF assms(3) this]
    obtain r e' where r: "pause_loop (prod_env tm sample) (prod_notify_paused e1) = Some (r, e')" by auto
    then obtain n where "pause_rounds (prod_env tm sample) n (prod_notify_paused e1) = Some (r, e')"
      unfolding pause_loop_rounds by blast
    from prod_rounds_end[OF this] show ?thesis
      using await True r e1(2) by (auto simp: prod_notify_paused_def split: if_splits)
  qed
qed

theorem pause_resumes_when_clear_witness:
  "\<exists>r e'. await_pressure_clearance
     (prod_env (ideal_timers (progress_interval_duration_from_value False None) 20) (\<lambda>now. platform_sample (Some (now < 700, LowMemory))))
     (example_prod True) = Some (r, e')"
proof -
  let ?tm = "ideal_timers (progress_interval_duration_from_value False None) 20"
  have "monitor_ready ?tm (example_prod True)"
    by (simp add: monitor_ready_def example_prod_def memory_monitor_new_def)
  moreover have "calm (platform_sample (Some (now < 700, LowMemory)))" if "700 \<le> now" for now :: nat
    using that by (simp add: calm_def platform_sample_def platform_reading_to_pressure_def)
  moreover have "20 + 255 < progress_interval_duration_from_value False None"
    by (simp add: progress_interval_duration_from_value_def)
  ultimately show ?thesis
    using pause_resumes_when_clear[OF ideal.tokio_timers_axioms, of 20 "progress_interval_duration_from_value False None" 700
        "\<lambda>now. platform_sample (Some (now < 700, LowMemory))" "example_prod True"]
    by blast
qed

text \<open>On a terminal the interval is 100 milliseconds, shorter than the sleep, which each round starts anew: the wait never
  checks again, and ends only by a signal.\<close>

lemma live_pause_never_resumes:
  assumes "tokio_timers tm (progress_interval_duration_from_value True None) work"
    and "tm_next tm (pp_timers e) \<le> tm_now tm (pp_timers e) + progress_interval_duration_from_value True None"
  shows "pause_loop (prod_env tm sample) e \<noteq> Some (Inr Dispatch, e')"
proof
  assume "pause_loop (prod_env tm sample) e = Some (Inr Dispatch, e')"
  then obtain n where "pause_rounds (prod_env tm sample) n e = Some (Inr Dispatch, e')" unfolding pause_loop_rounds by blast
  moreover have "progress_interval_duration_from_value True None < 250" by (simp add: progress_interval_duration_from_value_def)
  ultimately show False using tokio_timers.short_interval_never_rechecks[OF assms(1) _ assms(2)] by blast
qed

text \<open>A tuning variable that passes the check at startup is the value that is used; only a blank one means the default.\<close>

lemma psi_threshold_validated:
  assumes "validate_mem_pressure_tuning_env rnd env = Inr ()"
  shows "case non_blank (env ''LUCHTA_MEM_PSI_THRESHOLD'') of
      None \<Rightarrow> psi_threshold rnd (env ''LUCHTA_MEM_PSI_THRESHOLD'') = Finite 60
    | Some v \<Rightarrow> \<exists>q\<ge>0. parse_psi_threshold rnd v = Some (Finite q) \<and>
        psi_threshold rnd (env ''LUCHTA_MEM_PSI_THRESHOLD'') = Finite q"
proof -
  have finite: "\<exists>q\<ge>0. x = Finite q" if "parse_psi_threshold rnd v = Some x" for v x
    using that by (cases x) (auto simp: parse_psi_threshold_def split: option.splits if_splits)
  show ?thesis
    using assms finite by (fastforce simp: validate_mem_pressure_tuning_env_def reject_unparseable_env_def psi_threshold_def
      split: option.splits if_splits)
qed

lemma macos_level_validated:
  assumes "validate_mem_pressure_tuning_env rnd env = Inr ()"
  shows "case non_blank (env ''LUCHTA_MEM_MACOS_LEVEL'') of
      None \<Rightarrow> macos_min_level (env ''LUCHTA_MEM_MACOS_LEVEL'') = 4
    | Some v \<Rightarrow> parse_macos_level v = Some (macos_min_level (env ''LUCHTA_MEM_MACOS_LEVEL''))"
  using assms by (auto simp: validate_mem_pressure_tuning_env_def reject_unparseable_env_def macos_min_level_def bind_result_Inr_iff
      split: option.splits if_splits)

lemma psi_fields_examples:
  "parse_psi_full_avg10 Finite (''some avg10=7.40 total=1'' @ [CHR 0x0A] @ ''full avg10=6.1 total=2'' @ [CHR 0x0A]) = Some (Finite (61/10))"
  "parse_psi_full_avg10 Finite ''some avg10=50.00 total=9'' = None"
  "psi_threshold Finite (Some ''60%'') = Finite 60" "psi_threshold Finite (Some '' 30.5 '') = Finite (61/2)"
  "cgroup_pressure_path ''0::/a/b'' = Some ''/sys/fs/cgroup/a/b/memory.pressure''"
  "detail_to_string (Stalled (Finite (96/10))) = ''stalled 10%''"
  by code_simp+

end
