(* ===== verification/CommandMap.thy ===== *)
theory CommandMap
  imports InputExpansion Executor
begin

text \<open>
  What each task of the graph would execute, \<open>build_command_map\<close> of \<open>crates/luchta-cli/src/run/dispatch.rs\<close>: the request handed
  to the executor, or the reason why the task is misconfigured, or nothing for a connector. With it the parts of the command line that feed the
  cache key of a task: the merged environment (\<open>env_merge.rs\<close>), the cache nonce (\<open>cache_nonce.rs\<close>), and the conflicts of the
  environment reported by \<open>luchta check\<close> (\<open>env_conflict.rs\<close>). The process environment is an argument; percent encoding,
  of another crate, is the parameter \<open>encode\<close> with the laws of the locale \<open>nonce_encoding\<close>.
\<close>

section \<open>Environment\<close>

type_synonym env_specs = "(string, EnvSpec) hmap"

definition merge_env :: "env_specs \<Rightarrow> env_specs option \<Rightarrow> env_specs \<Rightarrow> env_specs" where
  "merge_env global worker task =
     btree_collect (global @ (case worker of None \<Rightarrow> [] | Some w \<Rightarrow> w) @ task)"

definition BUILTIN_PASSTHROUGH_ENV :: "string list" where
  "BUILTIN_PASSTHROUGH_ENV =
     [''PATH'', ''PATHEXT'', ''LD_LIBRARY_PATH'', ''DYLD_FALLBACK_LIBRARY_PATH'', ''HOME'', ''USER'', ''LOGNAME'', ''SHELL'',
      ''XDG_CONFIG_HOME'', ''XDG_DATA_HOME'', ''XDG_CACHE_HOME'', ''USERPROFILE'', ''APPDATA'', ''PROGRAMDATA'', ''SystemRoot'',
      ''SYSTEMDRIVE'', ''WINDIR'', ''ProgramFiles'', ''ProgramFiles(x86)'', ''TMPDIR'', ''TMP'', ''TEMP'', ''TERM'', ''COLORTERM'',
      ''FORCE_COLOR'', ''NO_COLOR'', ''LANG'', ''LC_ALL'', ''TZ'', ''SSL_CERT_FILE'', ''SSL_CERT_DIR'', ''CI'',
      ''HTTP_PROXY'', ''HTTPS_PROXY'', ''NO_PROXY'', ''http_proxy'', ''https_proxy'', ''no_proxy'']"

definition resolve_task_env :: "(string \<Rightarrow> string option) \<Rightarrow> env_specs \<Rightarrow> (string, string) hmap" where
  "resolve_task_env var env =
     collect_map (List.map_filter (\<lambda>(name, spec). map_option (Pair name) (resolve_env_value spec name (\<lambda>_. var name))) env)"

definition collect_builtin_passthrough_env :: "(string \<Rightarrow> string option) \<Rightarrow> (string, string) hmap" where
  "collect_builtin_passthrough_env var =
     collect_map (List.map_filter (\<lambda>name. map_option (Pair name) (var name)) BUILTIN_PASSTHROUGH_ENV)"

definition build_execution_env :: "(string \<Rightarrow> string option) \<Rightarrow> env_specs \<Rightarrow> (string, string) hmap" where
  "build_execution_env var merged_env =
     fold (\<lambda>(k, v). AList.update k v) (resolve_task_env var merged_env) (collect_builtin_passthrough_env var)"

section \<open>Conflicting variables\<close>

record EnvConflict =
  ec_var_name :: string
  ec_scope_label :: string

definition has_conflict :: "EnvSpec \<Rightarrow> bool" where
  "has_conflict spec \<longleftrightarrow> es_value spec \<noteq> None \<and> es_default spec \<noteq> None"

definition scope_conflicts :: "string \<Rightarrow> env_specs \<Rightarrow> EnvConflict list" where
  "scope_conflicts label env =
     map (\<lambda>(name, _). \<lparr>ec_var_name = name, ec_scope_label = label\<rparr>) (filter (\<lambda>(_, spec). has_conflict spec) env)"

definition conflict_to_diagnostic :: "EnvConflict \<Rightarrow> string" where
  "conflict_to_diagnostic c =
     ''env variable '' @ sq @ ec_var_name c @ sq @ '' in '' @ ec_scope_label c @
     '' sets both `value` and `default` (set + setDefault conflict)''"

definition detect_env_conflicts ::
  "env_specs \<Rightarrow> (string, WorkerDefinition) hmap \<Rightarrow> (TaskName, TaskDefinition) hmap \<Rightarrow> EnvConflict list" where
  "detect_env_conflicts global_env workers pipeline =
     scope_conflicts ''global'' global_env @
     concat (map (\<lambda>(name, w). scope_conflicts (''worker '' @ sq @ name @ sq) (wd_env w)) (sort_key fst workers)) @
     concat (map (\<lambda>(name, t). scope_conflicts (''task '' @ sq @ name @ sq) (td_env t)) (sort_key fst pipeline))"

section \<open>The cache nonce\<close>

definition resolve_cache_nonce ::
  "(string \<Rightarrow> string) \<Rightarrow> string option \<Rightarrow> string option \<Rightarrow> string option \<Rightarrow> string option \<Rightarrow> string option" where
  "resolve_cache_nonce encode env_nonce global_nonce worker_nonce task_nonce =
     (let parts = List.map_filter (\<lambda>(key, val). map_option (\<lambda>v. key @ ''='' @ encode v) val)
            [(''env'', env_nonce), (''global'', global_nonce), (''worker'', worker_nonce), (''task'', task_nonce)]
      in if parts = [] then None else Some (join_with ''&'' parts))"

definition resolve_task_nonce ::
  "(string \<Rightarrow> string) \<Rightarrow> string option \<Rightarrow> string option \<Rightarrow> (string, WorkerDefinition) hmap \<Rightarrow> TaskDefinition \<Rightarrow> string option" where
  "resolve_task_nonce encode env_cache_nonce global_cache_nonce workers task_def =
     resolve_cache_nonce encode env_cache_nonce global_cache_nonce
       (Option.bind (Option.bind (Option.bind (td_worker task_def) (map_of workers)) wd_cache) cc_cache_nonce)
       (Option.bind (td_cache task_def) cc_cache_nonce)"

section \<open>The command map\<close>

record CommandMap =
  cm_commands :: "(TaskId, ExecutionRequest) hmap"
  cm_invalid :: "(TaskId, string) hmap"
  cm_task_envs :: "(TaskId, env_specs) hmap"

definition input_origin_clause :: "bool \<Rightarrow> string" where
  "input_origin_clause inputs_from_worker =
     (if inputs_from_worker then ''returned by the worker'' else ''declared in the task spec'')"

definition path_eq :: "string \<Rightarrow> string \<Rightarrow> bool" where
  "path_eq a b \<longleftrightarrow> path_components a = path_components b"

text \<open>The inputs of the map, and its context.\<close>

record MapCtx =
  mc_packages :: "PackageNode list"
  mc_workspace_root :: string
  mc_global_env :: env_specs
  mc_workers :: "(string, WorkerDefinition) hmap"
  mc_package_graph :: "PackageGraph option"
  mc_var :: "string \<Rightarrow> string option"

datatype TaskPlan = Connector | Invalid string | Command ExecutionRequest env_specs

definition package_by_name :: "PackageNode list \<Rightarrow> PackageName \<Rightarrow> PackageNode option" where
  "package_by_name packages name = map_of (rev (map (\<lambda>p. (pn_name p, p)) packages)) name"

definition invalid_inputs :: "toposort \<Rightarrow> MapCtx \<Rightarrow> TaskGraph \<Rightarrow> TaskId \<Rightarrow> InputExpansionError option" where
  "invalid_inputs topo mc tg task_id =
     (case (tg_task_definition tg task_id, mc_package_graph mc) of
        (Some def, Some graph) \<Rightarrow>
          if td_inputs def = [] then None
          else (case expand_input_patterns topo (td_inputs def) (tid_package task_id) graph (mc_workspace_root mc) of
                  Inl e \<Rightarrow> Some e | Inr _ \<Rightarrow> None)
      | _ \<Rightarrow> None)"

text \<open>One round of the loop over the nodes: a \<open>continue\<close> of the code is \<open>Connector\<close> or \<open>Invalid\<close>.\<close>

definition plan_task :: "toposort \<Rightarrow> MapCtx \<Rightarrow> TaskGraph \<Rightarrow> TaskNode \<Rightarrow> TaskPlan" where
  "plan_task topo mc tg node =
     (let task_id = tn_id node;
          task_def = tg_task_definition tg task_id;
          package = package_by_name (mc_packages mc) (tid_package task_id);
          cwd = (if is_root_task task_id then mc_workspace_root mc
                 else case package of Some pkg \<Rightarrow> pn_path pkg | None \<Rightarrow> mc_workspace_root mc);
          worker = Option.bind task_def td_worker;
          worker_env = map_option wd_env (Option.bind worker (map_of (mc_workers mc)));
          task_env = (case task_def of Some def \<Rightarrow> td_env def | None \<Rightarrow> []);
          merged_env = merge_env (mc_global_env mc) worker_env task_env;
          request = (\<lambda>command workspace.
            \<lparr>er_task = node, er_command = command, er_cwd = Some cwd, er_env = build_execution_env (mc_var mc) merged_env,
             er_worker = worker, er_workspace = workspace, er_inputs = map_option td_inputs task_def,
             er_outputs = map_option td_outputs task_def, er_log_sink = None\<rparr>)
      in case invalid_inputs topo mc tg task_id of
           Some e \<Rightarrow>
             Invalid (''input \"'' @ input_error_pattern e @ ''\" for task \"'' @ task_id_to_string task_id @ ''\" ('' @
               input_origin_clause (tg_inputs_from_worker tg task_id) @ ''): '' @ input_error_to_string e)
         | None \<Rightarrow>
             (case worker of
                Some worker_name \<Rightarrow>
                  if map_of (mc_workers mc) worker_name = None
                  then Invalid (''task '' @ sq @ task_id_to_string task_id @ sq @ '' references unknown worker '' @ sq @ worker_name @ sq)
                  else Command
                    (request (resolve_script_name (Option.bind task_def td_command) (tid_task task_id))
                       (Some (case package of
                          Some pkg \<Rightarrow> if path_eq (pn_path pkg) (mc_workspace_root mc) then [] else pn_name pkg
                        | None \<Rightarrow> [])))
                    merged_env
              | None \<Rightarrow>
                  (case task_def of
                     Some definition \<Rightarrow>
                       if \<not> counts_in_progress definition then Connector
                       else Invalid (''task '' @ sq @ task_id_to_string task_id @ sq @
                              '' defines a command but no worker; specify a worker to execute it'')
                   | None \<Rightarrow> Connector)))"

definition add_plan :: "TaskId \<Rightarrow> TaskPlan \<Rightarrow> CommandMap \<Rightarrow> CommandMap" where
  "add_plan task_id plan cm =
     (case plan of
        Connector \<Rightarrow> cm
      | Invalid message \<Rightarrow> cm\<lparr>cm_invalid := AList.update task_id message (cm_invalid cm)\<rparr>
      | Command request env \<Rightarrow>
          cm\<lparr>cm_task_envs := AList.update task_id env (cm_task_envs cm),
             cm_commands := AList.update task_id request (cm_commands cm)\<rparr>)"

definition build_command_map :: "toposort \<Rightarrow> MapCtx \<Rightarrow> TaskGraph \<Rightarrow> CommandMap" where
  "build_command_map topo mc tg =
     fold (\<lambda>node. add_plan (tn_id node) (plan_task topo mc tg node)) (tg_nodes tg)
       \<lparr>cm_commands = [], cm_invalid = [], cm_task_envs = []\<rparr>"

section \<open>Output patterns that stay in the package\<close>

fun outputs_lexically_in_package :: "string list \<Rightarrow> bool" where
  "outputs_lexically_in_package [] = True"
| "outputs_lexically_in_package (pattern # patterns) =
     (if strip_prefix ''/'' pattern \<noteq> None then False
      else if strip_prefix ''../'' pattern \<noteq> None \<or> str_contains ''/../'' pattern then False
      else if pattern = ''..'' \<or> strip_prefix (rev ''/..'') (rev pattern) \<noteq> None then False
      else outputs_lexically_in_package patterns)"


section \<open>Environment: what a task sees\<close>

definition env_ok :: "env_specs \<Rightarrow> bool" where
  "env_ok env \<longleftrightarrow> distinct (map fst env)"

lemma distinct_merge_env [simp]: "distinct (map fst (merge_env global worker task))"
  using distinct_collect_map[unfolded distinct_map] by (simp add: merge_env_def btree_collect_def distinct_map)

lemma map_of_merge_env:
  assumes "env_ok global" "\<And>w. worker = Some w \<Longrightarrow> env_ok w" "env_ok task"
  shows "map_of (merge_env global worker task) name =
    (case map_of task name of Some s \<Rightarrow> Some s
     | None \<Rightarrow> (case Option.bind worker (\<lambda>w. map_of w name) of Some s \<Rightarrow> Some s | None \<Rightarrow> map_of global name))"
  using assms by (cases worker) (auto simp: merge_env_def btree_collect_map env_ok_def map_of_rev_distinct map_add_def split: option.splits)

lemma map_of_filter_pairs:
  "distinct ks \<Longrightarrow> map_of (List.map_filter (\<lambda>k. map_option (Pair k) (f k)) ks) x = (if x \<in> set ks then f x else None)"
  by (induction ks) (auto simp: List.map_filter_simps split: option.splits)

lemma distinct_filter_pairs: "distinct ks \<Longrightarrow> distinct (map fst (List.map_filter (\<lambda>k. map_option (Pair k) (f k)) ks))"
  by (induction ks) (auto simp: List.map_filter_simps split: option.splits)

lemma distinct_builtin: "distinct BUILTIN_PASSTHROUGH_ENV"
  by (simp add: BUILTIN_PASSTHROUGH_ENV_def)

lemma map_of_passthrough:
  "map_of (collect_builtin_passthrough_env var) name = (if name \<in> set BUILTIN_PASSTHROUGH_ENV then var name else None)"
  unfolding collect_builtin_passthrough_env_def map_of_collect_map
    map_of_rev_distinct[OF distinct_filter_pairs[OF distinct_builtin]]
  by (rule map_of_filter_pairs[OF distinct_builtin])

lemma map_of_filter_specs:
  "distinct (map fst env) \<Longrightarrow>
   map_of (List.map_filter (\<lambda>(k, s). map_option (Pair k) (f k s)) env) x = Option.bind (map_of env x) (f x) \<and>
   distinct (map fst (List.map_filter (\<lambda>(k, s). map_option (Pair k) (f k s)) env))"
proof (induction env)
  case (Cons p env)
  obtain k s where p: "p = (k, s)" by fastforce
  have "k \<notin> fst ` set (List.map_filter (\<lambda>(k, s). map_option (Pair k) (f k s)) env)"
    using Cons.prems by (auto simp: p List.map_filter_def image_iff split: if_splits)
  moreover from this have "map_of (List.map_filter (\<lambda>(k, s). map_option (Pair k) (f k s)) env) k = None"
    by (simp add: map_of_eq_None_iff)
  ultimately show ?case using Cons p by (auto simp: List.map_filter_simps map_of_eq_None_iff split: option.splits)
qed (simp add: List.map_filter_simps)

lemma map_of_task_env:
  "env_ok env \<Longrightarrow> map_of (resolve_task_env var env) name =
     Option.bind (map_of env name) (\<lambda>spec. resolve_env_value spec name (\<lambda>_. var name))"
  using map_of_filter_specs[of env "\<lambda>k s. resolve_env_value s k (\<lambda>_. var k)" name]
  by (simp add: resolve_task_env_def env_ok_def map_of_collect_map map_of_rev_distinct)

lemma map_of_execution_env:
  assumes "env_ok env"
  shows "map_of (build_execution_env var env) name =
    (case map_of (resolve_task_env var env) name of Some v \<Rightarrow> Some v
     | None \<Rightarrow> map_of (collect_builtin_passthrough_env var) name)"
proof -
  have upd: "map_of (fold (\<lambda>(k, v). AList.update k v) ps m) name =
      (case map_of (rev ps) name of Some v \<Rightarrow> Some v | None \<Rightarrow> map_of m name)" for ps :: "(string \<times> string) list" and m
    using fold_update_map_of[of ps m] by (simp add: map_add_def)
  have "distinct (map fst (resolve_task_env var env))" by (simp add: resolve_task_env_def)
  then show ?thesis unfolding build_execution_env_def upd by (simp add: map_of_rev_distinct)
qed

section \<open>Output patterns\<close>

lemma split_on_nonempty [simp]: "split_on c s \<noteq> []"
  by (cases s) (auto split: list.splits)

lemma split_on_append: "split_on c (a @ c # b) = split_on c a @ split_on c b"
proof (induction a)
  case (Cons x a)
  then show ?case by (cases "split_on c a") auto
qed simp

lemma join_with_append:
  "xs \<noteq> [] \<Longrightarrow> ys \<noteq> [] \<Longrightarrow> join_with sep (xs @ ys) = join_with sep xs @ sep @ join_with sep ys"
proof (induction sep xs rule: join_with.induct)
  case (2 sep s)
  then show ?case by (cases ys) auto
qed auto

text \<open>Where a piece between separators occurs.\<close>

lemma split_on_piece:
  assumes "c \<notin> set p"
  shows "p \<in> set (split_on c s) \<longleftrightarrow>
     s = p \<or> (\<exists>b. s = p @ c # b) \<or> (\<exists>a. s = a @ c # p) \<or> (\<exists>a b. s = a @ c # p @ c # b)"
proof
  have join: "join_with [c] (split_on c s) = s" for s
  proof (induction s)
    case (Cons x s)
    then show ?case by (cases "split_on c s"; cases "tl (split_on c s)") (auto split: list.splits)
  qed simp
  assume "p \<in> set (split_on c s)"
  then obtain xs ys where s: "split_on c s = xs @ p # ys" by (meson split_list)
  have "s = join_with [c] (xs @ p # ys)" using join[of s] s by simp
  then show "s = p \<or> (\<exists>b. s = p @ c # b) \<or> (\<exists>a. s = a @ c # p) \<or> (\<exists>a b. s = a @ c # p @ c # b)"
    using join_with_append[of xs "p # ys" "[c]"] join_with_append[of "[p]" ys "[c]"]
    by (cases "xs = []"; cases "ys = []") auto
next
  assume "s = p \<or> (\<exists>b. s = p @ c # b) \<or> (\<exists>a. s = a @ c # p) \<or> (\<exists>a b. s = a @ c # p @ c # b)"
  then show "p \<in> set (split_on c s)"
    using split_on_append[of c] split_on_absent[OF assms] by fastforce
qed

lemma outputs_lexically_in_package_iff:
  "outputs_lexically_in_package patterns \<longleftrightarrow>
     (\<forall>p \<in> set patterns. \<not> path_is_absolute p \<and> ''..'' \<notin> set (split_on (CHR ''/'') p))"
proof (induction patterns)
  case (Cons p ps)
  have "strip_prefix (rev ''/..'') (rev p) \<noteq> None \<longleftrightarrow> (\<exists>a. p = a @ ''/..'')"
    by (metis append_assoc rev_append rev_rev_ident strip_prefix_None)
  moreover have "''..'' \<in> set (split_on (CHR ''/'') p) \<longleftrightarrow>
      p = ''..'' \<or> (\<exists>b. p = ''..'' @ CHR ''/'' # b) \<or> (\<exists>a. p = a @ CHR ''/'' # ''..'') \<or>
      (\<exists>a b. p = a @ CHR ''/'' # ''..'' @ CHR ''/'' # b)"
    by (rule split_on_piece) simp
  moreover have "strip_prefix ''../'' p \<noteq> None \<longleftrightarrow> (\<exists>b. p = ''..'' @ CHR ''/'' # b)"
    by (auto simp: strip_prefix_None)
  moreover have "str_contains ''/../'' p \<longleftrightarrow> (\<exists>a b. p = a @ CHR ''/'' # ''..'' @ CHR ''/'' # b)"
    by (auto simp: str_contains_iff)
  ultimately show ?case using Cons by (simp add: path_is_absolute_def)
qed simp


section \<open>The nonce identifies its sources\<close>

text \<open>What the crate documents: encoding is injective, and the bytes of the encode set do not occur in the result.\<close>

locale nonce_encoding =
  fixes encode :: "string \<Rightarrow> string"
  assumes encode_inj: "encode a = encode b \<Longrightarrow> a = b"
    and encode_amp: "CHR ''&'' \<notin> set (encode a)"
begin

definition part :: "string \<Rightarrow> string option \<Rightarrow> string list" where
  "part key val = (case val of None \<Rightarrow> [] | Some v \<Rightarrow> [key @ ''='' @ encode v])"

lemma nonce_parts:
  "resolve_cache_nonce encode e g w t =
     (let parts = part ''env'' e @ part ''global'' g @ part ''worker'' w @ part ''task'' t
      in if parts = [] then None else Some (join_with ''&'' parts))"
  by (auto simp: resolve_cache_nonce_def part_def List.map_filter_simps Let_def split: option.splits)

lemma parts_inj:
  "part ''env'' e @ part ''global'' g @ part ''worker'' w @ part ''task'' t =
     part ''env'' e' @ part ''global'' g' @ part ''worker'' w' @ part ''task'' t' \<longleftrightarrow>
   e = e' \<and> g = g' \<and> w = w' \<and> t = t'"
  using encode_inj by (auto simp: part_def split: option.splits)

lemma parts_amp:
  "x \<in> set (part ''env'' e @ part ''global'' g @ part ''worker'' w @ part ''task'' t) \<Longrightarrow> CHR ''&'' \<notin> set x"
  using encode_amp by (auto simp: part_def split: option.splits)

end

lemma split_on_join:
  "xs \<noteq> [] \<Longrightarrow> (\<And>x. x \<in> set xs \<Longrightarrow> c \<notin> set x) \<Longrightarrow> split_on c (join_with [c] xs) = xs"
proof (induction "[c]" xs rule: join_with.induct)
  case (2 s)
  then show ?case by (simp add: split_on_absent)
next
  case (3 s t ts)
  have "join_with [c] (s # t # ts) = s @ c # join_with [c] (t # ts)" by simp
  then show ?case using 3 by (simp only: split_on_append) (simp add: split_on_absent)
qed simp

context nonce_encoding begin

lemma nonce_inj:
  "resolve_cache_nonce encode e g w t = resolve_cache_nonce encode e' g' w' t' \<longleftrightarrow> e = e' \<and> g = g' \<and> w = w' \<and> t = t'"
proof
  let ?p = "part ''env'' e @ part ''global'' g @ part ''worker'' w @ part ''task'' t"
  let ?p' = "part ''env'' e' @ part ''global'' g' @ part ''worker'' w' @ part ''task'' t'"
  assume eq: "resolve_cache_nonce encode e g w t = resolve_cache_nonce encode e' g' w' t'"
  have split: "split_on (CHR ''&'') (join_with ''&'' x) = x"
    if "x = ?p \<or> x = ?p'" "x \<noteq> []" for x
    using that parts_amp by (intro split_on_join) blast+
  have "(if ?p = [] then None else Some (join_with ''&'' ?p)) = (if ?p' = [] then None else Some (join_with ''&'' ?p'))"
    using eq unfolding nonce_parts Let_def .
  then have "?p = ?p'" using split[of ?p] split[of ?p'] by (metis option.distinct(1) option.inject)
  then show "e = e' \<and> g = g' \<and> w = w' \<and> t = t'" unfolding parts_inj .
qed simp

end

text \<open>Percent encoding with the controls, the bytes above ASCII and \<open>%\<close>, \<open>&\<close>, \<open>=\<close> escaped.\<close>

definition hex_digit :: "nat \<Rightarrow> char" where
  "hex_digit n = char_of (if n < 10 then 48 + n else 55 + n)"

definition percent_byte :: "char \<Rightarrow> string" where
  "percent_byte c =
     (if of_char c < (32 :: nat) \<or> (127 :: nat) \<le> of_char c \<or> c \<in> {CHR ''%'', CHR ''&'', CHR ''=''}
      then [CHR ''%'', hex_digit (of_char c div 16), hex_digit (of_char c mod 16)] else [c])"

definition percent_encode :: "string \<Rightarrow> string" where
  "percent_encode s = concat (map percent_byte s)"

lemma hex_digit_inj: "m < 16 \<Longrightarrow> n < 16 \<Longrightarrow> hex_digit m = hex_digit n \<longleftrightarrow> m = n"
  unfolding hex_digit_def by (auto split: if_splits dest!: arg_cong[where f = "of_char :: char \<Rightarrow> nat"] simp: of_char_of)

lemma nibbles: "of_char (c :: char) div 16 < (16 :: nat)" "of_char c mod 16 < (16 :: nat)"
  using nat_of_char_less_256[of c] by (simp_all only: less_mult_imp_div_less[of _ 16 16, simplified] mod_less_divisor)

lemma percent_byte_inj: "percent_byte c @ s = percent_byte d @ t \<longleftrightarrow> c = d \<and> s = t"
proof -
  have hex: "hex_digit (of_char c div 16) = hex_digit (of_char d div 16) \<and>
      hex_digit (of_char c mod 16) = hex_digit (of_char d mod 16) \<longleftrightarrow> c = d"
  proof -
    have "of_char c div 16 = (of_char d div 16 :: nat) \<and> of_char c mod 16 = (of_char d mod 16 :: nat) \<longleftrightarrow>
        of_char c = (of_char d :: nat)"
      by (metis div_mult_mod_eq)
    then show ?thesis using hex_digit_inj[OF nibbles(1)[of c] nibbles(1)[of d]] hex_digit_inj[OF nibbles(2)[of c] nibbles(2)[of d]] by auto
  qed
  show ?thesis unfolding percent_byte_def using hex by auto
qed

lemma hex_digit_not_amp: "n < 16 \<Longrightarrow> hex_digit n \<noteq> CHR ''&''"
proof
  assume "n < 16" "hex_digit n = CHR ''&''"
  then have "of_char (hex_digit n) = (38 :: nat)" by simp
  then show False using \<open>n < 16\<close> by (auto simp: hex_digit_def of_char_of split: if_splits)
qed

interpretation nonce: nonce_encoding percent_encode
proof
  show "a = b" if "percent_encode a = percent_encode b" for a b
    using that
  proof (induction a arbitrary: b)
    case Nil
    then show ?case by (cases b) (auto simp: percent_encode_def percent_byte_def split: if_splits)
  next
    case (Cons c a)
    from Cons.prems obtain d b' where b: "b = d # b'"
      by (cases b) (auto simp: percent_encode_def percent_byte_def split: if_splits)
    with Cons show ?case by (auto simp: percent_encode_def percent_byte_inj)
  qed
  have "CHR ''&'' \<notin> set (percent_byte c)" for c
    using hex_digit_not_amp[OF nibbles(1)[of c]] hex_digit_not_amp[OF nibbles(2)[of c]] by (auto simp: percent_byte_def)
  then show "CHR ''&'' \<notin> set (percent_encode a)" for a by (auto simp: percent_encode_def)
qed


section \<open>Which tasks run\<close>

lemma add_plans_frame:
  "t \<notin> tn_id ` set ns \<Longrightarrow>
   map_of (cm_commands (fold (\<lambda>n. add_plan (tn_id n) (f n)) ns cm)) t = map_of (cm_commands cm) t \<and>
   map_of (cm_invalid (fold (\<lambda>n. add_plan (tn_id n) (f n)) ns cm)) t = map_of (cm_invalid cm) t \<and>
   map_of (cm_task_envs (fold (\<lambda>n. add_plan (tn_id n) (f n)) ns cm)) t = map_of (cm_task_envs cm) t"
  by (induction ns arbitrary: cm) (auto simp: add_plan_def hmap_simps split: TaskPlan.splits)

lemma add_plans_node:
  assumes "distinct (map tn_id ns)" "node \<in> set ns" "t = tn_id node"
    "map_of (cm_commands cm) t = None" "map_of (cm_invalid cm) t = None" "map_of (cm_task_envs cm) t = None"
  shows "map_of (cm_commands (fold (\<lambda>n. add_plan (tn_id n) (f n)) ns cm)) t = (case f node of Command r e \<Rightarrow> Some r | _ \<Rightarrow> None)"
    "map_of (cm_invalid (fold (\<lambda>n. add_plan (tn_id n) (f n)) ns cm)) t = (case f node of Invalid m \<Rightarrow> Some m | _ \<Rightarrow> None)"
    "map_of (cm_task_envs (fold (\<lambda>n. add_plan (tn_id n) (f n)) ns cm)) t = (case f node of Command r e \<Rightarrow> Some e | _ \<Rightarrow> None)"
proof -
  obtain as bs where ns: "ns = as @ node # bs" using assms(2) by (meson split_list)
  have fresh: "tn_id node \<notin> tn_id ` set as" "tn_id node \<notin> tn_id ` set bs" using assms(1) ns by auto
  note before = add_plans_frame[OF fresh(1), of f cm]
  show "map_of (cm_commands (fold (\<lambda>n. add_plan (tn_id n) (f n)) ns cm)) t = (case f node of Command r e \<Rightarrow> Some r | _ \<Rightarrow> None)"
    "map_of (cm_invalid (fold (\<lambda>n. add_plan (tn_id n) (f n)) ns cm)) t = (case f node of Invalid m \<Rightarrow> Some m | _ \<Rightarrow> None)"
    "map_of (cm_task_envs (fold (\<lambda>n. add_plan (tn_id n) (f n)) ns cm)) t = (case f node of Command r e \<Rightarrow> Some e | _ \<Rightarrow> None)"
    using before assms(4-6) unfolding ns assms(3) fold_append fold_simps comp_def
    by (simp_all add: add_plans_frame[OF fresh(2)] add_plan_def hmap_simps split: TaskPlan.split)
qed

lemma map_node:
  assumes "wf_task_graph tg" "node \<in> set (tg_nodes tg)"
  shows "map_of (cm_commands (build_command_map topo mc tg)) (tn_id node) =
      (case plan_task topo mc tg node of Command r e \<Rightarrow> Some r | _ \<Rightarrow> None)"
    "map_of (cm_invalid (build_command_map topo mc tg)) (tn_id node) =
      (case plan_task topo mc tg node of Invalid m \<Rightarrow> Some m | _ \<Rightarrow> None)"
    "map_of (cm_task_envs (build_command_map topo mc tg)) (tn_id node) =
      (case plan_task topo mc tg node of Command r e \<Rightarrow> Some e | _ \<Rightarrow> None)"
proof -
  have d: "distinct (map tn_id (tg_nodes tg))"
    using named_distinct[of tn_id "tg_graph tg" "tg_indices_by_id tg"] assms(1) by (simp add: wf_task_graph_def tg_nodes_def)
  show "map_of (cm_commands (build_command_map topo mc tg)) (tn_id node) =
      (case plan_task topo mc tg node of Command r e \<Rightarrow> Some r | _ \<Rightarrow> None)"
    "map_of (cm_invalid (build_command_map topo mc tg)) (tn_id node) =
      (case plan_task topo mc tg node of Invalid m \<Rightarrow> Some m | _ \<Rightarrow> None)"
    "map_of (cm_task_envs (build_command_map topo mc tg)) (tn_id node) =
      (case plan_task topo mc tg node of Command r e \<Rightarrow> Some e | _ \<Rightarrow> None)"
    unfolding build_command_map_def by (rule add_plans_node[OF d assms(2) refl]; simp)+
qed

lemma map_outside:
  assumes "t \<notin> tg_ids tg"
  shows "map_of (cm_commands (build_command_map topo mc tg)) t = None"
    "map_of (cm_invalid (build_command_map topo mc tg)) t = None"
    "map_of (cm_task_envs (build_command_map topo mc tg)) t = None"
  unfolding build_command_map_def using assms by (simp_all add: add_plans_frame tg_ids_def tg_nodes_def)

text \<open>The declaration of a variable that counts for a task, and its value there.\<close>

definition declared_spec :: "MapCtx \<Rightarrow> TaskDefinition \<Rightarrow> string \<Rightarrow> EnvSpec option" where
  "declared_spec mc def name =
     (case map_of (td_env def) name of Some s \<Rightarrow> Some s
      | None \<Rightarrow>
          (case Option.bind (Option.bind (td_worker def) (map_of (mc_workers mc))) (\<lambda>w. map_of (wd_env w) name) of
             Some s \<Rightarrow> Some s | None \<Rightarrow> map_of (mc_global_env mc) name))"

definition task_variable :: "MapCtx \<Rightarrow> TaskDefinition \<Rightarrow> string \<Rightarrow> string option" where
  "task_variable mc def name =
     (case Option.bind (declared_spec mc def name) (\<lambda>s. resolve_env_value s name (\<lambda>_. mc_var mc name)) of
        Some v \<Rightarrow> Some v
      | None \<Rightarrow> if name \<in> set BUILTIN_PASSTHROUGH_ENV then mc_var mc name else None)"

definition envs_ok :: "MapCtx \<Rightarrow> TaskGraph \<Rightarrow> bool" where
  "envs_ok mc tg \<longleftrightarrow> env_ok (mc_global_env mc) \<and> (\<forall>(_, w) \<in> set (mc_workers mc). env_ok (wd_env w)) \<and>
     (\<forall>(_, d) \<in> set (tg_definitions_by_id tg). env_ok (td_env d))"

lemma plan_env:
  assumes ok: "envs_ok mc tg" and d: "tg_task_definition tg t = Some def"
    and env: "env = merge_env (mc_global_env mc)
      (map_option wd_env (Option.bind (td_worker def) (map_of (mc_workers mc)))) (td_env def)"
  shows "map_of env name = declared_spec mc def name"
    "map_of (build_execution_env (mc_var mc) env) name = task_variable mc def name"
proof -
  have g: "env_ok (mc_global_env mc)" using ok by (simp add: envs_ok_def)
  have w: "env_ok w" if "map_option wd_env (Option.bind (td_worker def) (map_of (mc_workers mc))) = Some w" for w
    using that ok by (auto simp: envs_ok_def bind_eq_Some_conv dest!: map_of_SomeD)
  have t: "env_ok (td_env def)" using ok d by (auto simp: envs_ok_def tg_task_definition_def dest!: map_of_SomeD)
  show m: "map_of env name = declared_spec mc def name" for name
  proof -
    have "map_of env name =
      (case map_of (td_env def) name of Some s \<Rightarrow> Some s
       | None \<Rightarrow> (case Option.bind (map_option wd_env (Option.bind (td_worker def) (map_of (mc_workers mc)))) (\<lambda>w. map_of w name) of
           Some s \<Rightarrow> Some s | None \<Rightarrow> map_of (mc_global_env mc) name))"
      unfolding env by (rule map_of_merge_env) (use g w t in auto)
    then show ?thesis
      by (cases "td_worker def"; cases "map_of (mc_workers mc) (the (td_worker def))") (auto simp: declared_spec_def split: option.splits)
  qed
  have e: "env_ok env" unfolding env env_ok_def by simp
  show "map_of (build_execution_env (mc_var mc) env) name = task_variable mc def name"
    unfolding map_of_execution_env[OF e] map_of_task_env[OF e] map_of_passthrough m task_variable_def ..
qed



definition example_cmd_tg :: TaskGraph where
  "example_cmd_tg = example_tg\<lparr>tg_definitions_by_id :=
     [(task_id_new ''ui'' ''build'', (task_definition_new [DirectUpstream ''build''] 2)
        \<lparr>td_worker := Some ''tsc'', td_env := [(''MODE'', \<lparr>es_value = Some ''prod'', es_default = None, es_input = True\<rparr>)]\<rparr>),
      (task_id_new ''core'' ''build'', task_definition_new [DirectUpstream ''build''] 1)]\<rparr>"

definition example_mc :: MapCtx where
  "example_mc =
     \<lparr>mc_packages = example_packages, mc_workspace_root = ''/w'', mc_global_env = [],
      mc_workers = [(''tsc'', \<lparr>wd_command = ''tsc-worker'', wd_depends_on = [], wd_cache = None,
         wd_env = [(''MODE'', \<lparr>es_value = Some ''dev'', es_default = None, es_input = True\<rparr>)]\<rparr>)],
      mc_package_graph = Some example_graph, mc_var = (\<lambda>name. if name = ''PATH'' then Some ''/bin'' else None)\<rparr>"

lemma example_cmd_wf: "wf_task_graph example_cmd_tg"
  using task_graph_construction_witness
  by (auto simp: wf_task_graph_def example_cmd_tg_def example_tg_def example_rp_def task_definition_new_def)


text \<open>The nonce that enters the cache key of a task determines all four of its sources, the process environment, the global
  configuration, the task's worker and the task itself, whatever characters they contain: changing, setting or removing any one of
  them gives another nonce, and two tasks share a nonce only when all four agree.\<close>

lemma cache_nonce_identity:
  assumes "nonce_encoding encode"
  shows "resolve_task_nonce encode env_nonce global_nonce workers def =
      resolve_task_nonce encode env_nonce' global_nonce' workers' def' \<longleftrightarrow>
    env_nonce = env_nonce' \<and> global_nonce = global_nonce' \<and>
    Option.bind (Option.bind (Option.bind (td_worker def) (map_of workers)) wd_cache) cc_cache_nonce =
      Option.bind (Option.bind (Option.bind (td_worker def') (map_of workers')) wd_cache) cc_cache_nonce \<and>
    Option.bind (td_cache def) cc_cache_nonce = Option.bind (td_cache def') cc_cache_nonce"
  unfolding resolve_task_nonce_def by (rule nonce_encoding.nonce_inj[OF assms])

lemma cache_nonce_identity_witness:
  "resolve_task_nonce percent_encode (Some ''1&worker=2'') None [] task_definition_default \<noteq>
   resolve_task_nonce percent_encode (Some ''1'') None
     [(''tsc'', \<lparr>wd_command = [], wd_depends_on = [], wd_cache = Some \<lparr>cc_cache_nonce = Some ''2''\<rparr>, wd_env = []\<rparr>)]
     (task_definition_default\<lparr>td_worker := Some ''tsc''\<rparr>)"
  unfolding cache_nonce_identity[OF nonce.nonce_encoding_axioms] by simp

lemma percent_encode_example: "percent_encode ''a=b&c%'' = ''a%3Db%26c%25''"
  by code_simp

text \<open>Exactly the conflicting declarations are reported, in their scopes.\<close>

definition conflicting :: "string \<Rightarrow> env_specs \<Rightarrow> bool" where
  "conflicting name env \<longleftrightarrow> (\<exists>spec. (name, spec) \<in> set env \<and> es_value spec \<noteq> None \<and> es_default spec \<noteq> None)"

lemma env_conflicts_exactly:
  "c \<in> set (detect_env_conflicts global workers pipeline) \<longleftrightarrow>
     conflicting (ec_var_name c) global \<and> ec_scope_label c = ''global'' \<or>
     (\<exists>(name, w) \<in> set workers. conflicting (ec_var_name c) (wd_env w) \<and> ec_scope_label c = ''worker '' @ sq @ name @ sq) \<or>
     (\<exists>(name, t) \<in> set pipeline. conflicting (ec_var_name c) (td_env t) \<and> ec_scope_label c = ''task '' @ sq @ name @ sq)"
proof -
  have scope: "c \<in> set (scope_conflicts label env) \<longleftrightarrow> conflicting (ec_var_name c) env \<and> ec_scope_label c = label" for label env
    by (cases c) (force simp: scope_conflicts_def has_conflict_def conflicting_def)
  show ?thesis unfolding detect_env_conflicts_def by (auto simp: scope)
qed

end
