(* ===== verification/LocalStore.thy ===== *)
theory LocalStore
  imports CacheHash Messages
begin

text \<open>
  The local cache of run records, \<open>crates/luchta-cache/src/store.rs\<close> with the atomic write of
  \<open>crates/luchta-cache/src/shared/atomicio.rs\<close>. A file is named by its directory and its name there. A write is the list of its
  steps, so that it can fail at any of them, or the process can die between two; the outcome of each input or output operation is the
  argument \<open>io\<close>. The encoding of records by bincode and the BLAKE3 key of a task are parameters, with the laws of the locale
  \<open>record_codec\<close>.
\<close>

definition SCHEMA_VERSION_V5 :: u32 where
  "SCHEMA_VERSION_V5 = 5"

definition META_FILE_NAME :: string where
  "META_FILE_NAME = ''meta.bincode''"

definition STDOUT_FILE_NAME :: string where
  "STDOUT_FILE_NAME = ''stdout.log''"

definition STDERR_FILE_NAME :: string where
  "STDERR_FILE_NAME = ''stderr.log''"

record ReportInput =
  ri_filename :: string
  ri_mime_type :: string
  ri_content :: string

record RunArtifacts =
  ra_record :: TaskRunRecord
  ra_stdout :: string
  ra_stderr :: string
  ra_reports :: "ReportInput list"

text \<open>Contents and time of modification in seconds.\<close>

record StoredFile =
  sf_bytes :: string
  sf_modified :: nat

type_synonym Files = "(string \<times> string, StoredFile) hmap"

record StoreCodec =
  sc_key :: "string \<Rightarrow> string"
  sc_encode :: "TaskRunRecord \<Rightarrow> CacheError + string"
  sc_decode :: "string \<Rightarrow> TaskRunRecord option"

record Cache =
  ch_root :: string
  ch_codec :: StoreCodec

definition task_dir :: "Cache \<Rightarrow> string \<Rightarrow> string" where
  "task_dir cache task_id = join_path (ch_root cache) (sc_key (ch_codec cache) task_id)"

definition valid_store_filename :: "string \<Rightarrow> bool" where
  "valid_store_filename filename \<longleftrightarrow>
     filename \<noteq> [] \<and> \<not> path_is_absolute filename \<and> \<not> str_contains ''/'' filename \<and> \<not> str_contains [CHR 0x5C] filename \<and>
     \<not> str_contains ''..'' filename \<and>
     filename \<noteq> META_FILE_NAME \<and> filename \<noteq> STDOUT_FILE_NAME \<and> filename \<noteq> STDERR_FILE_NAME"

section \<open>Reading\<close>

definition cache_read :: "Cache \<Rightarrow> Files \<Rightarrow> string \<Rightarrow> TaskRunRecord option" where
  "cache_read cache files task_id =
     Option.bind (map_of files (task_dir cache task_id, META_FILE_NAME)) (\<lambda>file.
     Option.bind (sc_decode (ch_codec cache) (sf_bytes file)) (\<lambda>record.
     if rr_schema_version record = SCHEMA_VERSION_V5 then Some record else None))"

definition read_report :: "Cache \<Rightarrow> Files \<Rightarrow> string \<Rightarrow> string \<Rightarrow> string option" where
  "read_report cache files task_id filename =
     (if \<not> valid_store_filename filename then None else map_option sf_bytes (map_of files (task_dir cache task_id, filename)))"

section \<open>Writing\<close>

text \<open>An operation succeeds, fails before it has an effect, or, for an atomic write, fails in the sync of the directory
  after the rename.\<close>

datatype IoOutcome = IoOk | IoFails string | IoFailsAfterRename string

fun atomic_write :: "IoOutcome \<Rightarrow> nat \<Rightarrow> string \<times> string \<Rightarrow> string \<Rightarrow> Files \<Rightarrow> (CacheError + unit) \<times> Files" where
  "atomic_write IoOk now path contents files =
     (Inr (), AList.update path \<lparr>sf_bytes = contents, sf_modified = now\<rparr> files)"
| "atomic_write (IoFails e) now path contents files = (Inl (Io e), files)"
| "atomic_write (IoFailsAfterRename e) now path contents files =
     (Inl (Io e), AList.update path \<lparr>sf_bytes = contents, sf_modified = now\<rparr> files)"

datatype WriteStep = CreateDir | CheckReport string | Encode | Put string string

definition write_steps :: "Cache \<Rightarrow> RunArtifacts \<Rightarrow> WriteStep list" where
  "write_steps cache artifacts =
     [CreateDir] @
     concat (map (\<lambda>r. [CheckReport (ri_filename r), Put (ri_filename r) (ri_content r)]) (ra_reports artifacts)) @
     [Encode, Put STDOUT_FILE_NAME (ra_stdout artifacts), Put STDERR_FILE_NAME (ra_stderr artifacts),
      Put META_FILE_NAME (case sc_encode (ch_codec cache) (ra_record artifacts) of Inr bytes \<Rightarrow> bytes | Inl _ \<Rightarrow> [])]"

fun write_step :: "Cache \<Rightarrow> string \<Rightarrow> TaskRunRecord \<Rightarrow> IoOutcome \<Rightarrow> nat \<Rightarrow> WriteStep \<Rightarrow> Files \<Rightarrow> (CacheError + unit) \<times> Files" where
  "write_step cache task_id record io now CreateDir files =
     (case io of IoOk \<Rightarrow> (Inr (), files) | IoFails e \<Rightarrow> (Inl (Io e), files) | IoFailsAfterRename e \<Rightarrow> (Inl (Io e), files))"
| "write_step cache task_id record io now (CheckReport filename) files =
     (if valid_store_filename filename then (Inr (), files)
      else (Inl (InputExpansion (''invalid cached report filename: '' @ filename)), files))"
| "write_step cache task_id record io now Encode files =
     (case sc_encode (ch_codec cache) record of Inl e \<Rightarrow> (Inl e, files) | Inr _ \<Rightarrow> (Inr (), files))"
| "write_step cache task_id record io now (Put filename contents) files =
     atomic_write io now (task_dir cache task_id, filename) contents files"

fun run_steps ::
  "Cache \<Rightarrow> string \<Rightarrow> TaskRunRecord \<Rightarrow> IoOutcome list \<Rightarrow> nat \<Rightarrow> WriteStep list \<Rightarrow> Files \<Rightarrow> (CacheError + unit) \<times> Files" where
  "run_steps cache task_id record ios now [] files = (Inr (), files)"
| "run_steps cache task_id record ios now (step # steps) files =
     (case write_step cache task_id record (case ios of [] \<Rightarrow> IoOk | io # _ \<Rightarrow> io) now step files of
        (Inl e, files') \<Rightarrow> (Inl e, files')
      | (Inr _, files') \<Rightarrow> run_steps cache task_id record (tl ios) now steps files')"

text \<open>\<open>ios\<close> holds the outcomes of the first steps; the rest succeed.\<close>

definition cache_write ::
  "Cache \<Rightarrow> IoOutcome list \<Rightarrow> nat \<Rightarrow> string \<Rightarrow> RunArtifacts \<Rightarrow> Files \<Rightarrow> (CacheError + unit) \<times> Files" where
  "cache_write cache ios now task_id artifacts files =
     run_steps cache task_id (ra_record artifacts) ios now (write_steps cache artifacts) files"

section \<open>Opening\<close>

definition ends_with :: "string \<Rightarrow> string \<Rightarrow> bool" where
  "ends_with suffix s \<longleftrightarrow> strip_prefix (rev suffix) (rev s) \<noteq> None"

text \<open>The cache directory holds one directory per task; a file that cannot be removed stays.\<close>

definition clean_tmp_files_older_than :: "(string \<times> string \<Rightarrow> bool) \<Rightarrow> nat \<Rightarrow> nat \<Rightarrow> Files \<Rightarrow> Files" where
  "clean_tmp_files_older_than removable max_age now files =
     filter (\<lambda>(path, file). \<not> (ends_with ''.tmp'' (snd path) \<and> max_age < now - sf_modified file \<and> removable path)) files"

definition cache_open :: "(string \<times> string \<Rightarrow> bool) \<Rightarrow> nat \<Rightarrow> Files \<Rightarrow> Files" where
  "cache_open removable now files = clean_tmp_files_older_than removable 3600 now files"

definition resolve_cache_dir :: "string option \<Rightarrow> string \<Rightarrow> string" where
  "resolve_cache_dir cache_dir_env workspace_root =
     (case cache_dir_env of Some path \<Rightarrow> path | None \<Rightarrow> join_path (join_path workspace_root ''.luchta'') ''cache'')"

section \<open>What a crash leaves\<close>

locale record_codec =
  fixes codec :: StoreCodec
  assumes key_inj: "sc_key codec a = sc_key codec b \<Longrightarrow> a = b"
    and key_relative: "\<not> path_is_absolute (sc_key codec a)"
    and decode_encode: "sc_encode codec r = Inr bytes \<Longrightarrow> sc_decode codec bytes = Some r"


lemma task_dir_inj:
  assumes "record_codec (ch_codec cache)"
  shows "task_dir cache a = task_dir cache b \<longleftrightarrow> a = b"
proof
  assume "task_dir cache a = task_dir cache b"
  then have "sc_key (ch_codec cache) a = sc_key (ch_codec cache) b"
    using record_codec.key_relative[OF assms]
    by (auto simp: task_dir_def join_path_def path_is_absolute_def split: if_splits)
  then show "a = b" by (rule record_codec.key_inj[OF assms])
qed simp

lemma store_names [simp]:
  "META_FILE_NAME \<noteq> STDOUT_FILE_NAME" "META_FILE_NAME \<noteq> STDERR_FILE_NAME" "STDOUT_FILE_NAME \<noteq> STDERR_FILE_NAME"
  "STDOUT_FILE_NAME \<noteq> META_FILE_NAME" "STDERR_FILE_NAME \<noteq> META_FILE_NAME" "STDERR_FILE_NAME \<noteq> STDOUT_FILE_NAME"
  by (simp_all add: META_FILE_NAME_def STDOUT_FILE_NAME_def STDERR_FILE_NAME_def)

lemma valid_names: "valid_store_filename f \<Longrightarrow> f \<noteq> META_FILE_NAME \<and> f \<noteq> STDOUT_FILE_NAME \<and> f \<noteq> STDERR_FILE_NAME"
  by (simp add: valid_store_filename_def)

text \<open>One step touches one file of one task.\<close>

lemma atomic_write_cases:
  "snd (atomic_write io now path contents files) = files \<and> fst (atomic_write io now path contents files) \<noteq> Inr () \<or>
   snd (atomic_write io now path contents files) = AList.update path \<lparr>sf_bytes = contents, sf_modified = now\<rparr> files"
  by (cases io) auto

lemma write_step_frame:
  "(\<And>f c. step = Put f c \<Longrightarrow> x \<noteq> (task_dir cache task_id, f)) \<Longrightarrow>
   map_of (snd (write_step cache task_id record io now step files)) x = map_of files x"
  by (cases step; cases io) (auto simp: hmap_simps split: sum.splits)

lemma run_steps_frame:
  "(\<And>f c. Put f c \<in> set steps \<Longrightarrow> x \<noteq> (task_dir cache task_id, f)) \<Longrightarrow>
   map_of (snd (run_steps cache task_id record ios now steps files)) x = map_of files x"
proof (induction steps arbitrary: ios files)
  case (Cons step steps)
  let ?w = "write_step cache task_id record (case ios of [] \<Rightarrow> IoOk | io # _ \<Rightarrow> io) now step files"
  have "map_of (snd ?w) x = map_of files x" by (rule write_step_frame) (use Cons.prems in auto)
  moreover have "map_of (snd (run_steps cache task_id record (tl ios) now steps (snd ?w))) x = map_of (snd ?w) x"
    by (rule Cons.IH) (use Cons.prems in auto)
  ultimately show ?case by (auto split: sum.splits prod.splits)
qed simp

abbreviation report_steps :: "ReportInput list \<Rightarrow> WriteStep list" where
  "report_steps reports \<equiv> concat (map (\<lambda>r. [CheckReport (ri_filename r), Put (ri_filename r) (ri_content r)]) reports)"

text \<open>The reports, cut off anywhere, leave the files of the record alone: an invalid name is refused before it is written.\<close>

lemma report_steps_frame:
  assumes "name \<in> {META_FILE_NAME, STDOUT_FILE_NAME, STDERR_FILE_NAME}"
  shows "map_of (snd (run_steps cache task_id record ios now (take k (report_steps reports)) files)) (task_dir cache task_id, name) =
     map_of files (task_dir cache task_id, name)"
proof (induction reports arbitrary: k ios files)
  case (Cons r reports)
  show ?case
  proof (cases "valid_store_filename (ri_filename r)")
    case False
    then show ?thesis by (cases k) auto
  next
    case True
    then have ne: "(task_dir cache task_id, name) \<noteq> (task_dir cache task_id, ri_filename r)" using assms valid_names by auto
    let ?io = "case tl ios of [] \<Rightarrow> IoOk | io # _ \<Rightarrow> io"
    show ?thesis
    proof (cases k)
      case (Suc k1)
      show ?thesis
      proof (cases k1)
        case (Suc k2)
        let ?w = "atomic_write ?io now (task_dir cache task_id, ri_filename r) (ri_content r) files"
        have "map_of (snd ?w) (task_dir cache task_id, name) = map_of files (task_dir cache task_id, name)"
          using ne by (cases ?io) (auto simp: hmap_simps)
        then show ?thesis using True Cons.IH[of "tl (tl ios)" k2 "snd ?w"] \<open>k = Suc k1\<close> Suc
          by (auto split: sum.splits prod.splits)
      qed (use True \<open>k = Suc k1\<close> in auto)
    qed simp
  qed
qed simp

lemma run_steps_append:
  "run_steps cache task_id record ios now (xs @ ys) files =
     (case run_steps cache task_id record ios now xs files of
        (Inl e, files') \<Rightarrow> (Inl e, files')
      | (Inr _, files') \<Rightarrow> run_steps cache task_id record (drop (length xs) ios) now ys files')"
proof (induction xs arbitrary: ios files)
  case (Cons step xs)
  show ?case using Cons.IH by (auto simp: drop_Suc split: sum.splits prod.splits)
qed simp

abbreviation final_steps :: "Cache \<Rightarrow> RunArtifacts \<Rightarrow> WriteStep list" where
  "final_steps cache artifacts \<equiv>
     [Encode, Put STDOUT_FILE_NAME (ra_stdout artifacts), Put STDERR_FILE_NAME (ra_stderr artifacts),
      Put META_FILE_NAME (case sc_encode (ch_codec cache) (ra_record artifacts) of Inr bytes \<Rightarrow> bytes | Inl _ \<Rightarrow> [])]"

lemma final_steps_meta:
  "let x = (task_dir cache task_id, META_FILE_NAME);
       files' = snd (run_steps cache task_id (ra_record artifacts) ios now (take k (final_steps cache artifacts)) files)
   in map_of files' x = map_of files x \<or>
      (\<exists>bytes. sc_encode (ch_codec cache) (ra_record artifacts) = Inr bytes \<and>
         map_of files' x = Some \<lparr>sf_bytes = bytes, sf_modified = now\<rparr>)"
proof (cases "k \<le> 3")
  case True
  have "map_of (snd (run_steps cache task_id (ra_record artifacts) ios now (take k (final_steps cache artifacts)) files))
      (task_dir cache task_id, META_FILE_NAME) = map_of files (task_dir cache task_id, META_FILE_NAME)"
    by (rule run_steps_frame) (use True in \<open>auto simp: take_Cons' split: if_splits\<close>)
  then show ?thesis by (simp add: Let_def)
next
  case False
  let ?pre = "[Encode, Put STDOUT_FILE_NAME (ra_stdout artifacts), Put STDERR_FILE_NAME (ra_stderr artifacts)]"
  let ?x = "(task_dir cache task_id, META_FILE_NAME)"
  let ?w = "run_steps cache task_id (ra_record artifacts) ios now ?pre files"
  have pre: "map_of (snd ?w) ?x = map_of files ?x" by (rule run_steps_frame) auto
  have all: "take k (final_steps cache artifacts) =
      ?pre @ [Put META_FILE_NAME (case sc_encode (ch_codec cache) (ra_record artifacts) of Inr bytes \<Rightarrow> bytes | Inl _ \<Rightarrow> [])]"
    using False by (simp add: take_Cons')
  show ?thesis
  proof (cases "sc_encode (ch_codec cache) (ra_record artifacts)")
    case (Inl e)
    then have "?w = (Inl e, files)" by simp
    then show ?thesis unfolding Let_def all run_steps_append by simp
  next
    case (Inr bytes)
    let ?io = "case drop 3 ios of [] \<Rightarrow> IoOk | io # _ \<Rightarrow> io"
    show ?thesis unfolding Let_def all run_steps_append using pre Inr
      by (cases "fst ?w"; cases ?io) (auto simp: hmap_simps numeral_3_eq_3 split: prod.splits)
  qed
qed


lemma write_prefix_meta:
  "let x = (task_dir cache task_id, META_FILE_NAME);
       files' = snd (run_steps cache task_id (ra_record artifacts) ios now (take k (write_steps cache artifacts)) files)
   in map_of files' x = map_of files x \<or>
      (\<exists>bytes. sc_encode (ch_codec cache) (ra_record artifacts) = Inr bytes \<and>
         map_of files' x = Some \<lparr>sf_bytes = bytes, sf_modified = now\<rparr>)"
proof -
  let ?x = "(task_dir cache task_id, META_FILE_NAME)"
  have create: "run_steps cache task_id r ios now (take k (CreateDir # steps)) files =
      (case k of 0 \<Rightarrow> (Inr (), files)
       | Suc k' \<Rightarrow> (case write_step cache task_id r (case ios of [] \<Rightarrow> IoOk | io # _ \<Rightarrow> io) now CreateDir files of
           (Inl e, f) \<Rightarrow> (Inl e, f) | (Inr _, f) \<Rightarrow> run_steps cache task_id r (tl ios) now (take k' steps) f))" for r steps
    by (cases k) auto
  have unchanged: "write_step cache task_id r io now CreateDir files = (a, f) \<Longrightarrow> f = files" for r io a f
    by (cases io) auto
  let ?n = "length (report_steps (ra_reports artifacts))"
  have rest: "let files' = snd (run_steps cache task_id (ra_record artifacts) ios' now
      (take k' (report_steps (ra_reports artifacts) @ final_steps cache artifacts)) files)
    in map_of files' ?x = map_of files ?x \<or>
      (\<exists>bytes. sc_encode (ch_codec cache) (ra_record artifacts) = Inr bytes \<and>
         map_of files' ?x = Some \<lparr>sf_bytes = bytes, sf_modified = now\<rparr>)" for k' ios'
  proof -
    let ?r = "run_steps cache task_id (ra_record artifacts) ios' now (take k' (report_steps (ra_reports artifacts))) files"
    have r: "map_of (snd ?r) ?x = map_of files ?x" by (rule report_steps_frame) simp
    show ?thesis
      using final_steps_meta[of cache task_id artifacts "drop (length (take k' (report_steps (ra_reports artifacts)))) ios'" now "k' - ?n" "snd ?r"] r
      unfolding take_append run_steps_append Let_def by (auto split: prod.splits sum.splits)
  qed
  show ?thesis
  proof (cases k)
    case (Suc k')
    obtain a f where w: "write_step cache task_id (ra_record artifacts) (case ios of [] \<Rightarrow> IoOk | io # _ \<Rightarrow> io) now CreateDir files = (a, f)"
      by fastforce
    show ?thesis
      using rest[of "tl ios" k'] unfolding write_steps_def append_Cons append_Nil create Let_def
      unfolding Suc nat.case w unchanged[OF w]
      by (cases a) simp_all
  qed simp
qed

lemma cache_read_meta:
  assumes "map_of files' (task_dir cache task_id, META_FILE_NAME) = map_of files (task_dir cache task_id, META_FILE_NAME)"
  shows "cache_read cache files' task_id = cache_read cache files task_id"
  using assms by (simp add: cache_read_def)

lemma write_prefix_own:
  assumes "record_codec (ch_codec cache)" "rr_schema_version (ra_record artifacts) = SCHEMA_VERSION_V5"
  shows "cache_read cache (snd (run_steps cache task_id (ra_record artifacts) ios now (take k (write_steps cache artifacts)) files)) task_id
    \<in> {cache_read cache files task_id, Some (ra_record artifacts)}"
  using write_prefix_meta[of cache task_id artifacts ios now k files] record_codec.decode_encode[OF assms(1)] assms(2)
  unfolding Let_def by (auto simp: cache_read_def)

lemma write_prefix_other:
  assumes "record_codec (ch_codec cache)" "other \<noteq> task_id"
  shows "map_of (snd (run_steps cache task_id record ios now (take k (write_steps cache artifacts)) files)) (task_dir cache other, name) =
    map_of files (task_dir cache other, name)"
  by (rule run_steps_frame) (use assms task_dir_inj[OF assms(1)] in auto)

lemma cache_write_keeps:
  assumes "record_codec (ch_codec cache)" "rr_schema_version (ra_record artifacts) = SCHEMA_VERSION_V5"
    "cache_write cache ios now task_id artifacts files = (r, files')"
  shows "cache_read cache files' task_id \<in> {cache_read cache files task_id, Some (ra_record artifacts)}"
    "other \<noteq> task_id \<Longrightarrow> cache_read cache files' other = cache_read cache files other"
  using write_prefix_own[OF assms(1,2), of task_id ios now "length (write_steps cache artifacts)" files]
    write_prefix_other[OF assms(1), of other task_id "ra_record artifacts" ios now "length (write_steps cache artifacts)" artifacts files META_FILE_NAME]
    assms(3)
  by (auto simp: cache_write_def cache_read_def)

text \<open>C12: Writing the record of a run is safe against failures and crashes. Wherever the write stops, after any of its steps and with any
  operation failing, even in the sync after a rename, the record that is read back is the old one or the new one, never a mixture and
  never lost; and the records, logs and reports of every other task are untouched.\<close>

theorem cache_write_crash_safe:
  assumes "record_codec (ch_codec cache)" "rr_schema_version (ra_record artifacts) = SCHEMA_VERSION_V5"
  shows "let files' = snd (run_steps cache task_id (ra_record artifacts) ios now (take k (write_steps cache artifacts)) files)
    in cache_read cache files' task_id \<in> {cache_read cache files task_id, Some (ra_record artifacts)} \<and>
       (\<forall>other name. other \<noteq> task_id \<longrightarrow>
          map_of files' (task_dir cache other, name) = map_of files (task_dir cache other, name) \<and>
          cache_read cache files' other = cache_read cache files other)"
  using write_prefix_own[OF assms] write_prefix_other[OF assms(1)] by (auto simp: Let_def cache_read_def)

text \<open>A write that reports success is complete.\<close>

lemma steps_ok_file:
  assumes "run_steps cache task_id record ios now (xs @ Put name contents # ys) files = (Inr (), files')"
    "\<And>f c. Put f c \<in> set ys \<Longrightarrow> f \<noteq> name"
  shows "map_of files' (task_dir cache task_id, name) = Some \<lparr>sf_bytes = contents, sf_modified = now\<rparr>"
proof -
  let ?x = "(task_dir cache task_id, name)"
  obtain f1 where f1: "run_steps cache task_id record ios now xs files = (Inr (), f1)"
    "run_steps cache task_id record (drop (length xs) ios) now (Put name contents # ys) f1 = (Inr (), files')"
    using assms(1) unfolding run_steps_append by (auto split: prod.splits sum.splits)
  let ?io = "case drop (length xs) ios of [] \<Rightarrow> IoOk | io # _ \<Rightarrow> io"
  have io: "?io = IoOk" using f1(2) by (cases ?io) auto
  then have rest: "run_steps cache task_id record (tl (drop (length xs) ios)) now ys
      (AList.update ?x \<lparr>sf_bytes = contents, sf_modified = now\<rparr> f1) = (Inr (), files')"
    using f1(2) by simp
  have "map_of (snd (run_steps cache task_id record (tl (drop (length xs) ios)) now ys
      (AList.update ?x \<lparr>sf_bytes = contents, sf_modified = now\<rparr> f1))) ?x =
    map_of (AList.update ?x \<lparr>sf_bytes = contents, sf_modified = now\<rparr> f1) ?x"
    by (rule run_steps_frame) (use assms(2) in auto)
  then show ?thesis unfolding rest by (simp add: hmap_simps)
qed

lemma steps_ok_checks:
  "run_steps cache task_id record ios now steps files = (Inr (), files') \<Longrightarrow> CheckReport f \<in> set steps \<Longrightarrow> valid_store_filename f"
  "run_steps cache task_id record ios now steps files = (Inr (), files') \<Longrightarrow> Encode \<in> set steps \<Longrightarrow>
     \<exists>bytes. sc_encode (ch_codec cache) record = Inr bytes"
  by (induction steps arbitrary: ios files) (auto split: prod.splits sum.splits if_splits)

lemma cache_write_complete:
  assumes "record_codec (ch_codec cache)" "rr_schema_version (ra_record artifacts) = SCHEMA_VERSION_V5"
    and w: "cache_write cache ios now task_id artifacts files = (Inr (), files')"
  shows "cache_read cache files' task_id = Some (ra_record artifacts)"
    "map_option sf_bytes (map_of files' (task_dir cache task_id, STDOUT_FILE_NAME)) = Some (ra_stdout artifacts)"
    "map_option sf_bytes (map_of files' (task_dir cache task_id, STDERR_FILE_NAME)) = Some (ra_stderr artifacts)"
    "\<And>before r after. ra_reports artifacts = before @ r # after \<Longrightarrow> (\<forall>r' \<in> set after. ri_filename r' \<noteq> ri_filename r) \<Longrightarrow>
       read_report cache files' task_id (ri_filename r) = Some (ri_content r)"
proof -
  let ?reports = "CreateDir # report_steps (ra_reports artifacts)"
  note run = w[unfolded cache_write_def]
  obtain bytes where enc: "sc_encode (ch_codec cache) (ra_record artifacts) = Inr bytes"
    using steps_ok_checks(2)[OF run] by (auto simp: write_steps_def)
  have steps: "write_steps cache artifacts = ?reports @ final_steps cache artifacts" by (simp add: write_steps_def)
  have "map_of files' (task_dir cache task_id, META_FILE_NAME) = Some \<lparr>sf_bytes = bytes, sf_modified = now\<rparr>"
    by (rule steps_ok_file[where ys = "[]" and xs = "?reports @ [Encode, Put STDOUT_FILE_NAME (ra_stdout artifacts), Put STDERR_FILE_NAME (ra_stderr artifacts)]"])
       (use run enc in \<open>simp_all add: steps\<close>)
  then show "cache_read cache files' task_id = Some (ra_record artifacts)"
    using record_codec.decode_encode[OF assms(1) enc] assms(2) by (simp add: cache_read_def)
  have "map_of files' (task_dir cache task_id, STDOUT_FILE_NAME) = Some \<lparr>sf_bytes = ra_stdout artifacts, sf_modified = now\<rparr>"
    by (rule steps_ok_file[where xs = "?reports @ [Encode]" and ys = "[Put STDERR_FILE_NAME (ra_stderr artifacts), Put META_FILE_NAME bytes]"])
       (use run enc in \<open>auto simp: steps\<close>)
  then show "map_option sf_bytes (map_of files' (task_dir cache task_id, STDOUT_FILE_NAME)) = Some (ra_stdout artifacts)" by simp
  have "map_of files' (task_dir cache task_id, STDERR_FILE_NAME) = Some \<lparr>sf_bytes = ra_stderr artifacts, sf_modified = now\<rparr>"
    by (rule steps_ok_file[where xs = "?reports @ [Encode, Put STDOUT_FILE_NAME (ra_stdout artifacts)]" and ys = "[Put META_FILE_NAME bytes]"])
       (use run enc in \<open>auto simp: steps\<close>)
  then show "map_option sf_bytes (map_of files' (task_dir cache task_id, STDERR_FILE_NAME)) = Some (ra_stderr artifacts)" by simp
  show "read_report cache files' task_id (ri_filename r) = Some (ri_content r)"
    if r: "ra_reports artifacts = before @ r # after" "\<forall>r' \<in> set after. ri_filename r' \<noteq> ri_filename r" for before r after
  proof -
    have valid: "valid_store_filename (ri_filename r)"
      by (rule steps_ok_checks(1)[OF run]) (simp add: steps r(1))
    have "map_of files' (task_dir cache task_id, ri_filename r) = Some \<lparr>sf_bytes = ri_content r, sf_modified = now\<rparr>"
      by (rule steps_ok_file[where xs = "CreateDir # report_steps before @ [CheckReport (ri_filename r)]" and
            ys = "report_steps after @ final_steps cache artifacts"])
         (use run r valid_names[OF valid] in \<open>auto simp: steps\<close>)
    then show ?thesis using valid by (simp add: read_report_def)
  qed
qed

text \<open>Opening the cache removes no record and no log.\<close>

lemma ends_with_iff: "ends_with suffix s \<longleftrightarrow> (\<exists>a. s = a @ suffix)"
  unfolding ends_with_def strip_prefix_None not_all not_not by (metis rev_append rev_rev_ident)

lemma cache_open_keeps:
  assumes "name \<in> {META_FILE_NAME, STDOUT_FILE_NAME, STDERR_FILE_NAME}" "distinct (map fst files)"
  shows "map_of (cache_open removable now files) (dir, name) = map_of files (dir, name)"
proof -
  have "\<not> ends_with ''.tmp'' name"
    using assms(1) by (auto simp: ends_with_def META_FILE_NAME_def STDOUT_FILE_NAME_def STDERR_FILE_NAME_def)
  then show ?thesis using assms(2) unfolding cache_open_def clean_tmp_files_older_than_def
    by (induction files) (auto simp: map_of_eq_None_iff image_iff)
qed

text \<open>A codec for examples: every byte string is the encoding of at most one record.\<close>

definition single_codec :: "TaskRunRecord \<Rightarrow> StoreCodec" where
  "single_codec r = \<lparr>sc_key = (\<lambda>s. CHR ''k'' # s), sc_encode = (\<lambda>r'. if r' = r then Inr ''r'' else Inl (SerializeRecord [])),
     sc_decode = (\<lambda>bytes. if bytes = ''r'' then Some r else None)\<rparr>"

interpretation single: record_codec "single_codec r" for r
  by unfold_locales (auto simp: single_codec_def path_is_absolute_def split: if_splits)

definition example_stored :: TaskRunRecord where
  "example_stored =
     \<lparr>rr_schema_version = 5, rr_task_spec_hash = zero_hash, rr_input_patterns = [], rr_inputs = [], rr_output_patterns = [],
      rr_outputs = [], rr_detected_input_patterns = False, rr_detected_output_patterns = False, rr_outputs_hash = zero_hash,
      rr_env_hash = zero_hash, rr_pkg_dep_hash = zero_hash, rr_dep_outputs = [], rr_exit_status = 0, rr_succeeded = True,
      rr_start_unix_ms = 0, rr_end_unix_ms = 0, rr_reports = [], rr_cache_nonce = None, rr_run_reason = None\<rparr>"

theorem cache_write_crash_safe_witness:
  "let cache = \<lparr>ch_root = ''/c'', ch_codec = single_codec example_stored\<rparr>;
       artifacts = \<lparr>ra_record = example_stored, ra_stdout = ''out'', ra_stderr = [],
         ra_reports = [\<lparr>ri_filename = ''lint.sarif'', ri_mime_type = ''application/json'', ri_content = ''{}''\<rparr>]\<rparr>;
       files' = snd (run_steps cache ''a#build'' example_stored [IoOk, IoOk, IoOk, IoOk, IoFails ''disk full''] 7
         (take 6 (write_steps cache artifacts)) [])
   in cache_read cache files' ''a#build'' \<in> {None, Some example_stored}"
  using cache_write_crash_safe[of "\<lparr>ch_root = ''/c'', ch_codec = single_codec example_stored\<rparr>"
      "\<lparr>ra_record = example_stored, ra_stdout = ''out'', ra_stderr = [],
         ra_reports = [\<lparr>ri_filename = ''lint.sarif'', ri_mime_type = ''application/json'', ri_content = ''{}''\<rparr>]\<rparr>"
      "''a#build''" "[IoOk, IoOk, IoOk, IoOk, IoFails ''disk full'']" 7 6 "[]"] single.record_codec_axioms
  by (simp add: Let_def SCHEMA_VERSION_V5_def example_stored_def cache_read_def)

end
