(* ===== verification/RunRecord.thy ===== *)
theory RunRecord
  imports CommandMap CacheDecide LocalStore DepPairs WatchRegistry DepOutputs
begin

text \<open>
  What a finished task leaves behind: the record in the local cache, the entry in the shared cache, the output hash its dependents
  see, and its watched inputs. It models the cache-write path of \<open>crates/luchta-cli/src/run/dispatch.rs\<close> with
  \<open>run/input_stability.rs\<close>, and the context structs of \<open>crates/luchta-cli/src/run.rs\<close>, over the operations of the component
  theories. The file system is an argument, one for each time at which the code looks at it; diagnostics are values of \<open>Notice\<close>. The
  listing cache of a run is left out: \<open>CacheResolve\<close> shows that it does not change what is resolved. The shared cache is the
  argument \<open>SharedApi\<close>. An outer \<open>None\<close> is a panic, or a dependency walk that does not return.
\<close>

section \<open>Context\<close>

datatype Notice =
    SnapshotFailed TaskId bool
  | InputsChanged string
  | InputsUnresolved TaskId
  | OutputsUnresolved TaskId
  | OutputHashSkipped TaskId
  | CacheWriteFailed TaskId CacheError
  | SharedStoreFailed TaskId string
  | CacheFilesUnresolved TaskId
  | CacheFilesOverlap TaskId
  | CacheFilesStoreFailed TaskId string
  | PackageDependenciesFailed TaskId string
  | RestoreOverlaps TaskId
  | RestoreCommitFailed string
  | RestoreDiscardFailed string
  | HydrateFailed TaskId CacheError
  | CacheFilesCommitFailed TaskId string
  | ConnectorRecordFailed TaskId CacheError
  | FailureLogs TaskId
  | TaskMessage string

record ('g, 's) RunEnv =
  re_globs :: "('g, 's) globs"
  re_watch :: "('g, 's) watch_globs"
  re_topo :: toposort
  re_bincode :: bincode
  re_blake3 :: "string \<Rightarrow> hash32"
  re_encode :: "string \<Rightarrow> string"
  re_var :: "string \<Rightarrow> string option"
  re_deps_io :: deps_io
  re_task_envs :: "(TaskId, env_specs) hmap"
  re_workspace_root :: string
  re_package_graph :: PackageGraph
  re_packages :: "PackageNode list"
  re_task_graph :: TaskGraph
  re_lockfile :: LockfileState
  re_workers :: "(string, WorkerDefinition) hmap"
  re_global_cache_nonce :: "string option"
  re_env_cache_nonce :: "string option"
  re_cache :: Cache

definition package_node_for :: "PackageNode list \<Rightarrow> string \<Rightarrow> TaskId \<Rightarrow> PackageNode option" where
  "package_node_for packages workspace_root t =
     (if is_root_task t then List.find (\<lambda>p. path_eq (pn_path p) workspace_root) packages
      else List.find (\<lambda>p. pn_name p = tid_package t) packages)"

record CachePackageContext =
  cpc_package :: "PackageNode option"
  cpc_package_path :: string
  cpc_package_name :: PackageName

definition cache_package_context_for :: "PackageNode list \<Rightarrow> string \<Rightarrow> TaskId \<Rightarrow> CachePackageContext option" where
  "cache_package_context_for packages workspace_root t =
     (if is_root_task t
      then Some \<lparr>cpc_package = package_node_for packages workspace_root t, cpc_package_path = workspace_root,
                 cpc_package_name = tid_package t\<rparr>
      else map_option (\<lambda>p. \<lparr>cpc_package = Some p, cpc_package_path = pn_path p, cpc_package_name = pn_name p\<rparr>)
             (package_node_for packages workspace_root t))"

definition dependency_output_hashes ::
  "('g, 's) RunEnv \<Rightarrow> (TaskId, hash32) hmap \<Rightarrow> TaskId \<Rightarrow> (string \<times> hash32) list option" where
  "dependency_output_hashes re output_hashes task_id =
     resolve_dependency_outputs (re_blake3 re) (re_task_graph re) (map_of output_hashes) task_id"

definition format_expansion_error :: "InputExpansionError \<Rightarrow> string" where
  "format_expansion_error e = ''input \"'' @ input_error_pattern e @ ''\": '' @ input_error_to_string e"

text \<open>The resolver of one package, over a file system.\<close>

definition resolve_with_semantics :: "('g, 's) RunEnv \<Rightarrow> FsEnv \<Rightarrow> ResolveRequest list \<Rightarrow> FileEntry list \<Rightarrow> CacheError + FileEntry list" where
  "resolve_with_semantics re fs requests prior_entries =
     fst (resolve_inputs_with_semantics_and_options (re_globs re) fs requests prior_entries None)"

definition expand_for :: "('g, 's) RunEnv \<Rightarrow> PackageName \<Rightarrow> string list \<Rightarrow> InputExpansionError + ResolveRequest list" where
  "expand_for re source_pkg patterns =
     expand_input_patterns (re_topo re) patterns source_pkg (re_package_graph re) (re_workspace_root re)"

definition package_dir_resolver :: "('g, 's) RunEnv \<Rightarrow> FsEnv \<Rightarrow> string \<Rightarrow> PackageName \<Rightarrow> FileStateResolver" where
  "package_dir_resolver re fs pkg_dir source_pkg =
     \<lparr>fr_resolve_inputs = (\<lambda>patterns prior_entries.
        bind_result (map_err (\<lambda>e. CacheError.InputExpansion (format_expansion_error e)) (expand_for re source_pkg patterns)) (\<lambda>requests.
        resolve_with_semantics re fs requests prior_entries)),
      fr_resolve_outputs = (\<lambda>patterns prior_entries. fst (resolve_outputs_with_options (re_globs re) fs pkg_dir patterns prior_entries None)),
      fr_blake3_file = (\<lambda>path. fs_hash fs (join_path pkg_dir path))\<rparr>"

record CacheStateContext =
  cst_package :: CachePackageContext
  cst_dep_outputs :: "(string \<times> hash32) list"
  cst_pkg_dep_pairs :: "(string \<times> string) list"

definition cache_pkg_dep_pairs ::
  "('g, 's) RunEnv \<Rightarrow> TaskDefinition \<Rightarrow> CachePackageContext \<Rightarrow> (string + (string \<times> string) list) option" where
  "cache_pkg_dep_pairs re task_def pc =
     (let package = (case cpc_package pc of Some p \<Rightarrow> p
                     | None \<Rightarrow> \<lparr>pn_name = cpc_package_name pc, pn_path = cpc_package_path pc, pn_scripts = []\<rparr>)
      in gather_pkg_dep_pairs_filtered (wg_api (re_watch re)) (re_deps_io re) package
           (case cpc_package pc of Some _ \<Rightarrow> Some (re_package_graph re) | None \<Rightarrow> None)
           (re_workspace_root re) (re_lockfile re) (td_dependencies task_def))"

text \<open>The state that a decision compares: \<open>Inl\<close> holds the notices of a task for which there is none.\<close>

definition cache_state_context ::
  "('g, 's) RunEnv \<Rightarrow> (TaskId, hash32) hmap \<Rightarrow> TaskId \<Rightarrow> (Notice list + CacheStateContext) option" where
  "cache_state_context re output_hashes task_id =
     (case cache_package_context_for (re_packages re) (re_workspace_root re) task_id of
        None \<Rightarrow> Some (Inl [])
      | Some pc \<Rightarrow>
          Option.bind (dependency_output_hashes re output_hashes task_id) (\<lambda>dep_outputs.
          case tg_task_definition (re_task_graph re) task_id of
            None \<Rightarrow> Some (Inl [])
          | Some task_def \<Rightarrow>
              Option.bind (cache_pkg_dep_pairs re task_def pc) (\<lambda>pairs.
              Some (case pairs of
                      Inl e \<Rightarrow> Inl [PackageDependenciesFailed task_id e]
                    | Inr ps \<Rightarrow> Inr \<lparr>cst_package = pc, cst_dep_outputs = dep_outputs, cst_pkg_dep_pairs = ps\<rparr>))))"

definition build_cache_current_state ::
  "('g, 's) RunEnv \<Rightarrow> FsEnv \<Rightarrow> TaskDefinition \<Rightarrow> env_specs \<Rightarrow> string option \<Rightarrow>
   CacheStateContext \<Rightarrow> CurrentState" where
  "build_cache_current_state re fs task_def merged_env nonce cs =
     \<lparr>cs_task_spec_hash = task_spec_hash (re_bincode re) (re_blake3 re) task_def nonce,
      cs_env_hash = env_hash (re_bincode re) (re_blake3 re) merged_env (re_var re),
      cs_pkg_dep_hash = pkg_dep_hash (re_bincode re) (re_blake3 re) (cst_pkg_dep_pairs cs),
      cs_dep_outputs = cst_dep_outputs cs, cs_cache_nonce = nonce,
      cs_declared_input_patterns = td_inputs task_def, cs_declared_output_patterns = td_outputs task_def,
      cs_resolver = package_dir_resolver re fs (cpc_package_path (cst_package cs)) (cpc_package_name (cst_package cs)) \<rparr>"

record CacheWriteContext =
  cw_task_id :: TaskId
  cw_task_def :: TaskDefinition
  cw_inputs_from_worker :: bool
  cw_package_path :: string
  cw_dep_outputs :: "(string \<times> hash32) list"
  cw_task_spec_hash :: hash32
  cw_env_hash :: hash32
  cw_pkg_dep_hash :: hash32
  cw_start_unix_ms :: u64
  cw_source_pkg :: PackageName
  cw_cache_nonce :: "string option"
  cw_decision :: DecisionResult
  cw_pre_snapshot :: "FileEntry list option"

definition cache_run_decision :: DecisionResult where
  "cache_run_decision = \<lparr>dr_action = Run, dr_reason = NoPriorRecord\<rparr>"

definition build_cache_write_context ::
  "('g, 's) RunEnv \<Rightarrow> FsEnv \<Rightarrow> u64 \<Rightarrow> (TaskId, hash32) hmap \<Rightarrow> TaskId \<Rightarrow>
   (Notice list + CacheWriteContext) option" where
  "build_cache_write_context re fs now output_hashes task_id =
     (case tg_task_definition (re_task_graph re) task_id of
        None \<Rightarrow> Some (Inl [])
      | Some task_def \<Rightarrow>
          let nonce = resolve_task_nonce (re_encode re) (re_env_cache_nonce re) (re_global_cache_nonce re) (re_workers re) task_def
          in Option.bind (cache_state_context re output_hashes task_id) (\<lambda>r.
             Some (case r of
               Inl notices \<Rightarrow> Inl notices
             | Inr cs \<Rightarrow>
                 let merged_env = (case map_of (re_task_envs re) task_id of Some env \<Rightarrow> env | None \<Rightarrow> []);
                     current = build_cache_current_state re fs task_def merged_env nonce cs
                 in Inr \<lparr>cw_task_id = task_id, cw_task_def = task_def,
                      cw_inputs_from_worker = tg_inputs_from_worker (re_task_graph re) task_id,
                      cw_package_path = cpc_package_path (cst_package cs), cw_dep_outputs = cst_dep_outputs cs,
                      cw_task_spec_hash = cs_task_spec_hash current, cw_env_hash = cs_env_hash current,
                      cw_pkg_dep_hash = cs_pkg_dep_hash current, cw_start_unix_ms = now,
                      cw_source_pkg = cpc_package_name (cst_package cs), cw_cache_nonce = nonce,
                      cw_decision = cache_run_decision, cw_pre_snapshot = None\<rparr>)))"


section \<open>Stability of the inputs\<close>

definition resolve_pre_execution_inputs ::
  "('g, 's) RunEnv \<Rightarrow> FsEnv \<Rightarrow> CacheWriteContext \<Rightarrow> FileEntry list \<times> Notice list" where
  "resolve_pre_execution_inputs re fs cw =
     (case expand_for re (cw_source_pkg cw) (td_inputs (cw_task_def cw)) of
        Inl e \<Rightarrow> ([], [SnapshotFailed (cw_task_id cw) (cw_inputs_from_worker cw)])
      | Inr requests \<Rightarrow>
          (case resolve_with_semantics re fs requests [] of
             Inl e \<Rightarrow> ([], [SnapshotFailed (cw_task_id cw) (cw_inputs_from_worker cw)])
           | Inr entries \<Rightarrow> (entries, [])))"

definition capture_pre_execution_snapshot ::
  "('g, 's) RunEnv \<Rightarrow> FsEnv \<Rightarrow> CacheWriteContext \<Rightarrow> CacheWriteContext \<times> Notice list" where
  "capture_pre_execution_snapshot re fs cw =
     (case cw_pre_snapshot cw of
        Some _ \<Rightarrow> (cw, [])
      | None \<Rightarrow> (case resolve_pre_execution_inputs re fs cw of (entries, notices) \<Rightarrow> (cw\<lparr>cw_pre_snapshot := Some entries\<rparr>, notices)))"

definition pre_snapshot :: "CacheWriteContext \<Rightarrow> FileEntry list" where
  "pre_snapshot cw = (case cw_pre_snapshot cw of Some entries \<Rightarrow> entries | None \<Rightarrow> [])"

definition delta_label :: "FileDelta \<Rightarrow> string" where
  "delta_label d =
     (if fd_prior_absent d \<and> \<not> fd_current_absent d then fd_path d @ '' (new file)''
      else if \<not> fd_prior_absent d \<and> fd_current_absent d then fd_path d @ '' (deleted)''
      else fd_path d @ '' (content changed)'')"

text \<open>The dash of the message is the UTF-8 encoding of U+2014.\<close>

definition check_input_stability :: "FileEntry list \<Rightarrow> FileEntry list \<Rightarrow> TaskId \<Rightarrow> string + FileEntry list" where
  "check_input_stability snapshot post_inputs task_id =
     (case files_diff snapshot post_inputs 10 of (deltas, _, change_count) \<Rightarrow>
        if change_count \<noteq> 0
        then Inl (''task '' @ sq @ task_id_to_string task_id @ sq @ '' declared inputs changed during execution: '' @
                  join_with '', '' (map delta_label (take 5 deltas)) @
                  (if change_count > 5 then '' and '' @ decimal (unat (change_count - 5)) @ '' more'' else []) @
                  '' '' @ [CHR 0xE2, CHR 0x80, CHR 0x94] @ '' skipping cache write'')
        else Inr snapshot)"

datatype CacheInputResult = InputsOk "FileEntry list" | InputExpansionFailed string | InputIoError

definition resolve_cache_inputs :: "('g, 's) RunEnv \<Rightarrow> FsEnv \<Rightarrow> CacheWriteContext \<Rightarrow> string list \<Rightarrow> CacheInputResult \<times> Notice list" where
  "resolve_cache_inputs re fs cw input_patterns =
     (case expand_for re (cw_source_pkg cw) input_patterns of
        Inl e \<Rightarrow>
          (InputExpansionFailed (''input \"'' @ input_error_pattern e @ ''\" for task \"'' @ task_id_to_string (cw_task_id cw) @ ''\" ('' @
             input_origin_clause (cw_inputs_from_worker cw) @ ''): '' @ input_error_to_string e), [])
      | Inr requests \<Rightarrow>
          (case resolve_with_semantics re fs requests [] of
             Inl e \<Rightarrow> (InputIoError, [InputsUnresolved (cw_task_id cw)])
           | Inr entries \<Rightarrow> (InputsOk entries, [])))"

definition resolve_cache_outputs :: "('g, 's) RunEnv \<Rightarrow> FsEnv \<Rightarrow> CacheWriteContext \<Rightarrow> string list \<Rightarrow> FileEntry list option \<times> Notice list" where
  "resolve_cache_outputs re fs cw output_patterns =
     (case resolve_outputs (re_globs re) fs (cw_package_path cw) output_patterns of
        Inl e \<Rightarrow> (None, [OutputsUnresolved (cw_task_id cw)])
      | Inr entries \<Rightarrow> (Some entries, []))"

section \<open>The record\<close>

record BuildRunRecordArgs =
  ba_outcome :: "TaskRunOutcome option"
  ba_succeeded :: bool
  ba_end_unix_ms :: u64
  ba_run_reason :: "RunReason option"

datatype BuildRecordResult = RecordOk TaskRunRecord | RecordExpansionError string | RecordUnstable string

record RunRecordPatterns =
  rp_input_patterns :: "string list"
  rp_output_patterns :: "string list"
  rp_detected_output_patterns :: bool

definition run_output_patterns :: "TaskDefinition \<Rightarrow> TaskRunOutcome option \<Rightarrow> string list \<times> bool" where
  "run_output_patterns task_def outcome =
     (case Option.bind outcome ro_detected_outputs of Some p \<Rightarrow> (p, True) | None \<Rightarrow> (td_outputs task_def, False))"

definition assemble_run_record ::
  "('g, 's) RunEnv \<Rightarrow> FsEnv \<Rightarrow> CacheWriteContext \<Rightarrow> BuildRunRecordArgs \<Rightarrow> RunRecordPatterns \<Rightarrow> FileEntry list \<Rightarrow> TaskRunRecord \<times> Notice list" where
  "assemble_run_record re fs cw args patterns inputs =
     (case resolve_cache_outputs re fs cw (rp_output_patterns patterns) of (resolved, notices) \<Rightarrow>
        let outputs = (case resolved of Some es \<Rightarrow> es | None \<Rightarrow> []);
            exit_status = (case Option.bind (ba_outcome args) (\<lambda>o1. status_code (ro_status o1)) of Some c \<Rightarrow> c | None \<Rightarrow> 1)
        in (\<lparr>rr_schema_version = SCHEMA_VERSION_V5, rr_task_spec_hash = cw_task_spec_hash cw,
             rr_input_patterns = rp_input_patterns patterns, rr_inputs = inputs,
             rr_output_patterns = rp_output_patterns patterns, rr_outputs = outputs,
             rr_detected_input_patterns = False, rr_detected_output_patterns = rp_detected_output_patterns patterns,
             rr_outputs_hash = combined_outputs_hash (re_blake3 re) outputs, rr_env_hash = cw_env_hash cw,
             rr_pkg_dep_hash = cw_pkg_dep_hash cw, rr_dep_outputs = cw_dep_outputs cw,
             rr_exit_status = exit_status, rr_succeeded = ba_succeeded args,
             rr_start_unix_ms = cw_start_unix_ms cw, rr_end_unix_ms = ba_end_unix_ms args, rr_reports = [],
             rr_cache_nonce = cw_cache_nonce cw, rr_run_reason = ba_run_reason args\<rparr>, notices))"

text \<open>A failed registration is a panic.\<close>

definition or_panic :: "'e + 'a \<Rightarrow> 'a option" where
  "or_panic r = (case r of Inl _ \<Rightarrow> None | Inr a \<Rightarrow> Some a)"

definition build_successful_run_record ::
  "('g, 's) RunEnv \<Rightarrow> FsEnv \<Rightarrow> CacheWriteContext \<Rightarrow> BuildRunRecordArgs \<Rightarrow> RunRecordPatterns \<Rightarrow> FileEntry list \<Rightarrow>
   's TaskWatchRegistry \<Rightarrow> (BuildRecordResult \<times> 's TaskWatchRegistry \<times> Notice list) option" where
  "build_successful_run_record re fs cw args patterns post_inputs registry =
     (case check_input_stability (pre_snapshot cw) post_inputs (cw_task_id cw) of
        Inl reason \<Rightarrow> Some (RecordUnstable reason, registry, [])
      | Inr stable_inputs \<Rightarrow>
          (case assemble_run_record re fs cw args patterns stable_inputs of (run, notices) \<Rightarrow>
             Option.bind (or_panic (register_task_watch_state (re_watch re) registry (cw_task_id cw) (cw_source_pkg cw) (cw_package_path cw) run))
               (\<lambda>registry'. Some (RecordOk run, registry', notices))))"

definition build_run_record ::
  "('g, 's) RunEnv \<Rightarrow> FsEnv \<Rightarrow> CacheWriteContext \<Rightarrow> BuildRunRecordArgs \<Rightarrow> 's TaskWatchRegistry \<Rightarrow>
   (BuildRecordResult \<times> 's TaskWatchRegistry \<times> Notice list) option" where
  "build_run_record re fs cw args registry =
     (case run_output_patterns (cw_task_def cw) (ba_outcome args) of (output_patterns, detected) \<Rightarrow>
        let input_patterns = td_inputs (cw_task_def cw);
            patterns = \<lparr>rp_input_patterns = input_patterns, rp_output_patterns = output_patterns, rp_detected_output_patterns = detected\<rparr>;
            finish = (\<lambda>post_inputs notices.
              if \<not> ba_succeeded args
              then (case assemble_run_record re fs cw args patterns post_inputs of (run, notices') \<Rightarrow>
                      Option.bind (or_panic (register_task_watch_state_with_inputs (re_watch re) registry (cw_task_id cw) (cw_source_pkg cw)
                          (cw_package_path cw) run (pre_snapshot cw)))
                        (\<lambda>registry'. Some (RecordOk run, registry', notices @ notices')))
              else map_option (\<lambda>(r, registry', notices'). (r, registry', notices @ notices'))
                     (build_successful_run_record re fs cw args patterns post_inputs registry))
        in case resolve_cache_inputs re fs cw input_patterns of
             (InputExpansionFailed msg, notices) \<Rightarrow> Some (RecordExpansionError msg, registry, notices)
           | (InputsOk entries, notices) \<Rightarrow> finish entries notices
           | (InputIoError, notices) \<Rightarrow> finish [] notices)"

section \<open>Writing it\<close>

text \<open>The keys of the shared cache (\<open>crates/luchta-cache/src/shared/snapshot.rs\<close>).\<close>

definition DEP_OUTPUTS_HASH_DOMAIN :: string where
  "DEP_OUTPUTS_HASH_DOMAIN = ''luchta:dep-outputs:v1''"

definition combined_dep_outputs_hash :: "(string \<Rightarrow> hash32) \<Rightarrow> (string \<times> hash32) list \<Rightarrow> hash32" where
  "combined_dep_outputs_hash blake3 dep_outputs =
     blake3 (DEP_OUTPUTS_HASH_DOMAIN @ concat (map (\<lambda>(task_id, h). task_id @ [CHR 0x00] @ h @ [CHR 0x00]) dep_outputs))"

definition derive_input_key :: "(string \<Rightarrow> hash32) \<Rightarrow> hash32 \<Rightarrow> hash32 \<Rightarrow> hash32 \<Rightarrow> hash32 \<Rightarrow> hash32 \<Rightarrow> hash32" where
  "derive_input_key blake3 spec env pkg_dep dep_outputs inputs = blake3 (spec @ env @ pkg_dep @ dep_outputs @ inputs)"

definition derive_cache_file_scope :: "(string \<Rightarrow> hash32) \<Rightarrow> string \<Rightarrow> hash32 \<Rightarrow> hash32 \<Rightarrow> hash32 \<Rightarrow> hash32" where
  "derive_cache_file_scope blake3 task_id spec env pkg_dep =
     blake3 (''luchta:cache-file-scope:v1'' @ le_bytes 8 (length task_id) @ task_id @ spec @ env @ pkg_dep)"

record SharedStoreRequest =
  ss_task_id :: string
  ss_tool_version :: "string option"
  ss_input_key :: hash32
  ss_outputs_hash :: hash32
  ss_package_dir :: string
  ss_rel_output_paths :: "string list"
  ss_record :: TaskRunRecord
  ss_stdout :: string
  ss_stderr :: string
  ss_reports :: "ReportInput list"
  ss_repo_root :: string

record CacheFileStoreRequest =
  cf_scope_hash :: hash32
  cf_upstream_outputs_hash :: hash32
  cf_package_dir :: string
  cf_relative_paths :: "string list"
  cf_state_hash :: "hash32 option"
  cf_state_bytes :: u64
  cf_record :: TaskRunRecord
  cf_repo_root :: string

text \<open>The shared cache: \<open>InvalidData\<close> is the kind of an error that means a path escape.\<close>

datatype StoreError = InvalidData string | OtherError string

record 'sc SharedApi =
  sh_store :: "SharedStoreRequest \<Rightarrow> u64 \<Rightarrow> 'sc \<Rightarrow> (StoreError + unit) \<times> 'sc"
  sh_store_cache_files :: "CacheFileStoreRequest \<Rightarrow> u64 \<Rightarrow> 'sc \<Rightarrow> (StoreError + unit) \<times> 'sc"

fun store_error_text :: "StoreError \<Rightarrow> string" where
  "store_error_text (InvalidData e) = e"
| "store_error_text (OtherError e) = e"

text \<open>What a task's completion changes: the files of the local cache, the output hashes, the watch registry, the shared cache
  where there is one, and the diagnostics.\<close>

record ('s, 'sc) RunWorld =
  rw_files :: Files
  rw_output_hashes :: "(TaskId, hash32) hmap"
  rw_registry :: "'s TaskWatchRegistry"
  rw_shared :: "'sc option"
  rw_notices :: "Notice list"

definition notify :: "Notice list \<Rightarrow> ('s, 'sc) RunWorld \<Rightarrow> ('s, 'sc) RunWorld" where
  "notify notices w = w\<lparr>rw_notices := rw_notices w @ notices\<rparr>"

definition record_output_hash :: "TaskId \<Rightarrow> hash32 \<Rightarrow> ('s, 'sc) RunWorld \<Rightarrow> ('s, 'sc) RunWorld" where
  "record_output_hash task_id h w = w\<lparr>rw_output_hashes := AList.update task_id h (rw_output_hashes w)\<rparr>"

definition split_captured_logs :: "ExecutionLogSink \<Rightarrow> string \<times> string" where
  "split_captured_logs sink =
     (let lines = (\<lambda>stream. concat (map (\<lambda>l. cl_line l @ [CHR 0x0A]) (filter (\<lambda>l. cl_stream l = stream) (ls_lines sink))))
      in (lines Stdout, lines Stderr))"

definition collected_reports_for_cache :: "ExecutionLogSink \<Rightarrow> ReportInput list" where
  "collected_reports_for_cache sink =
     map (\<lambda>r. \<lparr>ri_filename = cr_filename r, ri_mime_type = cr_mime_type r, ri_content = cr_content r\<rparr>) (ls_reports sink)"

definition cache_file_entries_are_disjoint :: "string \<Rightarrow> string \<Rightarrow> FileEntry list \<Rightarrow> TaskRunRecord \<Rightarrow> bool" where
  "cache_file_entries_are_disjoint pkg_dir repo_root cache_files run =
     (let occupied = map (\<lambda>e. path_components (join_path repo_root (fe_path e))) (rr_inputs run) @
            map (\<lambda>e. path_components (join_path pkg_dir (fe_path e))) (rr_outputs run)
      in list_all (\<lambda>e. path_components (join_path pkg_dir (fe_path e)) \<notin> set occupied) cache_files)"

definition saturating_add64 :: "u64 \<Rightarrow> u64 \<Rightarrow> u64" where
  "saturating_add64 a b = (if unat a + unat b < 2 ^ 64 then a + b else - 1)"

definition publish_advisory_cache_files ::
  "('g, 's) RunEnv \<Rightarrow> 'sc SharedApi \<Rightarrow> FsEnv \<Rightarrow> CacheWriteContext \<Rightarrow> TaskRunRecord \<Rightarrow> u64 \<Rightarrow> 'sc \<Rightarrow> 'sc \<times> Notice list" where
  "publish_advisory_cache_files re api fs cw run execution_duration_ms shared =
     (if \<not> rr_succeeded run \<or> td_cache_files (cw_task_def cw) = [] then (shared, [])
      else case resolve_outputs (re_globs re) fs (cw_package_path cw) (td_cache_files (cw_task_def cw)) of
        Inl e \<Rightarrow> (shared, [CacheFilesUnresolved (cw_task_id cw)])
      | Inr entries \<Rightarrow>
          let present = filter (\<lambda>e. \<not> fe_absent e) entries
          in if \<not> cache_file_entries_are_disjoint (cw_package_path cw) (re_workspace_root re) present run
             then (shared, [CacheFilesOverlap (cw_task_id cw)])
             else case sh_store_cache_files api
               \<lparr>cf_scope_hash = derive_cache_file_scope (re_blake3 re) (task_id_to_string (cw_task_id cw))
                   (cw_task_spec_hash cw) (cw_env_hash cw) (cw_pkg_dep_hash cw),
                cf_upstream_outputs_hash = combined_dep_outputs_hash (re_blake3 re) (cw_dep_outputs cw),
                cf_package_dir = cw_package_path cw, cf_relative_paths = map fe_path present,
                cf_state_hash = (if present \<noteq> [] then Some (combined_cache_files_hash (re_blake3 re) present) else None),
                cf_state_bytes = foldl (\<lambda>total e. saturating_add64 total (fe_size e)) 0 present,
                cf_record = run, cf_repo_root = re_workspace_root re\<rparr> execution_duration_ms shared of
               (Inl e, shared') \<Rightarrow> (shared', [CacheFilesStoreFailed (cw_task_id cw) (store_error_text e)])
             | (Inr _, shared') \<Rightarrow> (shared', []))"


datatype WriteRecordResult = WroteRecord | WriteExpansionError string | WriteUnstable string

text \<open>The store request of a record, and the error of the store that fails the task.\<close>

definition shared_store_request ::
  "('g, 's) RunEnv \<Rightarrow> CacheWriteContext \<Rightarrow> TaskRunRecord \<Rightarrow> string \<Rightarrow> string \<Rightarrow> ReportInput list \<Rightarrow> SharedStoreRequest" where
  "shared_store_request re cw run stdout stderr reports =
     \<lparr>ss_task_id = task_id_to_string (cw_task_id cw), ss_tool_version = td_tool_version (cw_task_def cw),
      ss_input_key = derive_input_key (re_blake3 re) (cw_task_spec_hash cw) (cw_env_hash cw) (cw_pkg_dep_hash cw)
        (combined_dep_outputs_hash (re_blake3 re) (cw_dep_outputs cw)) (combined_inputs_hash (re_blake3 re) (rr_inputs run)),
      ss_outputs_hash = rr_outputs_hash run, ss_package_dir = cw_package_path cw,
      ss_rel_output_paths = map fe_path (filter (\<lambda>f. \<not> fe_absent f) (rr_outputs run)),
      ss_record = run, ss_stdout = stdout, ss_stderr = stderr, ss_reports = reports, ss_repo_root = re_workspace_root re\<rparr>"

definition store_shared ::
  "('g, 's) RunEnv \<Rightarrow> 'sc SharedApi \<Rightarrow> FsEnv \<Rightarrow> CacheWriteContext \<Rightarrow> SharedStoreRequest \<Rightarrow> u64 \<Rightarrow> 'sc \<Rightarrow>
   string option \<times> 'sc \<times> Notice list" where
  "store_shared re api fs cw request execution_duration_ms shared =
     (case sh_store api request execution_duration_ms shared of (result, shared1) \<Rightarrow>
        let fatal = (case result of
              Inl (InvalidData e) \<Rightarrow>
                Some (''shared cache store failed for task '' @ sq @ ss_task_id request @ sq @ '': '' @ e)
            | _ \<Rightarrow> None);
            notices = (case result of Inl (OtherError e) \<Rightarrow> [SharedStoreFailed (cw_task_id cw) e] | _ \<Rightarrow> [])
        in case publish_advisory_cache_files re api fs cw (ss_record request) execution_duration_ms shared1 of
             (shared2, notices') \<Rightarrow> (fatal, shared2, notices @ notices'))"

record FinishedRun =
  fr_outcome :: "TaskRunOutcome option"
  fr_succeeded :: bool
  fr_end_unix_ms :: u64
  fr_duration_ms :: u64
  fr_log_sink :: "ExecutionLogSink option"
  fr_store_enabled :: bool
  fr_ios :: "IoOutcome list"
  fr_now :: nat

definition write_local ::
  "('g, 's) RunEnv \<Rightarrow> FinishedRun \<Rightarrow> TaskId \<Rightarrow> RunArtifacts \<Rightarrow> ('s, 'sc) RunWorld \<Rightarrow> ('s, 'sc) RunWorld" where
  "write_local re fin task_id artifacts w =
     (case cache_write (re_cache re) (fr_ios fin) (fr_now fin) (task_id_to_string task_id) artifacts (rw_files w) of
        (result, files') \<Rightarrow>
          notify (case result of Inl e \<Rightarrow> [CacheWriteFailed task_id e] | Inr _ \<Rightarrow> []) (w\<lparr>rw_files := files'\<rparr>))"

definition write_run_record ::
  "('g, 's) RunEnv \<Rightarrow> 'sc SharedApi \<Rightarrow> FsEnv \<Rightarrow> CacheWriteContext \<Rightarrow> FinishedRun \<Rightarrow> RunReason option \<Rightarrow>
   ('s, 'sc) RunWorld \<Rightarrow> (WriteRecordResult \<times> ('s, 'sc) RunWorld) option" where
  "write_run_record re api fs cw fin run_reason w =
     Option.bind (build_run_record re fs cw
         \<lparr>ba_outcome = fr_outcome fin, ba_succeeded = fr_succeeded fin, ba_end_unix_ms = fr_end_unix_ms fin, ba_run_reason = run_reason\<rparr>
         (rw_registry w))
       (\<lambda>(built, registry', notices).
          let w1 = notify notices (w\<lparr>rw_registry := registry'\<rparr>)
          in Some (case built of
               RecordExpansionError msg \<Rightarrow> (WriteExpansionError msg, w1)
             | RecordUnstable reason \<Rightarrow> (WriteUnstable reason, notify [InputsChanged reason] w1)
             | RecordOk run \<Rightarrow>
                 let w2 = record_output_hash (cw_task_id cw) (rr_outputs_hash run) w1;
                     (stdout, stderr) = (case fr_log_sink fin of Some sink \<Rightarrow> split_captured_logs sink | None \<Rightarrow> ([], []));
                     reports = (case fr_log_sink fin of Some sink \<Rightarrow> collected_reports_for_cache sink | None \<Rightarrow> []);
                     run = run\<lparr>rr_reports := map (\<lambda>r. \<lparr>rm_filename = ri_filename r, rm_mime_type = ri_mime_type r\<rparr>) reports\<rparr>;
                     w3 = write_local re fin (cw_task_id cw)
                            \<lparr>ra_record = run, ra_stdout = stdout, ra_stderr = stderr, ra_reports = reports\<rparr> w2
                 in case (if fr_store_enabled fin then rw_shared w3 else None) of
                      None \<Rightarrow> (WroteRecord, w3)
                    | Some shared \<Rightarrow>
                        (case store_shared re api fs cw (shared_store_request re cw run stdout stderr reports) (fr_duration_ms fin) shared of
                           (fatal, shared', notices') \<Rightarrow>
                             ((case fatal of Some e \<Rightarrow> WriteExpansionError e | None \<Rightarrow> WroteRecord),
                              notify notices' (w3\<lparr>rw_shared := Some shared'\<rparr>)))))"

fun cache_write_error :: "WriteRecordResult \<Rightarrow> string option" where
  "cache_write_error WroteRecord = None"
| "cache_write_error (WriteUnstable _) = None"
| "cache_write_error (WriteExpansionError msg) = Some msg"

definition persist_cache_write ::
  "('g, 's) RunEnv \<Rightarrow> 'sc SharedApi \<Rightarrow> FsEnv \<Rightarrow> CacheWriteContext \<Rightarrow> FinishedRun \<Rightarrow> bool \<Rightarrow>
   ('s, 'sc) RunWorld \<Rightarrow> (string option \<times> ('s, 'sc) RunWorld) option" where
  "persist_cache_write re api fs cw fin persist_failure_record w =
     (if \<not> fr_succeeded fin \<and> \<not> persist_failure_record then Some (None, w)
      else let run_reason = (if dr_action (cw_decision cw) = Run then Some (dr_reason (cw_decision cw)) else None)
           in map_option (\<lambda>(result, w'). (cache_write_error result, w')) (write_run_record re api fs cw fin run_reason w))"

record OutputHashRecordContext =
  oh_task_id :: TaskId
  oh_package_path :: string
  oh_output_patterns :: "string list"

definition with_effective_patterns :: "TaskRunOutcome option \<Rightarrow> OutputHashRecordContext \<Rightarrow> OutputHashRecordContext" where
  "with_effective_patterns outcome oh =
     (case Option.bind outcome ro_detected_outputs of Some detected \<Rightarrow> oh\<lparr>oh_output_patterns := detected\<rparr> | None \<Rightarrow> oh)"

definition record_resolved_output_hash ::
  "('g, 's) RunEnv \<Rightarrow> FsEnv \<Rightarrow> OutputHashRecordContext \<Rightarrow> ('s, 'sc) RunWorld \<Rightarrow> ('s, 'sc) RunWorld" where
  "record_resolved_output_hash re fs oh w =
     (case resolve_outputs (re_globs re) fs (oh_package_path oh) (oh_output_patterns oh) of
        Inr outputs \<Rightarrow> record_output_hash (oh_task_id oh) (combined_outputs_hash (re_blake3 re) outputs) w
      | Inl e \<Rightarrow> notify [OutputHashSkipped (oh_task_id oh)] w)"

definition build_output_hash_record_context :: "('g, 's) RunEnv \<Rightarrow> TaskId \<Rightarrow> OutputHashRecordContext option" where
  "build_output_hash_record_context re task_id =
     Option.bind (tg_task_definition (re_task_graph re) task_id) (\<lambda>task_def.
     map_option (\<lambda>pc. \<lparr>oh_task_id = task_id, oh_package_path = cpc_package_path pc, oh_output_patterns = td_outputs task_def\<rparr>)
       (cache_package_context_for (re_packages re) (re_workspace_root re) task_id))"

definition record_successful_output_hash ::
  "('g, 's) RunEnv \<Rightarrow> FsEnv \<Rightarrow> OutputHashRecordContext option \<Rightarrow> bool \<Rightarrow> ('s, 'sc) RunWorld \<Rightarrow> ('s, 'sc) RunWorld" where
  "record_successful_output_hash re fs oh succeeded w =
     (if \<not> succeeded then w else case oh of Some oh \<Rightarrow> record_resolved_output_hash re fs oh w | None \<Rightarrow> w)"

definition persist_cache_state ::
  "('g, 's) RunEnv \<Rightarrow> 'sc SharedApi \<Rightarrow> FsEnv \<Rightarrow> CacheWriteContext option \<Rightarrow> OutputHashRecordContext option \<Rightarrow> FinishedRun \<Rightarrow> bool \<Rightarrow>
   ('s, 'sc) RunWorld \<Rightarrow> (string option \<times> ('s, 'sc) RunWorld) option" where
  "persist_cache_state re api fs cache_ctx oh fin persist_failure_record w =
     (case cache_ctx of
        Some cw \<Rightarrow> persist_cache_write re api fs cw fin persist_failure_record w
      | None \<Rightarrow> Some (None, record_successful_output_hash re fs oh (fr_succeeded fin) w))"


section \<open>A task's run\<close>

record TaskRunContext =
  tc_cache_write :: "CacheWriteContext option"
  tc_output_hash_record :: "OutputHashRecordContext option"

definition capture_notices ::
  "('g, 's) RunEnv \<Rightarrow> FsEnv \<Rightarrow> CacheWriteContext option \<Rightarrow> CacheWriteContext option \<times> Notice list" where
  "capture_notices re fs cache_ctx =
     (case cache_ctx of None \<Rightarrow> (None, [])
      | Some cw \<Rightarrow> (case capture_pre_execution_snapshot re fs cw of (cw', notices) \<Rightarrow> (Some cw', notices)))"

definition build_task_run_context ::
  "('g, 's) RunEnv \<Rightarrow> FsEnv \<Rightarrow> u64 \<Rightarrow> (TaskId, hash32) hmap \<Rightarrow> TaskId \<Rightarrow>
   CacheWriteContext option \<Rightarrow> (TaskRunContext \<times> Notice list) option" where
  "build_task_run_context re fs now output_hashes task_id prepared_cache_write =
     (let output_hash_record = build_output_hash_record_context re task_id
      in Option.bind
           (case prepared_cache_write of
              Some cw \<Rightarrow> Some (Some cw, [])
            | None \<Rightarrow> map_option (\<lambda>r. case r of Inl notices \<Rightarrow> (None, notices) | Inr cw \<Rightarrow> (Some cw, []))
                (build_cache_write_context re fs now output_hashes task_id))
           (\<lambda>(cache_ctx, notices). case capture_notices re fs cache_ctx of (cache_ctx', notices') \<Rightarrow>
              Some (\<lparr>tc_cache_write = cache_ctx', tc_output_hash_record = output_hash_record\<rparr>, notices @ notices')))"

definition measured_execution_timing :: "(u64 \<times> u64) option \<Rightarrow> u64 \<Rightarrow> u64 \<times> u64" where
  "measured_execution_timing timing fallback_start = (case timing of Some (start, elapsed) \<Rightarrow> (start, elapsed) | None \<Rightarrow> (fallback_start, 0))"

record SpawnedTaskOutcome =
  so_outcome_res :: "ExecutorError + TaskRunOutcome"
  so_succeeded :: bool
  so_start_unix_ms :: u64
  so_end_unix_ms :: u64

definition finish_spawned_task_run ::
  "ExecutorError + TaskRunOutcome \<Rightarrow> bool \<Rightarrow> u64 \<Rightarrow> u64 \<Rightarrow> string option \<Rightarrow> bool \<Rightarrow> SpawnedTaskOutcome \<times> Notice list" where
  "finish_spawned_task_run outcome_res succeeded start_unix_ms end_unix_ms expansion_error interrupted =
     (let (succeeded, notices) = (case expansion_error of
            Some e \<Rightarrow> (False, if \<not> interrupted then [TaskMessage e] else [])
          | None \<Rightarrow> (succeeded, []))
      in (\<lparr>so_outcome_res = outcome_res, so_succeeded = succeeded, so_start_unix_ms = start_unix_ms, so_end_unix_ms = end_unix_ms\<rparr>, notices))"

text \<open>What the executor and the clock give, and the two reads of the interrupt flag.\<close>

record Execution =
  ex_outcome :: "ExecutorError + TaskRunOutcome"
  ex_log_sink :: ExecutionLogSink
  ex_timing :: "(u64 \<times> u64) option"
  ex_end_unix_ms :: u64
  ex_interrupted :: bool
  ex_interrupted_late :: bool
  ex_ios :: "IoOutcome list"
  ex_now :: nat

definition outcome_ok :: "ExecutorError + TaskRunOutcome \<Rightarrow> TaskRunOutcome option" where
  "outcome_ok r = (case r of Inr o1 \<Rightarrow> Some o1 | Inl _ \<Rightarrow> None)"

definition task_succeeded :: "ExecutorError + TaskRunOutcome \<Rightarrow> bool" where
  "task_succeeded r = (case r of Inr o1 \<Rightarrow> status_success (ro_status o1) | Inl _ \<Rightarrow> False)"

text \<open>The shared cache is dropped when the task's caching is off, and then not stored to.\<close>

definition run_task_and_persist_cache ::
  "('g, 's) RunEnv \<Rightarrow> 'sc SharedApi \<Rightarrow> FsEnv \<Rightarrow> bool \<Rightarrow> bool \<Rightarrow> u64 \<Rightarrow> Execution \<Rightarrow> TaskRunContext \<Rightarrow>
   ('s, 'sc) RunWorld \<Rightarrow> (SpawnedTaskOutcome \<times> ('s, 'sc) RunWorld) option" where
  "run_task_and_persist_cache re api fs caching no_cache task_start_unix_ms ex tc w =
     (case measured_execution_timing (ex_timing ex) task_start_unix_ms of (start_unix_ms, duration_ms) \<Rightarrow>
        let cache_ctx = map_option (cw_start_unix_ms_update (\<lambda>_. start_unix_ms)) (tc_cache_write tc);
            succeeded = task_succeeded (ex_outcome ex);
            oh = map_option (with_effective_patterns (outcome_ok (ex_outcome ex))) (tc_output_hash_record tc);
            persist_failure_record = (succeeded \<or> \<not> ex_interrupted ex);
            fin = \<lparr>fr_outcome = outcome_ok (ex_outcome ex), fr_succeeded = succeeded, fr_end_unix_ms = ex_end_unix_ms ex,
                   fr_duration_ms = duration_ms, fr_log_sink = Some (ex_log_sink ex),
                   fr_store_enabled = (caching \<and> \<not> no_cache), fr_ios = ex_ios ex, fr_now = ex_now ex\<rparr>
        in map_option (\<lambda>(expansion_error, w').
             case finish_spawned_task_run (ex_outcome ex) succeeded start_unix_ms (ex_end_unix_ms ex) expansion_error (ex_interrupted_late ex) of
               (outcome, notices) \<Rightarrow> (outcome, notify notices w'))
             (persist_cache_state re api fs cache_ctx oh fin persist_failure_record w))"


section \<open>What the record says\<close>

text \<open>The declared inputs as they resolve after the run; an error gives none.\<close>

definition post_inputs :: "('g, 's) RunEnv \<Rightarrow> FsEnv \<Rightarrow> CacheWriteContext \<Rightarrow> FileEntry list" where
  "post_inputs re fs cw =
     (case fst (resolve_cache_inputs re fs cw (td_inputs (cw_task_def cw))) of InputsOk entries \<Rightarrow> entries | _ \<Rightarrow> [])"

definition inputs_expand :: "('g, 's) RunEnv \<Rightarrow> CacheWriteContext \<Rightarrow> bool" where
  "inputs_expand re cw \<longleftrightarrow> (\<exists>requests. expand_for re (cw_source_pkg cw) (td_inputs (cw_task_def cw)) = Inr requests)"

definition record_faithful :: "('g, 's) RunEnv \<Rightarrow> FsEnv \<Rightarrow> CacheWriteContext \<Rightarrow> bool \<Rightarrow> TaskRunRecord \<Rightarrow> bool" where
  "record_faithful re fs cw succeeded run \<longleftrightarrow>
     rr_succeeded run = succeeded \<and> rr_schema_version run = SCHEMA_VERSION_V5 \<and>
     rr_outputs_hash run = combined_outputs_hash (re_blake3 re) (rr_outputs run) \<and>
     rr_task_spec_hash run = cw_task_spec_hash cw \<and> rr_env_hash run = cw_env_hash cw \<and>
     rr_pkg_dep_hash run = cw_pkg_dep_hash cw \<and> rr_dep_outputs run = cw_dep_outputs cw \<and>
     (succeeded \<longrightarrow> rr_inputs run = pre_snapshot cw \<and> changed_paths (pre_snapshot cw) (post_inputs re fs cw) = {})"

lemma stability_iff: "check_input_stability a b t = Inr es \<longleftrightarrow> es = a \<and> changed_paths a b = {}"
proof -
  have "sat32 (card (changed_paths a b)) = 0 \<longleftrightarrow> changed_paths a b = {}"
    using unat_sat32[of "card (changed_paths a b)"]
    by (auto simp: card_gt_0_iff finite_changed_paths unat_eq_0 min_def split: if_splits)
  then show ?thesis by (auto simp: check_input_stability_def files_diff_list Let_def)
qed

lemma assemble_faithful:
  assumes "assemble_run_record re fs cw args patterns inputs = (run, notices)"
  shows "rr_inputs run = inputs" "rr_succeeded run = ba_succeeded args" "rr_schema_version run = SCHEMA_VERSION_V5"
    "rr_outputs_hash run = combined_outputs_hash (re_blake3 re) (rr_outputs run)"
    "rr_task_spec_hash run = cw_task_spec_hash cw" "rr_env_hash run = cw_env_hash cw"
    "rr_pkg_dep_hash run = cw_pkg_dep_hash cw" "rr_dep_outputs run = cw_dep_outputs cw"
  using assms by (auto simp: assemble_run_record_def Let_def split: prod.splits)

lemma successful_record:
  assumes "build_successful_run_record re fs cw args patterns post registry = Some (built, registry', notices)"
  shows "case built of
      RecordOk run \<Rightarrow> (\<exists>ns. assemble_run_record re fs cw args patterns (pre_snapshot cw) = (run, ns)) \<and> changed_paths (pre_snapshot cw) post = {}
    | RecordUnstable _ \<Rightarrow> registry' = registry \<and> changed_paths (pre_snapshot cw) post \<noteq> {}
    | RecordExpansionError _ \<Rightarrow> False"
proof (cases "check_input_stability (pre_snapshot cw) post (cw_task_id cw)")
  case (Inl reason)
  then have "changed_paths (pre_snapshot cw) post \<noteq> {}" using stability_iff by (metis sum.distinct(1))
  with Inl show ?thesis using assms by (auto simp: build_successful_run_record_def)
next
  case (Inr es)
  then have "es = pre_snapshot cw" "changed_paths (pre_snapshot cw) post = {}" by (auto simp: stability_iff)
  then show ?thesis using assms Inr
    by (auto simp: build_successful_run_record_def bind_eq_Some_conv split: prod.splits)
qed

lemma build_run_record_cases:
  assumes "build_run_record re fs cw args registry = Some (built, registry', notices)"
  shows "case built of
      RecordOk run \<Rightarrow> inputs_expand re cw \<and> record_faithful re fs cw (ba_succeeded args) run
    | RecordUnstable _ \<Rightarrow> registry' = registry \<and> inputs_expand re cw \<and> ba_succeeded args \<and>
        changed_paths (pre_snapshot cw) (post_inputs re fs cw) \<noteq> {}
    | RecordExpansionError _ \<Rightarrow> registry' = registry \<and> \<not> inputs_expand re cw"
proof (cases "expand_for re (cw_source_pkg cw) (td_inputs (cw_task_def cw))")
  case (Inl e)
  then show ?thesis using assms
    by (auto simp: build_run_record_def resolve_cache_inputs_def inputs_expand_def Let_def split: prod.splits)
next
  case (Inr requests)
  obtain patterns where finish: "\<exists>ns. (if \<not> ba_succeeded args
      then (\<exists>run ns. assemble_run_record re fs cw args patterns (post_inputs re fs cw) = (run, ns) \<and> built = RecordOk run)
      else build_successful_run_record re fs cw args patterns (post_inputs re fs cw) registry = Some (built, registry', ns))"
    using assms Inr
    by (cases "resolve_with_semantics re fs requests []")
      (auto simp: build_run_record_def resolve_cache_inputs_def post_inputs_def Let_def bind_eq_Some_conv split: prod.splits if_splits;
       blast)+
  have expands: "inputs_expand re cw" using Inr by (simp add: inputs_expand_def)
  show ?thesis
  proof (cases "ba_succeeded args")
    case True
    with finish show ?thesis using expands
      by (auto dest!: successful_record simp: record_faithful_def assemble_faithful split: BuildRecordResult.splits)
  next
    case False
    with finish show ?thesis using expands by (auto simp: record_faithful_def assemble_faithful)
  qed
qed


lemma notify_simps [simp]:
  "rw_files (notify ns w) = rw_files w" "rw_output_hashes (notify ns w) = rw_output_hashes w"
  "rw_registry (notify ns w) = rw_registry w" "rw_shared (notify ns w) = rw_shared w"
  "rw_notices (notify ns w) = rw_notices w @ ns" "notify ns' (notify ns w) = notify (ns @ ns') w" "notify [] w = w"
  by (simp_all add: notify_def)

lemma record_output_hash_simps [simp]:
  "rw_files (record_output_hash t h w) = rw_files w" "rw_registry (record_output_hash t h w) = rw_registry w"
  "rw_shared (record_output_hash t h w) = rw_shared w" "rw_notices (record_output_hash t h w) = rw_notices w"
  "map_of (rw_output_hashes (record_output_hash t h w)) = (map_of (rw_output_hashes w))(t \<mapsto> h)"
  by (simp_all add: record_output_hash_def update_conv')

lemma faithful_reports [simp]:
  "record_faithful re fs cw s (run\<lparr>rr_reports := rs\<rparr>) \<longleftrightarrow> record_faithful re fs cw s run"
  by (simp add: record_faithful_def)

lemma write_local_simps:
  "rw_files (write_local re fin t artifacts w) =
     snd (cache_write (re_cache re) (fr_ios fin) (fr_now fin) (task_id_to_string t) artifacts (rw_files w))"
  "rw_output_hashes (write_local re fin t artifacts w) = rw_output_hashes w"
  by (simp_all add: write_local_def split: prod.splits)

lemma write_run_record_stopped:
  assumes "build_run_record re fs cw
      \<lparr>ba_outcome = fr_outcome fin, ba_succeeded = fr_succeeded fin, ba_end_unix_ms = fr_end_unix_ms fin, ba_run_reason = reason\<rparr>
      (rw_registry w) = Some (built, rw_registry w, notices)" "\<And>run. built \<noteq> RecordOk run"
    "write_run_record re api fs cw fin reason w = Some (result, w')"
  shows "\<exists>ns. w' = notify ns w \<and> cache_write_error result = (case built of RecordExpansionError e \<Rightarrow> Some e | _ \<Rightarrow> None)"
  using assms by (cases built) (auto simp: write_run_record_def Let_def)

lemma write_run_record_ok:
  assumes "build_run_record re fs cw
      \<lparr>ba_outcome = fr_outcome fin, ba_succeeded = fr_succeeded fin, ba_end_unix_ms = fr_end_unix_ms fin, ba_run_reason = reason\<rparr>
      (rw_registry w) = Some (RecordOk run, registry', notices)"
    "write_run_record re api fs cw fin reason w = Some (result, w')"
  shows "\<exists>artifacts rs. ra_record artifacts = run\<lparr>rr_reports := rs\<rparr> \<and>
      rw_files w' = snd (cache_write (re_cache re) (fr_ios fin) (fr_now fin) (task_id_to_string (cw_task_id cw)) artifacts (rw_files w)) \<and>
      map_of (rw_output_hashes w') = (map_of (rw_output_hashes w))(cw_task_id cw \<mapsto> rr_outputs_hash run)"
proof -
  define sink where "sink = (case fr_log_sink fin of Some sink \<Rightarrow> split_captured_logs sink | None \<Rightarrow> ([], []))"
  define reports where "reports = (case fr_log_sink fin of Some sink \<Rightarrow> collected_reports_for_cache sink | None \<Rightarrow> [])"
  define rs where "rs = map (\<lambda>r. \<lparr>rm_filename = ri_filename r, rm_mime_type = ri_mime_type r\<rparr>) reports"
  define artifacts where "artifacts = \<lparr>ra_record = run\<lparr>rr_reports := rs\<rparr>, ra_stdout = fst sink, ra_stderr = snd sink, ra_reports = reports\<rparr>"
  define w3 where "w3 = write_local re fin (cw_task_id cw) artifacts
      (record_output_hash (cw_task_id cw) (rr_outputs_hash run) (notify notices (w\<lparr>rw_registry := registry'\<rparr>)))"
  have "rw_files w' = rw_files w3 \<and> rw_output_hashes w' = rw_output_hashes w3"
    using assms unfolding write_run_record_def
    by (auto simp: Let_def w3_def artifacts_def rs_def reports_def sink_def split: prod.splits option.splits if_splits)
  then show ?thesis
    by (intro exI[of _ artifacts] exI[of _ rs]) (simp add: w3_def write_local_simps, simp add: artifacts_def)
qed


lemma start_ms_irrelevant [simp]:
  "pre_snapshot (cw\<lparr>cw_start_unix_ms := s\<rparr>) = pre_snapshot cw" "inputs_expand re (cw\<lparr>cw_start_unix_ms := s\<rparr>) = inputs_expand re cw"
  "post_inputs re fs (cw\<lparr>cw_start_unix_ms := s\<rparr>) = post_inputs re fs cw"
  "record_faithful re fs (cw\<lparr>cw_start_unix_ms := s\<rparr>) b run = record_faithful re fs cw b run"
  by (simp_all add: pre_snapshot_def inputs_expand_def post_inputs_def resolve_cache_inputs_def record_faithful_def
      split: sum.splits)

lemma build_stopped_registry:
  assumes "build_run_record re fs cw args registry = Some (built, registry', notices)" "\<And>run. built \<noteq> RecordOk run"
  shows "registry' = registry"
  using build_run_record_cases[OF assms(1)] assms(2) by (cases built) auto

lemma write_run_record_effect:
  assumes "record_codec (ch_codec (re_cache re))" "write_run_record re api fs cw fin reason w = Some (result, w')"
  shows "let key = task_id_to_string (cw_task_id cw); read = (\<lambda>v. cache_read (re_cache re) (rw_files v)) in
     (\<forall>other. other \<noteq> key \<longrightarrow> read w' other = read w other) \<and>
     (\<forall>t. t \<noteq> cw_task_id cw \<longrightarrow> map_of (rw_output_hashes w') t = map_of (rw_output_hashes w) t) \<and>
     (read w' key = read w key \<or>
      (\<exists>run. read w' key = Some run \<and> record_faithful re fs cw (fr_succeeded fin) run \<and>
         map_of (rw_output_hashes w') (cw_task_id cw) = Some (rr_outputs_hash run))) \<and>
     (cache_write_error result = None \<longrightarrow> inputs_expand re cw)"
proof -
  obtain built registry' notices where built: "build_run_record re fs cw
      \<lparr>ba_outcome = fr_outcome fin, ba_succeeded = fr_succeeded fin, ba_end_unix_ms = fr_end_unix_ms fin, ba_run_reason = reason\<rparr>
      (rw_registry w) = Some (built, registry', notices)"
    using assms(2) by (auto simp: write_run_record_def bind_eq_Some_conv)
  note cases = build_run_record_cases[OF built]
  show ?thesis
  proof (cases "\<exists>run. built = RecordOk run")
    case True
    then obtain run where run: "built = RecordOk run" by blast
    then have faithful: "record_faithful re fs cw (fr_succeeded fin) run" "inputs_expand re cw" using cases by auto
    from write_run_record_ok[OF built[unfolded run] assms(2)] obtain artifacts rs where w':
      "ra_record artifacts = run\<lparr>rr_reports := rs\<rparr>"
      "rw_files w' = snd (cache_write (re_cache re) (fr_ios fin) (fr_now fin) (task_id_to_string (cw_task_id cw)) artifacts (rw_files w))"
      "map_of (rw_output_hashes w') = (map_of (rw_output_hashes w))(cw_task_id cw \<mapsto> rr_outputs_hash run)" by blast
    have "rr_schema_version (ra_record artifacts) = SCHEMA_VERSION_V5" using faithful w'(1) by (simp add: record_faithful_def)
    obtain r where "cache_write (re_cache re) (fr_ios fin) (fr_now fin) (task_id_to_string (cw_task_id cw)) artifacts (rw_files w) =
        (r, rw_files w')" using w'(2) by (metis prod.collapse)
    note keeps = cache_write_keeps[OF assms(1) \<open>rr_schema_version (ra_record artifacts) = SCHEMA_VERSION_V5\<close> this]
    have own: "record_faithful re fs cw (fr_succeeded fin) (ra_record artifacts)" "rr_outputs_hash (ra_record artifacts) = rr_outputs_hash run"
      using faithful(1) w'(1) by simp_all
    show ?thesis unfolding Let_def
    proof (intro conjI allI impI)
      show "cache_read (re_cache re) (rw_files w') other = cache_read (re_cache re) (rw_files w) other"
        if "other \<noteq> task_id_to_string (cw_task_id cw)" for other
        using keeps(2) that by blast
      show "map_of (rw_output_hashes w') t = map_of (rw_output_hashes w) t" if "t \<noteq> cw_task_id cw" for t
        using w'(3) that by simp
      show "cache_read (re_cache re) (rw_files w') (task_id_to_string (cw_task_id cw)) =
          cache_read (re_cache re) (rw_files w) (task_id_to_string (cw_task_id cw)) \<or>
        (\<exists>run. cache_read (re_cache re) (rw_files w') (task_id_to_string (cw_task_id cw)) = Some run \<and>
          record_faithful re fs cw (fr_succeeded fin) run \<and> map_of (rw_output_hashes w') (cw_task_id cw) = Some (rr_outputs_hash run))"
        using keeps(1) own w'(3) by auto
      show "inputs_expand re cw" by (rule faithful(2))
    qed
  next
    case False
    then have "registry' = rw_registry w" using build_stopped_registry[OF built] by blast
    with write_run_record_stopped[OF _ _ assms(2)] built False obtain ns where
      "w' = notify ns w" "cache_write_error result = (case built of RecordExpansionError e \<Rightarrow> Some e | _ \<Rightarrow> None)" by blast
    then show ?thesis using cases by (auto simp: Let_def split: BuildRecordResult.splits)
  qed
qed


text \<open>A run that stops before the record leaves nothing but its notices.\<close>

lemma unstable_build:
  assumes "inputs_expand re cw" "changed_paths (pre_snapshot cw) (post_inputs re fs cw) \<noteq> {}" "ba_succeeded args"
  shows "\<exists>reason ns. build_run_record re fs cw args registry = Some (RecordUnstable reason, registry, ns)"
proof -
  obtain reason where "check_input_stability (pre_snapshot cw) (post_inputs re fs cw) (cw_task_id cw) = Inl reason"
    using assms(2) stability_iff by (metis sum.exhaust)
  with assms(1,3) show ?thesis
    by (auto simp: build_run_record_def build_successful_run_record_def post_inputs_def inputs_expand_def resolve_cache_inputs_def
        split: prod.splits sum.splits)
qed

section \<open>Properties of a run\<close>




text \<open>A task \<open>#gen\<close> of the root that reads \<open>/r/a.ts\<close>.\<close>

definition example_entry :: "char \<Rightarrow> FileEntry" where
  "example_entry c = \<lparr>fe_path = ''a.ts'', fe_size = 1, fe_mtime_ns = 0, fe_hash = replicate 32 c, fe_absent = False\<rparr>"

definition example_cw :: CacheWriteContext where
  "example_cw =
     \<lparr>cw_task_id = task_id_new ROOT_PACKAGE_NAME ''gen'', cw_task_def = (task_definition_new [] 1)\<lparr>td_inputs := [''a.ts'']\<rparr>,
      cw_inputs_from_worker = False, cw_package_path = ''/r'', cw_dep_outputs = [], cw_task_spec_hash = zero_hash,
      cw_env_hash = zero_hash, cw_pkg_dep_hash = zero_hash, cw_start_unix_ms = 0, cw_source_pkg = ROOT_PACKAGE_NAME,
      cw_cache_nonce = None, cw_decision = cache_run_decision, cw_pre_snapshot = Some [example_entry (CHR ''x'')]\<rparr>"

definition example_stored_run :: TaskRunRecord where
  "example_stored_run = example_stored\<lparr>rr_input_patterns := [''a.ts''], rr_inputs := [example_entry (CHR ''x'')],
     rr_outputs_hash := replicate 32 (CHR ''z''), rr_start_unix_ms := 5, rr_end_unix_ms := 9, rr_run_reason := Some NoPriorRecord\<rparr>"

definition example_run_env :: "(string, string list) RunEnv" where
  "example_run_env =
     \<lparr>re_globs = star_globset, re_watch = \<lparr>wg_api = star_globset, wg_is_empty = (\<lambda>gs. gs = [])\<rparr>, re_topo = ref_toposort,
      re_bincode = fixed_bincode, re_blake3 = (\<lambda>_. replicate 32 (CHR ''z'')), re_encode = percent_encode, re_var = (\<lambda>_. None),
      re_deps_io = example_deps_io, re_task_envs = [], re_workspace_root = ''/r'',
      re_package_graph = \<lparr>pg_graph = dg_empty, pg_indices_by_name = [], pg_root_package = None\<rparr>, re_packages = [],
      re_task_graph = example_tg, re_lockfile = LockAbsent, re_workers = [], re_global_cache_nonce = None, re_env_cache_nonce = None,
      re_cache = \<lparr>ch_root = ''/c'', ch_codec = single_codec example_stored_run\<rparr>\<rparr>"

text \<open>The file system after the run, in which the file has the content \<open>c\<close>.\<close>

definition example_fs_after :: "char \<Rightarrow> FsEnv" where
  "example_fs_after c = example_fs\<lparr>fs_node := \<lambda>p. Some (FsDir [(''a.ts'', FsFile)]), fs_hash := \<lambda>_. Inr (replicate 32 c)\<rparr>"

definition example_execution :: Execution where
  "example_execution =
     \<lparr>ex_outcome = Inr (outcome_shell 0), ex_log_sink = \<lparr>ls_lines = [], ls_reports = [], ls_progress = None, ls_diagnostics = None\<rparr>,
      ex_timing = Some (5, 4), ex_end_unix_ms = 9, ex_interrupted = False, ex_interrupted_late = False, ex_ios = [], ex_now = 1\<rparr>"

definition example_no_shared :: "unit SharedApi" where
  "example_no_shared = \<lparr>sh_store = (\<lambda>_ _ s. (Inr (), s)), sh_store_cache_files = (\<lambda>_ _ s. (Inr (), s))\<rparr>"

definition example_run :: "char \<Rightarrow> (SpawnedTaskOutcome \<times> (string list, unit) RunWorld) option" where
  "example_run c = run_task_and_persist_cache example_run_env example_no_shared (example_fs_after c) True False 0 example_execution
     \<lparr>tc_cache_write = Some example_cw, tc_output_hash_record = None\<rparr>
     \<lparr>rw_files = [], rw_output_hashes = [], rw_registry = [], rw_shared = None, rw_notices = []\<rparr>"


lemma example_inputs:
  "post_inputs example_run_env (example_fs_after (CHR ''x'')) example_cw = [example_entry (CHR ''x'')]"
  "post_inputs example_run_env (example_fs_after (CHR ''y'')) example_cw = [example_entry (CHR ''y'')]"
  "inputs_expand example_run_env example_cw"
proof -
  have "expand_for example_run_env (cw_source_pkg example_cw) (td_inputs (cw_task_def example_cw)) =
    Inr [\<lparr>rq_base_dir = ''/r'', rq_pattern = ''a.ts'', rq_semantics = Literal, rq_negated = False\<rparr>]" by code_simp
  then show "inputs_expand example_run_env example_cw" by (simp add: inputs_expand_def)
qed code_simp+

text \<open>With a matcher that takes every pattern, no run panics.\<close>

lemma star_builds: "\<exists>gs. build_watch_globset (re_watch example_run_env) patterns = Inr gs"
proof -
  have "\<exists>gs. map_result (\<lambda>p. map_err e (api_build_glob star_globset p)) patterns = Inr gs" for e :: "string \<Rightarrow> string"
    by (induction patterns) (auto simp: star_globset_def map_err_def)
  then show ?thesis
    by (fastforce simp: build_watch_globset_def example_run_env_def map_err_def star_globset_def)
qed

lemma star_registers: "or_panic (register_task_watch_state_with_inputs (re_watch example_run_env) registry t p d run es) \<noteq> None"
  using star_builds[of "rr_input_patterns run"] star_builds[of "rr_output_patterns run"]
  by (auto simp: register_task_watch_state_with_inputs_def or_panic_def)

lemma star_record: "build_run_record example_run_env fs cw args registry \<noteq> None"
proof -
  have "build_successful_run_record example_run_env fs cw args patterns post registry \<noteq> None" for patterns post
    using star_registers
    by (cases "check_input_stability (pre_snapshot cw) post (cw_task_id cw)";
        cases "assemble_run_record example_run_env fs cw args patterns (pre_snapshot cw)")
      (auto simp: build_successful_run_record_def register_task_watch_state_def bind_eq_None_conv split_beta)
  moreover obtain r ns where "resolve_cache_inputs example_run_env fs cw (td_inputs (cw_task_def cw)) = (r, ns)" by fastforce
  moreover obtain p d where "run_output_patterns (cw_task_def cw) (ba_outcome args) = (p, d)" by fastforce
  ultimately show ?thesis
    using star_registers by (cases r) (simp_all add: build_run_record_def Let_def bind_eq_None_conv split_beta del: not_None_eq split_paired_Ex)
qed

lemma example_run_returns: "\<exists>outcome w'. example_run c = Some (outcome, w')"
proof -
  have "write_run_record example_run_env api fs cw fin reason w \<noteq> None" for api fs cw fin reason and w :: "(string list, unit) RunWorld"
    using star_record by (simp add: write_run_record_def bind_eq_None_conv Let_def split_beta)
  then have "persist_cache_write example_run_env api fs cw fin p w \<noteq> None" for api fs cw fin p and w :: "(string list, unit) RunWorld"
    by (simp add: persist_cache_write_def Let_def del: not_None_eq split_paired_Ex)
  then have "example_run c \<noteq> None"
    by (simp add: example_run_def run_task_and_persist_cache_def persist_cache_state_def Let_def split_beta)
  then show ?thesis by auto
qed




section \<open>Where the code differs from its comments\<close>

text \<open>A snapshot that fails is replaced by an empty one, with a warning that changes will not be detected. They are: if the inputs
  resolve after the run, all of them look new, and nothing is recorded.\<close>

lemma failed_snapshot_blocks_record:
  assumes "cw_pre_snapshot cw = None" "resolve_pre_execution_inputs re fs0 cw = ([], notices)"
    "post_inputs re fs cw \<noteq> []"
  shows "let cw' = fst (capture_pre_execution_snapshot re fs0 cw) in changed_paths (pre_snapshot cw') (post_inputs re fs cw') \<noteq> {}"
proof -
  let ?post = "post_inputs re fs cw"
  have "post_inputs re fs (cw\<lparr>cw_pre_snapshot := s\<rparr>) = ?post" for s
    by (simp add: post_inputs_def resolve_cache_inputs_def split: sum.splits)
  moreover have "changed_paths [] ?post \<noteq> {}"
  proof -
    have "fe_path (hd ?post) \<in> set (map fst (rev (map (\<lambda>e. (fe_path e, e)) ?post)))" using assms(3) by (simp add: image_image)
    then have "map_of (rev (map (\<lambda>e. (fe_path e, e)) ?post)) (fe_path (hd ?post)) \<noteq> None"
      unfolding map_of_eq_None_iff by simp
    then have "fe_path (hd ?post) \<in> changed_paths [] ?post" by (auto simp: changed_paths_def file_view_def)
    then show ?thesis by blast
  qed
  ultimately show ?thesis using assms(1,2) by (simp add: capture_pre_execution_snapshot_def pre_snapshot_def)
qed

text \<open>An output pattern that is not a glob, also one that a worker reports, only warns when the outputs are resolved, but then panics.\<close>

lemma invalid_output_glob_panics:
  assumes "build_watch_globset (re_watch re) (fst (run_output_patterns (cw_task_def cw) (ba_outcome args))) = Inl e"
    "inputs_expand re cw" "ba_succeeded args \<longrightarrow> changed_paths (pre_snapshot cw) (post_inputs re fs cw) = {}"
  shows "build_run_record re fs cw args registry = None"
proof -
  obtain p d where p: "run_output_patterns (cw_task_def cw) (ba_outcome args) = (p, d)" by fastforce
  have refused: "or_panic (register_task_watch_state_with_inputs (re_watch re) registry t pkg dir run es) = None"
    if "rr_output_patterns run = p" for run t pkg dir es
    using assms(1) p that
    by (cases "build_watch_globset (re_watch re) (rr_input_patterns run)") (simp_all add: register_task_watch_state_with_inputs_def or_panic_def)
  have pattern: "rr_output_patterns (fst (assemble_run_record re fs cw args patterns inputs)) = rp_output_patterns patterns" for patterns inputs
    by (simp add: assemble_run_record_def Let_def split: prod.splits)
  have stopped: "build_successful_run_record re fs cw args patterns post registry = None"
    if "changed_paths (pre_snapshot cw) post = {}" "rp_output_patterns patterns = p" for patterns post
  proof -
    have "check_input_stability (pre_snapshot cw) post (cw_task_id cw) = Inr (pre_snapshot cw)" using that(1) stability_iff by blast
    with that(2) refused pattern show ?thesis
      by (simp add: build_successful_run_record_def register_task_watch_state_def split_beta)
  qed
  obtain r ns where r: "resolve_cache_inputs re fs cw (td_inputs (cw_task_def cw)) = (r, ns)" by fastforce
  have "\<And>m. r \<noteq> InputExpansionFailed m"
    using r assms(2) by (auto simp: resolve_cache_inputs_def inputs_expand_def split: sum.splits)
  then show ?thesis using r p assms(3) stopped refused pattern
    by (cases r) (auto simp: build_run_record_def post_inputs_def Let_def split_beta)
qed

end
