(* ===== verification/Dispatch.thy ===== *)
theory Dispatch
  imports RunRecord
begin

text \<open>
  From a ready task to its completion: the cache decision, the restore from the shared cache, the fast stop after a failure and
  the end of a run. It models \<open>crates/luchta-cli/src/run/dispatch.rs\<close> with \<open>dispatch/shared_cache.rs\<close> and
  \<open>dispatch/connector.rs\<close>, \<open>hydrate_local_cache\<close> of \<open>run/output.rs\<close> and the loop of \<open>run/pause.rs\<close>. One iteration of the loop, one
  decision on the blocking pool and the end of one run are one step each; their order is the choice of a step relation. The candidates that
  the shared cache prepares are opaque: \<open>RestoreApi\<close> holds the calls that are made on them.
\<close>

section \<open>Context\<close>

record RestoredHit =
  rh_outputs_hash :: hash32
  rh_record :: TaskRunRecord
  rh_stdout :: string
  rh_stderr :: string
  rh_reports :: "ReportInput list"

record CacheFileRestoreRequest =
  cr_scope_hash :: hash32
  cr_upstream_outputs_hash :: hash32
  cr_package_dir :: string
  cr_patterns :: "string list"

text \<open>A candidate with its staged files \<open>'b\<close>, and the index entry \<open>'e\<close> it came from (\<open>luchta-cache/src/shared\<close>).\<close>

record 'b StagedCandidate =
  sd_outputs_hash :: hash32
  sd_record :: TaskRunRecord
  sd_stdout :: string
  sd_stderr :: string
  sd_reports :: "ReportInput list"
  sd_staged :: 'b

record ('b, 'e) PreparedRestore =
  pr_candidate :: "'b StagedCandidate"
  pr_snapshot_entry :: 'e

record ('b, 'e, 'q, 'sc) RestoreApi =
  rst_prepare_restore :: "hash32 \<Rightarrow> string \<Rightarrow> 'sc \<Rightarrow> ('b, 'e) PreparedRestore option \<times> 'sc"
  rst_staged_commit :: "'b \<Rightarrow> 'sc \<Rightarrow> (string + string list) \<times> 'sc"
  rst_staged_discard :: "'b \<Rightarrow> 'sc \<Rightarrow> (string + unit) \<times> 'sc"
  rst_duration_trusted :: "'e \<Rightarrow> bool"
  rst_refresh_entry :: "hash32 \<Rightarrow> 'e \<Rightarrow> 'sc \<Rightarrow> 'sc"
  rst_prepare_cache_files :: "CacheFileRestoreRequest \<Rightarrow> 'sc \<Rightarrow> 'q option \<times> 'sc"
  rst_relative_paths :: "'q \<Rightarrow> string list"
  rst_is_staged_path :: "'q \<Rightarrow> string \<Rightarrow> bool"
  rst_files_commit :: "'q \<Rightarrow> 'sc \<Rightarrow> (string + unit) \<times> 'sc"
  rst_files_discard :: "'q \<Rightarrow> 'sc \<Rightarrow> 'sc"

definition candidate_commit ::
  "('b, 'e, 'q, 'sc) RestoreApi \<Rightarrow> 'b StagedCandidate \<Rightarrow> 'sc \<Rightarrow> (string + RestoredHit \<times> string list) \<times> 'sc" where
  "candidate_commit ra candidate sc =
     (case rst_staged_commit ra (sd_staged candidate) sc of
        (Inl e, sc') \<Rightarrow> (Inl e, sc')
      | (Inr written_paths, sc') \<Rightarrow>
          (Inr (\<lparr>rh_outputs_hash = sd_outputs_hash candidate, rh_record = sd_record candidate, rh_stdout = sd_stdout candidate,
             rh_stderr = sd_stderr candidate, rh_reports = sd_reports candidate\<rparr>, written_paths), sc'))"

definition prepared_record :: "('b, 'e) PreparedRestore \<Rightarrow> TaskRunRecord" where
  "prepared_record restore = sd_record (pr_candidate restore)"

record ('g, 's, 'b, 'e, 'q, 'sc) DispatchContext =
  dc_env :: "('g, 's) RunEnv"
  dc_api :: "'sc SharedApi"
  dc_restore :: "('b, 'e, 'q, 'sc) RestoreApi"
  dc_tasks_to_run :: "TaskId list"
  dc_commands :: "(TaskId, ExecutionRequest) hmap"
  dc_invalid :: "(TaskId, string) hmap"
  dc_continue_on_failure :: bool
  dc_no_cache :: bool
  dc_owns_worker_manager :: bool

text \<open>What the progress reporter is told of a task.\<close>

datatype TaskReport = TaskRan | TaskFailed | FinishedUncounted | SkippedCacheHit | RestoredFromShared

record ('s, 'sc) DispatchState =
  ds_world :: "('s, 'sc) RunWorld"
  ds_any_failed :: bool
  ds_interrupted :: bool
  ds_worker_shutdowns :: nat
  ds_reports :: "(TaskId \<times> TaskReport) list"
  ds_done :: "(TaskId \<times> bool) list"

definition report :: "TaskId \<Rightarrow> TaskReport \<Rightarrow> ('s, 'sc) DispatchState \<Rightarrow> ('s, 'sc) DispatchState" where
  "report task_id r d = d\<lparr>ds_reports := ds_reports d @ [(task_id, r)]\<rparr>"

definition done_send :: "TaskId \<Rightarrow> bool \<Rightarrow> ('s, 'sc) DispatchState \<Rightarrow> ('s, 'sc) DispatchState" where
  "done_send task_id succeeded d = d\<lparr>ds_done := ds_done d @ [(task_id, succeeded)]\<rparr>"

definition on_world :: "(('s, 'sc) RunWorld \<Rightarrow> ('s, 'sc) RunWorld) \<Rightarrow> ('s, 'sc) DispatchState \<Rightarrow> ('s, 'sc) DispatchState" where
  "on_world f d = d\<lparr>ds_world := f (ds_world d)\<rparr>"

section \<open>Fast stop and the end of a task\<close>

definition trigger_fast_stop_on_first_failure :: "bool \<Rightarrow> bool \<Rightarrow> ('s, 'sc) DispatchState \<Rightarrow> bool \<times> ('s, 'sc) DispatchState" where
  "trigger_fast_stop_on_first_failure continue_on_failure owns_worker_manager d =
     (let first_failure = (\<not> ds_any_failed d);
          d1 = d\<lparr>ds_any_failed := True\<rparr>;
          d2 = (if first_failure \<and> \<not> continue_on_failure
                then let d' = d1\<lparr>ds_interrupted := True\<rparr>
                     in if owns_worker_manager then d'\<lparr>ds_worker_shutdowns := ds_worker_shutdowns d' + 1\<rparr> else d'
                else d1)
      in (first_failure, d2))"

datatype TaskFailureKind = Succeeded | Failed | CollateralFastStop

definition classify_task_failure :: "bool \<Rightarrow> bool \<Rightarrow> bool \<Rightarrow> ('s, 'sc) DispatchState \<Rightarrow> TaskFailureKind \<times> ('s, 'sc) DispatchState" where
  "classify_task_failure continue_on_failure owns_worker_manager succeeded d =
     (if succeeded then (Succeeded, d)
      else case trigger_fast_stop_on_first_failure continue_on_failure owns_worker_manager d of
             (first_failure, d1) \<Rightarrow>
               (if \<not> continue_on_failure \<and> ds_interrupted d1 \<and> \<not> first_failure then CollateralFastStop else Failed, d1))"

definition should_print_failure_logs :: "TaskFailureKind \<Rightarrow> bool \<Rightarrow> bool" where
  "should_print_failure_logs kind interrupted_run \<longleftrightarrow> kind = Failed \<and> \<not> interrupted_run"

fun record_task_outcome :: "TaskId \<Rightarrow> TaskFailureKind \<Rightarrow> ('s, 'sc) DispatchState \<Rightarrow> ('s, 'sc) DispatchState" where
  "record_task_outcome task_id Succeeded d = report task_id TaskRan d"
| "record_task_outcome task_id Failed d = report task_id TaskFailed d"
| "record_task_outcome task_id CollateralFastStop d = report task_id FinishedUncounted d"

definition finalize_task_run :: "bool \<Rightarrow> bool \<Rightarrow> TaskId \<Rightarrow> bool \<Rightarrow> ('s, 'sc) DispatchState \<Rightarrow> ('s, 'sc) DispatchState" where
  "finalize_task_run continue_on_failure owns_worker_manager task_id succeeded d =
     (let interrupted_run = ds_interrupted d
      in case classify_task_failure continue_on_failure owns_worker_manager succeeded d of
           (kind, d1) \<Rightarrow>
             let d2 = (if should_print_failure_logs kind interrupted_run then on_world (notify [FailureLogs task_id]) d1 else d1)
             in done_send task_id succeeded (record_task_outcome task_id kind d2))"

section \<open>The terminal states of a ready task\<close>

definition mark_task_outside_selection :: "TaskId \<Rightarrow> ('s, 'sc) DispatchState \<Rightarrow> ('s, 'sc) DispatchState" where
  "mark_task_outside_selection task_id d = done_send task_id True (report task_id FinishedUncounted d)"

definition should_skip_for_fast_stop :: "bool \<Rightarrow> ('s, 'sc) DispatchState \<Rightarrow> bool" where
  "should_skip_for_fast_stop continue_on_failure d \<longleftrightarrow> \<not> continue_on_failure \<and> ds_any_failed d"

definition skip_task_after_prior_failure :: "TaskId \<Rightarrow> ('s, 'sc) DispatchState \<Rightarrow> ('s, 'sc) DispatchState" where
  "skip_task_after_prior_failure task_id d = done_send task_id False (report task_id FinishedUncounted d)"

definition fail_invalid_task :: "('g, 's, 'b, 'e, 'q, 'sc) DispatchContext \<Rightarrow> TaskId \<Rightarrow> string \<Rightarrow> ('s, 'sc) DispatchState \<Rightarrow> ('s, 'sc) DispatchState" where
  "fail_invalid_task ctx task_id message d =
     (let d1 = snd (trigger_fast_stop_on_first_failure (dc_continue_on_failure ctx) (dc_owns_worker_manager ctx) d)
      in done_send task_id False (report task_id TaskFailed (on_world (notify [TaskMessage message]) d1)))"

text \<open>A connector has a record only for \<open>luchta why\<close>.\<close>

definition inr_or :: "'a \<Rightarrow> 'e + 'a \<Rightarrow> 'a" where
  "inr_or d r = (case r of Inl _ \<Rightarrow> d | Inr a \<Rightarrow> a)"

definition build_connector_record ::
  "('g, 's) RunEnv \<Rightarrow> FsEnv \<Rightarrow> u64 \<Rightarrow> TaskId \<Rightarrow> ('s, 'sc) RunWorld \<Rightarrow> (TaskRunRecord option \<times> Notice list) option" where
  "build_connector_record re fs now task_id w =
     (case tg_task_definition (re_task_graph re) task_id of
        None \<Rightarrow> Some (None, [])
      | Some task_def \<Rightarrow>
          let nonce = resolve_task_nonce (re_encode re) (re_env_cache_nonce re) (re_global_cache_nonce re) (re_workers re) task_def
          in map_option (\<lambda>r. case r of
               Inl notices \<Rightarrow> (None, notices)
             | Inr cs \<Rightarrow>
                 let merged_env = (case map_of (re_task_envs re) task_id of Some env \<Rightarrow> env | None \<Rightarrow> []);
                     current = build_cache_current_state re fs task_def merged_env nonce cs;
                     decision = decide (cache_read (re_cache re) (rw_files w) (task_id_to_string task_id)) current;
                     inputs = inr_or [] (fr_resolve_inputs (cs_resolver current) (td_inputs task_def) []);
                     outputs = inr_or [] (fr_resolve_outputs (cs_resolver current) (td_outputs task_def) [])
                 in (if dr_action decision \<noteq> Run then None
                     else Some \<lparr>rr_schema_version = SCHEMA_VERSION_V5, rr_task_spec_hash = cs_task_spec_hash current,
                       rr_input_patterns = td_inputs task_def, rr_inputs = inputs,
                       rr_output_patterns = td_outputs task_def, rr_outputs = outputs,
                       rr_detected_input_patterns = False, rr_detected_output_patterns = False,
                       rr_outputs_hash = combined_outputs_hash (re_blake3 re) outputs, rr_env_hash = cs_env_hash current,
                       rr_pkg_dep_hash = cs_pkg_dep_hash current, rr_dep_outputs = cst_dep_outputs cs,
                       rr_exit_status = 0, rr_succeeded = True, rr_start_unix_ms = now, rr_end_unix_ms = now, rr_reports = [],
                       rr_cache_nonce = nonce, rr_run_reason = Some (dr_reason decision)\<rparr>, []))
               (cache_state_context re (rw_output_hashes w) task_id))"

definition record_connector_state ::
  "('g, 's) RunEnv \<Rightarrow> FsEnv \<Rightarrow> u64 \<Rightarrow> IoOutcome list \<Rightarrow> nat \<Rightarrow> TaskId \<Rightarrow> ('s, 'sc) RunWorld \<Rightarrow> ('s, 'sc) RunWorld option" where
  "record_connector_state re fs now ios disk_now task_id w =
     map_option (\<lambda>(built, notices). case built of
         None \<Rightarrow> notify notices w
       | Some run \<Rightarrow>
           (case cache_write (re_cache re) ios disk_now (task_id_to_string task_id)
               \<lparr>ra_record = run, ra_stdout = [], ra_stderr = [], ra_reports = []\<rparr> (rw_files w) of
              (result, files') \<Rightarrow>
                notify (notices @ (case result of Inl e \<Rightarrow> [ConnectorRecordFailed task_id e] | Inr _ \<Rightarrow> [])) (w\<lparr>rw_files := files'\<rparr>)))
       (build_connector_record re fs now task_id w)"

definition mark_ordering_connector ::
  "('g, 's, 'b, 'e, 'q, 'sc) DispatchContext \<Rightarrow> FsEnv \<Rightarrow> u64 \<Rightarrow> IoOutcome list \<Rightarrow> nat \<Rightarrow> TaskId \<Rightarrow> ('s, 'sc) DispatchState \<Rightarrow>
   ('s, 'sc) DispatchState option" where
  "mark_ordering_connector ctx fs now ios disk_now task_id d =
     map_option (\<lambda>w. done_send task_id True (report task_id FinishedUncounted (d\<lparr>ds_world := w\<rparr>)))
       (record_connector_state (dc_env ctx) fs now ios disk_now task_id (ds_world d))"


section \<open>The cache decision\<close>

record ('b, 'e) PreparedSharedCacheHit =
  ph_input_key :: hash32
  ph_package_path :: string
  ph_restore :: "('b, 'e) PreparedRestore"

record 'q PreparedAdvisoryCacheFiles =
  pa_package_path :: string
  pa_patterns :: "string list"
  pa_restore :: 'q

record ('b, 'e, 'q) PreparedCacheDecision =
  pd_decision :: Decision
  pd_cache_write :: "CacheWriteContext option"
  pd_shared_hit :: "('b, 'e) PreparedSharedCacheHit option"
  pd_cache_files :: "'q PreparedAdvisoryCacheFiles option"

definition run_without_context :: "('b, 'e, 'q) PreparedCacheDecision" where
  "run_without_context = \<lparr>pd_decision = Run, pd_cache_write = None, pd_shared_hit = None, pd_cache_files = None\<rparr>"

definition prior_inputs_of :: "TaskRunRecord option \<Rightarrow> FileEntry list" where
  "prior_inputs_of local_record = (case local_record of Some record \<Rightarrow> rr_inputs record | None \<Rightarrow> [])"

text \<open>The changed shared cache is written back into the world.\<close>

definition set_shared :: "'sc \<Rightarrow> ('s, 'sc) RunWorld \<Rightarrow> ('s, 'sc) RunWorld" where
  "set_shared sc w = w\<lparr>rw_shared := Some sc\<rparr>"

definition try_shared_cache_prepare ::
  "('g, 's) RunEnv \<Rightarrow> ('b, 'e, 'q, 'sc) RestoreApi \<Rightarrow> TaskDefinition \<Rightarrow> string \<Rightarrow> CurrentState \<Rightarrow> (string \<times> hash32) list \<Rightarrow>
   TaskRunRecord option \<Rightarrow> ('s, 'sc) RunWorld \<Rightarrow> ('b, 'e) PreparedSharedCacheHit option \<times> ('s, 'sc) RunWorld" where
  "try_shared_cache_prepare re ra task_def package_path current dep_outputs local_record w =
     (case rw_shared w of
        None \<Rightarrow> (None, w)
      | Some shared \<Rightarrow>
          if \<not> outputs_lexically_in_package (td_outputs task_def) then (None, w)
          else case fr_resolve_inputs (cs_resolver current) (cs_declared_input_patterns current) (prior_inputs_of local_record) of
            Inl e \<Rightarrow> (None, w)
          | Inr resolved_inputs \<Rightarrow>
              let inputs_hash = combined_inputs_hash (re_blake3 re) resolved_inputs;
                  input_key = derive_input_key (re_blake3 re) (cs_task_spec_hash current) (cs_env_hash current) (cs_pkg_dep_hash current)
                    (combined_dep_outputs_hash (re_blake3 re) dep_outputs) inputs_hash
              in case rst_prepare_restore ra input_key package_path shared of
                   (None, shared') \<Rightarrow> (None, set_shared shared' w)
                 | (Some restore, shared') \<Rightarrow>
                     if decide_shared_restore (re_blake3 re) (prepared_record restore) current inputs_hash
                     then (Some \<lparr>ph_input_key = input_key, ph_package_path = package_path, ph_restore = restore\<rparr>, set_shared shared' w)
                     else case rst_staged_discard ra (sd_staged (pr_candidate restore)) shared' of
                            (result, shared'') \<Rightarrow>
                              (None, notify (case result of Inl e \<Rightarrow> [RestoreDiscardFailed e] | Inr _ \<Rightarrow> []) (set_shared shared'' w)))"

definition maybe_prepare_shared_cache_hit ::
  "('g, 's) RunEnv \<Rightarrow> ('b, 'e, 'q, 'sc) RestoreApi \<Rightarrow> bool \<Rightarrow> string \<Rightarrow> TaskDefinition \<Rightarrow> CurrentState \<Rightarrow> DecisionResult \<Rightarrow>
   TaskRunRecord option \<Rightarrow> (string \<times> hash32) list \<Rightarrow> ('s, 'sc) RunWorld \<Rightarrow> ('b, 'e) PreparedSharedCacheHit option \<times> ('s, 'sc) RunWorld" where
  "maybe_prepare_shared_cache_hit re ra no_cache package_path task_def current decision local_record dep_outputs w =
     (if no_cache \<or> dr_action decision \<noteq> Run then (None, w)
      else try_shared_cache_prepare re ra task_def package_path current dep_outputs local_record w)"

definition staged_cache_files_are_disjoint ::
  "('g, 's) RunEnv \<Rightarrow> FsEnv \<Rightarrow> TaskId \<Rightarrow> string \<Rightarrow> TaskDefinition \<Rightarrow> CurrentState \<Rightarrow> TaskRunRecord option \<Rightarrow> string list \<Rightarrow> bool" where
  "staged_cache_files_are_disjoint re fs task_id package_path task_def current local_record relative_paths =
     (case bind_result (map_err (\<lambda>_. ()) (expand_for re (tid_package task_id) (td_inputs task_def))) (\<lambda>input_requests.
        bind_result (map_err (\<lambda>_. ()) (fr_resolve_inputs (cs_resolver current) (cs_declared_input_patterns current) (prior_inputs_of local_record))) (\<lambda>inputs.
        bind_result (map_err (\<lambda>_. ()) (resolve_outputs (re_globs re) fs package_path (td_outputs task_def))) (\<lambda>outputs.
        bind_result (map_err (\<lambda>_. ()) (path_request_matcher_compile (re_globs re) input_requests)) (\<lambda>input_matcher.
        bind_result (map_err (\<lambda>_. ()) (path_request_matcher_compile (re_globs re) (map (resolve_request_new package_path) (td_outputs task_def))))
          (\<lambda>output_matcher. Inr (inputs, outputs, input_matcher, output_matcher)))))) of
        Inl _ \<Rightarrow> False
      | Inr (inputs, outputs, input_matcher, output_matcher) \<Rightarrow>
          let occupied = map (\<lambda>e. path_components (join_path (re_workspace_root re) (fe_path e))) inputs @
                map (\<lambda>e. path_components (join_path package_path (fe_path e))) outputs
          in list_all (\<lambda>path.
               let absolute = join_path package_path path
               in path_components absolute \<notin> set occupied \<and> \<not> matches_path (re_globs re) input_matcher absolute \<and>
                  \<not> matches_path (re_globs re) output_matcher absolute) relative_paths)"

definition maybe_prepare_advisory_cache_files ::
  "('g, 's) RunEnv \<Rightarrow> ('b, 'e, 'q, 'sc) RestoreApi \<Rightarrow> FsEnv \<Rightarrow> bool \<Rightarrow> TaskId \<Rightarrow> TaskDefinition \<Rightarrow> string \<Rightarrow> CurrentState \<Rightarrow>
   (string \<times> hash32) list \<Rightarrow> TaskRunRecord option \<Rightarrow> ('s, 'sc) RunWorld \<Rightarrow> 'q PreparedAdvisoryCacheFiles option \<times> ('s, 'sc) RunWorld" where
  "maybe_prepare_advisory_cache_files re ra fs no_cache task_id task_def package_path current dep_outputs local_record w =
     (if no_cache \<or> td_cache_files task_def = [] then (None, w)
      else case rw_shared w of
        None \<Rightarrow> (None, w)
      | Some shared \<Rightarrow>
          (case resolve_outputs (re_globs re) fs package_path (td_cache_files task_def) of
             Inl e \<Rightarrow> (None, w)
           | Inr local_cache_files \<Rightarrow>
               if list_ex (\<lambda>e. \<not> fe_absent e) local_cache_files then (None, w)
               else case rst_prepare_cache_files ra
                   \<lparr>cr_scope_hash = derive_cache_file_scope (re_blake3 re) (task_id_to_string task_id)
                       (cs_task_spec_hash current) (cs_env_hash current) (cs_pkg_dep_hash current),
                    cr_upstream_outputs_hash = combined_dep_outputs_hash (re_blake3 re) dep_outputs,
                    cr_package_dir = package_path, cr_patterns = td_cache_files task_def\<rparr> shared of
                 (None, shared') \<Rightarrow> (None, set_shared shared' w)
               | (Some restore, shared') \<Rightarrow>
                   if \<not> staged_cache_files_are_disjoint re fs task_id package_path task_def current local_record (rst_relative_paths ra restore)
                   then (None, notify [RestoreOverlaps task_id] (set_shared (rst_files_discard ra restore shared') w))
                   else (Some \<lparr>pa_package_path = package_path, pa_patterns = td_cache_files task_def, pa_restore = restore\<rparr>, set_shared shared' w)))"

definition prepare_cache_decision_context ::
  "('g, 's) RunEnv \<Rightarrow> ('b, 'e, 'q, 'sc) RestoreApi \<Rightarrow> FsEnv \<Rightarrow> TaskId \<Rightarrow> bool \<Rightarrow> CacheWriteContext \<Rightarrow> ('s, 'sc) RunWorld \<Rightarrow>
   (CacheWriteContext \<times> ('b, 'e) PreparedSharedCacheHit option \<times> 'q PreparedAdvisoryCacheFiles option \<times> ('s, 'sc) RunWorld) option" where
  "prepare_cache_decision_context re ra fs task_id no_cache cw w =
     map_option (\<lambda>r. case r of
         Inl notices \<Rightarrow> (cw\<lparr>cw_decision := cache_run_decision\<rparr>, None, None, notify notices w)
       | Inr cs \<Rightarrow>
           let task_def = cw_task_def cw;
               cw1 = cw\<lparr>cw_dep_outputs := cst_dep_outputs cs\<rparr>;
               merged_env = (case map_of (re_task_envs re) task_id of Some env \<Rightarrow> env | None \<Rightarrow> []);
               current = build_cache_current_state re fs task_def merged_env (cw_cache_nonce cw) cs;
               local_record = cache_read (re_cache re) (rw_files w) (task_id_to_string task_id);
               decision = decide local_record current;
               (shared_hit, w1) = maybe_prepare_shared_cache_hit re ra no_cache (cw_package_path cw) task_def current decision local_record
                 (cst_dep_outputs cs) w;
               cw2 = cw1\<lparr>cw_decision := (if no_cache then cache_run_decision else decision)\<rparr>;
               (cache_files, w2) = (if shared_hit = None \<and> dr_action decision = Run
                 then maybe_prepare_advisory_cache_files re ra fs no_cache task_id task_def (cw_package_path cw) current (cst_dep_outputs cs)
                   local_record w1
                 else (None, w1))
           in (cw2, shared_hit, cache_files, w2))
       (cache_state_context re (rw_output_hashes w) task_id)"

definition prepare_cache_decision ::
  "('g, 's) RunEnv \<Rightarrow> ('b, 'e, 'q, 'sc) RestoreApi \<Rightarrow> FsEnv \<Rightarrow> u64 \<Rightarrow> TaskId \<Rightarrow> ('s, 'sc) RunWorld \<Rightarrow>
   (('b, 'e, 'q) PreparedCacheDecision \<times> ('s, 'sc) RunWorld) option" where
  "prepare_cache_decision re ra fs now task_id w =
     (if tg_task_definition (re_task_graph re) task_id = None then Some (run_without_context, w)
      else Option.bind (build_cache_write_context re fs now (rw_output_hashes w) task_id) (\<lambda>r.
        case r of
          Inl notices \<Rightarrow> Some (run_without_context, notify notices w)
        | Inr cw \<Rightarrow>
            map_option (\<lambda>(cw', shared_hit, cache_files, w').
              let decision = dr_action (cw_decision cw')
              in (\<lparr>pd_decision = decision, pd_cache_write = (if decision = Run then Some cw' else None),
                   pd_shared_hit = shared_hit, pd_cache_files = cache_files\<rparr>, w'))
              (prepare_cache_decision_context re ra fs task_id False cw w)))"

section \<open>Acting on a decision\<close>

definition hydrate_local_cache ::
  "('g, 's) RunEnv \<Rightarrow> IoOutcome list \<Rightarrow> nat \<Rightarrow> TaskId \<Rightarrow> RestoredHit \<Rightarrow> ('s, 'sc) RunWorld \<Rightarrow> ('s, 'sc) RunWorld" where
  "hydrate_local_cache re ios disk_now task_id hit w =
     (let record = (rh_record hit)\<lparr>rr_schema_version := SCHEMA_VERSION_V5, rr_run_reason := Some SharedCacheHit\<rparr>;
          reports = List.map_filter (\<lambda>report.
            map_option (\<lambda>stored. \<lparr>ri_filename = rm_filename report, ri_mime_type = rm_mime_type report, ri_content = ri_content stored\<rparr>)
              (List.find (\<lambda>stored. ri_filename stored = rm_filename report) (rh_reports hit))) (rr_reports (rh_record hit))
      in case cache_write (re_cache re) ios disk_now (task_id_to_string task_id)
             \<lparr>ra_record = record, ra_stdout = rh_stdout hit, ra_stderr = rh_stderr hit, ra_reports = reports\<rparr> (rw_files w) of
           (result, files') \<Rightarrow> notify (case result of Inl e \<Rightarrow> [HydrateFailed task_id e] | Inr _ \<Rightarrow> []) (w\<lparr>rw_files := files'\<rparr>))"


definition finalize_shared_cache_hit ::
  "('g, 's) RunEnv \<Rightarrow> ('b, 'e, 'q, 'sc) RestoreApi \<Rightarrow> IoOutcome list \<Rightarrow> nat \<Rightarrow> TaskId \<Rightarrow> ('b, 'e) PreparedSharedCacheHit \<Rightarrow> ('s, 'sc) RunWorld \<Rightarrow>
   (bool \<times> ('s, 'sc) RunWorld) option" where
  "finalize_shared_cache_hit re ra ios disk_now task_id prepared w =
     (case rw_shared w of
        None \<Rightarrow> Some (False, w)
      | Some shared \<Rightarrow>
          (case candidate_commit ra (pr_candidate (ph_restore prepared)) shared of
             (Inl e, shared') \<Rightarrow> Some (False, notify [RestoreCommitFailed e] (set_shared shared' w))
           | (Inr (hit, _), shared') \<Rightarrow>
               map_option (\<lambda>registry.
                 let w1 = (set_shared shared' w)\<lparr>rw_registry := registry\<rparr>;
                     w2 = hydrate_local_cache re ios disk_now task_id hit w1;
                     w3 = (if rst_duration_trusted ra (pr_snapshot_entry (ph_restore prepared))
                           then set_shared (rst_refresh_entry ra (ph_input_key prepared) (pr_snapshot_entry (ph_restore prepared)) shared') w2 else w2)
                 in (True, record_output_hash task_id (rh_outputs_hash hit) w3))
                 (or_panic (register_task_watch_state (re_watch re) (rw_registry w) task_id (tid_package task_id) (ph_package_path prepared)
                    (rh_record hit)))))"

definition finalize_advisory_cache_files ::
  "('g, 's) RunEnv \<Rightarrow> ('b, 'e, 'q, 'sc) RestoreApi \<Rightarrow> FsEnv \<Rightarrow> TaskId \<Rightarrow> 'q PreparedAdvisoryCacheFiles \<Rightarrow> ('s, 'sc) RunWorld \<Rightarrow> ('s, 'sc) RunWorld" where
  "finalize_advisory_cache_files re ra fs task_id prepared w =
     (case rw_shared w of
        None \<Rightarrow> w
      | Some shared \<Rightarrow>
          if (case resolve_outputs (re_globs re) fs (pa_package_path prepared) (pa_patterns prepared) of
                Inr entries \<Rightarrow> list_ex (\<lambda>e. \<not> fe_absent e \<and> \<not> rst_is_staged_path ra (pa_restore prepared) (fe_path e)) entries
              | Inl _ \<Rightarrow> False)
          then set_shared (rst_files_discard ra (pa_restore prepared) shared) w
          else case rst_files_commit ra (pa_restore prepared) shared of
                 (result, shared') \<Rightarrow>
                   notify (case result of Inl e \<Rightarrow> [CacheFilesCommitFailed task_id e] | Inr _ \<Rightarrow> []) (set_shared shared' w))"

definition handle_cache_skip ::
  "('g, 's) RunEnv \<Rightarrow> TaskId \<Rightarrow> Decision \<Rightarrow> ('s, 'sc) DispatchState \<Rightarrow> ('s, 'sc) DispatchState option" where
  "handle_cache_skip re task_id decision d =
     (case decision of
        Skip \<Rightarrow>
          (let d1 = report task_id SkippedCacheHit d
           in case cache_read (re_cache re) (rw_files (ds_world d1)) (task_id_to_string task_id) of
                None \<Rightarrow> Some (done_send task_id True d1)
              | Some prior \<Rightarrow>
                  map_option (\<lambda>registry.
                    done_send task_id True (on_world (\<lambda>w. record_output_hash task_id (rr_outputs_hash prior) (w\<lparr>rw_registry := registry\<rparr>)) d1))
                    (or_panic (register_task_watch_state_from_packages (re_watch re) (rw_registry (ds_world d1)) task_id (re_packages re) prior)))
      | SharedHit \<Rightarrow> Some (done_send task_id True (report task_id RestoredFromShared d))
      | Run \<Rightarrow> Some (done_send task_id False d))"

record ReadyTask =
  rt_task_id :: TaskId
  rt_request :: ExecutionRequest
  rt_cache_enabled :: bool
  rt_cache_write :: "CacheWriteContext option"

record DecisionTask =
  dt_task_id :: TaskId
  dt_request :: ExecutionRequest
  dt_cache_enabled :: bool

text \<open>A task whose decision needs the file system waits for it; the rest is decided at once.\<close>

datatype DispatchOutcome = Finished | Direct DecisionTask | Offloaded DecisionTask

definition dispatch_ready_task_async ::
  "('g, 's, 'b, 'e, 'q, 'sc) DispatchContext \<Rightarrow> FsEnv \<Rightarrow> u64 \<Rightarrow> IoOutcome list \<Rightarrow> nat \<Rightarrow> TaskId \<Rightarrow> ('s, 'sc) DispatchState \<Rightarrow>
   (DispatchOutcome \<times> ('s, 'sc) DispatchState) option" where
  "dispatch_ready_task_async ctx fs now ios disk_now task_id d =
     (if task_id \<notin> set (dc_tasks_to_run ctx) then Some (Finished, mark_task_outside_selection task_id d)
      else if should_skip_for_fast_stop (dc_continue_on_failure ctx) d then Some (Finished, skip_task_after_prior_failure task_id d)
      else case map_of (dc_invalid ctx) task_id of
        Some message \<Rightarrow> Some (Finished, fail_invalid_task ctx task_id message d)
      | None \<Rightarrow>
          (case map_of (dc_commands ctx) task_id of
             None \<Rightarrow> map_option (Pair Finished) (mark_ordering_connector ctx fs now ios disk_now task_id d)
           | Some request \<Rightarrow>
               let caching = (case tg_task_definition (re_task_graph (dc_env ctx)) task_id of Some def \<Rightarrow> cache_enabled def | None \<Rightarrow> False);
                   skip_enabled = (caching \<and> \<not> dc_no_cache ctx);
                   dt = \<lparr>dt_task_id = task_id, dt_request = request, dt_cache_enabled = caching\<rparr>
               in Some (if \<not> skip_enabled then Direct dt else Offloaded dt, d)))"

text \<open>A decision that is a shared hit is unreachable, a panic.\<close>

definition dispatch_decision_result ::
  "('g, 's, 'b, 'e, 'q, 'sc) DispatchContext \<Rightarrow> FsEnv \<Rightarrow> IoOutcome list \<Rightarrow> nat \<Rightarrow> DecisionTask \<Rightarrow> ('b, 'e, 'q) PreparedCacheDecision \<Rightarrow>
   ('s, 'sc) DispatchState \<Rightarrow> (ReadyTask option \<times> ('s, 'sc) DispatchState) option" where
  "dispatch_decision_result ctx fs ios disk_now dt prepared d =
     (let re = dc_env ctx; ra = dc_restore ctx; task_id = dt_task_id dt;
          ready = \<lparr>rt_task_id = task_id, rt_request = dt_request dt, rt_cache_enabled = dt_cache_enabled dt,
                   rt_cache_write = pd_cache_write prepared\<rparr>;
          run = (\<lambda>w. let w' = (case pd_cache_files prepared of
                                 Some cache_files \<Rightarrow> finalize_advisory_cache_files re ra fs task_id cache_files w
                               | None \<Rightarrow> w)
                     in Some (Some ready, d\<lparr>ds_world := w'\<rparr>))
      in case pd_decision prepared of
           Skip \<Rightarrow> map_option (Pair None) (handle_cache_skip re task_id Skip d)
         | SharedHit \<Rightarrow> None
         | Run \<Rightarrow>
             (case pd_shared_hit prepared of
                None \<Rightarrow> run (ds_world d)
              | Some shared_hit \<Rightarrow>
                  Option.bind (finalize_shared_cache_hit re ra ios disk_now task_id shared_hit (ds_world d)) (\<lambda>(hit, w).
                    if hit then map_option (Pair None) (handle_cache_skip re task_id SharedHit (d\<lparr>ds_world := w\<rparr>))
                    else run w)))"


section \<open>The loop\<close>

text \<open>What a step sees from outside: the file system when it starts and when it acts, the clocks, the outcomes of writes, and whether memory
  pressure cleared (otherwise a shutdown ended the wait).\<close>

record StepEnv =
  se_fs :: FsEnv
  se_fs_late :: FsEnv
  se_now :: u64
  se_ios :: "IoOutcome list"
  se_disk_now :: nat
  se_clear :: bool

text \<open>Tasks between their arrival and their completion. \<open>sy_dropped\<close> are those whose completion signal is dropped without an
  answer, by a panic or because the loop stopped.\<close>

record ('s, 'sc, 'b, 'e, 'q) System =
  sy_state :: "('s, 'sc) DispatchState"
  sy_arrived :: "TaskId list"
  sy_waiting :: "DecisionTask list"
  sy_decided :: "(DecisionTask \<times> ('b, 'e, 'q) PreparedCacheDecision) list"
  sy_running :: "(ReadyTask \<times> TaskRunContext) list"
  sy_dropped :: "TaskId list"
  sy_stopped :: bool

definition drop_task :: "TaskId \<Rightarrow> ('s, 'sc, 'b, 'e, 'q) System \<Rightarrow> ('s, 'sc, 'b, 'e, 'q) System" where
  "drop_task task_id s = s\<lparr>sy_dropped := sy_dropped s @ [task_id], sy_stopped := True\<rparr>"

definition report_interrupted :: "('s, 'sc, 'b, 'e, 'q) System \<Rightarrow> ('s, 'sc, 'b, 'e, 'q) System" where
  "report_interrupted s = s\<lparr>sy_state := (sy_state s)\<lparr>ds_interrupted := True\<rparr>, sy_stopped := True\<rparr>"

definition spawn_task_runner ::
  "('g, 's, 'b, 'e, 'q, 'sc) DispatchContext \<Rightarrow> StepEnv \<Rightarrow> ReadyTask \<Rightarrow> ('s, 'sc, 'b, 'e, 'q) System \<Rightarrow> ('s, 'sc, 'b, 'e, 'q) System" where
  "spawn_task_runner ctx se rt s =
     (case build_task_run_context (dc_env ctx) (se_fs_late se) (se_now se) (rw_output_hashes (ds_world (sy_state s))) (rt_task_id rt)
         (rt_cache_write rt) of
        None \<Rightarrow> drop_task (rt_task_id rt) s
      | Some (tc, notices) \<Rightarrow>
          s\<lparr>sy_state := on_world (notify notices) (sy_state s), sy_running := sy_running s @ [(rt, tc)]\<rparr>)"

definition handle_decision_result ::
  "('g, 's, 'b, 'e, 'q, 'sc) DispatchContext \<Rightarrow> StepEnv \<Rightarrow> DecisionTask \<Rightarrow> ('b, 'e, 'q) PreparedCacheDecision \<Rightarrow>
   ('s, 'sc, 'b, 'e, 'q) System \<Rightarrow> ('s, 'sc, 'b, 'e, 'q) System" where
  "handle_decision_result ctx se dt prepared s =
     (case dispatch_decision_result ctx (se_fs se) (se_ios se) (se_disk_now se) dt prepared (sy_state s) of
        None \<Rightarrow> drop_task (dt_task_id dt) s
      | Some (None, d) \<Rightarrow> s\<lparr>sy_state := d\<rparr>
      | Some (Some rt, d) \<Rightarrow>
          if se_clear se then spawn_task_runner ctx se rt (s\<lparr>sy_state := d\<rparr>)
          else drop_task (rt_task_id rt) (report_interrupted (s\<lparr>sy_state := d\<rparr>)))"

definition receive_task ::
  "('g, 's, 'b, 'e, 'q, 'sc) DispatchContext \<Rightarrow> StepEnv \<Rightarrow> TaskId \<Rightarrow> ('s, 'sc, 'b, 'e, 'q) System \<Rightarrow> ('s, 'sc, 'b, 'e, 'q) System" where
  "receive_task ctx se task_id s =
     (let s1 = s\<lparr>sy_arrived := sy_arrived s @ [task_id]\<rparr>
      in case dispatch_ready_task_async ctx (se_fs se) (se_now se) (se_ios se) (se_disk_now se) task_id (sy_state s) of
           None \<Rightarrow> drop_task task_id s1
         | Some (Finished, d) \<Rightarrow> s1\<lparr>sy_state := d\<rparr>
         | Some (Direct dt, d) \<Rightarrow> handle_decision_result ctx se dt run_without_context (s1\<lparr>sy_state := d\<rparr>)
         | Some (Offloaded dt, d) \<Rightarrow> s1\<lparr>sy_state := d, sy_waiting := sy_waiting s @ [dt]\<rparr>)"

text \<open>A decision that panics ends the loop with an error.\<close>

definition run_decision_task ::
  "('g, 's, 'b, 'e, 'q, 'sc) DispatchContext \<Rightarrow> StepEnv \<Rightarrow> DecisionTask \<Rightarrow> ('s, 'sc, 'b, 'e, 'q) System \<Rightarrow> ('s, 'sc, 'b, 'e, 'q) System" where
  "run_decision_task ctx se dt s =
     (case prepare_cache_decision (dc_env ctx) (dc_restore ctx) (se_fs se) (se_now se) (dt_task_id dt) (ds_world (sy_state s)) of
        None \<Rightarrow> drop_task (dt_task_id dt) s
      | Some (prepared, w) \<Rightarrow>
          s\<lparr>sy_state := on_world (\<lambda>_. w) (sy_state s), sy_decided := sy_decided s @ [(dt, prepared)]\<rparr>)"

definition finish_run ::
  "('g, 's, 'b, 'e, 'q, 'sc) DispatchContext \<Rightarrow> StepEnv \<Rightarrow> Execution \<Rightarrow> ReadyTask \<Rightarrow> TaskRunContext \<Rightarrow>
   ('s, 'sc, 'b, 'e, 'q) System \<Rightarrow> ('s, 'sc, 'b, 'e, 'q) System" where
  "finish_run ctx se ex rt tc s =
     (case run_task_and_persist_cache (dc_env ctx) (dc_api ctx) (se_fs se) (rt_cache_enabled rt) (dc_no_cache ctx) (se_now se) ex tc
         (ds_world (sy_state s)) of
        None \<Rightarrow> s\<lparr>sy_dropped := sy_dropped s @ [rt_task_id rt]\<rparr>
      | Some (outcome, w) \<Rightarrow>
          s\<lparr>sy_state := finalize_task_run (dc_continue_on_failure ctx) (dc_owns_worker_manager ctx) (rt_task_id rt) (so_succeeded outcome)
              (on_world (\<lambda>_. w) (sy_state s))\<rparr>)"

text \<open>A run reads the interrupt flag twice, and the flag is never cleared.\<close>

inductive loop_step :: "('g, 's, 'b, 'e, 'q, 'sc) DispatchContext \<Rightarrow> ('s, 'sc, 'b, 'e, 'q) System \<Rightarrow> ('s, 'sc, 'b, 'e, 'q) System \<Rightarrow> bool"
  for ctx where
  receive: "\<not> sy_stopped s \<Longrightarrow> task_id \<notin> set (sy_arrived s) \<Longrightarrow> loop_step ctx s (receive_task ctx se task_id s)"
| decide_task: "sy_waiting s = xs @ dt # ys \<Longrightarrow> loop_step ctx s (run_decision_task ctx se dt (s\<lparr>sy_waiting := xs @ ys\<rparr>))"
| handle: "\<not> sy_stopped s \<Longrightarrow> sy_decided s = (dt, prepared) # rest \<Longrightarrow>
    loop_step ctx s (handle_decision_result ctx se dt prepared (s\<lparr>sy_decided := rest\<rparr>))"
| finish: "sy_running s = xs @ (rt, tc) # ys \<Longrightarrow>
    (ex_interrupted ex \<longrightarrow> ex_interrupted_late ex) \<Longrightarrow> (ex_interrupted_late ex \<longrightarrow> ds_interrupted (sy_state s)) \<Longrightarrow>
    loop_step ctx s (finish_run ctx se ex rt tc (s\<lparr>sy_running := xs @ ys\<rparr>))"
| interrupt: "loop_step ctx s (report_interrupted s)"

inductive_cases loop_stepE: "loop_step ctx s s'"

definition loop_start :: "('s, 'sc) RunWorld \<Rightarrow> ('s, 'sc, 'b, 'e, 'q) System" where
  "loop_start w =
     \<lparr>sy_state = \<lparr>ds_world = w, ds_any_failed = False, ds_interrupted = False, ds_worker_shutdowns = 0, ds_reports = [], ds_done = []\<rparr>,
      sy_arrived = [], sy_waiting = [], sy_decided = [], sy_running = [], sy_dropped = [], sy_stopped = False\<rparr>"

section \<open>What every step keeps\<close>

fun signal_agrees :: "TaskReport \<Rightarrow> bool \<Rightarrow> bool" where
  "signal_agrees TaskRan b = b"
| "signal_agrees TaskFailed b = (\<not> b)"
| "signal_agrees FinishedUncounted b = True"
| "signal_agrees SkippedCacheHit b = b"
| "signal_agrees RestoredFromShared b = b"

text \<open>Reports and completion signals go together, and the flag of a failure is set by counted failures only.\<close>

definition state_ok :: "bool \<Rightarrow> ('s, 'sc) DispatchState \<Rightarrow> bool" where
  "state_ok continue_on_failure d \<longleftrightarrow>
     list_all2 (\<lambda>(t, r) (t', b). t = t' \<and> signal_agrees r b) (ds_reports d) (ds_done d) \<and>
     (ds_any_failed d \<longleftrightarrow> (\<exists>t. (t, TaskFailed) \<in> set (ds_reports d))) \<and>
     (ds_any_failed d \<and> \<not> continue_on_failure \<longrightarrow> ds_interrupted d)"

definition runnable :: "('g, 's, 'b, 'e, 'q, 'sc) DispatchContext \<Rightarrow> TaskId \<Rightarrow> ExecutionRequest \<Rightarrow> bool" where
  "runnable ctx task_id request \<longleftrightarrow>
     task_id \<in> set (dc_tasks_to_run ctx) \<and> map_of (dc_invalid ctx) task_id = None \<and> map_of (dc_commands ctx) task_id = Some request"

definition in_flight :: "('s, 'sc, 'b, 'e, 'q) System \<Rightarrow> TaskId list" where
  "in_flight s = map dt_task_id (sy_waiting s) @ map (\<lambda>(dt, _). dt_task_id dt) (sy_decided s) @ map (\<lambda>(rt, _). rt_task_id rt) (sy_running s)"

text \<open>\<open>held\<close> are the tasks that the current step has in its hands.\<close>

definition balanced :: "('g, 's, 'b, 'e, 'q, 'sc) DispatchContext \<Rightarrow> TaskId list \<Rightarrow> ('s, 'sc, 'b, 'e, 'q) System \<Rightarrow> bool" where
  "balanced ctx held s \<longleftrightarrow>
     state_ok (dc_continue_on_failure ctx) (sy_state s) \<and> distinct (sy_arrived s) \<and>
     mset (sy_arrived s) = mset (map fst (ds_done (sy_state s))) + mset (in_flight s) + mset (sy_dropped s) + mset held \<and>
     (\<forall>dt \<in> set (sy_waiting s) \<union> fst ` set (sy_decided s). runnable ctx (dt_task_id dt) (dt_request dt)) \<and>
     (\<forall>rt \<in> fst ` set (sy_running s). runnable ctx (rt_task_id rt) (rt_request rt))"

definition completes :: "bool \<Rightarrow> TaskId \<Rightarrow> ('s, 'sc) DispatchState \<Rightarrow> ('s, 'sc) DispatchState \<Rightarrow> bool" where
  "completes c t d d' \<longleftrightarrow> (\<exists>b. ds_done d' = ds_done d @ [(t, b)]) \<and> (ds_any_failed d \<longrightarrow> ds_any_failed d') \<and>
     (state_ok c d \<longrightarrow> state_ok c d')"

lemma on_world_simps [simp]:
  "ds_any_failed (on_world f d) = ds_any_failed d" "ds_interrupted (on_world f d) = ds_interrupted d"
  "ds_reports (on_world f d) = ds_reports d" "ds_done (on_world f d) = ds_done d" "ds_world (on_world f d) = f (ds_world d)"
  by (simp_all add: on_world_def)

lemma state_ok_world [simp]:
  "state_ok c (on_world f d) = state_ok c d" "state_ok c (d\<lparr>ds_world := w\<rparr>) = state_ok c d"
  by (simp_all add: state_ok_def)

lemma state_ok_end:
  assumes "state_ok c d" "signal_agrees r b" "r = TaskFailed \<longrightarrow> ds_any_failed d"
  shows "state_ok c (done_send t b (report t r d))"
  using assms by (auto simp: state_ok_def report_def done_send_def list_all2_appendI)

lemma completes_report [intro]:
  "signal_agrees r b \<Longrightarrow> r \<noteq> TaskFailed \<Longrightarrow> completes c t d (done_send t b (report t r d))"
  using state_ok_end[of c d r b t] by (simp add: completes_def done_send_def report_def)

lemma completes_world: "completes c t (d\<lparr>ds_world := w\<rparr>) d' \<Longrightarrow> completes c t d d'" "completes c t (on_world f d) d' \<Longrightarrow> completes c t d d'"
  by (simp_all add: completes_def)

text \<open>Between the trigger of the fast stop and the report of its cause, only the link between them is open.\<close>

lemma completes_failed:
  assumes "trigger_fast_stop_on_first_failure c owns d = (first, d1)" "kind = TaskFailed \<or> kind = FinishedUncounted \<and> \<not> first"
  shows "completes c t d (done_send t False (report t kind (on_world f d1)))"
  using assms by (auto simp: completes_def state_ok_def trigger_fast_stop_on_first_failure_def report_def done_send_def Let_def
      list_all2_appendI split: if_splits)

lemma finalize_completes: "completes c t d (finalize_task_run c owns t succeeded d)"
proof (cases succeeded)
  case True
  then show ?thesis
    by (auto simp: finalize_task_run_def classify_task_failure_def should_print_failure_logs_def Let_def)
next
  case False
  obtain first d1 where f: "trigger_fast_stop_on_first_failure c owns d = (first, d1)" by fastforce
  have world: "d1 = on_world id d1" by (simp add: on_world_def)
  show ?thesis
    using False f completes_failed[OF f, of TaskFailed t id] completes_failed[OF f, of FinishedUncounted t id]
      completes_failed[OF f, of TaskFailed t "notify [FailureLogs t]"]
    by (cases c) (simp_all add: finalize_task_run_def classify_task_failure_def should_print_failure_logs_def Let_def flip: world)
qed

lemma invalid_completes: "completes (dc_continue_on_failure ctx) t d (fail_invalid_task ctx t message d)"
proof -
  obtain first d1 where f: "trigger_fast_stop_on_first_failure (dc_continue_on_failure ctx) (dc_owns_worker_manager ctx) d = (first, d1)"
    by fastforce
  from completes_failed[OF this, of TaskFailed t] show ?thesis by (simp add: fail_invalid_task_def Let_def f)
qed

lemma connector_completes: "mark_ordering_connector ctx fs now ios disk_now t d = Some d' \<Longrightarrow> completes c t d d'"
  by (auto simp: mark_ordering_connector_def intro!: completes_world(1)[OF completes_report])

lemma skip_completes:
  assumes "handle_cache_skip re t decision d = Some d'" "decision \<noteq> Run"
  shows "completes c t d d'"
proof (cases decision)
  case Skip
  have "completes c t d (done_send t True (on_world f (report t SkippedCacheHit d)))" for f
    using state_ok_end[of c d SkippedCacheHit True t] by (auto simp: completes_def done_send_def report_def on_world_def state_ok_def)
  moreover have "completes c t d (done_send t True (report t SkippedCacheHit d))" by auto
  ultimately show ?thesis using assms(1) Skip by (auto simp: handle_cache_skip_def Let_def split: option.splits)
qed (use assms in \<open>auto simp: handle_cache_skip_def\<close>)

lemma ready_async_cases:
  assumes "dispatch_ready_task_async ctx fs now ios disk_now t d = Some (outcome, d')"
  shows "case outcome of
      Finished \<Rightarrow> completes (dc_continue_on_failure ctx) t d d'
    | Direct dt \<Rightarrow> d' = d \<and> dt_task_id dt = t \<and> runnable ctx t (dt_request dt)
    | Offloaded dt \<Rightarrow> d' = d \<and> dt_task_id dt = t \<and> runnable ctx t (dt_request dt)"
  using assms connector_completes invalid_completes[of ctx t d]
  by (auto simp: dispatch_ready_task_async_def mark_task_outside_selection_def skip_task_after_prior_failure_def runnable_def Let_def
      split: if_splits option.splits)

lemma same_world: "\<exists>w. d = d\<lparr>ds_world := w\<rparr>"
  by (rule exI[of _ "ds_world d"]) simp

lemma decision_result_cases:
  assumes "dispatch_decision_result ctx fs ios disk_now dt prepared d = Some (ready, d')"
  shows "case ready of
      None \<Rightarrow> completes c (dt_task_id dt) d d'
    | Some rt \<Rightarrow> (\<exists>w. d' = d\<lparr>ds_world := w\<rparr>) \<and> rt_task_id rt = dt_task_id dt \<and> rt_request rt = dt_request dt \<and> pd_decision prepared = Run"
  using assms
  by (auto simp: dispatch_decision_result_def Let_def bind_eq_Some_conv split: Decision.splits option.splits if_splits
      intro: skip_completes completes_world(1)[OF skip_completes] same_world)


lemma balanced_drop: "balanced ctx [t] s \<Longrightarrow> balanced ctx [] (drop_task t s)"
  by (auto simp: balanced_def drop_task_def in_flight_def)

lemma balanced_complete: "balanced ctx [t] s \<Longrightarrow> completes (dc_continue_on_failure ctx) t (sy_state s) d \<Longrightarrow> balanced ctx [] (s\<lparr>sy_state := d\<rparr>)"
  by (auto simp: balanced_def completes_def in_flight_def)

lemma balanced_world:
  "balanced ctx held (s\<lparr>sy_state := on_world f (sy_state s)\<rparr>) = balanced ctx held s"
  "sy_state s = d \<Longrightarrow> balanced ctx held (s\<lparr>sy_state := d\<lparr>ds_world := w\<rparr>\<rparr>) = balanced ctx held s"
  by (auto simp: balanced_def in_flight_def)

lemma balanced_interrupted: "balanced ctx held s \<Longrightarrow> balanced ctx held (report_interrupted s)"
  by (auto simp: balanced_def report_interrupted_def in_flight_def state_ok_def)

lemma balanced_spawn:
  assumes "balanced ctx [rt_task_id rt] s" "runnable ctx (rt_task_id rt) (rt_request rt)"
  shows "balanced ctx [] (spawn_task_runner ctx se rt s)"
proof -
  have "balanced ctx [] (s\<lparr>sy_state := on_world f (sy_state s), sy_running := sy_running s @ [(rt, tc)]\<rparr>)" for f tc
    using assms by (auto simp: balanced_def in_flight_def)
  then show ?thesis using balanced_drop[OF assms(1)] by (auto simp: spawn_task_runner_def split: option.splits prod.splits)
qed

lemma balanced_handle:
  assumes "balanced ctx [dt_task_id dt] s" "runnable ctx (dt_task_id dt) (dt_request dt)"
  shows "balanced ctx [] (handle_decision_result ctx se dt prepared s)"
proof (cases "dispatch_decision_result ctx (se_fs se) (se_ios se) (se_disk_now se) dt prepared (sy_state s)")
  case None
  then show ?thesis using balanced_drop[OF assms(1)] by (simp add: handle_decision_result_def)
next
  case (Some r)
  obtain ready d where r: "r = (ready, d)" by fastforce
  note cases = decision_result_cases[OF Some[unfolded r], of "dc_continue_on_failure ctx"]
  show ?thesis
  proof (cases ready)
    case None
    then show ?thesis using Some r cases balanced_complete[OF assms(1)] by (simp add: handle_decision_result_def)
  next
    case (Some rt)
    with cases obtain w where rt: "d = (sy_state s)\<lparr>ds_world := w\<rparr>" "rt_task_id rt = dt_task_id dt" "rt_request rt = dt_request dt"
      by auto
    then have "balanced ctx [rt_task_id rt] (s\<lparr>sy_state := d\<rparr>)" using assms(1) balanced_world(2)[OF refl] by metis
    then show ?thesis using Some \<open>_ = Some r\<close> r assms(2) rt
      by (simp add: handle_decision_result_def balanced_spawn balanced_drop balanced_interrupted)
  qed
qed

lemma balanced_receive:
  assumes "balanced ctx [] s" "t \<notin> set (sy_arrived s)"
  shows "balanced ctx [] (receive_task ctx se t s)"
proof -
  let ?s = "s\<lparr>sy_arrived := sy_arrived s @ [t]\<rparr>"
  have held: "balanced ctx [t] ?s" using assms by (auto simp: balanced_def in_flight_def)
  show ?thesis
  proof (cases "dispatch_ready_task_async ctx (se_fs se) (se_now se) (se_ios se) (se_disk_now se) t (sy_state s)")
    case None
    then show ?thesis using balanced_drop[OF held] by (simp add: receive_task_def Let_def)
  next
    case (Some r)
    obtain outcome d where r: "r = (outcome, d)" by fastforce
    note cases = ready_async_cases[OF Some[unfolded r]]
    show ?thesis
    proof (cases outcome)
      case Finished
      then show ?thesis using Some r cases balanced_complete[OF held] by (simp add: receive_task_def Let_def)
    next
      case (Direct dt)
      then show ?thesis using Some r cases balanced_handle[of ctx dt ?s] held by (simp add: receive_task_def Let_def)
    next
      case (Offloaded dt)
      then have "balanced ctx [] (?s\<lparr>sy_state := d, sy_waiting := sy_waiting s @ [dt]\<rparr>)"
        using cases held by (auto simp: balanced_def in_flight_def)
      then show ?thesis using Some r Offloaded by (simp add: receive_task_def Let_def)
    qed
  qed
qed

lemma loop_step_balanced: "loop_step ctx s s' \<Longrightarrow> balanced ctx [] s \<Longrightarrow> balanced ctx [] s'"
proof (induction rule: loop_step.induct)
  case (decide_task s xs dt ys se)
  then have held: "balanced ctx [dt_task_id dt] (s\<lparr>sy_waiting := xs @ ys\<rparr>)" "runnable ctx (dt_task_id dt) (dt_request dt)"
    by (auto simp: balanced_def in_flight_def)
  have "balanced ctx [] ((s\<lparr>sy_waiting := xs @ ys\<rparr>)\<lparr>sy_state := on_world f (sy_state s), sy_decided := sy_decided s @ [(dt, p)]\<rparr>)" for f p
    using held by (auto simp: balanced_def in_flight_def)
  then show ?case using balanced_drop[OF held(1)] by (auto simp: run_decision_task_def split: option.splits)
next
  case (handle s dt prepared rest se)
  then show ?case by (intro balanced_handle) (auto simp: balanced_def in_flight_def)
next
  case (finish s xs rt tc ys ex se)
  then have held: "balanced ctx [rt_task_id rt] (s\<lparr>sy_running := xs @ ys\<rparr>)" by (auto simp: balanced_def in_flight_def)
  have "balanced ctx [] ((s\<lparr>sy_running := xs @ ys\<rparr>)\<lparr>sy_dropped := sy_dropped s @ [rt_task_id rt]\<rparr>)"
    using held by (auto simp: balanced_def in_flight_def)
  moreover have "balanced ctx [] ((s\<lparr>sy_running := xs @ ys\<rparr>)\<lparr>sy_state :=
      finalize_task_run (dc_continue_on_failure ctx) owns (rt_task_id rt) b (on_world f (sy_state s))\<rparr>)" for owns b f
    using balanced_complete[OF held] completes_world(2)[OF finalize_completes] by fastforce
  ultimately show ?case by (auto simp: finish_run_def split: option.splits)
qed (simp_all add: balanced_receive balanced_interrupted)

lemma start_balanced: "balanced ctx [] (loop_start w)"
  by (simp add: balanced_def loop_start_def state_ok_def in_flight_def)

lemma reachable_balanced: "(loop_step ctx)\<^sup>*\<^sup>* (loop_start w) s \<Longrightarrow> balanced ctx [] s"
  by (induction rule: rtranclp_induct) (auto intro: start_balanced loop_step_balanced)


section \<open>After a failure\<close>

text \<open>How a step goes on: signals are only added, and a failure is remembered.\<close>

definition grows :: "('s, 'sc) DispatchState \<Rightarrow> ('s, 'sc) DispatchState \<Rightarrow> bool" where
  "grows d d' \<longleftrightarrow> (\<exists>xs. ds_done d' = ds_done d @ xs) \<and> (ds_any_failed d \<longrightarrow> ds_any_failed d')"

lemma grows_refl [simp]: "grows d d" by (simp add: grows_def)

lemma grows_trans [trans]: "grows d1 d2 \<Longrightarrow> grows d2 d3 \<Longrightarrow> grows d1 d3" by (auto simp: grows_def)

lemma completes_grows: "completes c t d d' \<Longrightarrow> grows d d'" by (auto simp: grows_def completes_def)

lemma grows_world [simp]:
  "grows d (on_world f d)" "grows d (d\<lparr>ds_world := w\<rparr>)" "grows d (d\<lparr>ds_interrupted := b\<rparr>)"
  by (simp_all add: grows_def)

lemma spawn_grows:
  "grows (sy_state s) (sy_state (spawn_task_runner ctx se rt s))"
  "sy_waiting (spawn_task_runner ctx se rt s) = sy_waiting s" "sy_arrived (spawn_task_runner ctx se rt s) = sy_arrived s"
  "set (in_flight (spawn_task_runner ctx se rt s)) \<subseteq> insert (rt_task_id rt) (set (in_flight s))"
  by (auto simp: spawn_task_runner_def drop_task_def in_flight_def split: option.splits prod.splits)

lemma handle_grows:
  "grows (sy_state s) (sy_state (handle_decision_result ctx se dt prepared s)) \<and>
   sy_waiting (handle_decision_result ctx se dt prepared s) = sy_waiting s \<and>
   sy_arrived (handle_decision_result ctx se dt prepared s) = sy_arrived s \<and>
   set (in_flight (handle_decision_result ctx se dt prepared s)) \<subseteq> insert (dt_task_id dt) (set (in_flight s))"
proof (cases "dispatch_decision_result ctx (se_fs se) (se_ios se) (se_disk_now se) dt prepared (sy_state s)")
  case None
  then show ?thesis by (auto simp: handle_decision_result_def drop_task_def in_flight_def)
next
  case (Some r)
  obtain ready d where r: "r = (ready, d)" by fastforce
  note cases = decision_result_cases[OF Some[unfolded r], of undefined]
  show ?thesis
  proof (cases ready)
    case None
    then show ?thesis using Some r cases by (auto simp: handle_decision_result_def in_flight_def dest: completes_grows)
  next
    case (Some rt)
    with cases have rt: "\<exists>w. d = (sy_state s)\<lparr>ds_world := w\<rparr>" "rt_task_id rt = dt_task_id dt" by auto
    then have "grows (sy_state s) d" by auto
    with spawn_grows[where s = "s\<lparr>sy_state := d\<rparr>" and ctx = ctx and se = se and rt = rt] \<open>_ = Some r\<close> Some r rt show ?thesis
      by (auto simp: handle_decision_result_def drop_task_def report_interrupted_def in_flight_def dest: grows_trans)
         (auto simp: grows_def)
  qed
qed

text \<open>Once a failure counts, and unless the run goes on after failures, no task that arrives later is started.\<close>

lemma failed_step:
  assumes "loop_step ctx s s'" "ds_any_failed (sy_state s)" "\<not> dc_continue_on_failure ctx"
  shows "grows (sy_state s) (sy_state s')" "set (in_flight s') \<subseteq> set (in_flight s)"
    "\<forall>t \<in> set (sy_arrived s') - set (sy_arrived s). (t, t \<notin> set (dc_tasks_to_run ctx)) \<in> set (ds_done (sy_state s'))"
proof -
  have "grows (sy_state s) (sy_state s') \<and> set (in_flight s') \<subseteq> set (in_flight s) \<and>
    (\<forall>t \<in> set (sy_arrived s') - set (sy_arrived s). (t, t \<notin> set (dc_tasks_to_run ctx)) \<in> set (ds_done (sy_state s')))"
    using assms(1)
  proof cases
    case (receive t se)
    then show ?thesis using assms(2,3)
      by (auto simp: receive_task_def dispatch_ready_task_async_def should_skip_for_fast_stop_def mark_task_outside_selection_def
          skip_task_after_prior_failure_def done_send_def report_def grows_def in_flight_def Let_def)
  next
    case (decide_task xs dt ys se)
    then show ?thesis by (auto simp: run_decision_task_def drop_task_def in_flight_def split: option.splits)
  next
    case (handle dt prepared rest se)
    then show ?thesis using handle_grows[where s = "s\<lparr>sy_decided := rest\<rparr>" and ctx = ctx and se = se and dt = dt and prepared = prepared] by (auto simp: in_flight_def)
  next
    case (finish xs rt tc ys ex se)
    have "grows (sy_state s) (finalize_task_run c owns t b (on_world f (sy_state s)))" for c owns t b f
      using grows_trans[OF grows_world(1) completes_grows[OF finalize_completes]] .
    with finish show ?thesis by (auto simp: finish_run_def in_flight_def split: option.splits)
  next
    case interrupt
    then show ?thesis by (auto simp: report_interrupted_def in_flight_def)
  qed
  then show "grows (sy_state s) (sy_state s')" "set (in_flight s') \<subseteq> set (in_flight s)"
    "\<forall>t \<in> set (sy_arrived s') - set (sy_arrived s). (t, t \<notin> set (dc_tasks_to_run ctx)) \<in> set (ds_done (sy_state s'))" by blast+
qed

lemma failed_steps:
  assumes "(loop_step ctx)\<^sup>*\<^sup>* s s'" "ds_any_failed (sy_state s)" "\<not> dc_continue_on_failure ctx"
  shows "grows (sy_state s) (sy_state s') \<and> set (in_flight s') \<subseteq> set (in_flight s) \<and>
    (\<forall>t \<in> set (sy_arrived s') - set (sy_arrived s). (t, t \<notin> set (dc_tasks_to_run ctx)) \<in> set (ds_done (sy_state s')))"
  using assms(1)
proof (induction rule: rtranclp_induct)
  case (step s1 s2)
  then have "ds_any_failed (sy_state s1)" using assms(2) by (simp add: grows_def)
  note f = failed_step[OF step.hyps(2) this assms(3)]
  then have "set (ds_done (sy_state s1)) \<subseteq> set (ds_done (sy_state s2))" by (auto simp: grows_def)
  then show ?case using f step.IH grows_trans by blast
qed simp

text \<open>A task whose decision is in flight when another one fails is still started.\<close>

lemma decided_task_starts:
  assumes "pd_decision prepared = Run" "pd_shared_hit prepared = None"
  shows "\<exists>rt d'. dispatch_decision_result ctx fs ios disk_now dt prepared d = Some (Some rt, d') \<and> rt_task_id rt = dt_task_id dt"
  using assms by (simp add: dispatch_decision_result_def Let_def)

section \<open>Reuse\<close>

text \<open>The state of a task that a decision looks at.\<close>

definition task_current :: "('g, 's) RunEnv \<Rightarrow> FsEnv \<Rightarrow> (TaskId, hash32) hmap \<Rightarrow> TaskId \<Rightarrow> CurrentState option" where
  "task_current re fs output_hashes task_id =
     (case (tg_task_definition (re_task_graph re) task_id, cache_state_context re output_hashes task_id) of
        (Some task_def, Some (Inr cs)) \<Rightarrow>
          Some (build_cache_current_state re fs task_def
            (case map_of (re_task_envs re) task_id of Some env \<Rightarrow> env | None \<Rightarrow> [])
            (resolve_task_nonce (re_encode re) (re_env_cache_nonce re) (re_global_cache_nonce re) (re_workers re) task_def) cs)
      | _ \<Rightarrow> None)"

definition unchanged_since :: "TaskRunRecord \<Rightarrow> CurrentState \<Rightarrow> bool" where
  "unchanged_since p c \<longleftrightarrow>
     rr_succeeded p \<and> rr_cache_nonce p = cs_cache_nonce c \<and> rr_task_spec_hash p = cs_task_spec_hash c \<and>
     changed_dep_tasks p c = [] \<and> rr_pkg_dep_hash p = cs_pkg_dep_hash c \<and> rr_env_hash p = cs_env_hash c \<and>
     files_match (cs_resolver c) Outputs (effective_output_patterns p c) (rr_outputs p) \<and>
     files_match (cs_resolver c) Inputs (effective_input_patterns p c) (rr_inputs p)"

lemma decide_skip: "dr_action (decide prior c) = Skip \<Longrightarrow> \<exists>p. prior = Some p \<and> unchanged_since p c"
  by (auto simp: decide_def unchanged_since_def check_patterns_unchanged_def Let_def simp flip: change_reason_None
      split: option.splits if_splits)

lemma prepared_hit:
  assumes "maybe_prepare_shared_cache_hit re ra no_cache package_path task_def c decision local_record dep_outputs w = (Some hit, w')"
  shows "dr_action decision = Run \<and> outputs_lexically_in_package (td_outputs task_def) \<and>
    (\<exists>es. fr_resolve_inputs (cs_resolver c) (cs_declared_input_patterns c) (prior_inputs_of local_record) = Inr es \<and>
       cacheable_prior (prepared_record (ph_restore hit)) c \<and>
       combined_inputs_hash (re_blake3 re) (rr_inputs (prepared_record (ph_restore hit))) = combined_inputs_hash (re_blake3 re) es)"
  using assms
  by (auto simp: maybe_prepare_shared_cache_hit_def try_shared_cache_prepare_def decide_shared_restore_def Let_def
      split: if_splits option.splits sum.splits prod.splits)


section \<open>Properties of dispatching\<close>

text \<open>C6: Every task that the loop receives is accounted for. In every reachable state, whatever the order of decisions, runs, failures,
  panics and interrupts, a received task is in exactly one place: its completion was signalled, once; or its decision is
  pending; or it runs; or its signal was dropped by a panic or the end of the loop. Every signal goes with one report that
  agrees with it, the failure flag is set exactly if a failure is counted, and only selected and valid tasks run, with their own command.\<close>

theorem dispatch_accounts_for_tasks:
  assumes "(loop_step ctx)\<^sup>*\<^sup>* (loop_start w) s"
  shows "distinct (sy_arrived s) \<and>
    mset (sy_arrived s) = mset (map fst (ds_done (sy_state s))) + mset (in_flight s) + mset (sy_dropped s) \<and>
    list_all2 (\<lambda>(t, r) (t', b). t = t' \<and> signal_agrees r b) (ds_reports (sy_state s)) (ds_done (sy_state s)) \<and>
    (ds_any_failed (sy_state s) \<longleftrightarrow> (\<exists>t. (t, TaskFailed) \<in> set (ds_reports (sy_state s)))) \<and>
    (\<forall>(rt, tc) \<in> set (sy_running s). rt_task_id rt \<in> set (dc_tasks_to_run ctx) \<and> map_of (dc_invalid ctx) (rt_task_id rt) = None \<and>
       map_of (dc_commands ctx) (rt_task_id rt) = Some (rt_request rt))"
  using reachable_balanced[OF assms] by (auto simp: balanced_def state_ok_def runnable_def)

text \<open>C8: A failure stops the dispatch. Unless the run continues on failure, from a state with a failure on, a task that is received
  is never started: it is signalled as failed if it was selected and as done if not. Whatever is started later was in flight
  already, and no signal that was sent is taken back.\<close>

theorem failure_stops_dispatch:
  assumes "(loop_step ctx)\<^sup>*\<^sup>* s s'" "ds_any_failed (sy_state s)" "\<not> dc_continue_on_failure ctx"
  shows "ds_any_failed (sy_state s') \<and> set (in_flight s') \<subseteq> set (in_flight s) \<and>
    set (ds_done (sy_state s)) \<subseteq> set (ds_done (sy_state s')) \<and>
    (\<forall>t \<in> set (sy_arrived s') - set (sy_arrived s). (t, t \<notin> set (dc_tasks_to_run ctx)) \<in> set (ds_done (sy_state s')))"
  using failed_steps[OF assms] assms(2) by (auto simp: grows_def)

text \<open>C7: Nothing is reused without reason. If the decision is to skip, there is a local record of a successful run whose nonce, definition,
  dependencies, packages and environment are those of the task now and whose outputs and inputs are as recorded. If a candidate
  of the shared cache is to be restored, the local decision was to run, the declared outputs stay in the package, and the
  candidate's record is one of a successful run in the present state with the same inputs, by their hash.\<close>

theorem reuse_justified:
  assumes "prepare_cache_decision re ra fs now task_id w = Some (prepared, w')"
  shows "(pd_decision prepared = Skip \<longrightarrow>
      (\<exists>p c. cache_read (re_cache re) (rw_files w) (task_id_to_string task_id) = Some p \<and>
         task_current re fs (rw_output_hashes w) task_id = Some c \<and> unchanged_since p c)) \<and>
    (\<forall>hit. pd_shared_hit prepared = Some hit \<longrightarrow> pd_decision prepared = Run \<and>
      (\<exists>def c es. tg_task_definition (re_task_graph re) task_id = Some def \<and> outputs_lexically_in_package (td_outputs def) \<and>
         task_current re fs (rw_output_hashes w) task_id = Some c \<and> cacheable_prior (prepared_record (ph_restore hit)) c \<and>
         fr_resolve_inputs (cs_resolver c) (td_inputs def)
           (prior_inputs_of (cache_read (re_cache re) (rw_files w) (task_id_to_string task_id))) = Inr es \<and>
         combined_inputs_hash (re_blake3 re) (rr_inputs (prepared_record (ph_restore hit))) = combined_inputs_hash (re_blake3 re) es))"
proof (cases "tg_task_definition (re_task_graph re) task_id")
  case None
  then show ?thesis using assms by (auto simp: prepare_cache_decision_def run_without_context_def)
next
  case (Some def)
  show ?thesis
  proof (cases "\<exists>cs. cache_state_context re (rw_output_hashes w) task_id = Some (Inr cs)")
    case False
    then have "prepared = run_without_context"
      using assms Some by (auto simp: prepare_cache_decision_def build_cache_write_context_def Let_def bind_eq_Some_conv split: sum.splits)
    then show ?thesis by (simp add: run_without_context_def)
  next
    case True
    then obtain cs where cs: "cache_state_context re (rw_output_hashes w) task_id = Some (Inr cs)" by blast
    define nonce where "nonce = resolve_task_nonce (re_encode re) (re_env_cache_nonce re) (re_global_cache_nonce re) (re_workers re) def"
    define env where "env = (case map_of (re_task_envs re) task_id of Some env \<Rightarrow> env | None \<Rightarrow> [])"
    define c where "c = build_cache_current_state re fs def env nonce cs"
    define prior where "prior = cache_read (re_cache re) (rw_files w) (task_id_to_string task_id)"
    have c: "task_current re fs (rw_output_hashes w) task_id = Some c"
      by (simp add: task_current_def Some cs c_def env_def nonce_def)
    obtain hit files where pd: "pd_decision prepared = dr_action (decide prior c)" "pd_shared_hit prepared = hit"
      "hit = fst (maybe_prepare_shared_cache_hit re ra False (cpc_package_path (cst_package cs)) def c (decide prior c) prior (cst_dep_outputs cs) w)"
      using assms Some cs
      by (auto simp: prepare_cache_decision_def build_cache_write_context_def prepare_cache_decision_context_def Let_def
          c_def env_def nonce_def prior_def split: prod.splits if_splits)
    have "cs_declared_input_patterns c = td_inputs def" by (simp add: c_def build_cache_current_state_def)
    then show ?thesis using decide_skip[of prior c] prepared_hit[of re ra False "cpc_package_path (cst_package cs)" def c "decide prior c" prior
        "cst_dep_outputs cs" w] c Some
      unfolding pd prior_def[symmetric] by (auto split: prod.splits) (metis prod.collapse)+
  qed
qed


text \<open>Two tasks of the root: \<open>#gen\<close> is misconfigured in one context and has a record that still fits in the other.\<close>

abbreviation "gen_id \<equiv> task_id_new ROOT_PACKAGE_NAME ''gen''"
abbreviation "doc_id \<equiv> task_id_new ROOT_PACKAGE_NAME ''doc''"

definition example_kept_run :: TaskRunRecord where
  "example_kept_run = example_stored_run\<lparr>rr_task_spec_hash := replicate 32 (CHR ''z''), rr_env_hash := replicate 32 (CHR ''z''),
     rr_pkg_dep_hash := replicate 32 (CHR ''z'')\<rparr>"

definition example_gen_env :: "(string, string list) RunEnv" where
  "example_gen_env = example_run_env\<lparr>re_task_graph := \<lparr>tg_graph = \<lparr>dg_nodes = [\<lparr>tn_id = gen_id, tn_weight = 1\<rparr>], dg_edges = []\<rparr>,
       tg_indices_by_id = [(gen_id, 0)],
       tg_definitions_by_id = [(gen_id, (task_definition_new [] 1)\<lparr>td_command := Some ''make'', td_inputs := [''a.ts'']\<rparr>)],
       tg_inputs_from_worker_by_id = []\<rparr>,
     re_cache := \<lparr>ch_root = ''/c'', ch_codec = single_codec example_kept_run\<rparr>\<rparr>"

definition example_restore :: "(unit, unit, unit, unit) RestoreApi" where
  "example_restore =
     \<lparr>rst_prepare_restore = (\<lambda>_ _ s. (None, s)), rst_staged_commit = (\<lambda>_ s. (Inr [], s)), rst_staged_discard = (\<lambda>_ s. (Inr (), s)),
      rst_duration_trusted = (\<lambda>_. False), rst_refresh_entry = (\<lambda>_ _ s. s), rst_prepare_cache_files = (\<lambda>_ s. (None, s)),
      rst_relative_paths = (\<lambda>_. []), rst_is_staged_path = (\<lambda>_ _. False), rst_files_commit = (\<lambda>_ s. (Inr (), s)),
      rst_files_discard = (\<lambda>_ s. s)\<rparr>"

definition example_world :: "(string list, unit) RunWorld" where
  "example_world = \<lparr>rw_files = [((''/c/k#gen'', META_FILE_NAME), \<lparr>sf_bytes = ''r'', sf_modified = 1\<rparr>)], rw_output_hashes = [],
     rw_registry = [], rw_shared = None, rw_notices = []\<rparr>"

definition example_ctx :: "(string, string list, unit, unit, unit, unit) DispatchContext" where
  "example_ctx = \<lparr>dc_env = example_gen_env, dc_api = example_no_shared, dc_restore = example_restore, dc_tasks_to_run = [gen_id, doc_id],
     dc_commands = [], dc_invalid = [(gen_id, ''no worker'')], dc_continue_on_failure = False, dc_no_cache = False, dc_owns_worker_manager = True\<rparr>"

definition example_step :: StepEnv where
  "example_step = \<lparr>se_fs = example_fs_after (CHR ''x''), se_fs_late = example_fs_after (CHR ''x''), se_now = 0, se_ios = [],
     se_disk_now = 0, se_clear = True\<rparr>"

definition example_failed :: "(string list, unit, unit, unit, unit) System" where
  "example_failed = receive_task example_ctx example_step gen_id (loop_start example_world)"

definition example_second :: "(string list, unit, unit, unit, unit) System" where
  "example_second = receive_task example_ctx example_step doc_id example_failed"

lemma example_failed_steps: "(loop_step example_ctx)\<^sup>*\<^sup>* (loop_start example_world) example_failed"
  unfolding example_failed_def by (intro r_into_rtranclp loop_step.receive) (simp_all add: loop_start_def)

lemma example_failed_state:
  "ds_any_failed (sy_state example_failed)" "ds_done (sy_state example_failed) = [(gen_id, False)]" "sy_arrived example_failed = [gen_id]"
  "\<not> sy_stopped example_failed" "in_flight example_failed = []" "sy_dropped example_failed = []"
  by (simp_all add: example_failed_def receive_task_def loop_start_def dispatch_ready_task_async_def example_ctx_def Let_def
      should_skip_for_fast_stop_def fail_invalid_task_def trigger_fast_stop_on_first_failure_def on_world_def report_def done_send_def
      in_flight_def)

lemma example_second_steps: "(loop_step example_ctx)\<^sup>*\<^sup>* example_failed example_second"
  unfolding example_second_def by (intro r_into_rtranclp loop_step.receive) (simp_all add: example_failed_state)

lemma example_second_arrived: "sy_arrived example_second = [gen_id, doc_id]"
  using example_failed_state
  by (simp add: example_second_def receive_task_def dispatch_ready_task_async_def should_skip_for_fast_stop_def example_ctx_def Let_def)

theorem dispatch_accounts_for_tasks_witness:
  "mset (sy_arrived example_failed) = mset (map fst (ds_done (sy_state example_failed))) \<and> (\<exists>t. (t, TaskFailed) \<in> set (ds_reports (sy_state example_failed)))"
  using dispatch_accounts_for_tasks[OF example_failed_steps] example_failed_state by simp

theorem failure_stops_dispatch_witness:
  "(doc_id, False) \<in> set (ds_done (sy_state example_second)) \<and> set (in_flight example_second) = {}"
  using failure_stops_dispatch[OF example_second_steps example_failed_state(1)] example_second_arrived example_failed_state
  by (simp add: example_ctx_def)


definition example_cs :: CacheStateContext where
  "example_cs = \<lparr>cst_package = \<lparr>cpc_package = None, cpc_package_path = ''/r'', cpc_package_name = ROOT_PACKAGE_NAME\<rparr>,
     cst_dep_outputs = [], cst_pkg_dep_pairs = []\<rparr>"

lemma example_state_context: "cache_state_context example_gen_env [] gen_id = Some (Inr example_cs)"
proof -
  have "dependency_output_hashes example_gen_env [] gen_id = Some []" by code_simp
  moreover have "cache_package_context_for (re_packages example_gen_env) (re_workspace_root example_gen_env) gen_id = Some (cst_package example_cs)"
    by code_simp
  moreover have "cache_pkg_dep_pairs example_gen_env def (cst_package example_cs) = Some (Inr [])" for def
    by (simp add: cache_pkg_dep_pairs_def gather_pkg_dep_pairs_filtered_def example_gen_env_def example_run_env_def example_cs_def)
  moreover have "tg_task_definition (re_task_graph example_gen_env) gen_id \<noteq> None" by code_simp
  ultimately show ?thesis by (auto simp: cache_state_context_def) (auto simp: example_cs_def)
qed
lemma example_skip: "\<exists>prepared w'. prepare_cache_decision example_gen_env example_restore (example_fs_after (CHR ''x'')) 0 gen_id example_world =
    Some (prepared, w') \<and> pd_decision prepared = Skip"
proof -
  let ?def = "(task_definition_new [] 1)\<lparr>td_command := Some ''make'', td_inputs := [''a.ts'']\<rparr>"
  let ?current = "build_cache_current_state example_gen_env (example_fs_after (CHR ''x'')) ?def [] None example_cs"
  have "dr_action (decide (Some example_kept_run) ?current) = Skip" by code_simp
  moreover have "cache_read (re_cache example_gen_env) (rw_files example_world) (task_id_to_string gen_id) = Some example_kept_run" by code_simp
  moreover have def: "tg_task_definition (re_task_graph example_gen_env) gen_id = Some ?def"
    by (simp add: tg_task_definition_def example_gen_env_def)
  moreover have "resolve_task_nonce (re_encode example_gen_env) (re_env_cache_nonce example_gen_env) (re_global_cache_nonce example_gen_env)
      (re_workers example_gen_env) ?def = None" by code_simp
  moreover have "re_task_envs example_gen_env = []" "rw_output_hashes example_world = []"
    by (simp_all add: example_gen_env_def example_run_env_def example_world_def)
  ultimately show ?thesis using example_state_context
    by (auto simp: prepare_cache_decision_def build_cache_write_context_def prepare_cache_decision_context_def
        maybe_prepare_shared_cache_hit_def Let_def)
qed

theorem reuse_justified_witness:
  "\<exists>p c. cache_read (re_cache example_gen_env) (rw_files example_world) (task_id_to_string gen_id) = Some p \<and>
     task_current example_gen_env (example_fs_after (CHR ''x'')) (rw_output_hashes example_world) gen_id = Some c \<and> unchanged_since p c"
  using example_skip reuse_justified[of example_gen_env example_restore "example_fs_after (CHR ''x'')" 0 gen_id example_world] by blast

end
