(* ===== verification/SharedSnapshot.thy ===== *)
theory SharedSnapshot
  imports LocalStore "HOL-Library.Option_ord"
begin

text \<open>
  The index of the shared cache, \<open>crates/luchta-cache/src/shared/snapshot.rs\<close> and \<open>snapshot/cache_files.rs\<close>. A bucket is a directory of
  shards, each a file with an encoded snapshot and named by its content. A reader merges every shard it can decode; a writer merges its
  updates into what it read, writes one consolidated shard and removes the shards that it read. The file store and the outcomes of its
  operations are those of \<open>LocalStore\<close>; bincode, zstd and BLAKE3 are the fields of a \<open>SnapshotCodec\<close>, with the laws of the locale
  \<open>snapshot_codec\<close>.
\<close>

section \<open>Snapshots\<close>

definition SNAPSHOT_SCHEMA_VERSION :: u32 where
  "SNAPSHOT_SCHEMA_VERSION = 4"

definition SNAPSHOT_SCHEMA_VERSION_V2 :: u32 where
  "SNAPSHOT_SCHEMA_VERSION_V2 = 2"

definition SNAPSHOT_SCHEMA_VERSION_V3 :: u32 where
  "SNAPSHOT_SCHEMA_VERSION_V3 = 3"

definition ZSTD_FRAME_MAGIC :: string where
  "ZSTD_FRAME_MAGIC = [CHR 0x28, CHR 0xB5, CHR 0x2F, CHR 0xFD]"

definition SNAPSHOT_FILE_EXTENSION :: string where
  "SNAPSHOT_FILE_EXTENSION = ''bincode''"

definition SNAPSHOT_MERGED_EXTENSION :: string where
  "SNAPSHOT_MERGED_EXTENSION = ''merged''"

record EntryReport =
  er_filename :: string
  er_mime_type :: string
  er_content :: string

record EntryMeta =
  em_schema_version :: u32
  em_outputs_hash :: hash32
  em_has_outputs :: bool
  em_record :: string
  em_stdout :: string
  em_stderr :: string
  em_reports :: "EntryReport list"

record SnapshotEntry =
  se_task_id :: string
  se_input_key :: hash32
  se_outputs_hash :: hash32
  se_task_spec_hash :: hash32
  se_env_hash :: hash32
  se_pkg_dep_hash :: hash32
  se_duration_ms :: u64
  se_output_bytes :: u64
  se_cached_at_unix_ms :: u64
  se_tool_version :: "string option"
  se_inline_meta :: "EntryMeta option"
  se_duration_trusted :: bool

record CacheFileObservation =
  cfo_scope_hash :: hash32
  cfo_upstream_outputs_hash :: hash32
  cfo_state_blob_hash :: "hash32 option"
  cfo_state_bytes :: u64
  cfo_cached_at_unix_ms :: u64

record Snapshot =
  sp_schema_version :: u32
  sp_entries :: "(string \<times> SnapshotEntry) list"
  sp_cache_files :: "(string \<times> CacheFileObservation list) list"

record SnapshotEntryV2 =
  v2_task_id :: string
  v2_input_key :: hash32
  v2_outputs_hash :: hash32
  v2_task_spec_hash :: hash32
  v2_env_hash :: hash32
  v2_pkg_dep_hash :: hash32
  v2_duration_ms :: u64
  v2_output_bytes :: u64
  v2_cached_at_unix_ms :: u64
  v2_tool_version :: "string option"

record SnapshotV2 =
  v2_schema_version :: u32
  v2_entries :: "(string \<times> SnapshotEntryV2) list"

record SnapshotV3 =
  v3_schema_version :: u32
  v3_entries :: "(string \<times> SnapshotEntry) list"

definition snapshot_new :: Snapshot where
  "snapshot_new = \<lparr>sp_schema_version = SNAPSHOT_SCHEMA_VERSION, sp_entries = [], sp_cache_files = []\<rparr>"

text \<open>The maps are lists in key order, and stay so under \<open>btree_insert\<close>. Durations of version 2 include the time in a queue.\<close>

definition entry_from_v2 :: "SnapshotEntryV2 \<Rightarrow> SnapshotEntry" where
  "entry_from_v2 e =
     \<lparr>se_task_id = v2_task_id e, se_input_key = v2_input_key e, se_outputs_hash = v2_outputs_hash e,
      se_task_spec_hash = v2_task_spec_hash e, se_env_hash = v2_env_hash e, se_pkg_dep_hash = v2_pkg_dep_hash e,
      se_duration_ms = v2_duration_ms e, se_output_bytes = v2_output_bytes e, se_cached_at_unix_ms = v2_cached_at_unix_ms e,
      se_tool_version = v2_tool_version e, se_inline_meta = None, se_duration_trusted = False\<rparr>"

definition snapshot_from_v2 :: "SnapshotV2 \<Rightarrow> Snapshot" where
  "snapshot_from_v2 s =
     \<lparr>sp_schema_version = SNAPSHOT_SCHEMA_VERSION, sp_entries = map (\<lambda>(k, e). (k, entry_from_v2 e)) (v2_entries s), sp_cache_files = []\<rparr>"

definition snapshot_from_v3 :: "SnapshotV3 \<Rightarrow> Snapshot" where
  "snapshot_from_v3 s = \<lparr>sp_schema_version = SNAPSHOT_SCHEMA_VERSION, sp_entries = v3_entries s, sp_cache_files = []\<rparr>"

fun btree_insert :: "string \<Rightarrow> 'v \<Rightarrow> (string \<times> 'v) list \<Rightarrow> (string \<times> 'v) list" where
  "btree_insert k v [] = [(k, v)]"
| "btree_insert k v ((k', v') # m) =
     (if k < k' then (k, v) # (k', v') # m else if k = k' then (k, v) # m else (k', v') # btree_insert k v m)"

section \<open>Decoding\<close>

record SnapshotCodec =
  sn_hex :: "hash32 \<Rightarrow> string"
  sn_blake3 :: "string \<Rightarrow> hash32"
  sn_encode :: "Snapshot \<Rightarrow> string option"
  sn_zstd_encode :: "string \<Rightarrow> string + string"
  sn_zstd_decode :: "string \<Rightarrow> string + string"
  sn_decode_version :: "string \<Rightarrow> string + u32"
  sn_decode_v2 :: "string \<Rightarrow> string + SnapshotV2"
  sn_decode_v3 :: "string \<Rightarrow> string + SnapshotV3"
  sn_decode_current :: "string \<Rightarrow> string + Snapshot"

abbreviation input_key_hex :: "SnapshotCodec \<Rightarrow> hash32 \<Rightarrow> string" where
  "input_key_hex codec \<equiv> sn_hex codec"

definition decompress_snapshot_bytes :: "SnapshotCodec \<Rightarrow> string \<Rightarrow> string + string" where
  "decompress_snapshot_bytes codec bytes =
     (if strip_prefix ZSTD_FRAME_MAGIC bytes \<noteq> None then sn_zstd_decode codec bytes else Inr bytes)"

definition decode_snapshot :: "SnapshotCodec \<Rightarrow> string \<Rightarrow> string + Snapshot" where
  "decode_snapshot codec bytes =
     bind_result (decompress_snapshot_bytes codec bytes) (\<lambda>raw.
     bind_result (sn_decode_version codec raw) (\<lambda>schema_version.
     if schema_version = SNAPSHOT_SCHEMA_VERSION_V2 then bind_result (sn_decode_v2 codec raw) (\<lambda>s. Inr (snapshot_from_v2 s))
     else if schema_version = SNAPSHOT_SCHEMA_VERSION then sn_decode_current codec raw
     else if schema_version = SNAPSHOT_SCHEMA_VERSION_V3 then bind_result (sn_decode_v3 codec raw) (\<lambda>s. Inr (snapshot_from_v3 s))
     else Inl ''unsupported snapshot schema version''))"

section \<open>Merging\<close>

text \<open>The entry afterwards and whether it changed.\<close>

definition enrich_same_output_entry :: "SnapshotEntry \<Rightarrow> SnapshotEntry \<Rightarrow> SnapshotEntry \<times> bool" where
  "enrich_same_output_entry existing incoming =
     (if \<not> se_duration_trusted existing \<and> se_duration_trusted incoming
      then (if se_inline_meta incoming = None then incoming\<lparr>se_inline_meta := se_inline_meta existing\<rparr> else incoming, True)
      else if se_inline_meta existing = None \<and> se_inline_meta incoming \<noteq> None
      then (existing\<lparr>se_inline_meta := se_inline_meta incoming\<rparr>, True)
      else (existing, False))"

text \<open>
  The order \<open>observation_newest_first\<close> is the descending order of \<open>observation_rank\<close>. The observations of a scope have different ranks
  (\<open>observations_ok\<close> below), so it does not matter that the sort is unstable.
\<close>

definition MAX_OBSERVATIONS_PER_SCOPE :: nat where
  "MAX_OBSERVATIONS_PER_SCOPE = 8"

definition observation_rank :: "CacheFileObservation \<Rightarrow> u64 \<times> hash32 \<times> bool \<times> hash32 option" where
  "observation_rank o1 = (cfo_cached_at_unix_ms o1, cfo_upstream_outputs_hash o1, cfo_state_blob_hash o1 = None, cfo_state_blob_hash o1)"

definition observation_newest_first :: "CacheFileObservation \<Rightarrow> CacheFileObservation \<Rightarrow> bool" where
  "observation_newest_first left right \<longleftrightarrow> observation_rank right < observation_rank left"

definition sort_newest_first :: "CacheFileObservation list \<Rightarrow> CacheFileObservation list" where
  "sort_newest_first candidates = rev (sort_key observation_rank candidates)"

definition same_state :: "CacheFileObservation \<Rightarrow> CacheFileObservation \<Rightarrow> bool" where
  "same_state existing observation \<longleftrightarrow>
     cfo_upstream_outputs_hash existing = cfo_upstream_outputs_hash observation \<and>
     cfo_state_blob_hash existing = cfo_state_blob_hash observation"

text \<open>The first candidate with the state of the observation is replaced when it is older; a new state is appended.\<close>

fun replace_or_push :: "CacheFileObservation \<Rightarrow> CacheFileObservation list \<Rightarrow> CacheFileObservation list \<times> bool" where
  "replace_or_push observation [] = ([observation], True)"
| "replace_or_push observation (existing # rest) =
     (if same_state existing observation
      then if cfo_cached_at_unix_ms existing < cfo_cached_at_unix_ms observation then (observation # rest, True)
           else (existing # rest, False)
      else (let (rest', changed) = replace_or_push observation rest in (existing # rest', changed)))"

definition merge_observation :: "CacheFileObservation \<Rightarrow> CacheFileObservation list \<Rightarrow> CacheFileObservation list \<times> bool" where
  "merge_observation observation candidates =
     (let (updated, changed) = replace_or_push observation candidates; candidates' = sort_newest_first updated
      in if MAX_OBSERVATIONS_PER_SCOPE < length candidates' then (take MAX_OBSERVATIONS_PER_SCOPE candidates', True)
         else (candidates', changed))"

fun merge_cache_file_observations ::
  "SnapshotCodec \<Rightarrow> CacheFileObservation list \<Rightarrow> Snapshot \<times> bool \<Rightarrow> Snapshot \<times> bool" where
  "merge_cache_file_observations codec [] acc = acc"
| "merge_cache_file_observations codec (observation # observations) (snapshot, changed) =
     (let key = input_key_hex codec (cfo_scope_hash observation);
          candidates = (case map_of (sp_cache_files snapshot) key of Some cs \<Rightarrow> cs | None \<Rightarrow> []);
          (candidates', changed') = merge_observation observation candidates
      in merge_cache_file_observations codec observations
           (snapshot\<lparr>sp_cache_files := btree_insert key candidates' (sp_cache_files snapshot)\<rparr>, changed \<or> changed'))"

fun merge_shard_entry :: "string \<times> SnapshotEntry \<Rightarrow> (string \<times> SnapshotEntry) list \<Rightarrow> (string \<times> SnapshotEntry) list" where
  "merge_shard_entry (entry_key, entry) entries =
     (case map_of entries entry_key of
        None \<Rightarrow> btree_insert entry_key entry entries
      | Some existing \<Rightarrow>
          if se_outputs_hash existing = se_outputs_hash entry
          then btree_insert entry_key (fst (enrich_same_output_entry existing entry)) entries else entries)"

definition merge_shard_entries :: "SnapshotCodec \<Rightarrow> Snapshot \<Rightarrow> Snapshot \<Rightarrow> Snapshot" where
  "merge_shard_entries codec shard merged =
     fst (merge_cache_file_observations codec (concat (map snd (sp_cache_files shard)))
       (merged\<lparr>sp_entries := fold merge_shard_entry (sp_entries shard) (sp_entries merged)\<rparr>, False))"

record MergeChanges =
  mc_changed :: bool
  mc_saw_conflict :: bool

fun merge_update_entries ::
  "SnapshotCodec \<Rightarrow> SnapshotEntry list \<Rightarrow> Snapshot \<times> MergeChanges \<Rightarrow> Snapshot \<times> MergeChanges" where
  "merge_update_entries codec [] acc = acc"
| "merge_update_entries codec (entry # entries) (snapshot, result) =
     (let entry_key = input_key_hex codec (se_input_key entry)
      in case map_of (sp_entries snapshot) entry_key of
           Some existing \<Rightarrow>
             if se_outputs_hash existing = se_outputs_hash entry
             then let (existing', changed) = enrich_same_output_entry existing entry
                  in merge_update_entries codec entries
                       (snapshot\<lparr>sp_entries := btree_insert entry_key existing' (sp_entries snapshot)\<rparr>,
                        result\<lparr>mc_changed := mc_changed result \<or> changed\<rparr>)
             else merge_update_entries codec entries (snapshot, result\<lparr>mc_saw_conflict := True\<rparr>)
         | None \<Rightarrow>
             merge_update_entries codec entries
               (snapshot\<lparr>sp_entries := btree_insert entry_key entry (sp_entries snapshot)\<rparr>, result\<lparr>mc_changed := True\<rparr>))"

definition merge_snapshot_updates ::
  "SnapshotCodec \<Rightarrow> SnapshotEntry list \<Rightarrow> CacheFileObservation list \<Rightarrow> Snapshot \<Rightarrow> Snapshot \<times> MergeChanges" where
  "merge_snapshot_updates codec entries cache_file_observations snapshot =
     (let (snapshot1, result) = merge_update_entries codec entries (snapshot, \<lparr>mc_changed = False, mc_saw_conflict = False\<rparr>);
          (snapshot2, changed) = merge_cache_file_observations codec cache_file_observations (snapshot1, False)
      in (snapshot2, result\<lparr>mc_changed := mc_changed result \<or> changed\<rparr>))"

text \<open>
  \<open>max_by\<close> keeps the last of several greatest elements. A state whose upstream outputs are the current ones outranks every other.
\<close>

definition selection_rank :: "hash32 \<Rightarrow> CacheFileObservation \<Rightarrow> bool \<times> u64 \<times> hash32 \<times> bool \<times> hash32 option" where
  "selection_rank current o1 = (cfo_upstream_outputs_hash o1 = current, observation_rank o1)"

definition select_cache_file_observation :: "CacheFileObservation list \<Rightarrow> hash32 \<Rightarrow> CacheFileObservation option" where
  "select_cache_file_observation candidates current =
     fold (\<lambda>o1 best. case best of None \<Rightarrow> Some o1
             | Some b \<Rightarrow> if selection_rank current o1 < selection_rank current b then Some b else Some o1)
       candidates None"

section \<open>The shards of a bucket\<close>

record SharedCachePaths =
  pa_root :: string
  pa_blobs_dir :: string
  pa_cache_files_dir :: string
  pa_snapshots_dir :: string
  pa_entries_dir :: string

text \<open>What the file system answers: which directory and files can be read, whether the directory of the bucket is there or can be
  made, the outcome of the write and which files can be removed. A crash during the removals leaves what a run leaves that fails to
  remove the rest, and a crash before the rename what a failed write leaves.\<close>

record SnapshotIo =
  io_create_dir :: bool
  io_read_dir :: bool
  io_readable :: "string \<times> string \<Rightarrow> bool"
  io_write :: IoOutcome
  io_now :: nat
  io_removable :: "string \<times> string \<Rightarrow> bool"

datatype SnapshotShardSource = LegacyFile "string \<times> string" | ShardFile "string \<times> string"

record SnapshotShard =
  sh_id :: string
  sh_source :: SnapshotShardSource

definition shard_dir_path :: "SharedCachePaths \<Rightarrow> string \<Rightarrow> string" where
  "shard_dir_path paths shard_key = join_path (pa_snapshots_dir paths) shard_key"

definition snapshot_path :: "SharedCachePaths \<Rightarrow> string \<Rightarrow> string \<times> string" where
  "snapshot_path paths shard_key = (pa_snapshots_dir paths, shard_key @ ''.'' @ SNAPSHOT_FILE_EXTENSION)"

fun shard_path :: "SnapshotShard \<Rightarrow> string \<times> string" where
  "shard_path shard = (case sh_source shard of LegacyFile path \<Rightarrow> path | ShardFile path \<Rightarrow> path)"

fun deletable_shard_id :: "SnapshotShard \<Rightarrow> string option" where
  "deletable_shard_id shard = (case sh_source shard of LegacyFile _ \<Rightarrow> None | ShardFile _ \<Rightarrow> Some (sh_id shard))"

text \<open>A name that starts with its only dot has no extension.\<close>

definition shard_stem :: "string \<Rightarrow> string option" where
  "shard_stem name =
     (let suffix = ''.'' @ SNAPSHOT_FILE_EXTENSION
      in if ends_with suffix name \<and> length suffix < length name then Some (take (length name - length suffix) name) else None)"

definition list_snapshot_shards :: "SharedCachePaths \<Rightarrow> SnapshotIo \<Rightarrow> string \<Rightarrow> Files \<Rightarrow> SnapshotShard list" where
  "list_snapshot_shards paths io shard_key files =
     (let legacy_path = snapshot_path paths shard_key;
          legacy = (if map_of files legacy_path \<noteq> None
                    then [\<lparr>sh_id = ''legacy-'' @ shard_key, sh_source = LegacyFile legacy_path\<rparr>] else []);
          names = (if io_read_dir io then filter (\<lambda>(path, _). fst path = shard_dir_path paths shard_key) files else []);
          shards = List.map_filter (\<lambda>(path, _). map_option (\<lambda>stem. \<lparr>sh_id = stem, sh_source = ShardFile path\<rparr>)
                     (shard_stem (snd path))) names
      in sort_key sh_id (legacy @ shards))"

record MergedShards =
  ms_snapshot :: "Snapshot option"
  ms_merged_shard_ids :: "string set"

definition read_shard :: "SnapshotCodec \<Rightarrow> SnapshotIo \<Rightarrow> Files \<Rightarrow> SnapshotShard \<Rightarrow> Snapshot option" where
  "read_shard codec io files shard =
     (case map_of files (shard_path shard) of
        None \<Rightarrow> None
      | Some file \<Rightarrow>
          if \<not> io_readable io (shard_path shard) then None
          else (case decode_snapshot codec (sf_bytes file) of Inl _ \<Rightarrow> None | Inr snapshot \<Rightarrow> Some snapshot))"

fun load_loop ::
  "SnapshotCodec \<Rightarrow> SnapshotIo \<Rightarrow> Files \<Rightarrow> SnapshotShard list \<Rightarrow> Snapshot \<times> bool \<times> string set \<Rightarrow> Snapshot \<times> bool \<times> string set" where
  "load_loop codec io files [] acc = acc"
| "load_loop codec io files (shard # shards) (merged, saw_any, ids) =
     (case read_shard codec io files shard of
        None \<Rightarrow> load_loop codec io files shards (merged, saw_any, ids)
      | Some snapshot \<Rightarrow>
          load_loop codec io files shards (merge_shard_entries codec snapshot merged, True, insert (sh_id shard) ids))"

definition load_merged_snapshot_from_shards ::
  "SnapshotCodec \<Rightarrow> SnapshotIo \<Rightarrow> Files \<Rightarrow> SnapshotShard list \<Rightarrow> MergedShards" where
  "load_merged_snapshot_from_shards codec io files shards =
     (let (merged, saw_any, ids) = load_loop codec io files shards (snapshot_new, False, {})
      in \<lparr>ms_snapshot = (if saw_any then Some merged else None), ms_merged_shard_ids = ids\<rparr>)"

definition load_snapshot :: "SnapshotCodec \<Rightarrow> SharedCachePaths \<Rightarrow> SnapshotIo \<Rightarrow> string \<Rightarrow> Files \<Rightarrow> Snapshot option" where
  "load_snapshot codec paths io shard_key files =
     (let shards = list_snapshot_shards paths io shard_key files
      in if shards = [] then None else ms_snapshot (load_merged_snapshot_from_shards codec io files shards))"

definition lookup_snapshot ::
  "SnapshotCodec \<Rightarrow> SharedCachePaths \<Rightarrow> SnapshotIo \<Rightarrow> string \<Rightarrow> hash32 \<Rightarrow> Files \<Rightarrow> SnapshotEntry option" where
  "lookup_snapshot codec paths io shard_key input_key files =
     Option.bind (load_snapshot codec paths io shard_key files) (\<lambda>snapshot.
       map_of (sp_entries snapshot) (input_key_hex codec input_key))"

section \<open>Writing a bucket\<close>

datatype MergeResult = Inserted | IdempotentNoop | ConflictKeptExisting | SkippedLockUnavailable

record SnapshotUpload =
  su_shard_id :: string
  su_shard_bytes :: string

record MergeEntryOutcome =
  mo_result :: MergeResult
  mo_new_snapshot_upload :: "SnapshotUpload option"
  mo_subsumed_shard_ids :: "string list"

definition outcome_from_result :: "MergeResult \<Rightarrow> MergeEntryOutcome" where
  "outcome_from_result result = \<lparr>mo_result = result, mo_new_snapshot_upload = None, mo_subsumed_shard_ids = []\<rparr>"

record ConsolidatedShardWrite =
  cw_shard_id :: string
  cw_shard_on_disk :: string

definition remove_file_if_exists :: "SnapshotIo \<Rightarrow> string \<times> string \<Rightarrow> Files \<Rightarrow> Files" where
  "remove_file_if_exists io path files = (if io_removable io path then AList.delete path files else files)"

definition delete_shard_files_by_id :: "SharedCachePaths \<Rightarrow> SnapshotIo \<Rightarrow> string \<Rightarrow> string \<Rightarrow> Files \<Rightarrow> Files" where
  "delete_shard_files_by_id paths io shard_key shard_id files =
     fold (remove_file_if_exists io)
       [(shard_dir_path paths shard_key, shard_id @ ''.'' @ SNAPSHOT_FILE_EXTENSION),
        (shard_dir_path paths shard_key, shard_id @ ''.'' @ SNAPSHOT_MERGED_EXTENSION)] files"

definition finalize_sidecar_and_subsumed ::
  "SharedCachePaths \<Rightarrow> SnapshotIo \<Rightarrow> string \<Rightarrow> ConsolidatedShardWrite \<Rightarrow> SnapshotShard list \<Rightarrow> string set \<Rightarrow> Files \<Rightarrow>
   MergeEntryOutcome \<times> Files" where
  "finalize_sidecar_and_subsumed paths io shard_key consolidated_write visible_shards merged_shard_ids files =
     (let subsumed = List.map_filter deletable_shard_id (filter (\<lambda>shard. sh_id shard \<in> merged_shard_ids) visible_shards)
      in (\<lparr>mo_result = Inserted,
           mo_new_snapshot_upload =
             Some \<lparr>su_shard_id = cw_shard_id consolidated_write, su_shard_bytes = cw_shard_on_disk consolidated_write\<rparr>,
           mo_subsumed_shard_ids = subsumed\<rparr>,
          fold (delete_shard_files_by_id paths io shard_key) subsumed files))"

text \<open>\<open>None\<close> is the panic of a snapshot that cannot be serialized.\<close>

definition write_consolidated_shard ::
  "SnapshotCodec \<Rightarrow> SharedCachePaths \<Rightarrow> SnapshotIo \<Rightarrow> string \<Rightarrow> Snapshot \<Rightarrow> SnapshotShard list \<Rightarrow> string set \<Rightarrow> Files \<Rightarrow>
   (MergeEntryOutcome \<times> Files) option" where
  "write_consolidated_shard codec paths io shard_key consolidated visible_shards merged_shard_ids files =
     Option.bind (sn_encode codec consolidated) (\<lambda>encoded.
       let shard_id = sn_hex codec (sn_blake3 codec encoded);
           path = (shard_dir_path paths shard_key, shard_id @ ''.'' @ SNAPSHOT_FILE_EXTENSION)
       in if map_of files path \<noteq> None then Some (outcome_from_result IdempotentNoop, files)
          else (case sn_zstd_encode codec encoded of
                  Inl _ \<Rightarrow> Some (outcome_from_result SkippedLockUnavailable, files)
                | Inr on_disk \<Rightarrow>
                    (case atomic_write (io_write io) (io_now io) path on_disk files of
                       (Inl _, files') \<Rightarrow> Some (outcome_from_result SkippedLockUnavailable, files')
                     | (Inr _, files') \<Rightarrow>
                         Some (finalize_sidecar_and_subsumed paths io shard_key
                           \<lparr>cw_shard_id = shard_id, cw_shard_on_disk = on_disk\<rparr> visible_shards merged_shard_ids files'))))"

definition merge_updates_with_outcome ::
  "SnapshotCodec \<Rightarrow> SharedCachePaths \<Rightarrow> SnapshotIo \<Rightarrow> string \<Rightarrow> SnapshotEntry list \<Rightarrow> CacheFileObservation list \<Rightarrow> Files \<Rightarrow>
   (MergeEntryOutcome \<times> Files) option" where
  "merge_updates_with_outcome codec paths io shard_key entries cache_file_observations files =
     (if entries = [] \<and> cache_file_observations = [] then Some (outcome_from_result IdempotentNoop, files)
      else if \<not> io_create_dir io then Some (outcome_from_result SkippedLockUnavailable, files)
      else
        let visible_shards = list_snapshot_shards paths io shard_key files;
            loaded = load_merged_snapshot_from_shards codec io files visible_shards;
            start = (case ms_snapshot loaded of Some s \<Rightarrow> s | None \<Rightarrow> snapshot_new);
            (consolidated, changes) = merge_snapshot_updates codec entries cache_file_observations start
        in if \<not> mc_changed changes
           then Some (outcome_from_result (if mc_saw_conflict changes then ConflictKeptExisting else IdempotentNoop), files)
           else write_consolidated_shard codec paths io shard_key consolidated visible_shards (ms_merged_shard_ids loaded) files)"

section \<open>The newest states of a scope\<close>

text \<open>
  A set of pairs of a time and a state, reduced to the latest time of each state (\<open>newest_of\<close>) and to its greatest \<open>n\<close> elements
  (\<open>top_of\<close>). What a scope keeps of the set \<open>R\<close> of everything it has seen is \<open>top_of n (newest_of R)\<close>, and what it keeps is all it
  needs: the merge of two scopes is determined by what they kept.
\<close>

definition newest_of :: "('a::linorder \<times> 'b::linorder) set \<Rightarrow> ('a \<times> 'b) set" where
  "newest_of R = {r \<in> R. \<forall>r' \<in> R. snd r' = snd r \<longrightarrow> fst r' \<le> fst r}"

definition top_of :: "nat \<Rightarrow> 'a::linorder set \<Rightarrow> 'a set" where
  "top_of n A = {x \<in> A. card {y \<in> A. x < y} < n}"

abbreviation kept :: "nat \<Rightarrow> ('a::linorder \<times> 'b::linorder) set \<Rightarrow> ('a \<times> 'b) set" where
  "kept n R \<equiv> top_of n (newest_of R)"

lemma top_of_subset: "top_of n A \<subseteq> A"
  by (auto simp: top_of_def)

lemma newest_of_subset: "newest_of R \<subseteq> R"
  by (auto simp: newest_of_def)

lemma finite_newest_of [simp]: "finite R \<Longrightarrow> finite (newest_of R)"
  by (rule finite_subset[OF newest_of_subset])

lemma finite_top_of [simp]: "finite A \<Longrightarrow> finite (top_of n A)"
  by (rule finite_subset[OF top_of_subset])

lemma top_of_0 [simp]: "top_of 0 A = {}"
  by (simp add: top_of_def)

lemma top_of_insert_max:
  assumes "finite A" "\<forall>a \<in> A. a < b"
  shows "top_of (Suc n) (insert b A) = insert b (top_of n A)"
proof -
  have b: "{y \<in> insert b A. b < y} = {}" using assms(2) by (auto dest: less_asym)
  have x: "card {y \<in> insert b A. x < y} = Suc (card {y \<in> A. x < y})" if "x \<in> A" for x
  proof -
    have "{y \<in> insert b A. x < y} = insert b {y \<in> A. x < y}" using that assms(2) by auto
    moreover have "b \<notin> {y \<in> A. x < y}" using assms(2) by auto
    ultimately show ?thesis using assms(1) by simp
  qed
  have "z \<in> top_of (Suc n) (insert b A) \<longleftrightarrow> z \<in> insert b (top_of n A)" for z
    using b x[of z] assms(2) by (cases "z = b") (simp_all only: top_of_def mem_Collect_eq insert_iff, auto)
  then show ?thesis by blast
qed

lemma many_above:
  assumes "finite A" "n \<le> card {y \<in> A. x < y}"
  shows "n \<le> card {y \<in> top_of n A. x < y}"
  using assms
proof (induction A arbitrary: n rule: finite_linorder_max_induct)
  case (insert b A)
  show ?case
  proof (cases n)
    case (Suc m)
    have nonempty: "{y \<in> insert b A. x < y} \<noteq> {}" using insert.prems Suc by (metis card.empty not_less_eq_eq le0)
    then have "x < b" using insert.hyps(2) by (auto intro: less_trans)
    then have "{y \<in> insert b A. x < y} = insert b {y \<in> A. x < y}" by auto
    moreover have "b \<notin> {y \<in> A. x < y}" using insert.hyps(2) by auto
    ultimately have "m \<le> card {y \<in> A. x < y}" using insert.prems insert.hyps(1) Suc by simp
    then have "m \<le> card {y \<in> top_of m A. x < y}" by (rule insert.IH)
    moreover have "{y \<in> insert b (top_of m A). x < y} = insert b {y \<in> top_of m A. x < y}" using \<open>x < b\<close> by auto
    moreover have "b \<notin> {y \<in> top_of m A. x < y}" using insert.hyps(2) top_of_subset by fastforce
    ultimately show ?thesis
      using insert.hyps(1) Suc by (simp add: top_of_insert_max[OF insert.hyps(1,2)])
  qed simp
qed simp

lemma top_of_between:
  assumes "finite A" "S \<subseteq> A" "top_of n A \<subseteq> S"
  shows "top_of n S = top_of n A"
proof
  show "top_of n A \<subseteq> top_of n S"
  proof
    fix x assume x: "x \<in> top_of n A"
    have "card {y \<in> S. x < y} \<le> card {y \<in> A. x < y}" using assms(1,2) by (intro card_mono) auto
    then show "x \<in> top_of n S" using x assms(3) by (auto simp: top_of_def)
  qed
  show "top_of n S \<subseteq> top_of n A"
  proof
    fix x assume x: "x \<in> top_of n S"
    have "card {y \<in> top_of n A. x < y} \<le> card {y \<in> S. x < y}"
      using assms finite_subset[OF assms(2,1)] by (intro card_mono) auto
    then have "\<not> n \<le> card {y \<in> A. x < y}" using x many_above[OF assms(1), of n x] by (auto simp: top_of_def)
    then show "x \<in> top_of n A" using x assms(2) by (auto simp: top_of_def)
  qed
qed

lemma top_of_idem: "finite A \<Longrightarrow> top_of n (top_of n A) = top_of n A"
  by (intro top_of_between) (auto simp: top_of_def)

lemma newest_of_max:
  assumes "finite R" "r \<in> R"
  shows "\<exists>r' \<in> newest_of R. snd r' = snd r \<and> fst r \<le> fst r'"
proof -
  let ?T = "fst ` {r' \<in> R. snd r' = snd r}"
  have fin: "finite ?T" "?T \<noteq> {}" using assms(1) assms(2) by (simp, blast)
  then have "Max ?T \<in> ?T" by (rule Max_in)
  then obtain r' where r': "r' \<in> R" "snd r' = snd r" "fst r' = Max ?T" by auto
  have "fst q \<le> fst r'" if "q \<in> R" "snd q = snd r" for q
    unfolding r'(3) using fin(1) that by (intro Max_ge) auto
  then show ?thesis using r' assms(2) by (intro bexI[of _ r']) (auto simp: newest_of_def)
qed

lemma newest_of_insert: "finite R \<Longrightarrow> newest_of (insert r (newest_of R)) = newest_of (insert r R)"
proof -
  assume fin: "finite R"
  have "newest_of (insert r (newest_of R)) \<subseteq> newest_of (insert r R)"
    using newest_of_max[OF fin] by (fastforce simp: newest_of_def)
  moreover have "newest_of (insert r R) \<subseteq> newest_of (insert r (newest_of R))"
    by (auto simp: newest_of_def)
  ultimately show ?thesis by blast
qed

lemma newest_of_unique: "a \<in> newest_of R \<Longrightarrow> b \<in> newest_of R \<Longrightarrow> snd a = snd b \<Longrightarrow> a = b"
  by (auto simp: newest_of_def prod_eq_iff intro: antisym)

text \<open>Keeping the newest states and then one more sees the same as keeping all of them and then one more.\<close>

definition one_per_state :: "('a \<times> 'b) set \<Rightarrow> bool" where
  "one_per_state A \<longleftrightarrow> (\<forall>a \<in> A. \<forall>b \<in> A. snd a = snd b \<longrightarrow> a = b)"

lemma one_per_stateD: "one_per_state A \<Longrightarrow> a \<in> A \<Longrightarrow> b \<in> A \<Longrightarrow> snd a = snd b \<Longrightarrow> a = b"
  by (simp only: one_per_state_def)

lemma one_per_state_newest: "one_per_state (newest_of R)"
  unfolding one_per_state_def using newest_of_unique by blast

lemma one_per_state_subset: "one_per_state A \<Longrightarrow> B \<subseteq> A \<Longrightarrow> one_per_state B"
  unfolding one_per_state_def by blast

lemma in_newest_of: "a \<in> newest_of R \<longleftrightarrow> a \<in> R \<and> (\<forall>b \<in> R. snd b = snd a \<longrightarrow> fst b \<le> fst a)"
  by (simp only: newest_of_def mem_Collect_eq)

lemma newest_of_insert_fresh:
  assumes "one_per_state A" "\<forall>a \<in> A. snd a \<noteq> snd r"
  shows "newest_of (insert r A) = insert r A"
proof -
  have "a \<in> newest_of (insert r A)" if "a \<in> insert r A" for a
    unfolding in_newest_of
  proof (intro conjI ballI impI)
    fix b assume b: "b \<in> insert r A" "snd b = snd a"
    then have "b = a" using that assms one_per_stateD[OF assms(1), of b a] by (elim insertE) auto
    then show "fst b \<le> fst a" by simp
  qed (rule that)
  then show ?thesis using newest_of_subset by blast
qed

lemma newest_of_insert_older:
  assumes "one_per_state A" "r0 \<in> A" "snd r0 = snd r" "fst r \<le> fst r0"
  shows "newest_of (insert r A) = A"
proof
  show "newest_of (insert r A) \<subseteq> A"
  proof
    fix a assume a: "a \<in> newest_of (insert r A)"
    show "a \<in> A"
    proof (cases "a = r")
      case True
      then have "fst r0 \<le> fst r" using a assms(2,3) unfolding in_newest_of by blast
      then have "r = r0" using assms(3,4) by (simp add: prod_eq_iff)
      then show ?thesis using True assms(2) by simp
    qed (use a in \<open>simp add: in_newest_of\<close>)
  qed
  show "A \<subseteq> newest_of (insert r A)"
  proof
    fix a assume a: "a \<in> A"
    show "a \<in> newest_of (insert r A)"
      unfolding in_newest_of
    proof (intro conjI ballI impI)
      fix b assume b: "b \<in> insert r A" "snd b = snd a"
      show "fst b \<le> fst a"
      proof (cases "b \<in> A")
        case True
        then show ?thesis using one_per_stateD[OF assms(1) True a b(2)] by simp
      next
        case False
        then have "b = r" using b(1) by simp
        then have "r0 = a" using one_per_stateD[OF assms(1,2) a] b(2) assms(3) by simp
        then show ?thesis using \<open>b = r\<close> assms(4) by simp
      qed
    qed (use a in simp)
  qed
qed

lemma newest_of_insert_newer:
  assumes "one_per_state A" "r0 \<in> A" "snd r0 = snd r" "fst r0 < fst r"
  shows "newest_of (insert r A) = insert r (A - {r0})"
proof
  have only: "a = r0" if "a \<in> A" "snd a = snd r" for a
    using one_per_stateD[OF assms(1) that(1) assms(2)] that(2) assms(3) by simp
  show "newest_of (insert r A) \<subseteq> insert r (A - {r0})"
  proof
    fix a assume a: "a \<in> newest_of (insert r A)"
    have "fst r \<le> fst a" if "snd r = snd a" using a that unfolding in_newest_of by blast
    then have "a \<noteq> r0" using assms(3,4) by auto
    then show "a \<in> insert r (A - {r0})" using a unfolding in_newest_of by blast
  qed
  show "insert r (A - {r0}) \<subseteq> newest_of (insert r A)"
  proof
    fix a assume a: "a \<in> insert r (A - {r0})"
    show "a \<in> newest_of (insert r A)"
      unfolding in_newest_of
    proof (intro conjI ballI impI)
      fix b assume b: "b \<in> insert r A" "snd b = snd a"
      show "fst b \<le> fst a"
      proof (cases "a = r")
        case True
        then show ?thesis using b only[of b] assms(4) by (cases "b = r") auto
      next
        case False
        then have a': "a \<in> A" "a \<noteq> r0" using a by auto
        then have "b \<noteq> r" using only[of a] b(2) by auto
        then show ?thesis using one_per_stateD[OF assms(1) _ a'(1) b(2)] b(1) by simp
      qed
    qed (use a in blast)
  qed
qed

lemma kept_insert_top:
  assumes fin: "finite A" and unique: "one_per_state A"
  shows "kept n (insert r (top_of n A)) = kept n (insert r A)"
proof -
  let ?T = "top_of n A"
  have T: "one_per_state ?T" by (rule one_per_state_subset[OF unique top_of_subset])
  have same: "a = b" if "a \<in> A" "b \<in> A" "snd a = snd b" for a b by (rule one_per_stateD[OF unique that])
  consider "\<forall>a \<in> A. snd a \<noteq> snd r"
    | r0 where "r0 \<in> A" "snd r0 = snd r" "fst r \<le> fst r0"
    | r0 where "r0 \<in> A" "snd r0 = snd r" "fst r0 < fst r" by (meson not_le)
  then show ?thesis
  proof cases
    case 1
    have "top_of n (insert r ?T) = top_of n (insert r A)"
    proof (rule top_of_between)
      show "top_of n (insert r A) \<subseteq> insert r ?T"
      proof
        fix x assume x: "x \<in> top_of n (insert r A)"
        have "card {y \<in> A. x < y} \<le> card {y \<in> insert r A. x < y}" using fin by (intro card_mono) auto
        then show "x \<in> insert r ?T" using x by (auto simp: top_of_def)
      qed
    qed (use fin top_of_subset in auto)
    moreover have "\<forall>a \<in> ?T. snd a \<noteq> snd r" using 1 top_of_subset by blast
    ultimately show ?thesis by (simp only: newest_of_insert_fresh[OF unique 1] newest_of_insert_fresh[OF T])
  next
    case (2 r0)
    have le: "r \<le> r0" using 2(2,3) by (cases r; cases r0) auto
    show ?thesis
    proof (cases "r0 \<in> ?T")
      case True
      show ?thesis
        unfolding newest_of_insert_older[OF unique 2] newest_of_insert_older[OF T True 2(2,3)] by (rule top_of_idem[OF fin])
    next
      case False
      have none: "\<forall>a \<in> ?T. snd a \<noteq> snd r" using False same[OF _ 2(1)] 2(2) top_of_subset by (metis subsetD)
      have "n \<le> card {y \<in> ?T. r0 < y}" using many_above[OF fin, of n r0] False 2(1) by (auto simp: top_of_def)
      also have "\<dots> \<le> card {y \<in> insert r ?T. r < y}" using fin le by (intro card_mono) (auto intro: le_less_trans)
      finally have "r \<notin> top_of n (insert r ?T)" by (auto simp: top_of_def)
      then have "top_of n ?T = top_of n (insert r ?T)"
        using fin by (intro top_of_between) (auto dest: subsetD[OF top_of_subset])
      then show ?thesis
        unfolding newest_of_insert_older[OF unique 2] newest_of_insert_fresh[OF T none] using top_of_idem[OF fin] by simp
    qed
  next
    case (3 r0)
    have less: "r0 < r" using 3(2,3) by (cases r; cases r0) auto
    have new: "r \<notin> A" using same[OF _ 3(1), of r] 3(2,3) by force
    have T': "newest_of (insert r ?T) = insert r (?T - {r0})"
    proof (cases "r0 \<in> ?T")
      case False
      then have "\<forall>a \<in> ?T. snd a \<noteq> snd r" using same[OF _ 3(1)] 3(2) top_of_subset by (metis subsetD)
      then show ?thesis using newest_of_insert_fresh[OF T] False by auto
    qed (rule newest_of_insert_newer[OF T _ 3(2,3)])
    have "top_of n (insert r (?T - {r0})) = top_of n (insert r (A - {r0}))"
    proof (rule top_of_between)
      show "top_of n (insert r (A - {r0})) \<subseteq> insert r (?T - {r0})"
      proof
        fix x assume x: "x \<in> top_of n (insert r (A - {r0}))"
        have "card {y \<in> A. x < y} \<le> card {y \<in> insert r (A - {r0}). x < y}"
        proof (cases "x < r0")
          case True
          then have "{y \<in> A. x < y} = insert r0 {y \<in> A - {r0}. x < y}"
            "{y \<in> insert r (A - {r0}). x < y} = insert r {y \<in> A - {r0}. x < y}" using 3(1) less by auto
          then show ?thesis using fin new by simp
        next
          case False
          then show ?thesis using fin by (intro card_mono) auto
        qed
        then show "x \<in> insert r (?T - {r0})" using x by (auto simp: top_of_def)
      qed
    qed (use fin top_of_subset in auto)
    then show ?thesis unfolding T' newest_of_insert_newer[OF unique 3] .
  qed
qed

lemma kept_insert: "finite R \<Longrightarrow> kept n (insert r (kept n R)) = kept n (insert r R)"
  using kept_insert_top[of "newest_of R" n r] newest_of_insert[of R r] one_per_state_newest[of R] by simp

lemma kept_insert_cong:
  "finite R \<Longrightarrow> finite R' \<Longrightarrow> kept n R = kept n R' \<Longrightarrow> kept n (insert r R) = kept n (insert r R')"
  using kept_insert[of R n r] kept_insert[of R' n r] by simp

lemma kept_union_cong:
  assumes "finite Q" "finite R" "finite R'" "kept n R = kept n R'"
  shows "kept n (Q \<union> R) = kept n (Q \<union> R')"
  using assms(1)
proof (induction Q)
  case (insert q Q)
  show ?case unfolding Un_insert_left by (rule kept_insert_cong) (use insert assms in auto)
qed (use assms in simp)

lemma kept_idem:
  assumes "finite R" shows "kept n (kept n R) = kept n R"
proof -
  have "newest_of (kept n R) = kept n R"
    using newest_of_unique[of _ R] top_of_subset[of n "newest_of R"] unfolding newest_of_def[of "kept n R"] by blast
  then show ?thesis using top_of_idem[of "newest_of R" n] assms by simp
qed

lemma kept_kept_union: "finite Q \<Longrightarrow> finite R \<Longrightarrow> kept n (Q \<union> kept n R) = kept n (Q \<union> R)"
  by (rule kept_union_cong) (simp_all add: kept_idem)

lemma take_top_of: "sorted_wrt (\<lambda>x y. y < x) xs \<Longrightarrow> set (take n xs) = top_of n (set xs)"
proof (induction xs arbitrary: n)
  case (Cons x xs)
  then show ?case by (cases n) (auto simp: top_of_insert_max)
qed (simp add: top_of_def)

section \<open>The observations of a scope\<close>

lemma same_state_iff: "same_state e o1 \<longleftrightarrow> snd (observation_rank e) = snd (observation_rank o1)"
  by (auto simp: same_state_def observation_rank_def)

lemma older_iff: "cfo_cached_at_unix_ms e < cfo_cached_at_unix_ms o1 \<longleftrightarrow> fst (observation_rank e) < fst (observation_rank o1)"
  by (simp add: observation_rank_def)

lemma replace_or_push_new: "\<forall>e \<in> set c. \<not> same_state e o1 \<Longrightarrow> replace_or_push o1 c = (c @ [o1], True)"
  by (induction c) auto

lemma replace_or_push_known:
  "\<forall>e \<in> set xs. \<not> same_state e o1 \<Longrightarrow> same_state e o1 \<Longrightarrow>
   replace_or_push o1 (xs @ e # ys) =
     (if cfo_cached_at_unix_ms e < cfo_cached_at_unix_ms o1 then (xs @ o1 # ys, True) else (xs @ e # ys, False))"
  by (induction xs) auto

text \<open>\<open>scope_keeps R c\<close>: \<open>c\<close> is, newest first, what a scope keeps of the observations with the ranks \<open>R\<close>.\<close>

definition scope_keeps :: "(u64 \<times> hash32 \<times> bool \<times> hash32 option) set \<Rightarrow> CacheFileObservation list \<Rightarrow> bool" where
  "scope_keeps R c \<longleftrightarrow> sorted_wrt (\<lambda>x y. y < x) (map observation_rank c) \<and>
     observation_rank ` set c = kept MAX_OBSERVATIONS_PER_SCOPE R"

lemma sorted_distinct: "sorted_wrt (\<lambda>x y. y < (x :: 'a :: linorder)) xs \<Longrightarrow> distinct xs"
  by (induction xs) auto

lemma sort_newest_first_ranks: "map observation_rank (sort_newest_first c) = rev (sort (map observation_rank c))"
proof -
  have "map observation_rank (sort_key observation_rank c) = sort (map observation_rank c)"
  proof (induction c)
    case (Cons x c)
    have "map observation_rank (insort_key observation_rank x xs) = insort (observation_rank x) (map observation_rank xs)" for xs
      by (induction xs) auto
    then show ?case using Cons by simp
  qed simp
  then show ?thesis by (simp add: sort_newest_first_def flip: rev_map)
qed

lemma sorted_newest_first:
  assumes "distinct (map observation_rank c)"
  shows "sorted_wrt (\<lambda>x y. y < x) (map observation_rank (sort_newest_first c))"
proof -
  have "sorted_wrt (<) (sort (map observation_rank c))" using assms by (simp add: strict_sorted_iff)
  then show ?thesis unfolding sort_newest_first_ranks sorted_wrt_rev .
qed

lemma replace_or_push_ranks:
  assumes c: "distinct (map observation_rank c)" "one_per_state (observation_rank ` set c)"
  shows "distinct (map observation_rank (fst (replace_or_push o1 c)))"
    and "observation_rank ` set (fst (replace_or_push o1 c)) = newest_of (insert (observation_rank o1) (observation_rank ` set c))"
proof -
  let ?r = observation_rank and ?o = "replace_or_push o1 c"
  let ?C = "?r ` set c"
  have both: "distinct (map ?r (fst ?o)) \<and> ?r ` set (fst ?o) = newest_of (insert (?r o1) ?C)"
  proof (cases "\<exists>e \<in> set c. same_state e o1")
    case False
    then have "newest_of (insert (?r o1) ?C) = insert (?r o1) ?C"
      by (intro newest_of_insert_fresh[OF c(2)]) (auto simp: same_state_iff)
    moreover have "?r o1 \<notin> ?C" using False by (auto simp: same_state_iff)
    ultimately show ?thesis using False c(1) by (simp add: replace_or_push_new)
  next
    case True
    then obtain xs e ys where split: "c = xs @ e # ys" "same_state e o1" "\<forall>x \<in> set xs. \<not> same_state x o1"
      using split_list_first_propE[of c "\<lambda>e. same_state e o1"] by metis
    have e: "?r e \<in> ?C" "snd (?r e) = snd (?r o1)" using split by (auto simp: same_state_iff)
    note step = replace_or_push_known[OF split(3,2), of ys]
    show ?thesis
    proof (cases "cfo_cached_at_unix_ms e < cfo_cached_at_unix_ms o1")
      case True
      have "newest_of (insert (?r o1) ?C) = insert (?r o1) (?C - {?r e})"
        by (rule newest_of_insert_newer[OF c(2) e]) (use True older_iff in blast)
      moreover have "?C - {?r e} = ?r ` set (xs @ ys)" using c(1) unfolding split(1) by auto
      moreover have "?r o1 \<notin> ?C"
      proof
        assume "?r o1 \<in> ?C"
        then have "?r o1 = ?r e" using one_per_stateD[OF c(2) _ e(1)] e(2) by simp
        then show False using True by (simp add: older_iff)
      qed
      ultimately show ?thesis using step True c(1) unfolding split(1) by auto
    next
      case False
      have "newest_of (insert (?r o1) ?C) = ?C"
        by (rule newest_of_insert_older[OF c(2) e]) (use False older_iff in force)
      then show ?thesis using step False c(1) unfolding split(1) by auto
    qed
  qed
  then show "distinct (map ?r (fst ?o))" "?r ` set (fst ?o) = newest_of (insert (?r o1) ?C)" by simp_all
qed

lemma merge_observation_fst:
  "fst (merge_observation o1 c) = take MAX_OBSERVATIONS_PER_SCOPE (sort_newest_first (fst (replace_or_push o1 c)))"
  by (auto simp: merge_observation_def Let_def split: prod.splits)

lemma scope_keeps_step:
  assumes c: "scope_keeps R c" and R: "finite R"
  shows "scope_keeps (insert (observation_rank o1) R) (fst (merge_observation o1 c))"
proof -
  let ?K = "kept MAX_OBSERVATIONS_PER_SCOPE R" and ?c = "sort_newest_first (fst (replace_or_push o1 c))"
  have one: "one_per_state ?K" by (rule one_per_state_subset[OF one_per_state_newest top_of_subset])
  have K: "observation_rank ` set c = ?K" "distinct (map observation_rank c)"
    using c sorted_distinct unfolding scope_keeps_def by blast+
  note ranks = replace_or_push_ranks[OF K(2), unfolded K(1), OF one, of o1]
  have sorted: "sorted_wrt (\<lambda>x y. y < x) (map observation_rank ?c)" by (rule sorted_newest_first[OF ranks(1)])
  have "observation_rank ` set ?c = newest_of (insert (observation_rank o1) ?K)"
    using ranks(2) by (simp add: sort_newest_first_def)
  then have "set (take MAX_OBSERVATIONS_PER_SCOPE (map observation_rank ?c)) = kept MAX_OBSERVATIONS_PER_SCOPE (insert (observation_rank o1) ?K)"
    using take_top_of[OF sorted] by simp
  also have "\<dots> = kept MAX_OBSERVATIONS_PER_SCOPE (insert (observation_rank o1) R)" by (rule kept_insert[OF R])
  finally show ?thesis
    using sorted unfolding scope_keeps_def merge_observation_fst by (simp add: take_map sorted_wrt_take flip: take_map set_map)
qed

section \<open>Ordered maps\<close>

abbreviation btree_sorted :: "(string \<times> 'v) list \<Rightarrow> bool" where
  "btree_sorted m \<equiv> sorted_wrt (<) (map fst m)"

lemma map_of_btree_insert [hmap_simps]: "map_of (btree_insert k v m) = (map_of m)(k \<mapsto> v)"
  by (induction m) auto

lemma keys_btree_insert [simp]: "fst ` set (btree_insert k v m) = insert k (fst ` set m)"
  by (simp add: hmap_simps flip: dom_map_of_conv_image_fst)

lemma btree_sorted_insert [simp]: "btree_sorted m \<Longrightarrow> btree_sorted (btree_insert k v m)"
proof (induction m)
  case (Cons p m)
  have head: "fst p < x" if "x \<in> fst ` set m" for x using Cons.prems that by auto
  have tail: "btree_sorted m" "btree_sorted (btree_insert k v m)" using Cons by auto
  show ?case
  proof (cases "fst p < k")
    case True
    have "fst p < x" if "x \<in> fst ` set (btree_insert k v m)" for x
      using that head True unfolding keys_btree_insert by blast
    moreover have "btree_insert k v (p # m) = p # btree_insert k v m" using True by (cases p) auto
    ultimately show ?thesis using tail by auto
  next
    case False
    then have "k < fst p \<or> k = fst p" by auto
    then show ?thesis using head tail Cons.prems by (cases p) (auto intro: less_trans)
  qed
qed simp

lemma btree_insert_same: "btree_sorted m \<Longrightarrow> map_of m k = Some v \<Longrightarrow> btree_insert k v m = m"
proof (induction m)
  case (Cons p m)
  show ?case
  proof (cases "k = fst p")
    case False
    then have known: "map_of m k = Some v" using Cons.prems(2) by (cases p) auto
    then have "fst p < k" using Cons.prems(1) map_of_SomeD[OF known] by force
    then show ?thesis using Cons False known by (cases p) auto
  qed (use Cons.prems in \<open>cases p; auto\<close>)
qed simp

lemma btree_canonical:
  assumes "btree_sorted m"
  shows "m = map (\<lambda>k. (k, the (map_of m k))) (sorted_list_of_set (dom (map_of m)))"
proof -
  have d: "distinct (map fst m)" "sorted (map fst m)" using assms by (simp_all add: strict_sorted_iff)
  have "sorted_list_of_set (dom (map_of m)) = map fst m"
    unfolding dom_map_of_conv_image_fst using sorted_list_of_set.idem_if_sorted_distinct[OF d(2,1)] by simp
  moreover have "map (\<lambda>k. (k, the (map_of m k))) (map fst m) = m"
    unfolding map_map by (rule map_idI) (use d(1) in auto)
  ultimately show ?thesis by simp
qed

lemma btree_sorted_eqI: "btree_sorted m \<Longrightarrow> btree_sorted m' \<Longrightarrow> map_of m = map_of m' \<Longrightarrow> m = m'"
  using btree_canonical[of m] btree_canonical[of m'] by simp

section \<open>Replicas of the index converge\<close>

definition candidates_of :: "Snapshot \<Rightarrow> string \<Rightarrow> CacheFileObservation list" where
  "candidates_of s key = (case map_of (sp_cache_files s) key of Some cs \<Rightarrow> cs | None \<Rightarrow> [])"

text \<open>The ranks of the observations of the scope \<open>key\<close> among \<open>observations\<close>.\<close>

definition ranks_at :: "SnapshotCodec \<Rightarrow> string \<Rightarrow> CacheFileObservation list \<Rightarrow> (u64 \<times> hash32 \<times> bool \<times> hash32 option) set" where
  "ranks_at codec key observations =
     observation_rank ` {o1 \<in> set observations. input_key_hex codec (cfo_scope_hash o1) = key}"

lemma finite_ranks_at [simp]: "finite (ranks_at codec key observations)"
  by (simp add: ranks_at_def)

lemma ranks_at_append: "ranks_at codec key (xs @ ys) = ranks_at codec key xs \<union> ranks_at codec key ys"
  by (auto simp: ranks_at_def)

lemma merge_observations_Cons:
  "merge_cache_file_observations codec (o1 # os) (s, ch) =
     (let key = input_key_hex codec (cfo_scope_hash o1); m = merge_observation o1 (candidates_of s key)
      in merge_cache_file_observations codec os (s\<lparr>sp_cache_files := btree_insert key (fst m) (sp_cache_files s)\<rparr>, ch \<or> snd m))"
  by (simp add: candidates_of_def Let_def case_prod_beta)

lemma merge_observations_frame:
  "sp_entries (fst (merge_cache_file_observations codec os (s, ch))) = sp_entries s"
  "sp_schema_version (fst (merge_cache_file_observations codec os (s, ch))) = sp_schema_version s"
  by (induction os arbitrary: s ch) (simp_all add: merge_observations_Cons Let_def del: merge_cache_file_observations.simps(2))

text \<open>Observations of a scope that are merged one after another: the scope keeps the newest of all of them.\<close>

lemma scope_keeps_merge:
  assumes "scope_keeps R (candidates_of s key)" "finite R"
  shows "scope_keeps (ranks_at codec key os \<union> R) (candidates_of (fst (merge_cache_file_observations codec os (s, ch))) key)"
  using assms
proof (induction os arbitrary: s ch R)
  case Nil
  then show ?case by (simp add: ranks_at_def)
next
  case (Cons o1 os)
  let ?key = "input_key_hex codec (cfo_scope_hash o1)"
  let ?s = "s\<lparr>sp_cache_files := btree_insert ?key (fst (merge_observation o1 (candidates_of s ?key))) (sp_cache_files s)\<rparr>"
  have cs: "candidates_of ?s key = (if key = ?key then fst (merge_observation o1 (candidates_of s key)) else candidates_of s key)"
    by (simp add: candidates_of_def hmap_simps)
  have "scope_keeps (ranks_at codec key os \<union> (if key = ?key then insert (observation_rank o1) R else R))
      (candidates_of (fst (merge_cache_file_observations codec os (?s, ch \<or> snd (merge_observation o1 (candidates_of s ?key))))) key)"
    by (rule Cons.IH) (use cs scope_keeps_step[OF Cons.prems] Cons.prems in auto)
  moreover have "ranks_at codec key (o1 # os) \<union> R = ranks_at codec key os \<union> (if key = ?key then insert (observation_rank o1) R else R)"
    by (auto simp: ranks_at_def)
  ultimately show ?case by (simp add: merge_observations_Cons Let_def del: merge_cache_file_observations.simps(2))
qed

lemma scope_keeps_unique:
  assumes "scope_keeps R c" "finite R"
  shows "map observation_rank c = rev (sorted_list_of_set (kept MAX_OBSERVATIONS_PER_SCOPE R))"
proof -
  have "sorted_wrt (<) (rev (map observation_rank c))" using assms(1) by (simp add: scope_keeps_def sorted_wrt_rev)
  then have "sorted_list_of_set (set (rev (map observation_rank c))) = rev (map observation_rank c)"
    by (intro sorted_list_of_set.idem_if_sorted_distinct) (simp_all add: strict_sorted_iff)
  then show ?thesis using assms(1) by (simp add: scope_keeps_def)
qed

lemma scope_keeps_cong:
  "scope_keeps R c \<Longrightarrow> kept MAX_OBSERVATIONS_PER_SCOPE R = kept MAX_OBSERVATIONS_PER_SCOPE R' \<Longrightarrow> scope_keeps R' c"
  by (simp add: scope_keeps_def)

text \<open>
  A snapshot is consistent when its maps are ordered and every scope holds observations of its own, as merging leaves them.
\<close>

definition scope_ok :: "SnapshotCodec \<Rightarrow> string \<Rightarrow> CacheFileObservation list \<Rightarrow> bool" where
  "scope_ok codec key c \<longleftrightarrow> (\<forall>o1 \<in> set c. input_key_hex codec (cfo_scope_hash o1) = key) \<and>
     scope_keeps (observation_rank ` set c) c"

definition snapshot_ok :: "SnapshotCodec \<Rightarrow> Snapshot \<Rightarrow> bool" where
  "snapshot_ok codec s \<longleftrightarrow>
     sp_schema_version s = SNAPSHOT_SCHEMA_VERSION \<and> btree_sorted (sp_entries s) \<and> btree_sorted (sp_cache_files s) \<and>
     (\<forall>key c. map_of (sp_cache_files s) key = Some c \<longrightarrow> c \<noteq> [] \<and> scope_ok codec key c)"

lemma snapshot_ok_new [simp]: "snapshot_ok codec snapshot_new"
  by (simp add: snapshot_ok_def snapshot_new_def)

lemma scope_keeps_Nil: "scope_keeps {} []"
  by (simp add: scope_keeps_def newest_of_def top_of_def)

lemma scope_keeps_self: "scope_keeps R c \<Longrightarrow> finite R \<Longrightarrow> scope_keeps (observation_rank ` set c) c"
  by (simp add: scope_keeps_def kept_idem)

lemma snapshot_ok_candidates: "snapshot_ok codec s \<Longrightarrow> scope_ok codec key (candidates_of s key)"
  using scope_keeps_Nil by (simp add: snapshot_ok_def candidates_of_def scope_ok_def split: option.splits)

lemma set_replace_or_push: "set (fst (replace_or_push o1 c)) \<subseteq> insert o1 (set c)"
  by (induction c) (auto simp: Let_def split: prod.splits if_splits)

lemma set_merge_observation: "set (fst (merge_observation o1 c)) \<subseteq> insert o1 (set c)"
proof -
  have "set (fst (merge_observation o1 c)) \<subseteq> set (sort_newest_first (fst (replace_or_push o1 c)))"
    unfolding merge_observation_fst by (rule set_take_subset)
  also have "\<dots> = set (fst (replace_or_push o1 c))" by (simp add: sort_newest_first_def)
  finally show ?thesis using set_replace_or_push by blast
qed

lemma merge_observation_nonempty: "fst (merge_observation o1 c) \<noteq> []"
proof -
  have "length (fst (replace_or_push o1 c)) > 0" by (cases c) (auto simp: Let_def split: prod.splits)
  then have "length (sort_newest_first (fst (replace_or_push o1 c))) > 0" by (simp add: sort_newest_first_def)
  then show ?thesis unfolding merge_observation_fst by (auto simp: MAX_OBSERVATIONS_PER_SCOPE_def)
qed

lemma scope_ok_merge:
  assumes "scope_ok codec key c" "input_key_hex codec (cfo_scope_hash o1) = key"
  shows "scope_ok codec key (fst (merge_observation o1 c))"
proof -
  have "scope_keeps (insert (observation_rank o1) (observation_rank ` set c)) (fst (merge_observation o1 c))"
    by (rule scope_keeps_step) (use assms in \<open>simp_all add: scope_ok_def\<close>)
  then have "scope_keeps (observation_rank ` set (fst (merge_observation o1 c))) (fst (merge_observation o1 c))"
    by (rule scope_keeps_self) simp
  then show ?thesis using assms set_merge_observation[of o1 c] unfolding scope_ok_def by blast
qed

lemma snapshot_ok_observations:
  "snapshot_ok codec s \<Longrightarrow> snapshot_ok codec (fst (merge_cache_file_observations codec os (s, ch)))"
proof (induction os arbitrary: s ch)
  case (Cons o1 os)
  let ?key = "input_key_hex codec (cfo_scope_hash o1)"
  let ?m = "merge_observation o1 (candidates_of s ?key)"
  have "scope_ok codec ?key (fst ?m)" by (rule scope_ok_merge[OF snapshot_ok_candidates[OF Cons.prems] refl])
  then have "snapshot_ok codec (s\<lparr>sp_cache_files := btree_insert ?key (fst ?m) (sp_cache_files s)\<rparr>)"
    using Cons.prems merge_observation_nonempty[of o1 "candidates_of s ?key"] by (simp add: snapshot_ok_def hmap_simps)
  then show ?case
    using Cons.IH by (simp add: merge_observations_Cons Let_def del: merge_cache_file_observations.simps(2))
qed simp

lemma observations_at_shard:
  assumes "snapshot_ok codec s"
  shows "{o1 \<in> set (concat (map snd (sp_cache_files s))). input_key_hex codec (cfo_scope_hash o1) = key} = set (candidates_of s key)"
proof -
  have d: "distinct (map fst (sp_cache_files s))" using assms by (simp add: snapshot_ok_def strict_sorted_iff)
  have "o1 \<in> set (candidates_of s key)" if "(k, c) \<in> set (sp_cache_files s)" "o1 \<in> set c" "input_key_hex codec (cfo_scope_hash o1) = key" for k c o1
  proof -
    have known: "map_of (sp_cache_files s) k = Some c" using that(1) d by simp
    then have "scope_ok codec k c" using assms by (simp add: snapshot_ok_def)
    then have "k = key" using that(2,3) by (simp add: scope_ok_def)
    then show ?thesis using known that(2) by (simp add: candidates_of_def)
  qed
  then have "o1 \<in> set (candidates_of s key)"
    if "o1 \<in> set (concat (map snd (sp_cache_files s)))" "input_key_hex codec (cfo_scope_hash o1) = key" for o1
    using that by auto
  moreover have "o1 \<in> set (concat (map snd (sp_cache_files s)))" if o1: "o1 \<in> set (candidates_of s key)" for o1
  proof -
    obtain c where c: "map_of (sp_cache_files s) key = Some c" "o1 \<in> set c"
      using o1 by (cases "map_of (sp_cache_files s) key") (simp_all add: candidates_of_def)
    have "c \<in> set (map snd (sp_cache_files s))" using map_of_SomeD[OF c(1)] by (metis in_set_conv_nth length_map nth_map snd_conv)
    then show ?thesis using c(2) by (simp only: set_concat Union_iff) blast
  qed
  moreover have "\<forall>o1 \<in> set (candidates_of s key). input_key_hex codec (cfo_scope_hash o1) = key"
    using snapshot_ok_candidates[OF assms] unfolding scope_ok_def by blast
  ultimately show ?thesis by blast
qed

lemma ranks_at_shard:
  "snapshot_ok codec s \<Longrightarrow> ranks_at codec key (concat (map snd (sp_cache_files s))) = observation_rank ` set (candidates_of s key)"
  by (simp only: ranks_at_def observations_at_shard)

lemma merge_shard_candidates:
  "candidates_of (merge_shard_entries codec shard merged) key =
   candidates_of (fst (merge_cache_file_observations codec (concat (map snd (sp_cache_files shard)))
     (merged\<lparr>sp_entries := fold merge_shard_entry (sp_entries shard) (sp_entries merged)\<rparr>, False))) key"
  by (simp add: merge_shard_entries_def)

lemma scope_keeps_shard:
  assumes "snapshot_ok codec shard" "scope_keeps Q (candidates_of shard key)" "finite Q"
    and "scope_keeps R (candidates_of merged key)" "finite R"
  shows "scope_keeps (Q \<union> R) (candidates_of (merge_shard_entries codec shard merged) key)"
proof -
  have shard: "ranks_at codec key (concat (map snd (sp_cache_files shard))) = kept MAX_OBSERVATIONS_PER_SCOPE Q"
    using ranks_at_shard[OF assms(1)] assms(2) by (simp add: scope_keeps_def)
  have "scope_keeps R (candidates_of (merged\<lparr>sp_entries := fold merge_shard_entry (sp_entries shard) (sp_entries merged)\<rparr>) key)"
    using assms(4) by (simp add: candidates_of_def)
  from scope_keeps_merge[OF this assms(5)]
  have "scope_keeps (kept MAX_OBSERVATIONS_PER_SCOPE Q \<union> R) (candidates_of (merge_shard_entries codec shard merged) key)"
    unfolding merge_shard_candidates shard[symmetric] .
  then show ?thesis
    by (rule scope_keeps_cong) (use kept_kept_union[OF assms(5,3)] in \<open>simp add: Un_commute\<close>)
qed

text \<open>C16: However the observations of a scope are spread over writers, in whatever order each writer merges its own and in whatever order
  a reader merges the writers' shards, the scope ends with the same history: of every state the latest time it was seen, and of those
  the eight newest, newest first. What a writer drops when its list is full is never missed later.
\<close>

theorem observation_replicas_converge:
  "let shards = map (\<lambda>batch. fst (merge_cache_file_observations codec batch (snapshot_new, False))) batches;
       merged = fold (merge_shard_entries codec) shards snapshot_new
   in map observation_rank (candidates_of merged key) =
      rev (sorted_list_of_set (top_of 8 (newest_of (ranks_at codec key (concat batches)))))"
proof -
  let ?shard = "\<lambda>batch. fst (merge_cache_file_observations codec batch (snapshot_new, False))"
  have start: "scope_keeps {} (candidates_of snapshot_new key)"
    using scope_keeps_Nil by (simp add: candidates_of_def snapshot_new_def)
  have "scope_keeps (ranks_at codec key (concat batches) \<union> R) (candidates_of (fold (merge_shard_entries codec) (map ?shard batches) s) key)"
    if "scope_keeps R (candidates_of s key)" "finite R" for R s
    using that
  proof (induction batches arbitrary: R s)
    case (Cons batch batches)
    have "scope_keeps (ranks_at codec key batch) (candidates_of (?shard batch) key)"
      using scope_keeps_merge[OF start, where os = batch and ch = False] by simp
    from scope_keeps_shard[OF snapshot_ok_observations[OF snapshot_ok_new] this _ Cons.prems]
    have "scope_keeps (ranks_at codec key batch \<union> R) (candidates_of (merge_shard_entries codec (?shard batch) s) key)" by simp
    from Cons.IH[OF this] show ?case using Cons.prems(2) by (simp add: ranks_at_append ac_simps)
  qed (simp add: ranks_at_def)
  from this[OF start] scope_keeps_unique show ?thesis
    by (simp add: Let_def MAX_OBSERVATIONS_PER_SCOPE_def)
qed

section \<open>The first writer of an entry wins\<close>

text \<open>What later writers may do to an entry: add its metadata, or a duration that was measured.\<close>

definition entry_grows :: "SnapshotEntry \<Rightarrow> SnapshotEntry \<Rightarrow> bool" where
  "entry_grows e e' \<longleftrightarrow> se_outputs_hash e' = se_outputs_hash e \<and>
     (se_duration_trusted e \<longrightarrow> e' = e\<lparr>se_inline_meta := se_inline_meta e'\<rparr>) \<and>
     (se_inline_meta e \<noteq> None \<longrightarrow> se_inline_meta e' \<noteq> None \<and> (se_duration_trusted e \<longrightarrow> se_inline_meta e' = se_inline_meta e))"

definition entries_grow :: "(string \<times> SnapshotEntry) list \<Rightarrow> (string \<times> SnapshotEntry) list \<Rightarrow> bool" where
  "entries_grow m m' \<longleftrightarrow> (\<forall>k e. map_of m k = Some e \<longrightarrow> (\<exists>e'. map_of m' k = Some e' \<and> entry_grows e e'))"

lemma entry_grows_refl [simp]: "entry_grows e e"
  by (simp add: entry_grows_def)

lemma entry_grows_trans: "entry_grows a b \<Longrightarrow> entry_grows b c \<Longrightarrow> entry_grows a c"
  unfolding entry_grows_def
  by (cases a; cases b; cases c) auto

lemma entry_grows_enrich:
  "se_outputs_hash existing = se_outputs_hash incoming \<Longrightarrow> entry_grows existing (fst (enrich_same_output_entry existing incoming))"
  by (cases existing; cases incoming) (auto simp: entry_grows_def enrich_same_output_entry_def)

lemma enrich_unchanged: "\<not> snd (enrich_same_output_entry existing incoming) \<Longrightarrow> fst (enrich_same_output_entry existing incoming) = existing"
  by (auto simp: enrich_same_output_entry_def split: if_splits)

lemma enrich_outputs:
  "se_outputs_hash existing = se_outputs_hash incoming \<Longrightarrow>
   se_outputs_hash (fst (enrich_same_output_entry existing incoming)) = se_outputs_hash incoming"
  by (auto simp: enrich_same_output_entry_def)

lemma entries_grow_refl [simp]: "entries_grow m m"
  by (simp add: entries_grow_def)

lemma entries_grow_trans: "entries_grow a b \<Longrightarrow> entries_grow b c \<Longrightarrow> entries_grow a c"
  unfolding entries_grow_def by (meson entry_grows_trans)

lemma entries_grow_insert:
  "(\<And>e. map_of m k = Some e \<Longrightarrow> entry_grows e e') \<Longrightarrow> entries_grow m (btree_insert k e' m)"
  by (simp add: entries_grow_def hmap_simps)

lemma entries_grow_dom: "entries_grow m m' \<Longrightarrow> dom (map_of m) \<subseteq> dom (map_of m')"
  unfolding entries_grow_def by fastforce

lemma merge_shard_entry_facts:
  shows "entries_grow m (merge_shard_entry p m)"
    and "dom (map_of (merge_shard_entry p m)) = insert (fst p) (dom (map_of m))"
    and "btree_sorted m \<Longrightarrow> btree_sorted (merge_shard_entry p m)"
  by (cases p; auto simp: hmap_simps entry_grows_enrich intro!: entries_grow_insert split: option.splits)+

lemma merge_shard_fold:
  shows "entries_grow m (fold merge_shard_entry ps m)"
    and "dom (map_of (fold merge_shard_entry ps m)) = fst ` set ps \<union> dom (map_of m)"
    and "btree_sorted m \<Longrightarrow> btree_sorted (fold merge_shard_entry ps m)"
  by (induction ps arbitrary: m)
     (auto simp del: merge_shard_entry.simps simp: merge_shard_entry_facts intro: entries_grow_trans[OF merge_shard_entry_facts(1)])

lemma merge_shard_entries_facts:
  shows "sp_entries (merge_shard_entries codec shard merged) = fold merge_shard_entry (sp_entries shard) (sp_entries merged)"
    and "snapshot_ok codec merged \<Longrightarrow> snapshot_ok codec (merge_shard_entries codec shard merged)"
  unfolding merge_shard_entries_def
  by (simp add: merge_observations_frame)
     (rule snapshot_ok_observations, simp add: snapshot_ok_def merge_shard_fold)

text \<open>One update: the entries and the flags afterwards.\<close>

definition update_entry ::
  "SnapshotCodec \<Rightarrow> SnapshotEntry \<Rightarrow> (string \<times> SnapshotEntry) list \<Rightarrow> (string \<times> SnapshotEntry) list \<times> bool \<times> bool" where
  "update_entry codec entry m =
     (let key = input_key_hex codec (se_input_key entry)
      in case map_of m key of
           None \<Rightarrow> (btree_insert key entry m, True, False)
         | Some existing \<Rightarrow>
             if se_outputs_hash existing = se_outputs_hash entry
             then (btree_insert key (fst (enrich_same_output_entry existing entry)) m, snd (enrich_same_output_entry existing entry), False)
             else (m, False, True))"

lemma merge_update_entries_Cons:
  "merge_update_entries codec (entry # entries) (s, result) =
     (let (m, changed, conflict) = update_entry codec entry (sp_entries s)
      in merge_update_entries codec entries (s\<lparr>sp_entries := m\<rparr>,
           \<lparr>mc_changed = mc_changed result \<or> changed, mc_saw_conflict = mc_saw_conflict result \<or> conflict\<rparr>))"
  by (cases s; cases result) (auto simp: update_entry_def Let_def split: option.splits prod.splits)

lemma update_entry_facts:
  assumes "update_entry codec entry m = (m', changed, conflict)"
  shows "entries_grow m m'" "btree_sorted m \<Longrightarrow> btree_sorted m'" "btree_sorted m \<Longrightarrow> \<not> changed \<Longrightarrow> m' = m"
    and "\<exists>e. map_of m' (input_key_hex codec (se_input_key entry)) = Some e \<and> (conflict \<longleftrightarrow> se_outputs_hash e \<noteq> se_outputs_hash entry)"
    and "dom (map_of m') = insert (input_key_hex codec (se_input_key entry)) (dom (map_of m))"
  using assms
  by (auto simp: update_entry_def Let_def hmap_simps entry_grows_enrich enrich_outputs enrich_unchanged btree_insert_same
      intro!: entries_grow_insert split: option.splits if_splits)

lemma merge_update_entries_facts:
  assumes "merge_update_entries codec entries (s, result) = (s', result')"
  shows "s' = s\<lparr>sp_entries := sp_entries s'\<rparr>" "entries_grow (sp_entries s) (sp_entries s')"
    and "btree_sorted (sp_entries s) \<Longrightarrow> btree_sorted (sp_entries s')"
    and "btree_sorted (sp_entries s) \<Longrightarrow> \<not> mc_changed result' \<Longrightarrow> s' = s"
    and "dom (map_of (sp_entries s')) = (\<lambda>e. input_key_hex codec (se_input_key e)) ` set entries \<union> dom (map_of (sp_entries s))"
    and "mc_changed result \<Longrightarrow> mc_changed result'"
    and "mc_saw_conflict result' \<longleftrightarrow> mc_saw_conflict result \<or>
      (\<exists>entry \<in> set entries. \<exists>e. map_of (sp_entries s') (input_key_hex codec (se_input_key entry)) = Some e \<and>
         se_outputs_hash e \<noteq> se_outputs_hash entry)"
proof -
  have "s' = s\<lparr>sp_entries := sp_entries s'\<rparr> \<and> entries_grow (sp_entries s) (sp_entries s') \<and>
    (btree_sorted (sp_entries s) \<longrightarrow> btree_sorted (sp_entries s')) \<and>
    (btree_sorted (sp_entries s) \<longrightarrow> \<not> mc_changed result' \<longrightarrow> s' = s) \<and>
    dom (map_of (sp_entries s')) = (\<lambda>e. input_key_hex codec (se_input_key e)) ` set entries \<union> dom (map_of (sp_entries s)) \<and>
    (mc_changed result \<longrightarrow> mc_changed result') \<and>
    (mc_saw_conflict result' \<longleftrightarrow> mc_saw_conflict result \<or>
      (\<exists>entry \<in> set entries. \<exists>e. map_of (sp_entries s') (input_key_hex codec (se_input_key entry)) = Some e \<and>
         se_outputs_hash e \<noteq> se_outputs_hash entry))"
    using assms
  proof (induction entries arbitrary: s result)
    case (Cons entry entries)
    let ?key = "input_key_hex codec (se_input_key entry)"
    obtain m changed conflict where u: "update_entry codec entry (sp_entries s) = (m, changed, conflict)" by (metis prod_cases3)
    note facts = update_entry_facts[OF u]
    have "merge_update_entries codec entries (s\<lparr>sp_entries := m\<rparr>,
        \<lparr>mc_changed = mc_changed result \<or> changed, mc_saw_conflict = mc_saw_conflict result \<or> conflict\<rparr>) = (s', result')"
      using Cons.prems u by (simp add: merge_update_entries_Cons del: merge_update_entries.simps(2))
    note IH = Cons.IH[OF this, simplified]
    obtain e e' where e: "map_of m ?key = Some e" "conflict \<longleftrightarrow> se_outputs_hash e \<noteq> se_outputs_hash entry"
      "map_of (sp_entries s') ?key = Some e'" "se_outputs_hash e' = se_outputs_hash e"
      using facts(4) IH unfolding entries_grow_def entry_grows_def by blast
    have grow: "entries_grow (sp_entries s) (sp_entries s')" using facts(1) IH entries_grow_trans by blast
    have same: "s' = s" if "btree_sorted (sp_entries s)" "\<not> mc_changed result'"
    proof -
      have "\<not> changed" using IH that(2) by blast
      then show ?thesis using IH facts(2,3) that by auto
    qed
    show ?case using IH facts(2,5) grow same e by auto
  qed simp
  then show "s' = s\<lparr>sp_entries := sp_entries s'\<rparr>" "entries_grow (sp_entries s) (sp_entries s')"
    and "btree_sorted (sp_entries s) \<Longrightarrow> btree_sorted (sp_entries s')"
    and "btree_sorted (sp_entries s) \<Longrightarrow> \<not> mc_changed result' \<Longrightarrow> s' = s"
    and "dom (map_of (sp_entries s')) = (\<lambda>e. input_key_hex codec (se_input_key e)) ` set entries \<union> dom (map_of (sp_entries s))"
    and "mc_changed result \<Longrightarrow> mc_changed result'"
    and "mc_saw_conflict result' \<longleftrightarrow> mc_saw_conflict result \<or>
      (\<exists>entry \<in> set entries. \<exists>e. map_of (sp_entries s') (input_key_hex codec (se_input_key entry)) = Some e \<and>
         se_outputs_hash e \<noteq> se_outputs_hash entry)"
    by blast+
qed

text \<open>A list of observations that is sorted by rank is determined by its ranks.\<close>

lemma ranks_determine:
  assumes "set d \<subseteq> set c" "map observation_rank d = map observation_rank c" "distinct (map observation_rank c)"
  shows "d = c"
proof -
  have "inj_on observation_rank (set c)" using assms(3) by (simp add: distinct_map)
  then have "inj_on observation_rank (set d \<union> set c)" using assms(1) by (simp add: Un_absorb1)
  then show ?thesis using assms(2) by (simp add: inj_on_map_eq_map)
qed

lemma sort_newest_first_id:
  assumes "sorted_wrt (\<lambda>x y. y < x) (map observation_rank c)"
  shows "sort_newest_first c = c"
proof (rule ranks_determine)
  have "sorted_wrt (<) (rev (map observation_rank c))" using assms by (simp add: sorted_wrt_rev)
  then have "sort (rev (map observation_rank c)) = rev (map observation_rank c)"
    by (intro sorted_sort_id) (simp add: strict_sorted_iff)
  moreover have "sort (map observation_rank c) = sort (rev (map observation_rank c))"
    using sorted_distinct[OF assms] by (intro sorted_distinct_set_unique) simp_all
  ultimately show "map observation_rank (sort_newest_first c) = map observation_rank c"
    by (simp add: sort_newest_first_ranks)
qed (use sorted_distinct[OF assms] in \<open>simp_all add: sort_newest_first_def\<close>)

lemma merge_observation_unchanged:
  assumes "scope_keeps R c" "\<not> snd (merge_observation o1 c)"
  shows "fst (merge_observation o1 c) = c"
proof -
  have "fst (replace_or_push o1 c) = c" if "\<not> snd (replace_or_push o1 c)"
    using that by (induction c) (auto simp: Let_def split: prod.splits if_splits)
  then show ?thesis
    using assms sort_newest_first_id[of c] by (auto simp: merge_observation_def scope_keeps_def Let_def split: prod.splits if_splits)
qed

lemma merge_observations_mono:
  "ch \<Longrightarrow> snd (merge_cache_file_observations codec os (s, ch))"
  by (induction os arbitrary: s ch) (simp_all add: merge_observations_Cons Let_def del: merge_cache_file_observations.simps(2))

lemma merge_observations_unchanged:
  "snapshot_ok codec s \<Longrightarrow> \<not> snd (merge_cache_file_observations codec os (s, ch)) \<Longrightarrow>
   fst (merge_cache_file_observations codec os (s, ch)) = s"
proof (induction os arbitrary: ch)
  case (Cons o1 os)
  let ?key = "input_key_hex codec (cfo_scope_hash o1)"
  let ?m = "merge_observation o1 (candidates_of s ?key)"
  have unchanged: "\<not> snd ?m"
    using Cons.prems(2) merge_observations_mono[of "ch \<or> snd ?m"]
    by (auto simp: merge_observations_Cons Let_def simp del: merge_cache_file_observations.simps(2))
  have "fst ?m = candidates_of s ?key"
    using merge_observation_unchanged[OF _ unchanged] snapshot_ok_candidates[OF Cons.prems(1), of ?key]
    unfolding scope_ok_def by blast
  moreover have "candidates_of s ?key \<noteq> []" using calculation merge_observation_nonempty[of o1 "candidates_of s ?key"] by simp
  then have "map_of (sp_cache_files s) ?key = Some (candidates_of s ?key)"
    by (cases "map_of (sp_cache_files s) ?key") (simp_all add: candidates_of_def)
  moreover have "btree_sorted (sp_cache_files s)" using Cons.prems(1) by (simp add: snapshot_ok_def)
  ultimately have "s\<lparr>sp_cache_files := btree_insert ?key (fst ?m) (sp_cache_files s)\<rparr> = s"
    by (simp add: btree_insert_same)
  then show ?case
    using Cons.IH[OF Cons.prems(1)] Cons.prems(2)
    by (simp add: merge_observations_Cons Let_def del: merge_cache_file_observations.simps(2))
qed simp

lemma merge_snapshot_updates_facts:
  assumes "snapshot_ok codec s" "merge_snapshot_updates codec entries observations s = (s', changes)"
  shows "snapshot_ok codec s' \<and> entries_grow (sp_entries s) (sp_entries s') \<and>
    dom (map_of (sp_entries s')) = (\<lambda>e. input_key_hex codec (se_input_key e)) ` set entries \<union> dom (map_of (sp_entries s)) \<and>
    (mc_saw_conflict changes \<longleftrightarrow>
       (\<exists>entry \<in> set entries. \<exists>e. map_of (sp_entries s') (input_key_hex codec (se_input_key entry)) = Some e \<and>
          se_outputs_hash e \<noteq> se_outputs_hash entry)) \<and>
    (\<not> mc_changed changes \<longrightarrow> s' = s)"
proof -
  obtain s1 r1 where u: "merge_update_entries codec entries (s, \<lparr>mc_changed = False, mc_saw_conflict = False\<rparr>) = (s1, r1)" by fastforce
  note f = merge_update_entries_facts[OF u]
  have s1: "snapshot_ok codec s1" using assms(1) f(1,3) unfolding snapshot_ok_def by (metis Snapshot.select_convs(1,2,3) Snapshot.surjective Snapshot.update_convs(2))
  have s': "s' = fst (merge_cache_file_observations codec observations (s1, False))"
    "changes = r1\<lparr>mc_changed := mc_changed r1 \<or> snd (merge_cache_file_observations codec observations (s1, False))\<rparr>"
    using assms(2) u by (auto simp: merge_snapshot_updates_def Let_def split: prod.splits)
  have e: "sp_entries s' = sp_entries s1" by (simp add: s' merge_observations_frame)
  have "s' = s" if "\<not> mc_changed changes"
    using that f(4) assms(1) merge_observations_unchanged[OF s1, of observations False] by (simp add: s' snapshot_ok_def)
  then show ?thesis using f(2,5,7) e snapshot_ok_observations[OF s1] by (simp add: s')
qed

text \<open>C15: Merging a run's updates into an index that is consistent leaves it consistent. The first writer of a key wins: its outputs hash
  never changes, a duration that was measured stays with everything recorded beside it, and metadata is never dropped. Afterwards the
  keys are the old ones and those of the updates. A conflict is reported exactly when some update's outputs differ from those that won,
  and an index reported as unchanged is unchanged.
\<close>

theorem snapshot_first_writer_wins:
  assumes "snapshot_ok codec s" "merge_snapshot_updates codec entries observations s = (s', changes)"
  shows "snapshot_ok codec s' \<and> entries_grow (sp_entries s) (sp_entries s') \<and>
    dom (map_of (sp_entries s')) = (\<lambda>e. input_key_hex codec (se_input_key e)) ` set entries \<union> dom (map_of (sp_entries s)) \<and>
    (mc_saw_conflict changes \<longleftrightarrow>
       (\<exists>entry \<in> set entries. \<exists>e. map_of (sp_entries s') (input_key_hex codec (se_input_key entry)) = Some e \<and>
          se_outputs_hash e \<noteq> se_outputs_hash entry)) \<and>
    (\<not> mc_changed changes \<longrightarrow> s' = s)"
  using assms by (rule merge_snapshot_updates_facts)

section \<open>Selection\<close>

lemma max_by_fold:
  fixes rank :: "'a \<Rightarrow> 'b :: linorder"
  shows "\<exists>b. fold (\<lambda>o1 best. case best of None \<Rightarrow> Some o1 | Some b \<Rightarrow> if rank o1 < rank b then Some b else Some o1) cs (Some a) = Some b \<and>
     b \<in> insert a (set cs) \<and> (\<forall>o1 \<in> insert a (set cs). rank o1 \<le> rank b)"
proof (induction cs arbitrary: a)
  case (Cons c cs)
  show ?case
  proof (cases "rank c < rank a")
    case True
    then show ?thesis using Cons[of a] by (auto intro: order_trans less_imp_le)
  next
    case False
    then show ?thesis using Cons[of c] by (auto intro: order_trans)
  qed
qed simp

text \<open>The selected state is one of the candidates, and none outranks it: a match of the upstream outputs first, then the newest.\<close>

lemma select_cache_file_observation_best:
  shows "select_cache_file_observation cs current = None \<longleftrightarrow> cs = []"
    and "select_cache_file_observation cs current = Some b \<Longrightarrow>
      b \<in> set cs \<and> (\<forall>o1 \<in> set cs. selection_rank current o1 \<le> selection_rank current b)"
proof -
  have "cs = [] \<and> select_cache_file_observation cs current = None \<or>
    (\<exists>b. select_cache_file_observation cs current = Some b \<and> b \<in> set cs \<and> (\<forall>o1 \<in> set cs. selection_rank current o1 \<le> selection_rank current b))"
  proof (cases cs)
    case (Cons c rest)
    then show ?thesis using max_by_fold[of "selection_rank current" rest c] by (simp add: select_cache_file_observation_def)
  qed (simp add: select_cache_file_observation_def)
  then show "select_cache_file_observation cs current = None \<longleftrightarrow> cs = []"
    and "select_cache_file_observation cs current = Some b \<Longrightarrow>
      b \<in> set cs \<and> (\<forall>o1 \<in> set cs. selection_rank current o1 \<le> selection_rank current b)"
    by auto
qed

section \<open>What a bucket holds\<close>

locale snapshot_codec =
  fixes codec :: SnapshotCodec
  assumes decode_encode: "sn_encode codec s = Some raw \<Longrightarrow> sp_schema_version s = SNAPSHOT_SCHEMA_VERSION \<Longrightarrow>
      sn_decode_version codec raw = Inr SNAPSHOT_SCHEMA_VERSION \<and> sn_decode_current codec raw = Inr s"
    and zstd: "sn_zstd_encode codec raw = Inr z \<Longrightarrow> strip_prefix ZSTD_FRAME_MAGIC z \<noteq> None \<and> sn_zstd_decode codec z = Inr raw"
    and hex_nonempty: "sn_hex codec h \<noteq> []"
    and hex_not_legacy: "sn_hex codec h \<noteq> ''legacy-'' @ key"
begin

lemma decode_written:
  assumes "sn_encode codec s = Some raw" "sp_schema_version s = SNAPSHOT_SCHEMA_VERSION" "sn_zstd_encode codec raw = Inr z"
  shows "decode_snapshot codec z = Inr s"
proof -
  have "SNAPSHOT_SCHEMA_VERSION \<noteq> SNAPSHOT_SCHEMA_VERSION_V2" by (simp add: SNAPSHOT_SCHEMA_VERSION_def SNAPSHOT_SCHEMA_VERSION_V2_def)
  then show ?thesis using decode_encode[OF assms(1,2)] zstd[OF assms(3)] by (simp add: decode_snapshot_def decompress_snapshot_bytes_def)
qed

end

abbreviation shard_file :: "SharedCachePaths \<Rightarrow> string \<Rightarrow> string \<Rightarrow> string \<times> string" where
  "shard_file paths shard_key shard_id \<equiv> (shard_dir_path paths shard_key, shard_id @ ''.'' @ SNAPSHOT_FILE_EXTENSION)"

abbreviation legacy_shard :: "SharedCachePaths \<Rightarrow> string \<Rightarrow> SnapshotShard" where
  "legacy_shard paths shard_key \<equiv> \<lparr>sh_id = ''legacy-'' @ shard_key, sh_source = LegacyFile (snapshot_path paths shard_key)\<rparr>"

lemma shard_stem_iff: "shard_stem name = Some stem \<longleftrightarrow> name = stem @ ''.'' @ SNAPSHOT_FILE_EXTENSION \<and> stem \<noteq> []"
proof
  assume a: "shard_stem name = Some stem"
  then obtain x where x: "name = x @ ''.'' @ SNAPSHOT_FILE_EXTENSION"
    by (auto simp: shard_stem_def Let_def ends_with_iff split: if_splits)
  then show "name = stem @ ''.'' @ SNAPSHOT_FILE_EXTENSION \<and> stem \<noteq> []"
    using a by (auto simp: shard_stem_def Let_def split: if_splits)
next
  assume "name = stem @ ''.'' @ SNAPSHOT_FILE_EXTENSION \<and> stem \<noteq> []"
  then show "shard_stem name = Some stem" by (auto simp: shard_stem_def Let_def ends_with_iff)
qed

lemma in_list_snapshot_shards:
  "shard \<in> set (list_snapshot_shards paths io shard_key files) \<longleftrightarrow>
     shard = legacy_shard paths shard_key \<and> map_of files (snapshot_path paths shard_key) \<noteq> None \<or>
     (io_read_dir io \<and> (\<exists>stem. stem \<noteq> [] \<and> map_of files (shard_file paths shard_key stem) \<noteq> None \<and>
        shard = \<lparr>sh_id = stem, sh_source = ShardFile (shard_file paths shard_key stem)\<rparr>))"
proof -
  let ?dir = "shard_dir_path paths shard_key"
  let ?f = "\<lambda>(path, _ :: StoredFile). map_option (\<lambda>stem. \<lparr>sh_id = stem, sh_source = ShardFile path\<rparr>) (shard_stem (snd path))"
  have dom: "map_of files q \<noteq> None \<longleftrightarrow> (\<exists>file. (q, file) \<in> set files)" for q
    by (metis map_of_SomeD not_Some_eq weak_map_of_SomeI)
  have "(\<exists>y \<in> set (filter (\<lambda>(path, _). fst path = ?dir) files). ?f y = Some shard) \<longleftrightarrow>
    (\<exists>stem file. ((?dir, stem @ ''.'' @ SNAPSHOT_FILE_EXTENSION), file) \<in> set files \<and> stem \<noteq> [] \<and>
       shard = \<lparr>sh_id = stem, sh_source = ShardFile (?dir, stem @ ''.'' @ SNAPSHOT_FILE_EXTENSION)\<rparr>)" (is "?L \<longleftrightarrow> ?R")
  proof
    assume ?L
    then obtain d name sf stem where y: "((d, name), sf) \<in> set files" "d = ?dir" "shard_stem name = Some stem"
      "shard = \<lparr>sh_id = stem, sh_source = ShardFile (d, name)\<rparr>" by auto
    then show ?R using shard_stem_iff[of name stem] by blast
  next
    assume ?R
    then obtain stem sf where y: "((?dir, stem @ ''.'' @ SNAPSHOT_FILE_EXTENSION), sf) \<in> set files" "stem \<noteq> []"
      "shard = \<lparr>sh_id = stem, sh_source = ShardFile (?dir, stem @ ''.'' @ SNAPSHOT_FILE_EXTENSION)\<rparr>" by blast
    moreover have "shard_stem (stem @ ''.'' @ SNAPSHOT_FILE_EXTENSION) = Some stem" using y(2) by (simp add: shard_stem_iff)
    ultimately show ?L by (intro bexI[of _ "((?dir, stem @ ''.'' @ SNAPSHOT_FILE_EXTENSION), sf)"]) simp_all
  qed
  then show ?thesis unfolding list_snapshot_shards_def Let_def set_sort set_append in_set_map_filter Un_iff dom by auto
qed

lemma load_loop_facts:
  assumes "load_loop codec io files shards (m, seen, ids) = (m', seen', ids')"
  shows "seen' \<longleftrightarrow> seen \<or> (\<exists>shard \<in> set shards. read_shard codec io files shard \<noteq> None)"
    and "ids' = ids \<union> sh_id ` {shard \<in> set shards. read_shard codec io files shard \<noteq> None}"
    and "dom (map_of (sp_entries m')) = dom (map_of (sp_entries m)) \<union>
      (\<Union>shard \<in> set shards. case read_shard codec io files shard of None \<Rightarrow> {} | Some s \<Rightarrow> fst ` set (sp_entries s))"
    and "snapshot_ok codec m \<Longrightarrow> snapshot_ok codec m'"
proof -
  have "(seen' \<longleftrightarrow> seen \<or> (\<exists>shard \<in> set shards. read_shard codec io files shard \<noteq> None)) \<and>
    ids' = ids \<union> sh_id ` {shard \<in> set shards. read_shard codec io files shard \<noteq> None} \<and>
    dom (map_of (sp_entries m')) = dom (map_of (sp_entries m)) \<union>
      (\<Union>shard \<in> set shards. case read_shard codec io files shard of None \<Rightarrow> {} | Some s \<Rightarrow> fst ` set (sp_entries s)) \<and>
    (snapshot_ok codec m \<longrightarrow> snapshot_ok codec m')"
    using assms
  proof (induction shards arbitrary: m seen ids)
    case (Cons shard shards)
    show ?case
    proof (cases "read_shard codec io files shard")
      case None
      then have "{x \<in> set (shard # shards). read_shard codec io files x \<noteq> None} = {x \<in> set shards. read_shard codec io files x \<noteq> None}" by auto
      moreover have "load_loop codec io files shards (m, seen, ids) = (m', seen', ids')" using Cons.prems None by simp
      ultimately show ?thesis using Cons.IH[of m seen ids] None by simp
    next
      case (Some s)
      then have sub: "{x \<in> set (shard # shards). read_shard codec io files x \<noteq> None} =
        insert shard {x \<in> set shards. read_shard codec io files x \<noteq> None}" by auto
      have run: "load_loop codec io files shards (merge_shard_entries codec s m, True, insert (sh_id shard) ids) = (m', seen', ids')"
        using Cons.prems Some by simp
      show ?thesis
        using Cons.IH[OF run] Some merge_shard_entries_facts(2)[of codec m s] unfolding sub
        by (simp add: merge_shard_entries_facts(1) merge_shard_fold(2) ac_simps)
    qed
  qed simp
  then show "seen' \<longleftrightarrow> seen \<or> (\<exists>shard \<in> set shards. read_shard codec io files shard \<noteq> None)"
    and "ids' = ids \<union> sh_id ` {shard \<in> set shards. read_shard codec io files shard \<noteq> None}"
    and "dom (map_of (sp_entries m')) = dom (map_of (sp_entries m)) \<union>
      (\<Union>shard \<in> set shards. case read_shard codec io files shard of None \<Rightarrow> {} | Some s \<Rightarrow> fst ` set (sp_entries s))"
    and "snapshot_ok codec m \<Longrightarrow> snapshot_ok codec m'"
    by blast+
qed

text \<open>A file system that answers every request, and the keys that a reader finds there.\<close>

definition all_works :: SnapshotIo where
  "all_works = \<lparr>io_create_dir = True, io_read_dir = True, io_readable = (\<lambda>_. True), io_write = IoOk, io_now = 0, io_removable = (\<lambda>_. True)\<rparr>"

definition held_keys :: "SnapshotCodec \<Rightarrow> SharedCachePaths \<Rightarrow> string \<Rightarrow> Files \<Rightarrow> string set" where
  "held_keys codec paths shard_key files =
     (case load_snapshot codec paths all_works shard_key files of None \<Rightarrow> {} | Some s \<Rightarrow> fst ` set (sp_entries s))"

lemma all_works_simps [simp]:
  "io_create_dir all_works" "io_read_dir all_works" "io_readable all_works p" "io_write all_works = IoOk" "io_removable all_works p"
  by (simp_all add: all_works_def)

text \<open>A shard that \<open>io\<close> reads is read by \<open>all_works\<close> with the same result.\<close>

lemma read_shard_all: "read_shard codec io files shard = Some s \<Longrightarrow> read_shard codec all_works files shard = Some s"
  by (auto simp: read_shard_def split: option.splits if_splits)

lemma list_shards_all: "shard \<in> set (list_snapshot_shards paths io shard_key files) \<Longrightarrow> shard \<in> set (list_snapshot_shards paths all_works shard_key files)"
  by (auto simp: in_list_snapshot_shards)

lemma load_merged_facts:
  assumes "load_merged_snapshot_from_shards codec io files shards = loaded"
  shows "(case ms_snapshot loaded of Some s \<Rightarrow> s | None \<Rightarrow> snapshot_new) = fst (load_loop codec io files shards (snapshot_new, False, {}))"
    and "snapshot_ok codec (case ms_snapshot loaded of Some s \<Rightarrow> s | None \<Rightarrow> snapshot_new)"
    and "ms_merged_shard_ids loaded = sh_id ` {shard \<in> set shards. read_shard codec io files shard \<noteq> None}"
    and "fst ` set (sp_entries (case ms_snapshot loaded of Some s \<Rightarrow> s | None \<Rightarrow> snapshot_new)) =
      (\<Union>shard \<in> set shards. case read_shard codec io files shard of None \<Rightarrow> {} | Some s \<Rightarrow> fst ` set (sp_entries s))"
proof -
  obtain m seen ids where run: "load_loop codec io files shards (snapshot_new, False, {}) = (m, seen, ids)" by (metis prod_cases3)
  note facts = load_loop_facts[OF run]
  have skip: "load_loop codec io files xs acc = acc" if "\<forall>shard \<in> set xs. read_shard codec io files shard = None" for xs acc
    using that by (induction xs) (cases acc; simp)+
  have none: "m = snapshot_new" if "\<not> seen"
    using skip[of shards "(snapshot_new, False, {})"] facts(1) that run by auto
  have start: "(case ms_snapshot loaded of Some s \<Rightarrow> s | None \<Rightarrow> snapshot_new) = m"
    using assms run none by (auto simp: load_merged_snapshot_from_shards_def)
  show "(case ms_snapshot loaded of Some s \<Rightarrow> s | None \<Rightarrow> snapshot_new) = fst (load_loop codec io files shards (snapshot_new, False, {}))"
    using start run by simp
  show "snapshot_ok codec (case ms_snapshot loaded of Some s \<Rightarrow> s | None \<Rightarrow> snapshot_new)" using facts(4) start by simp
  show "ms_merged_shard_ids loaded = sh_id ` {shard \<in> set shards. read_shard codec io files shard \<noteq> None}"
    using facts(2) assms run by (auto simp: load_merged_snapshot_from_shards_def)
  show "fst ` set (sp_entries (case ms_snapshot loaded of Some s \<Rightarrow> s | None \<Rightarrow> snapshot_new)) =
      (\<Union>shard \<in> set shards. case read_shard codec io files shard of None \<Rightarrow> {} | Some s \<Rightarrow> fst ` set (sp_entries s))"
    using facts(3) start by (simp add: dom_map_of_conv_image_fst snapshot_new_def)
qed

lemma held_keys_eq:
  "held_keys codec paths shard_key files =
     (\<Union>shard \<in> set (list_snapshot_shards paths all_works shard_key files).
        case read_shard codec all_works files shard of None \<Rightarrow> {} | Some s \<Rightarrow> fst ` set (sp_entries s))"
proof -
  let ?shards = "list_snapshot_shards paths all_works shard_key files"
  let ?l = "load_merged_snapshot_from_shards codec all_works files ?shards"
  have "held_keys codec paths shard_key files = fst ` set (sp_entries (case ms_snapshot ?l of Some s \<Rightarrow> s | None \<Rightarrow> snapshot_new))"
  proof (cases "?shards = []")
    case True
    then show ?thesis by (simp add: held_keys_def load_snapshot_def load_merged_snapshot_from_shards_def snapshot_new_def)
  next
    case False
    then show ?thesis by (simp add: held_keys_def load_snapshot_def Let_def snapshot_new_def split: option.split)
  qed
  then show ?thesis unfolding load_merged_facts(4)[OF refl] .
qed

lemma held_keysI:
  "shard \<in> set (list_snapshot_shards paths io shard_key files) \<Longrightarrow> read_shard codec io files shard = Some s \<Longrightarrow>
   k \<in> fst ` set (sp_entries s) \<Longrightarrow> k \<in> held_keys codec paths shard_key files"
  unfolding held_keys_eq using list_shards_all[of shard] read_shard_all[of codec io files shard s] by force

lemma held_keysE:
  assumes "k \<in> held_keys codec paths shard_key files"
  obtains shard s where "shard \<in> set (list_snapshot_shards paths all_works shard_key files)" "read_shard codec all_works files shard = Some s"
    "k \<in> fst ` set (sp_entries s)"
  using assms unfolding held_keys_eq by (auto split: option.splits)

section \<open>A merge loses no key\<close>

lemma delete_shards_lookup:
  "map_of (fold (delete_shard_files_by_id paths io shard_key) ids files) p =
     (if io_removable io p \<and> (\<exists>id \<in> set ids. p = shard_file paths shard_key id \<or>
          p = (shard_dir_path paths shard_key, id @ ''.'' @ SNAPSHOT_MERGED_EXTENSION)) then None else map_of files p)"
  by (induction ids arbitrary: files) (auto simp: delete_shard_files_by_id_def remove_file_if_exists_def hmap_simps)

lemma merged_name_differs [simp]: "id1 @ CHR ''.'' # SNAPSHOT_FILE_EXTENSION \<noteq> id2 @ CHR ''.'' # SNAPSHOT_MERGED_EXTENSION"
proof
  assume "id1 @ CHR ''.'' # SNAPSHOT_FILE_EXTENSION = id2 @ CHR ''.'' # SNAPSHOT_MERGED_EXTENSION"
  then have "last (id1 @ CHR ''.'' # SNAPSHOT_FILE_EXTENSION) = last (id2 @ CHR ''.'' # SNAPSHOT_MERGED_EXTENSION)" by (rule arg_cong)
  then show False by (simp add: SNAPSHOT_FILE_EXTENSION_def SNAPSHOT_MERGED_EXTENSION_def)
qed

text \<open>The subsumed ids are those of the shard files that were read.\<close>

lemma subsumed_ids:
  "set (List.map_filter deletable_shard_id (filter (\<lambda>shard. sh_id shard \<in> ids) (list_snapshot_shards paths io shard_key files))) =
     {stem. io_read_dir io \<and> stem \<in> ids \<and> stem \<noteq> [] \<and> map_of files (shard_file paths shard_key stem) \<noteq> None}"
  (is "?L = ?R")
proof -
  have "x \<in> ?L" if "x \<in> ?R" for x
    unfolding in_set_map_filter set_filter
    by (rule bexI[of _ "\<lparr>sh_id = x, sh_source = ShardFile (shard_file paths shard_key x)\<rparr>"])
       (use that in \<open>simp_all add: in_list_snapshot_shards\<close>)
  moreover have "x \<in> ?R" if "x \<in> ?L" for x
    using that unfolding in_set_map_filter set_filter by (auto simp: in_list_snapshot_shards)
  ultimately show ?thesis by blast
qed

text \<open>The outcomes of a merge: nothing written, a write that failed, or a consolidated shard and the removals.\<close>

lemma merge_updates_cases:
  assumes merge: "merge_updates_with_outcome codec paths io shard_key entries observations files = Some (outcome, files')"
  defines "visible \<equiv> list_snapshot_shards paths io shard_key files"
  defines "loaded \<equiv> load_merged_snapshot_from_shards codec io files visible"
  defines "start \<equiv> (case ms_snapshot loaded of Some s \<Rightarrow> s | None \<Rightarrow> snapshot_new)"
  defines "updated \<equiv> merge_snapshot_updates codec entries observations start"
  obtains
    (untouched) "files' = files" "mo_result outcome \<in> {IdempotentNoop, SkippedLockUnavailable}"
  | (unchanged) "files' = files" "\<not> mc_changed (snd updated)" "mo_result outcome \<in> {IdempotentNoop, ConflictKeptExisting}"
  | (failed) raw on_disk where "sn_encode codec (fst updated) = Some raw" "sn_zstd_encode codec raw = Inr on_disk"
      "map_of files (shard_file paths shard_key (sn_hex codec (sn_blake3 codec raw))) = None"
      "files' = AList.update (shard_file paths shard_key (sn_hex codec (sn_blake3 codec raw))) \<lparr>sf_bytes = on_disk, sf_modified = io_now io\<rparr> files"
      "mo_result outcome = SkippedLockUnavailable"
  | (inserted) raw on_disk ids where "sn_encode codec (fst updated) = Some raw" "sn_zstd_encode codec raw = Inr on_disk"
      "map_of files (shard_file paths shard_key (sn_hex codec (sn_blake3 codec raw))) = None"
      "set ids = {stem. io_read_dir io \<and> stem \<in> ms_merged_shard_ids loaded \<and> stem \<noteq> [] \<and> map_of files (shard_file paths shard_key stem) \<noteq> None}"
      "files' = fold (delete_shard_files_by_id paths io shard_key) ids
         (AList.update (shard_file paths shard_key (sn_hex codec (sn_blake3 codec raw))) \<lparr>sf_bytes = on_disk, sf_modified = io_now io\<rparr> files)"
      "mo_result outcome = Inserted"
proof -
  note rest = that
  show ?thesis
  proof (cases "entries = [] \<and> observations = [] \<or> \<not> io_create_dir io")
    case True
    then show ?thesis using merge rest(1) by (auto simp: merge_updates_with_outcome_def outcome_from_result_def split: if_splits)
  next
    case False
    show ?thesis
    proof (cases "mc_changed (snd updated)")
      case False
      then have "files' = files" "mo_result outcome \<in> {IdempotentNoop, ConflictKeptExisting}"
        using merge \<open>\<not> (entries = [] \<and> observations = [] \<or> \<not> io_create_dir io)\<close>
        unfolding merge_updates_with_outcome_def updated_def start_def loaded_def visible_def Let_def
        by (auto simp: outcome_from_result_def split: prod.splits if_splits)
      then show ?thesis using rest(2) False by blast
    next
      case True
      then have wrote: "write_consolidated_shard codec paths io shard_key (fst updated) visible (ms_merged_shard_ids loaded) files = Some (outcome, files')"
        using merge False unfolding merge_updates_with_outcome_def updated_def start_def loaded_def visible_def Let_def
        by (auto split: prod.splits if_splits)
      then obtain raw where raw: "sn_encode codec (fst updated) = Some raw"
        unfolding write_consolidated_shard_def by (cases "sn_encode codec (fst updated)") auto
      show ?thesis
      proof (cases "map_of files (shard_file paths shard_key (sn_hex codec (sn_blake3 codec raw))) = None")
        case False
        then show ?thesis using wrote raw rest(1) by (auto simp: write_consolidated_shard_def Let_def outcome_from_result_def)
      next
        case absent: True
        show ?thesis
        proof (cases "sn_zstd_encode codec raw")
          case (Inl e)
          then show ?thesis using wrote raw absent rest(1) by (auto simp: write_consolidated_shard_def Let_def outcome_from_result_def)
        next
          case (Inr on_disk)
          show ?thesis
          proof (cases "io_write io")
            case IoOk
            let ?subsumed = "List.map_filter deletable_shard_id (filter (\<lambda>shard. sh_id shard \<in> ms_merged_shard_ids loaded) visible)"
            show ?thesis
              by (rule rest(4)[OF raw Inr absent, where ids = ?subsumed])
                 (use wrote raw absent Inr IoOk subsumed_ids[of "ms_merged_shard_ids loaded" paths io shard_key files] in
                   \<open>auto simp: write_consolidated_shard_def finalize_sidecar_and_subsumed_def Let_def visible_def\<close>)
          next
            case (IoFails e)
            then show ?thesis using wrote raw absent Inr rest(1) by (auto simp: write_consolidated_shard_def Let_def outcome_from_result_def)
          next
            case (IoFailsAfterRename e)
            then show ?thesis using wrote rest(3)[OF raw Inr absent] raw absent Inr
              by (auto simp: write_consolidated_shard_def Let_def outcome_from_result_def)
          qed
        qed
      qed
    qed
  qed
qed

text \<open>The keys of buckets are a date and a number (\<open>discovery.rs\<close>): relative paths. Shards are named by their hashes, so none takes the
  name under which the legacy file is listed.\<close>

definition bucket_ok :: "SharedCachePaths \<Rightarrow> string \<Rightarrow> Files \<Rightarrow> bool" where
  "bucket_ok paths shard_key files \<longleftrightarrow>
     shard_key \<noteq> [] \<and> \<not> path_is_absolute shard_key \<and> map_of files (shard_file paths shard_key (''legacy-'' @ shard_key)) = None"

lemma shard_dir_differs: "bucket_ok paths shard_key files \<Longrightarrow> shard_dir_path paths shard_key \<noteq> pa_snapshots_dir paths"
  by (auto simp: bucket_ok_def shard_dir_path_def join_path_def path_is_absolute_def)

lemma read_shard_same:
  "map_of files' (shard_path shard) = map_of files (shard_path shard) \<Longrightarrow> read_shard codec io files' shard = read_shard codec io files shard"
  by (simp add: read_shard_def)

lemma held_shard:
  assumes "shard \<in> set (list_snapshot_shards paths all_works shard_key files)" "read_shard codec all_works files shard = Some s"
    and "k \<in> fst ` set (sp_entries s)" "map_of files' (shard_path shard) = map_of files (shard_path shard)"
  shows "k \<in> held_keys codec paths shard_key files'"
proof (rule held_keysI[where io = all_works and shard = shard and s = s])
  show "shard \<in> set (list_snapshot_shards paths all_works shard_key files')"
    using assms(1,4) by (auto simp: in_list_snapshot_shards)
  show "read_shard codec all_works files' shard = Some s" using assms(2) read_shard_same[OF assms(4)] by simp
qed (rule assms(3))

lemma held_written:
  assumes "snapshot_codec codec" "sn_encode codec s = Some raw" "sp_schema_version s = SNAPSHOT_SCHEMA_VERSION"
    and "sn_zstd_encode codec raw = Inr z" "map_of files (shard_file paths shard_key sid) = Some \<lparr>sf_bytes = z, sf_modified = now\<rparr>" "sid \<noteq> []"
  shows "fst ` set (sp_entries s) \<subseteq> held_keys codec paths shard_key files"
proof
  fix k assume "k \<in> fst ` set (sp_entries s)"
  then show "k \<in> held_keys codec paths shard_key files"
    using assms(5,6) snapshot_codec.decode_written[OF assms(1-4)]
    by (intro held_keysI[where io = all_works and s = s and shard = "\<lparr>sh_id = sid, sh_source = ShardFile (shard_file paths shard_key sid)\<rparr>"])
       (auto simp: in_list_snapshot_shards read_shard_def)
qed

lemma held_others:
  assumes "\<And>p. map_of files p \<noteq> None \<Longrightarrow> map_of files' p = map_of files p"
  shows "held_keys codec paths shard_key files \<subseteq> held_keys codec paths shard_key files'"
proof
  fix k assume "k \<in> held_keys codec paths shard_key files"
  then obtain shard s where "shard \<in> set (list_snapshot_shards paths all_works shard_key files)" "read_shard codec all_works files shard = Some s"
    "k \<in> fst ` set (sp_entries s)" by (rule held_keysE)
  moreover have "map_of files (shard_path shard) \<noteq> None" using calculation(2) by (auto simp: read_shard_def split: option.splits)
  ultimately show "k \<in> held_keys codec paths shard_key files'" using assms by (blast intro: held_shard)
qed

text \<open>A shard that a merge removes is one that it read: its keys are in what it wrote.\<close>

lemma removed_was_read:
  assumes "bucket_ok paths shard_key files" "io_read_dir io"
    and "stem \<in> sh_id ` {shard \<in> set (list_snapshot_shards paths io shard_key files). read_shard codec io files shard \<noteq> None}"
    and "map_of files (shard_file paths shard_key stem) \<noteq> None"
  shows "\<exists>s. read_shard codec io files \<lparr>sh_id = stem, sh_source = ShardFile (shard_file paths shard_key stem)\<rparr> = Some s"
proof -
  obtain shard where shard: "shard \<in> set (list_snapshot_shards paths io shard_key files)" "read_shard codec io files shard \<noteq> None" "sh_id shard = stem"
    using assms(3) by blast
  have "shard \<noteq> legacy_shard paths shard_key" using shard(3) assms(1,4) by (auto simp: bucket_ok_def)
  then have "shard = \<lparr>sh_id = stem, sh_source = ShardFile (shard_file paths shard_key stem)\<rparr>"
    using shard(1,3) by (auto simp: in_list_snapshot_shards)
  then show ?thesis using shard(2) by auto
qed

lemma insertion_loses_nothing:
  assumes "snapshot_codec codec" "bucket_ok paths shard_key files"
    and reads: "\<forall>shard \<in> set (list_snapshot_shards paths io shard_key files). \<forall>s. read_shard codec io files shard = Some s \<longrightarrow>
      fst ` set (sp_entries s) \<subseteq> fst ` set (sp_entries updated)"
    and schema: "sp_schema_version updated = SNAPSHOT_SCHEMA_VERSION"
    and encode: "sn_encode codec updated = Some raw" "sn_zstd_encode codec raw = Inr on_disk"
    and absent: "map_of files (shard_file paths shard_key (sn_hex codec (sn_blake3 codec raw))) = None"
    and ids: "set ids = {stem. io_read_dir io \<and>
        stem \<in> sh_id ` {shard \<in> set (list_snapshot_shards paths io shard_key files). read_shard codec io files shard \<noteq> None} \<and>
        stem \<noteq> [] \<and> map_of files (shard_file paths shard_key stem) \<noteq> None}"
    and files': "files' = fold (delete_shard_files_by_id paths io shard_key) ids
         (AList.update (shard_file paths shard_key (sn_hex codec (sn_blake3 codec raw))) \<lparr>sf_bytes = on_disk, sf_modified = io_now io\<rparr> files)"
  shows "held_keys codec paths shard_key files \<subseteq> held_keys codec paths shard_key files'"
    and "fst ` set (sp_entries updated) \<subseteq> held_keys codec paths shard_key files'"
    and "map_of files (shard_file paths shard_key stem) = Some file \<Longrightarrow> (\<And>s. decode_snapshot codec (sf_bytes file) \<noteq> Inr s) \<Longrightarrow>
       map_of files' (shard_file paths shard_key stem) = Some file"
    and "fst path \<noteq> shard_dir_path paths shard_key \<Longrightarrow> map_of files' path = map_of files path"
proof -
  let ?new = "shard_file paths shard_key (sn_hex codec (sn_blake3 codec raw))"
  have lookup: "map_of files' p = (if io_removable io p \<and> (\<exists>sid \<in> set ids. p = shard_file paths shard_key sid \<or>
      p = (shard_dir_path paths shard_key, sid @ ''.'' @ SNAPSHOT_MERGED_EXTENSION)) then None
    else if p = ?new then Some \<lparr>sf_bytes = on_disk, sf_modified = io_now io\<rparr> else map_of files p)" for p
    unfolding files' delete_shards_lookup map_of_update fun_upd_apply by (rule refl)
  have there: "map_of files (shard_file paths shard_key sid) \<noteq> None" if "sid \<in> set ids" for sid using that ids by blast
  then have "sn_hex codec (sn_blake3 codec raw) \<notin> set ids" using absent by blast
  then have "map_of files' ?new = Some \<lparr>sf_bytes = on_disk, sf_modified = io_now io\<rparr>"
    unfolding lookup by auto
  from held_written[OF assms(1) encode(1) schema encode(2) this snapshot_codec.hex_nonempty[OF assms(1)]]
  show keys: "fst ` set (sp_entries updated) \<subseteq> held_keys codec paths shard_key files'" .
  have read: "\<exists>s. read_shard codec io files \<lparr>sh_id = stem, sh_source = ShardFile (shard_file paths shard_key stem)\<rparr> = Some s \<and>
      fst ` set (sp_entries s) \<subseteq> fst ` set (sp_entries updated)" if "stem \<in> set ids" for stem
  proof -
    have stem: "io_read_dir io" "stem \<noteq> []" "map_of files (shard_file paths shard_key stem) \<noteq> None"
      "stem \<in> sh_id ` {shard \<in> set (list_snapshot_shards paths io shard_key files). read_shard codec io files shard \<noteq> None}"
      using that ids by blast+
    obtain s where s: "read_shard codec io files \<lparr>sh_id = stem, sh_source = ShardFile (shard_file paths shard_key stem)\<rparr> = Some s"
      using removed_was_read[OF assms(2) stem(1,4,3)] by blast
    have "\<lparr>sh_id = stem, sh_source = ShardFile (shard_file paths shard_key stem)\<rparr> \<in> set (list_snapshot_shards paths io shard_key files)"
      using stem by (simp add: in_list_snapshot_shards)
    with reads s show ?thesis by blast
  qed
  have kept: "map_of files' p = map_of files p"
    if "map_of files p \<noteq> None" "fst p \<noteq> shard_dir_path paths shard_key \<or> (\<exists>stem. p = shard_file paths shard_key stem \<and> stem \<notin> set ids)" for p
    using lookup[of p] that absent by auto
  show "held_keys codec paths shard_key files \<subseteq> held_keys codec paths shard_key files'"
  proof
    fix k assume "k \<in> held_keys codec paths shard_key files"
    then obtain shard s where shard: "shard \<in> set (list_snapshot_shards paths all_works shard_key files)"
      "read_shard codec all_works files shard = Some s" "k \<in> fst ` set (sp_entries s)" by (rule held_keysE)
    have exists: "map_of files (shard_path shard) \<noteq> None"
      using shard(2) by (cases "map_of files (shard_path shard)") (simp_all add: read_shard_def)
    show "k \<in> held_keys codec paths shard_key files'"
    proof (cases "\<exists>stem \<in> set ids. shard = \<lparr>sh_id = stem, sh_source = ShardFile (shard_file paths shard_key stem)\<rparr>")
      case True
      then obtain s' where s': "read_shard codec io files shard = Some s'" "fst ` set (sp_entries s') \<subseteq> fst ` set (sp_entries updated)"
        using read by blast
      then have "s' = s" using shard(2) read_shard_all[OF s'(1)] by simp
      then show ?thesis using s'(2) shard(3) keys by blast
    next
      case False
      have "map_of files' (shard_path shard) = map_of files (shard_path shard)"
      proof (rule kept[OF exists])
        show "fst (shard_path shard) \<noteq> shard_dir_path paths shard_key \<or>
          (\<exists>stem. shard_path shard = shard_file paths shard_key stem \<and> stem \<notin> set ids)"
          using shard(1) False shard_dir_differs[OF assms(2)] unfolding in_list_snapshot_shards by (auto simp: snapshot_path_def)
      qed
      then show ?thesis by (rule held_shard[OF shard])
    qed
  qed
  show "map_of files' (shard_file paths shard_key stem) = Some file"
    if undec: "map_of files (shard_file paths shard_key stem) = Some file" "\<And>s. decode_snapshot codec (sf_bytes file) \<noteq> Inr s"
  proof -
    have "stem \<notin> set ids" using read[of stem] undec by (auto simp: read_shard_def split: sum.splits if_splits)
    then show ?thesis using kept[of "shard_file paths shard_key stem"] undec(1) by auto
  qed
  show "map_of files' path = map_of files path" if "fst path \<noteq> shard_dir_path paths shard_key"
    using lookup[of path] that by auto
qed

text \<open>C13: However a merge into a bucket ends, with a write that fails before or after the rename, a directory that cannot be listed,
  shards that cannot be read, removals that fail, or a crash among the removals, a reader finds every key it found before; when the
  merge reports that it inserted the run's entries, or that earlier ones won, it finds theirs too. A shard that the merge could not
  read, such as one of a newer version, stays as it is, and so does every file outside the bucket.
\<close>

theorem snapshot_merge_loses_nothing:
  assumes "snapshot_codec codec" "bucket_ok paths shard_key files"
    and merge: "merge_updates_with_outcome codec paths io shard_key entries observations files = Some (outcome, files')"
  shows "held_keys codec paths shard_key files \<subseteq> held_keys codec paths shard_key files' \<and>
    (mo_result outcome \<in> {Inserted, ConflictKeptExisting} \<longrightarrow>
       (\<forall>entry \<in> set entries. input_key_hex codec (se_input_key entry) \<in> held_keys codec paths shard_key files')) \<and>
    (\<forall>stem file. map_of files (shard_file paths shard_key stem) = Some file \<and> (\<forall>s. decode_snapshot codec (sf_bytes file) \<noteq> Inr s) \<longrightarrow>
       map_of files' (shard_file paths shard_key stem) = Some file) \<and>
    (\<forall>path. fst path \<noteq> shard_dir_path paths shard_key \<longrightarrow> map_of files' path = map_of files path)"
proof -
  let ?visible = "list_snapshot_shards paths io shard_key files"
  let ?loaded = "load_merged_snapshot_from_shards codec io files ?visible"
  let ?start = "case ms_snapshot ?loaded of Some s \<Rightarrow> s | None \<Rightarrow> snapshot_new"
  let ?updated = "merge_snapshot_updates codec entries observations ?start"
  note loaded = load_merged_facts(2,3,4)[OF refl, of codec io files ?visible]
  have first: "snapshot_ok codec (fst ?updated)" "\<not> mc_changed (snd ?updated) \<Longrightarrow> fst ?updated = ?start"
    "fst ` set (sp_entries (fst ?updated)) = (\<lambda>e. input_key_hex codec (se_input_key e)) ` set entries \<union> fst ` set (sp_entries ?start)"
    using merge_snapshot_updates_facts[OF loaded(1), of entries observations "fst ?updated" "snd ?updated"]
    unfolding dom_map_of_conv_image_fst by auto
  show ?thesis
    using merge
  proof (cases rule: merge_updates_cases)
    case untouched
    then show ?thesis by auto
  next
    case unchanged
    have "fst ` set (sp_entries ?start) \<subseteq> held_keys codec paths shard_key files"
      unfolding loaded(3) by (rule UN_least) (auto intro: held_keysI simp del: set_map split: option.split)
    moreover have "(\<lambda>e. input_key_hex codec (se_input_key e)) ` set entries \<subseteq> fst ` set (sp_entries ?start)"
      using first(3) unfolding first(2)[OF unchanged(2)] by (metis (no_types) Un_upper1)
    ultimately show ?thesis using unchanged(1) by blast
  next
    case (failed raw on_disk)
    have "map_of files' p = map_of files p" if "map_of files p \<noteq> None" for p
      using that failed(3) unfolding failed(4) by (auto simp: hmap_simps)
    moreover have "map_of files' p = map_of files p" if "fst p \<noteq> shard_dir_path paths shard_key" for p
      using that unfolding failed(4) by (auto simp: hmap_simps)
    ultimately show ?thesis using held_others[of files files' codec paths shard_key] failed(5) by simp
  next
    case (inserted raw on_disk ids)
    have schema: "sp_schema_version (fst ?updated) = SNAPSHOT_SCHEMA_VERSION" using first(1) by (simp add: snapshot_ok_def)
    have reads: "\<forall>shard \<in> set ?visible. \<forall>s. read_shard codec io files shard = Some s \<longrightarrow>
      fst ` set (sp_entries s) \<subseteq> fst ` set (sp_entries (fst ?updated))"
    proof (intro ballI allI impI)
      fix shard s assume that: "shard \<in> set ?visible" "read_shard codec io files shard = Some s"
      have "fst ` set (sp_entries s) \<subseteq> fst ` set (sp_entries ?start)"
        unfolding loaded(3) by (rule order_trans[OF _ UN_upper[OF that(1)]]) (simp add: that(2))
      then show "fst ` set (sp_entries s) \<subseteq> fst ` set (sp_entries (fst ?updated))" unfolding first(3) by (rule le_supI2)
    qed
    note facts = insertion_loses_nothing[OF assms(1,2) reads schema inserted(1,2,3) inserted(4)[unfolded loaded(2)] inserted(5)]
    have keys: "(\<lambda>e. input_key_hex codec (se_input_key e)) ` set entries \<subseteq> held_keys codec paths shard_key files'"
      using facts(2) unfolding first(3) by (rule le_supE)
    show ?thesis
    proof (intro conjI impI ballI allI)
      show "input_key_hex codec (se_input_key entry) \<in> held_keys codec paths shard_key files'" if "entry \<in> set entries" for entry
        using that keys by (simp only: image_subset_iff)
      show "map_of files' (shard_file paths shard_key stem) = Some f"
        if "map_of files (shard_file paths shard_key stem) = Some f \<and> (\<forall>s. decode_snapshot codec (sf_bytes f) \<noteq> Inr s)" for stem f
        by (rule facts(3)) (use that in simp_all)
    qed (rule facts(1), erule facts(4))
  qed
qed

section \<open>A bucket implements one snapshot\<close>

lemma fold_merge_fresh:
  "distinct (map fst ps) \<Longrightarrow> dom (map_of m) \<inter> fst ` set ps = {} \<Longrightarrow> map_of (fold merge_shard_entry ps m) = map_of m ++ map_of ps"
proof (induction ps arbitrary: m)
  case (Cons p ps)
  have fresh: "map_of m (fst p) = None" using Cons.prems(2) by (auto simp: domIff)
  then have "merge_shard_entry p m = btree_insert (fst p) (snd p) m" by (cases p) simp
  moreover have "dom (map_of (btree_insert (fst p) (snd p) m)) \<inter> fst ` set ps = {}" using Cons.prems by (auto simp: hmap_simps)
  moreover have "fst p \<notin> dom (map_of ps)" using Cons.prems(1) by (simp add: dom_map_of_conv_image_fst)
  ultimately have "map_of (fold merge_shard_entry (p # ps) m) = map_of (btree_insert (fst p) (snd p) m) ++ map_of ps"
    using Cons.IH[of "btree_insert (fst p) (snd p) m"] Cons.prems(1) by (simp only: fold_simps list.map distinct.simps)
  moreover have "map_of (btree_insert (fst p) (snd p) m) ++ map_of ps = map_of m ++ map_of (p # ps)"
    using \<open>fst p \<notin> dom (map_of ps)\<close> by (cases p) (auto simp: hmap_simps fun_eq_iff map_add_def domIff split: option.split)
  ultimately show ?case by (simp only:)
qed simp

lemma candidates_merge_subset:
  "set (candidates_of (fst (merge_cache_file_observations codec os (s, ch))) key) \<subseteq>
     set (candidates_of s key) \<union> {o1 \<in> set os. input_key_hex codec (cfo_scope_hash o1) = key}"
proof (induction os arbitrary: s ch)
  case (Cons o1 os)
  let ?key = "input_key_hex codec (cfo_scope_hash o1)"
  let ?m = "merge_observation o1 (candidates_of s ?key)"
  let ?s = "s\<lparr>sp_cache_files := btree_insert ?key (fst ?m) (sp_cache_files s)\<rparr>"
  have "set (candidates_of ?s key) \<subseteq> set (candidates_of s key) \<union> (if key = ?key then {o1} else {})"
    using set_merge_observation[of o1 "candidates_of s ?key"] by (auto simp: candidates_of_def hmap_simps)
  then show ?case
    using Cons[of ?s "ch \<or> snd ?m"] unfolding merge_observations_Cons Let_def by (auto split: if_splits)
qed simp

lemma snapshot_eqI:
  assumes "snapshot_ok codec s" "snapshot_ok codec s'" "sp_entries s = sp_entries s'" "\<And>key. candidates_of s key = candidates_of s' key"
  shows "s = s'"
proof -
  have "map_of (sp_cache_files t) key = (if candidates_of t key = [] then None else Some (candidates_of t key))" if "snapshot_ok codec t" for t key
    using that by (auto simp: snapshot_ok_def candidates_of_def split: option.splits)
  then have "map_of (sp_cache_files s) = map_of (sp_cache_files s')" using assms by (simp add: fun_eq_iff)
  then have "sp_cache_files s = sp_cache_files s'" using assms(1,2) by (intro btree_sorted_eqI) (simp_all add: snapshot_ok_def)
  then show ?thesis using assms(1-3) by (simp add: snapshot_ok_def)
qed

text \<open>A reader of a bucket with one shard sees the snapshot of the shard.\<close>

lemma merge_single_shard:
  assumes "snapshot_ok codec s"
  shows "merge_shard_entries codec s snapshot_new = s"
proof (rule snapshot_eqI)
  show ok: "snapshot_ok codec (merge_shard_entries codec s snapshot_new)" by (rule merge_shard_entries_facts(2)) simp
  have sorted: "btree_sorted (sp_entries s)" using assms by (simp add: snapshot_ok_def)
  show "sp_entries (merge_shard_entries codec s snapshot_new) = sp_entries s"
  proof (rule btree_sorted_eqI[OF _ sorted])
    show "btree_sorted (sp_entries (merge_shard_entries codec s snapshot_new))" using ok by (simp add: snapshot_ok_def)
    show "map_of (sp_entries (merge_shard_entries codec s snapshot_new)) = map_of (sp_entries s)"
      using sorted by (simp add: merge_shard_entries_facts(1) fold_merge_fresh snapshot_new_def strict_sorted_iff)
  qed
  fix key
  have start: "scope_keeps {} (candidates_of snapshot_new key)"
    using scope_keeps_Nil by (simp add: candidates_of_def snapshot_new_def)
  have own: "scope_keeps (observation_rank ` set (candidates_of s key)) (candidates_of s key)"
    using snapshot_ok_candidates[OF assms] unfolding scope_ok_def by blast
  from scope_keeps_shard[OF assms own _ start]
  have merged: "scope_keeps (observation_rank ` set (candidates_of s key)) (candidates_of (merge_shard_entries codec s snapshot_new) key)" by simp
  show "candidates_of (merge_shard_entries codec s snapshot_new) key = candidates_of s key"
  proof (rule ranks_determine)
    have "candidates_of (snapshot_new\<lparr>sp_entries := x\<rparr>) key = []" for x by (simp add: candidates_of_def snapshot_new_def)
    then show "set (candidates_of (merge_shard_entries codec s snapshot_new) key) \<subseteq> set (candidates_of s key)"
      unfolding merge_shard_candidates
      using candidates_merge_subset[of codec "concat (map snd (sp_cache_files s))" _ False key, unfolded observations_at_shard[OF assms]]
      by (metis empty_set sup_bot_left)
    show "map observation_rank (candidates_of (merge_shard_entries codec s snapshot_new) key) = map observation_rank (candidates_of s key)"
      using scope_keeps_unique[OF own] scope_keeps_unique[OF merged] by simp
    show "distinct (map observation_rank (candidates_of s key))" using own sorted_distinct unfolding scope_keeps_def by blast
  qed
qed (rule assms)

lemma distinct_shard_list:
  assumes "distinct (map fst xs)"
  defines "f \<equiv> \<lambda>(path, _ :: StoredFile). map_option (\<lambda>stem. \<lparr>sh_id = stem, sh_source = ShardFile path\<rparr>) (shard_stem (snd path))"
  shows "distinct (List.map_filter f xs) \<and> shard_path ` set (List.map_filter f xs) \<subseteq> fst ` set xs"
  using assms(1)
proof (induction xs)
  case (Cons x xs)
  have IH: "distinct (List.map_filter f xs)" "shard_path ` set (List.map_filter f xs) \<subseteq> fst ` set xs" using Cons by auto
  have x: "fst x \<notin> fst ` set xs" using Cons.prems by simp
  show ?case
  proof (cases "f x")
    case None
    then show ?thesis using IH by (auto simp only: map_filter_simps option.case list.set)
  next
    case (Some shard)
    then have path: "shard_path shard = fst x" by (auto simp: f_def split: prod.splits)
    then have "shard \<notin> set (List.map_filter f xs)" using IH(2) x by (metis image_subset_iff)
    then show ?thesis using IH path Some by (auto simp only: map_filter_simps option.case distinct.simps list.set image_insert insert_subset)
  qed
qed (simp add: map_filter_simps)

lemma distinct_shards:
  assumes "distinct (map fst files)" "map_of files (snapshot_path paths shard_key) = None"
  shows "distinct (list_snapshot_shards paths io shard_key files)"
proof -
  have "distinct (map fst (filter P files))" for P using assms(1) by (simp add: distinct_map_filter)
  from distinct_shard_list[OF this] show ?thesis
    using assms(2) by (simp add: list_snapshot_shards_def Let_def map_filter_simps)
qed

lemma distinct_files_kept:
  "distinct (map fst files) \<Longrightarrow> distinct (map fst (fold (delete_shard_files_by_id paths io shard_key) ids files))"
  by (induction ids arbitrary: files) (simp_all add: delete_shard_files_by_id_def remove_file_if_exists_def)

definition bucket_snapshot :: "SnapshotCodec \<Rightarrow> SharedCachePaths \<Rightarrow> string \<Rightarrow> Files \<Rightarrow> Snapshot" where
  "bucket_snapshot codec paths shard_key files =
     (case load_snapshot codec paths all_works shard_key files of Some s \<Rightarrow> s | None \<Rightarrow> snapshot_new)"

text \<open>A bucket that only clients of this version wrote to: no file of the old layout, and every shard can be decoded.\<close>

definition bucket_sound :: "SnapshotCodec \<Rightarrow> SharedCachePaths \<Rightarrow> string \<Rightarrow> Files \<Rightarrow> bool" where
  "bucket_sound codec paths shard_key files \<longleftrightarrow>
     bucket_ok paths shard_key files \<and> distinct (map fst files) \<and> map_of files (snapshot_path paths shard_key) = None \<and>
     (\<forall>shard \<in> set (list_snapshot_shards paths all_works shard_key files). read_shard codec all_works files shard \<noteq> None)"

lemma bucket_snapshot_eq:
  "bucket_snapshot codec paths shard_key files =
     fst (load_loop codec all_works files (list_snapshot_shards paths all_works shard_key files) (snapshot_new, False, {}))"
proof -
  let ?shards = "list_snapshot_shards paths all_works shard_key files"
  have "bucket_snapshot codec paths shard_key files =
      (case ms_snapshot (load_merged_snapshot_from_shards codec all_works files ?shards) of Some s \<Rightarrow> s | None \<Rightarrow> snapshot_new)"
    by (simp add: bucket_snapshot_def load_snapshot_def Let_def load_merged_snapshot_from_shards_def)
  then show ?thesis unfolding load_merged_facts(1)[OF refl] .
qed

lemma reads_at_any_time:
  "read_shard codec (all_works\<lparr>io_now := now\<rparr>) = read_shard codec all_works"
  "list_snapshot_shards paths (all_works\<lparr>io_now := now\<rparr>) = list_snapshot_shards paths all_works"
  by (simp_all add: read_shard_def list_snapshot_shards_def fun_eq_iff split: option.split)

lemma load_loop_at_any_time: "load_loop codec (all_works\<lparr>io_now := now\<rparr>) files shards acc = load_loop codec all_works files shards acc"
  by (induction shards arbitrary: acc) (auto simp: reads_at_any_time split: option.splits)

lemma single_list: "distinct xs \<Longrightarrow> set xs = {x} \<Longrightarrow> xs = [x]"
  by (cases xs; cases "tl xs") auto

text \<open>After an insertion the bucket holds the consolidated shard alone.\<close>

lemma insertion_replaces:
  assumes codec: "snapshot_codec codec" and sound: "bucket_sound codec paths shard_key files" and ok: "snapshot_ok codec updated"
    and encode: "sn_encode codec updated = Some raw" "sn_zstd_encode codec raw = Inr on_disk"
    and absent: "map_of files (shard_file paths shard_key (sn_hex codec (sn_blake3 codec raw))) = None"
    and ids: "set ids = {stem. stem \<in> sh_id ` {shard \<in> set (list_snapshot_shards paths all_works shard_key files). read_shard codec all_works files shard \<noteq> None} \<and>
        stem \<noteq> [] \<and> map_of files (shard_file paths shard_key stem) \<noteq> None}"
    and files': "files' = fold (delete_shard_files_by_id paths (all_works\<lparr>io_now := now\<rparr>) shard_key) ids
         (AList.update (shard_file paths shard_key (sn_hex codec (sn_blake3 codec raw))) \<lparr>sf_bytes = on_disk, sf_modified = now\<rparr> files)"
  shows "bucket_sound codec paths shard_key files' \<and> bucket_snapshot codec paths shard_key files' = updated"
proof -
  let ?id = "sn_hex codec (sn_blake3 codec raw)"
  let ?shard = "\<lparr>sh_id = ?id, sh_source = ShardFile (shard_file paths shard_key ?id)\<rparr>"
  have all: "stem \<in> set ids" if "stem \<noteq> []" "map_of files (shard_file paths shard_key stem) \<noteq> None" for stem
  proof -
    let ?s = "\<lparr>sh_id = stem, sh_source = ShardFile (shard_file paths shard_key stem)\<rparr>"
    have "?s \<in> set (list_snapshot_shards paths all_works shard_key files)" using that by (simp add: in_list_snapshot_shards)
    moreover from this have "read_shard codec all_works files ?s \<noteq> None" using sound unfolding bucket_sound_def by blast
    ultimately have "stem \<in> sh_id ` {shard \<in> set (list_snapshot_shards paths all_works shard_key files). read_shard codec all_works files shard \<noteq> None}"
      by (intro image_eqI[of _ _ ?s]) simp_all
    then show ?thesis using ids that by blast
  qed
  have lookup: "map_of files' (shard_file paths shard_key stem) =
      (if stem \<in> set ids then None else if stem = ?id then Some \<lparr>sf_bytes = on_disk, sf_modified = now\<rparr>
       else map_of files (shard_file paths shard_key stem))" for stem
    unfolding files' delete_shards_lookup map_of_update fun_upd_apply by auto
  have new: "?id \<notin> set ids" "?id \<noteq> []" using absent ids snapshot_codec.hex_nonempty[OF codec] by auto
  have others: "fst p \<noteq> shard_dir_path paths shard_key \<Longrightarrow> map_of files' p = map_of files p" for p
    unfolding files' delete_shards_lookup map_of_update fun_upd_apply by auto
  have "bucket_ok paths shard_key files" using sound by (simp add: bucket_sound_def)
  then have legacy: "map_of files' (snapshot_path paths shard_key) = None"
    using others[of "snapshot_path paths shard_key"] shard_dir_differs sound by (force simp: snapshot_path_def bucket_sound_def)
  have shards: "set (list_snapshot_shards paths all_works shard_key files') = {?shard}"
  proof -
    have exists: "map_of files' (shard_file paths shard_key stem) \<noteq> None \<longleftrightarrow> stem = ?id" if "stem \<noteq> []" for stem
    proof -
      have "stem \<notin> set ids \<Longrightarrow> map_of files (shard_file paths shard_key stem) = None" using all[OF that] by blast
      then show ?thesis using lookup[of stem] new(1) by (auto split: if_splits)
    qed
    have "shard \<in> set (list_snapshot_shards paths all_works shard_key files') \<longleftrightarrow> shard = ?shard" for shard
      unfolding in_list_snapshot_shards using legacy exists new(2) all_works_simps(2) by blast
    then show ?thesis by blast
  qed
  have distinct: "distinct (map fst files')" using sound unfolding files' by (intro distinct_files_kept) (simp add: bucket_sound_def)
  have list: "list_snapshot_shards paths all_works shard_key files' = [?shard]"
    by (rule single_list[OF distinct_shards[OF distinct legacy] shards])
  have read: "read_shard codec all_works files' ?shard = Some updated"
    using lookup[of ?id] new snapshot_codec.decode_written[OF codec encode(1) _ encode(2)] ok
    by (simp add: read_shard_def snapshot_ok_def)
  have "map_of files' (shard_file paths shard_key (''legacy-'' @ shard_key)) = None"
    unfolding lookup using snapshot_codec.hex_not_legacy[OF codec, of "sn_blake3 codec raw" shard_key] sound
    by (simp add: bucket_sound_def bucket_ok_def not_sym)
  then have "bucket_sound codec paths shard_key files'"
    using sound distinct legacy read list by (simp add: bucket_sound_def bucket_ok_def)
  moreover have "bucket_snapshot codec paths shard_key files' = updated"
    unfolding bucket_snapshot_eq list load_loop.simps read option.case fst_conv by (rule merge_single_shard[OF ok])
  ultimately show ?thesis ..
qed

text \<open>C14: In a bucket that only clients of this version wrote to, the files are a representation of one snapshot: a merge whose input
  and output succeeds computes on the files what the pure merge of the run's updates computes on that snapshot, whether it inserts or
  reports a conflict, and leaves a bucket of the same kind; with any other result the files are unchanged.
\<close>

theorem snapshot_merge_refines:
  assumes "snapshot_codec codec" "bucket_sound codec paths shard_key files"
    and merge: "merge_updates_with_outcome codec paths (all_works\<lparr>io_now := now\<rparr>) shard_key entries observations files = Some (outcome, files')"
  shows "bucket_sound codec paths shard_key files' \<and>
    (mo_result outcome \<in> {Inserted, ConflictKeptExisting} \<longrightarrow>
       bucket_snapshot codec paths shard_key files' =
       fst (merge_snapshot_updates codec entries observations (bucket_snapshot codec paths shard_key files))) \<and>
    (mo_result outcome \<notin> {Inserted, ConflictKeptExisting} \<longrightarrow> files' = files)"
proof -
  let ?io = "all_works\<lparr>io_now := now\<rparr>"
  let ?visible = "list_snapshot_shards paths all_works shard_key files"
  let ?start = "bucket_snapshot codec paths shard_key files"
  let ?updated = "merge_snapshot_updates codec entries observations ?start"
  have loaded: "(case ms_snapshot (load_merged_snapshot_from_shards codec ?io files ?visible) of Some s \<Rightarrow> s | None \<Rightarrow> snapshot_new) = ?start"
    unfolding load_merged_facts(1)[OF refl] load_loop_at_any_time bucket_snapshot_eq ..
  have "snapshot_ok codec ?start" using load_merged_facts(2)[OF refl, of codec ?io files ?visible] unfolding loaded .
  note first = merge_snapshot_updates_facts[OF this, of entries observations "fst ?updated" "snd ?updated"]
  note ids = load_merged_facts(3)[OF refl, of codec ?io files ?visible, unfolded reads_at_any_time]
  show ?thesis
    using merge
  proof (cases rule: merge_updates_cases)
    case untouched
    then show ?thesis using assms(2) by auto
  next
    case unchanged
    then have "fst ?updated = ?start" using first unfolding reads_at_any_time loaded by simp
    then show ?thesis using unchanged(1) assms(2) by auto
  next
    case (failed raw on_disk)
    have "False" using merge failed(1-3,5)
      by (auto simp: merge_updates_with_outcome_def write_consolidated_shard_def finalize_sidecar_and_subsumed_def outcome_from_result_def Let_def
          split: prod.splits if_splits option.splits sum.splits)
    then show ?thesis ..
  next
    case (inserted raw on_disk del)
    have now: "io_now ?io = now" "io_read_dir ?io" by simp_all
    note ins = inserted[unfolded reads_at_any_time loaded ids now]
    have "bucket_sound codec paths shard_key files' \<and> bucket_snapshot codec paths shard_key files' = fst ?updated"
      by (rule insertion_replaces[OF assms(1,2) _ ins(1,2,3) _ ins(5)]) (use first ins(4) in simp_all)
    then show ?thesis using inserted(6) by simp
  qed
qed

section \<open>Examples\<close>

text \<open>A codec that knows one snapshot.\<close>

definition single_snapshot :: "Snapshot \<Rightarrow> SnapshotCodec" where
  "single_snapshot s =
     \<lparr>sn_hex = (\<lambda>h. CHR ''h'' # h), sn_blake3 = (\<lambda>raw. raw), sn_encode = (\<lambda>t. if t = s then Some ''S'' else None),
      sn_zstd_encode = (\<lambda>raw. Inr (ZSTD_FRAME_MAGIC @ raw)), sn_zstd_decode = (\<lambda>z. Inr (drop 4 z)),
      sn_decode_version = (\<lambda>raw. Inr SNAPSHOT_SCHEMA_VERSION), sn_decode_v2 = (\<lambda>raw. Inl []), sn_decode_v3 = (\<lambda>raw. Inl []),
      sn_decode_current = (\<lambda>raw. if raw = ''S'' then Inr s else Inl [])\<rparr>"

interpretation single_snapshot: snapshot_codec "single_snapshot s" for s
  by unfold_locales (auto simp: single_snapshot_def ZSTD_FRAME_MAGIC_def split: if_splits)

definition example_entry :: "hash32 \<Rightarrow> hash32 \<Rightarrow> SnapshotEntry" where
  "example_entry key outputs =
     \<lparr>se_task_id = ''a#build'', se_input_key = key, se_outputs_hash = outputs, se_task_spec_hash = [], se_env_hash = [], se_pkg_dep_hash = [],
      se_duration_ms = 200, se_output_bytes = 0, se_cached_at_unix_ms = 0, se_tool_version = None, se_inline_meta = None,
      se_duration_trusted = True\<rparr>"

definition example_index :: Snapshot where
  "example_index = \<lparr>sp_schema_version = SNAPSHOT_SCHEMA_VERSION, sp_entries = [(''hk'', example_entry ''k'' ''x'')], sp_cache_files = []\<rparr>"

definition example_paths :: SharedCachePaths where
  "example_paths = \<lparr>pa_root = ''/c'', pa_blobs_dir = ''/c/blobs'', pa_cache_files_dir = ''/c/cache-files'',
     pa_snapshots_dir = ''/c/snapshots'', pa_entries_dir = ''/c/entries''\<rparr>"

text \<open>Two builds of one key with different outputs: the first is kept and the conflict reported.\<close>

theorem snapshot_first_writer_wins_witness:
  "let (s', changes) = merge_snapshot_updates (single_snapshot example_index) [example_entry ''k'' ''x'', example_entry ''k'' ''y''] [] snapshot_new
   in snapshot_ok (single_snapshot example_index) s' \<and> dom (map_of (sp_entries s')) = {''hk''} \<and> mc_saw_conflict changes \<and> mc_changed changes"
proof -
  let ?u = "merge_snapshot_updates (single_snapshot example_index) [example_entry ''k'' ''x'', example_entry ''k'' ''y''] [] snapshot_new"
  have u: "?u = (example_index, \<lparr>mc_changed = True, mc_saw_conflict = True\<rparr>)"
    by (simp add: merge_snapshot_updates_def single_snapshot_def example_entry_def example_index_def snapshot_new_def)
  show ?thesis
    using snapshot_first_writer_wins[OF snapshot_ok_new u] unfolding u
    by (simp add: single_snapshot_def example_entry_def snapshot_new_def)
qed

lemma example_facts:
  "merge_snapshot_updates (single_snapshot example_index) [example_entry ''k'' ''x''] [] snapshot_new =
     (example_index, \<lparr>mc_changed = True, mc_saw_conflict = False\<rparr>)"
  "sn_encode (single_snapshot example_index) example_index = Some ''S''"
  "sn_hex (single_snapshot example_index) (sn_blake3 (single_snapshot example_index) ''S'') = ''hS''"
  "sn_zstd_encode (single_snapshot example_index) ''S'' = Inr (ZSTD_FRAME_MAGIC @ ''S'')"
  "shard_dir_path example_paths ''20260101-00'' = ''/c/snapshots/20260101-00''"
  by (simp_all add: merge_snapshot_updates_def single_snapshot_def example_entry_def example_index_def snapshot_new_def
      shard_dir_path_def example_paths_def join_path_def)

text \<open>A bucket with a shard of a version that the reader does not know: the merge keeps it beside the shard it writes.\<close>

definition example_bucket :: Files where
  "example_bucket = [((''/c/snapshots/20260101-00'', ''future.bincode''), \<lparr>sf_bytes = ''?'', sf_modified = 1\<rparr>)]"

lemma example_merge:
  "merge_updates_with_outcome (single_snapshot example_index) example_paths all_works ''20260101-00'' [example_entry ''k'' ''x''] [] example_bucket =
     Some (\<lparr>mo_result = Inserted, mo_new_snapshot_upload = Some \<lparr>su_shard_id = ''hS'', su_shard_bytes = ZSTD_FRAME_MAGIC @ ''S''\<rparr>,
            mo_subsumed_shard_ids = []\<rparr>,
       example_bucket @ [((''/c/snapshots/20260101-00'', ''hS.bincode''), \<lparr>sf_bytes = ZSTD_FRAME_MAGIC @ ''S'', sf_modified = 0\<rparr>)])"
proof -
  have legacy: "snapshot_path example_paths ''20260101-00'' = (''/c/snapshots'', ''20260101-00.bincode'')"
    by (simp add: snapshot_path_def example_paths_def SNAPSHOT_FILE_EXTENSION_def)
  have visible: "list_snapshot_shards example_paths all_works ''20260101-00'' example_bucket =
      [\<lparr>sh_id = ''future'', sh_source = ShardFile (''/c/snapshots/20260101-00'', ''future.bincode'')\<rparr>]"
    by (simp add: list_snapshot_shards_def example_facts legacy example_bucket_def shard_stem_def ends_with_def
        SNAPSHOT_FILE_EXTENSION_def map_filter_simps all_works_def)
  have unread: "read_shard (single_snapshot example_index) all_works example_bucket
      \<lparr>sh_id = ''future'', sh_source = ShardFile (''/c/snapshots/20260101-00'', ''future.bincode'')\<rparr> = None"
    by (simp add: read_shard_def example_bucket_def decode_snapshot_def decompress_snapshot_bytes_def single_snapshot_def
        ZSTD_FRAME_MAGIC_def SNAPSHOT_SCHEMA_VERSION_def SNAPSHOT_SCHEMA_VERSION_V2_def)
  have loaded: "load_merged_snapshot_from_shards (single_snapshot example_index) all_works example_bucket
      [\<lparr>sh_id = ''future'', sh_source = ShardFile (''/c/snapshots/20260101-00'', ''future.bincode'')\<rparr>] =
      \<lparr>ms_snapshot = None, ms_merged_shard_ids = {}\<rparr>"
    by (simp add: load_merged_snapshot_from_shards_def unread)
  have now: "io_now all_works = 0" by (simp add: all_works_def)
  have wrote: "write_consolidated_shard (single_snapshot example_index) example_paths all_works ''20260101-00'' example_index visible {} example_bucket =
      Some (\<lparr>mo_result = Inserted, mo_new_snapshot_upload = Some \<lparr>su_shard_id = ''hS'', su_shard_bytes = ZSTD_FRAME_MAGIC @ ''S''\<rparr>,
              mo_subsumed_shard_ids = []\<rparr>,
        example_bucket @ [((''/c/snapshots/20260101-00'', ''hS.bincode''), \<lparr>sf_bytes = ZSTD_FRAME_MAGIC @ ''S'', sf_modified = 0\<rparr>)])" for visible
    by (simp add: write_consolidated_shard_def example_facts finalize_sidecar_and_subsumed_def map_filter_simps example_bucket_def
        SNAPSHOT_FILE_EXTENSION_def now)
  show ?thesis by (simp add: merge_updates_with_outcome_def visible loaded example_facts wrote)
qed

theorem snapshot_merge_loses_nothing_witness:
  "''hk'' \<in> held_keys (single_snapshot example_index) example_paths ''20260101-00''
      (example_bucket @ [((''/c/snapshots/20260101-00'', ''hS.bincode''), \<lparr>sf_bytes = ZSTD_FRAME_MAGIC @ ''S'', sf_modified = 0\<rparr>)])"
proof -
  have "bucket_ok example_paths ''20260101-00'' example_bucket"
    by (simp add: bucket_ok_def path_is_absolute_def example_bucket_def shard_dir_path_def example_paths_def join_path_def)
  from snapshot_merge_loses_nothing[OF single_snapshot.snapshot_codec_axioms this example_merge]
  show ?thesis by (simp add: single_snapshot_def example_entry_def)
qed

lemma example_first_merge:
  "merge_updates_with_outcome (single_snapshot example_index) example_paths (all_works\<lparr>io_now := 5\<rparr>) ''20260101-00'' [example_entry ''k'' ''x''] [] [] =
     Some (\<lparr>mo_result = Inserted, mo_new_snapshot_upload = Some \<lparr>su_shard_id = ''hS'', su_shard_bytes = ZSTD_FRAME_MAGIC @ ''S''\<rparr>,
            mo_subsumed_shard_ids = []\<rparr>,
       [((''/c/snapshots/20260101-00'', ''hS.bincode''), \<lparr>sf_bytes = ZSTD_FRAME_MAGIC @ ''S'', sf_modified = 5\<rparr>)])"
proof -
  have none: "list_snapshot_shards example_paths all_works ''20260101-00'' [] = []"
    by (simp add: list_snapshot_shards_def map_filter_simps)
  have loaded: "load_merged_snapshot_from_shards codec io files [] = \<lparr>ms_snapshot = None, ms_merged_shard_ids = {}\<rparr>" for codec io files
    by (simp add: load_merged_snapshot_from_shards_def)
  show ?thesis
    by (simp add: merge_updates_with_outcome_def reads_at_any_time none loaded example_facts write_consolidated_shard_def
        finalize_sidecar_and_subsumed_def map_filter_simps SNAPSHOT_FILE_EXTENSION_def)
qed

theorem snapshot_merge_refines_witness:
  "bucket_snapshot (single_snapshot example_index) example_paths ''20260101-00''
      [((''/c/snapshots/20260101-00'', ''hS.bincode''), \<lparr>sf_bytes = ZSTD_FRAME_MAGIC @ ''S'', sf_modified = 5\<rparr>)] = example_index"
proof -
  have "bucket_sound (single_snapshot example_index) example_paths ''20260101-00'' []"
    by (simp add: bucket_sound_def bucket_ok_def path_is_absolute_def list_snapshot_shards_def map_filter_simps)
  moreover have "bucket_snapshot (single_snapshot example_index) example_paths ''20260101-00'' [] = snapshot_new"
    by (simp add: bucket_snapshot_def load_snapshot_def list_snapshot_shards_def map_filter_simps)
  ultimately show ?thesis
    using snapshot_merge_refines[OF single_snapshot.snapshot_codec_axioms _ example_first_merge] by (simp add: example_facts)
qed

end
