(* ===== verification/Spec2Isabelle.thy ===== *)
theory Spec2Isabelle
  imports Validation Walker CacheDecide WorkerRouter Selection MemoryPressure Dispatch SharedSnapshot
begin

text \<open>
  Luchta is a task runner for JavaScript monorepos, written in Rust. This library models its core, the path from a
  configuration file to the tasks that are run, skipped or failed, and proves what makes that path
  correct. File names below are relative to \<open>src/\<close>.

  \<^bold>\<open>The program and its parts.\<close> A run reads the configuration (\<open>crates/luchta-types\<close>) and the packages of the
  workspace, and links the packages by their manifests into a package graph (\<open>crates/luchta-workspace\<close>).
  The configured tasks are expanded over the packages, worker programs may modify or prune each task
  (\<open>crates/luchta-worker\<close> holds the messages), and the remaining tasks are linked by their \<open>dependsOn\<close> entries into a
  task graph (\<open>crates/luchta-engine/src/task_graph.rs\<close>). The walker (\<open>walker.rs\<close>) hands out tasks whose dependencies
  have succeeded; the executor (\<open>executor.rs\<close>) runs them within a weight limit. Before a task runs, its input
  patterns are expanded (\<open>input_expansion.rs\<close>) and resolved to files (\<open>crates/luchta-cache/src/resolve.rs\<close>), and the
  cache decides from hashes and file states whether the task can be skipped (\<open>hashing.rs\<close>, \<open>decide.rs\<close>).

  \<^bold>\<open>Theories.\<close>
  \<^item> \<open>Prelude\<close>: the parts of Rust's language and standard library in use, and the shared lemmas.
  \<^item> \<open>Digraph\<close>: the contents of a petgraph \<open>DiGraph\<close>; the contract of its topological sort.
  \<^item> \<open>Types\<close>: ids, task definitions, dependency entries and input patterns (\<open>luchta-types/src/lib.rs\<close>,
    \<open>config.rs\<close>). Shown: printing and parsing a dependency are inverse, and exactly which texts are
    rejected.
  \<^item> \<open>PathGlob\<close>: negation, escapes and the matcher (\<open>luchta-glob/src/lib.rs\<close>). Shown: a negated pattern wins
    whatever its position.
  \<^item> \<open>PackageGraph\<close>: \<open>package_graph.rs\<close>. Shown: the edges are the declared workspace dependencies, the transitive
    queries are the transitive closure, the order is topological, and the failures.
  \<^item> \<open>Protocol\<close>, \<open>Messages\<close>: the resolve and execution messages and the progress counters of
    \<open>luchta-worker\<close>. Shown: report names cannot leave the directory, and the counters of concurrent items
    always add up.
  \<^item> \<open>Pipeline\<close>: \<open>ResolvedPipeline\<close> of \<open>task_graph.rs\<close>. Shown: which definition each task gets, that the result
    does not depend on the order in which workers answer, injection, pruning, and the invariant kept by every
    phase.
  \<^item> \<open>TaskGraph\<close>: \<open>TaskGraph\<close> of \<open>task_graph.rs\<close>. Shown: the edges are what the dependency entries designate,
    construction fails exactly on a cycle, the order respects every edge, and the composition of all
    phases in \<open>build_resolved\<close>.
  \<^item> \<open>Validation\<close>: the diagnostics of \<open>luchta check\<close>. Shown: exactly the declared problems are reported.
  \<^item> \<open>Walker\<close>: \<open>walker.rs\<close> as a step relation over completions. Shown: in every reachable state a task runs only
    after its dependencies succeeded and at most once; no panic is reachable; a finished walk has run what could be run and skipped
    exactly what is behind a failure, whatever the order of completions; the walk ends; the dispatch
    order.
  \<^item> \<open>Executor\<close>: \<open>executor.rs\<close>. Shown: the weights in flight stay within the limit in every
    interleaving, every submitted request can finish, and the exit status of a worker.
  \<^item> \<open>CacheHash\<close>: \<open>record.rs\<close>, \<open>reason.rs\<close>, \<open>hashing.rs\<close> and the combined hashes of \<open>resolve.rs\<close>. Shown: the
    hashed byte streams determine the task, environment, packages and files they are made of.
  \<^item> \<open>CacheDecide\<close>: \<open>decide.rs\<close>. Shown: a task is skipped exactly when nothing it depends on changed, the reason given is
    true, and when a restore from the shared cache is allowed.
  \<^item> \<open>CacheResolve\<close>: \<open>resolve.rs\<close>. Shown: all caches are invisible in the results (a refinement of the
    resolution without caches), reuse of recorded hashes is sound, the compiled matcher and the scoped walk agree
    with their specification; and one case where the scoped walk misses files.
  \<^item> \<open>InputExpansion\<close>: \<open>input_expansion.rs\<close>. Shown: which requests a pattern expands to and when it is
    refused; and one pattern that escapes the check.

  \<^item> \<open>WorkerRouter\<close>: the router of the worker watcher, which replaces a worker process when its files change
    (\<open>crates/luchta-worker-watcher/src/router.rs\<close>, \<open>generation.rs\<close>). Shown: never two worker processes, every accepted job
    answered exactly once unless the shutdown is forced, every drain and shutdown ends, and a bound on the rate of
    restarts.
  \<^item> \<open>DepOutputs\<close>: the output hashes of dependencies that enter a cache key
    (\<open>crates/luchta-cli/src/dep_outputs.rs\<close>). Shown: the recursion through connector tasks ends, its memo does not
    show, and no changed output is hidden behind a connector.
  \<^item> \<open>WatchRegistry\<close>: the watched inputs of tasks (\<open>crates/luchta-cli/src/watch/registry.rs\<close>). Shown: which packages a batch
    of changes makes dirty, and that a batch settles; and three cases in which a package is rebuilt for no
    reason.

  \<^item> \<open>Lockfiles\<close>: the lockfile trait and both formats (\<open>crates/luchta-lockfiles\<close>). Shown: the transitive closure ends and is the
    set of reachable packages.
  \<^item> \<open>DepPairs\<close>: external dependencies (\<open>crates/luchta-cli/src/cache_ctx.rs\<close>, \<open>dep_closure_diff.rs\<close>,
    \<open>watch/lockfile_watch.rs\<close>). Shown: which pairs enter a cache key, and which packages a lockfile change
    affects; and one change that \<open>--since\<close> misses.
  \<^item> \<open>Since\<close>, \<open>Selection\<close>: \<open>since.rs\<close> and the selection of tasks, waves and the dry run in \<open>run.rs\<close>. Shown: the affected packages,
    the selected tasks with every diagnostic, and that the waves are the longest paths.
  \<^item> \<open>CommandMap\<close>: the request of every task, its environment and the cache nonce (\<open>run/dispatch.rs\<close>, \<open>env_merge.rs\<close>,
    \<open>env_conflict.rs\<close>, \<open>cache_nonce.rs\<close>). Shown: which tasks are misconfigured, what each variable is set to, and that
    different nonces never coincide.
  \<^item> \<open>MemoryPressure\<close>: \<open>memory_pressure\<close> and \<open>run/pause.rs\<close>. Shown: verdicts are well formed, and a pause ends when the pressure does
    if rechecks are faster than progress ticks; and that it does not with the live display.
  \<^item> \<open>LocalStore\<close>: the record store (\<open>crates/luchta-cache/src/store.rs\<close>). Shown: a write that stops anywhere leaves
    the old record or the new one.
  \<^item> \<open>RunRecord\<close>: what a finished task leaves behind (\<open>run/dispatch.rs\<close>, \<open>run/input_stability.rs\<close>). Shown: a record of a success holds the inputs
    of the run, and a run whose inputs changed leaves nothing; and where warnings and behaviour differ.
  \<^item> \<open>Dispatch\<close>: from a ready task to its completion signal (\<open>run/dispatch.rs\<close>, \<open>run/dispatch/\<close>, \<open>run/pause.rs\<close>). Shown: every task is
    accounted for in every interleaving, a failure stops the dispatch, and what is reused has a reason.
  \<^item> \<open>SharedSnapshot\<close>: the index of the shared cache (\<open>crates/luchta-cache/src/shared/snapshot.rs\<close>, \<open>snapshot/cache_files.rs\<close>). Shown: the first
    writer of a key wins, the histories of cache files converge in whatever order shards are merged, a merge that fails or
    stops anywhere loses no key, and one that succeeds implements the pure merge on one snapshot.

  \<^bold>\<open>Conventions.\<close> A struct is a record with a prefix on its fields, an enum a datatype; functions keep their names,
  with a prefix (\<open>pg_\<close>, \<open>tg_\<close>) where two types have a method of one name. \<open>Result\<close> is a sum with the error on the
  left, a panic is \<open>None\<close>. A string is its list of UTF-8 bytes. A hash map is an association list with distinct keys
  whose order stands for the unspecified iteration order; a theorem over every such list holds for every
  iteration order. Where a counter can wrap it is a \<open>word\<close> (weights, progress counters, sizes, exit codes); lengths and node
  counts, bounded by memory, are natural numbers.

  \<^bold>\<open>Parameters.\<close> Code of other crates is an argument of the definitions that use it, with its documented
  contract as a locale: \<open>globset_laws\<close> (globset), \<open>toposort_laws\<close> (petgraph), \<open>semaphore_laws\<close> (the tokio semaphore),
  \<open>bincode_laws\<close> (the integer primitives of bincode), \<open>tokio_timers\<close> (timers under \<open>select!\<close>), \<open>nonce_encoding\<close> (percent encoding),
  \<open>record_codec\<close> (the record format), \<open>snapshot_codec\<close> (the format of shards). \<open>lockfile_contract\<close> is the trait that both lockfile formats implement. Each is interpreted on a concrete function, which the
  witnesses use. BLAKE3, the parsers of manifests and lockfiles, the answers of workers, child processes, terminal colours, and the file
  system with git are arguments without laws, except where a theorem states one. The order in which concurrent work completes is
  an argument or the choice of a step relation.

  \<^bold>\<open>Fuel.\<close> Searches recurse on what is still unvisited and terminate. \<open>walk_run\<close> takes one unit per completion, \<open>dependency_hash\<close> and
  \<open>resolve_depth\<close> one per task on a path; the number of nodes is enough for each, and that is proved. The closure of a lockfile and the
  pause are partial functions (\<open>closure_loop\<close>, \<open>pause_loop\<close>): that they return is proved, or refuted, as such.

  \<^bold>\<open>Not modelled.\<close> The handles of worker processes and their pipes (\<open>luchta-engine/src/worker\<close>, beyond its errors), the staging, blobs, garbage
  collection and remote storage of the shared cache (\<open>luchta-cache/src/shared\<close>, beyond its keys and its index), argument parsing, terminal output and the driving loop of
  watch mode (\<open>luchta-cli\<close>), workspace discovery, and the tool workers, which adapt third-party compilers and linters. These are mostly
  input and output, async plumbing or glue. Cancelled futures are not modelled, nor is file hashing below the level of whole files.
\<close>

end
